(* ===== verification/Prelude.thy ===== *)
theory Prelude
  imports Main "HOL-Library.Word"
begin

text \<open>
  The vocabulary every component of the allocator shares: machine words and pointers, the
  faults a C execution can end in and the result type that carries them, the model of
  \<open>__builtin_ctzll\<close>, single-bit updates of bitmap words, masks and rounding,
  address ranges, and linked lists threaded through a heap.
\<close>

unbundle bit_operations_syntax

type_synonym u64 = "64 word"
type_synonym u8 = "8 word"

text \<open>A pointer is its address; \<open>NULL\<close> is 0 and \<open>MAP_FAILED\<close> is \<open>(void *)-1\<close>.\<close>

type_synonym ptr = "64 word"

abbreviation NULL :: ptr where
  "NULL \<equiv> 0"

abbreviation MAP_FAILED :: ptr where
  "MAP_FAILED \<equiv> - 1"

named_theorems heap_simps \<open>how the heap updates of the model act on its lookups\<close>
named_theorems bit_word_simps \<open>single-bit updates of bitmap words, read bit by bit\<close>

section \<open>Faults and results\<close>

text \<open>
  An execution that does not return ends in one of these: a failed \<open>assert\<close> (an abort),
  a dereference of \<open>NULL\<close> or of \<open>MAP_FAILED\<close>, an access past the end of an array, a
  division by zero, \<open>__builtin_ctzll(0)\<close>, or a lock taken while it is held.
\<close>

datatype fault =
    Assert_Failed
  | Bad_Deref
  | Out_Of_Bounds
  | Div_By_Zero
  | Ctz_Of_Zero
  | Deadlock

text \<open>
  Operations that can fault return \<open>fault + 'a\<close>; \<open>bindr m f\<close> runs \<open>m\<close> and,
  unless it faulted, \<open>f\<close> on its result. The congruence rule lets recursive definitions
  go through it.
\<close>

definition bindr :: "'e + 'a \<Rightarrow> ('a \<Rightarrow> 'e + 'b) \<Rightarrow> 'e + 'b" where
  "bindr m f = (case m of Inl e \<Rightarrow> Inl e | Inr x \<Rightarrow> f x)"

lemma bindr_simps [simp]: "bindr (Inl e) f = Inl e" "bindr (Inr x) f = f x"
  by (simp_all add: bindr_def)

lemma bindr_eq_Inr: "bindr m f = Inr y \<longleftrightarrow> (\<exists>x. m = Inr x \<and> f x = Inr y)"
  by (cases m) auto

lemma bindr_InrE:
  assumes "bindr m f = Inr y"
  obtains x where "m = Inr x" "f x = Inr y"
  using assms by (auto simp: bindr_eq_Inr)

lemma bindr_cong [fundef_cong]:
  "m = m' \<Longrightarrow> (\<And>x. m' = Inr x \<Longrightarrow> f x = g x) \<Longrightarrow> bindr m f = bindr m' g"
  by (cases m') auto

definition valid_ptr :: "ptr \<Rightarrow> bool" where
  "valid_ptr p \<longleftrightarrow> p \<noteq> NULL \<and> p \<noteq> MAP_FAILED"

lemma valid_ptr_not_NULL [dest]: "valid_ptr p \<Longrightarrow> p \<noteq> NULL"
  by (simp add: valid_ptr_def)

lemma valid_ptr_simps [simp]: "\<not> valid_ptr NULL" "\<not> valid_ptr MAP_FAILED"
  by (simp_all add: valid_ptr_def)

section \<open>Bitmap words\<close>

text \<open>
  \<open>__builtin_ctzll\<close>: the index of the lowest set bit. It is undefined on 0, where this
  function returns the width; every caller in the model tests for 0 first.
\<close>

definition ctz :: "'a::len word \<Rightarrow> nat" where
  "ctz w = length (takeWhile (\<lambda>n. \<not> bit w n) [0..<LENGTH('a)])"

lemma ctz_lowest_set:
  fixes w :: "'a::len word"
  assumes "bit w n" "\<And>m. m < n \<Longrightarrow> \<not> bit w m"
  shows "ctz w = n"
proof -
  have n: "n < LENGTH('a)"
    using assms(1) by (rule bit_imp_le_length)
  have "[0..<LENGTH('a)] = [0..<n] @ [n..<LENGTH('a)]"
    using upt_add_eq_append [of 0 n "LENGTH('a) - n"] n by simp
  also have "[n..<LENGTH('a)] = n # [Suc n..<LENGTH('a)]"
    using n by (rule upt_conv_Cons)
  finally show ?thesis
    using assms unfolding ctz_def by (simp add: takeWhile_append)
qed

lemma ctz_props:
  fixes w :: "'a::len word"
  assumes "w \<noteq> 0"
  shows "bit w (ctz w)" and "m < ctz w \<Longrightarrow> \<not> bit w m" and "ctz w < LENGTH('a)"
proof -
  from assms obtain k where "bit w k"
    by (auto simp: bit_eq_iff)
  then have *: "bit w (LEAST k. bit w k)"
    by (rule LeastI)
  have "ctz w = (LEAST k. bit w k)"
    using * by (rule ctz_lowest_set) (rule not_less_Least)
  with * show b: "bit w (ctz w)" and "m < ctz w \<Longrightarrow> \<not> bit w m"
    by (auto dest: not_less_Least)
  from b show "ctz w < LENGTH('a)"
    by (rule bit_imp_le_length)
qed

lemma ctz_le: "ctz (w :: 'a::len word) \<le> LENGTH('a)"
  unfolding ctz_def by (rule order_trans [OF length_takeWhile_le]) simp

definition one_bit :: "nat \<Rightarrow> u64" where
  "one_bit n = push_bit n 1"

lemma bit_one_bit [bit_word_simps]: "bit (one_bit n) m \<longleftrightarrow> m = n \<and> n < 64"
  by (auto simp: one_bit_def bit_exp_iff)

lemma bit_set_one [bit_word_simps]:
  "bit (w OR one_bit n) m \<longleftrightarrow> bit w m \<or> (m = n \<and> n < 64)"
  by (simp add: bit_or_iff bit_one_bit)

lemma bit_clear_one [bit_word_simps]:
  "bit (w AND NOT (one_bit n)) m \<longleftrightarrow> bit w m \<and> m \<noteq> n" for w :: u64
  by (auto simp: bit_and_iff bit_not_iff bit_one_bit dest: bit_imp_le_length)

lemma word_nonzero_iff_bit: "w \<noteq> 0 \<longleftrightarrow> (\<exists>n<64. bit w n)" for w :: u64
  by (metis bit_eq_iff bit_imp_le_length bit_0_eq bot_apply bot_bool_def len_bit0 len_num1
      mult.right_neutral mult_2 numeral_Bit0 one_add_one bit_0_eq)

section \<open>Masks and rounding\<close>

lemma unat_exp64: "k < 64 \<Longrightarrow> unat (2 ^ k :: u64) = 2 ^ k"
proof -
  assume "k < 64"
  then have "unat (word_of_nat (2 ^ k) :: u64) = 2 ^ k"
    by (simp only: unsigned_of_nat take_bit_nat_eq_self_iff) simp
  then show ?thesis by simp
qed

lemma unat_mask64: "k < 64 \<Longrightarrow> unat (mask k :: u64) = 2 ^ k - 1"
  by (simp add: mask_eq_exp_minus_1 unat_exp64 unat_sub word_le_nat_alt)

lemma unat_and_mask: "unat (w AND mask n) = unat w mod 2 ^ n" for w :: "'a::len word"
  by (subst take_bit_eq_mask [symmetric], subst unsigned_take_bit_eq) (rule take_bit_eq_mod)

lemma unat_drop_bit: "unat (drop_bit n w) = unat w div 2 ^ n" for w :: "'a::len word"
  by (subst unat_drop_bit_eq) (rule drop_bit_eq_div)

lemma unat_and_not_mask: "unat (w AND NOT (mask n)) = unat w div 2 ^ n * 2 ^ n"
  for w :: "'a::len word"
proof -
  have "(w AND NOT (mask n)) AND (w AND mask n) = 0"
    by (rule bit_word_eqI) (auto simp: bit_simps)
  moreover have "(w AND NOT (mask n)) OR (w AND mask n) = w"
    by (rule bit_word_eqI) (auto simp: bit_simps)
  ultimately have "(w AND NOT (mask n)) + (w AND mask n) = w"
    using word_plus_and_or [of "w AND NOT (mask n)" "w AND mask n"] by simp
  then have "w AND NOT (mask n) = w - (w AND mask n)"
    by (metis add_diff_cancel_right')
  moreover have "w AND mask n \<le> w"
    by (rule word_and_le2)
  ultimately have "unat (w AND NOT (mask n)) = unat w - unat w mod 2 ^ n"
    by (simp only: unat_sub unat_and_mask)
  then show ?thesis
    by (simp only: minus_mod_eq_div_mult)
qed

lemma unat_less64: "unat w < 2 ^ 64" for w :: u64
  by (rule order_less_le_trans [OF unsigned_less]) simp

lemma unat_MAP_FAILED [simp]: "unat MAP_FAILED = 2 ^ 64 - 1"
  by (simp add: unsigned_minus_1_eq_mask mask_eq_exp_minus_1)

lemma sint_small: "unat w < 2 ^ 63 \<Longrightarrow> sint w = int (unat w)" for w :: u64
proof -
  assume "unat w < 2 ^ 63"
  then have "int (unat w) < 2 ^ 63"
    by (metis of_nat_less_iff of_nat_numeral of_nat_power)
  then have u: "uint w < 2 ^ (LENGTH(64) - Suc 0)"
    by simp
  have "- (2 ^ (LENGTH(64) - Suc 0)) \<le> uint w"
    by (rule order_trans [OF _ unsigned_greater_eq]) simp
  then have "sint w = uint w"
    unfolding sint_uint using u by (rule signed_take_bit_int_eq_self)
  then show ?thesis by simp
qed

lemma unat_inc: "i < n \<Longrightarrow> unat (i + 1) = unat i + 1" for i n :: u64
  using unat_less64 [of n] by (auto simp: word_less_nat_alt unat_plus_if')

lemma unat_word_of_nat64: "n < 2 ^ 64 \<Longrightarrow> unat (word_of_nat n :: u64) = n"
  by (simp add: unsigned_of_nat take_bit_nat_eq_self_iff)

lemma div_mod_unique:
  fixes i j :: nat
  assumes "j div n = i div n" "j mod n = i mod n"
  shows "j = i"
proof -
  have "j = j div n * n + j mod n" by simp
  also have "\<dots> = i" unfolding assms by simp
  finally show ?thesis .
qed

section \<open>Address ranges\<close>

text \<open>The bytes \<open>[p, p + n)\<close>, as natural numbers so that the end may be \<open>2 ^ 64\<close>.\<close>

definition bytes :: "ptr \<Rightarrow> nat \<Rightarrow> nat set" where
  "bytes p n = {unat p ..< unat p + n}"

lemma bytes_iff [simp]: "a \<in> bytes p n \<longleftrightarrow> unat p \<le> a \<and> a < unat p + n"
  by (auto simp: bytes_def)

lemma bytes_disjoint_iff:
  "0 < m \<Longrightarrow> 0 < n \<Longrightarrow>
   bytes p m \<inter> bytes q n = {} \<longleftrightarrow> unat p + m \<le> unat q \<or> unat q + n \<le> unat p"
  by (auto simp: bytes_def)

lemma bytes_subset: "unat q \<le> unat p \<Longrightarrow> unat p + m \<le> unat q + n \<Longrightarrow> bytes p m \<subseteq> bytes q n"
  by (auto simp: bytes_def)

lemma bytes_disjoint_neq: "bytes p m \<inter> bytes q n = {} \<Longrightarrow> 0 < m \<Longrightarrow> 0 < n \<Longrightarrow> p \<noteq> q"
  by (auto simp: bytes_def)

section \<open>Linked lists in a heap\<close>

text \<open>
  \<open>chain nxt p xs\<close>: following \<open>nxt\<close> from \<open>p\<close> visits the nodes \<open>xs\<close> and ends
  at \<open>NULL\<close>.
\<close>

fun chain :: "(ptr \<Rightarrow> ptr) \<Rightarrow> ptr \<Rightarrow> ptr list \<Rightarrow> bool" where
  "chain nxt p [] \<longleftrightarrow> p = NULL"
| "chain nxt p (x # xs) \<longleftrightarrow> p = x \<and> x \<noteq> NULL \<and> chain nxt (nxt x) xs"

lemma chain_NULL [simp]: "chain nxt NULL xs \<longleftrightarrow> xs = []"
  by (cases xs) auto

lemma chain_not_NULL: "p \<noteq> NULL \<Longrightarrow> chain nxt p xs \<longleftrightarrow> (\<exists>ys. xs = p # ys \<and> chain nxt (nxt p) ys)"
  by (cases xs) auto

lemma chain_cong: "(\<And>x. x \<in> set xs \<Longrightarrow> f x = g x) \<Longrightarrow> chain f p xs \<longleftrightarrow> chain g p xs"
  by (induction xs arbitrary: p) auto

lemma chain_update [simp]: "a \<notin> set xs \<Longrightarrow> chain (nxt(a := b)) p xs \<longleftrightarrow> chain nxt p xs"
  by (rule chain_cong) auto

lemma chain_unique: "chain nxt p xs \<Longrightarrow> chain nxt p ys \<Longrightarrow> xs = ys"
proof (induction xs arbitrary: p ys)
  case Nil
  then show ?case by simp
next
  case (Cons x xs)
  then show ?case by (cases ys) auto
qed

lemma chain_append_suffix: "chain nxt p (xs @ y # ys) \<Longrightarrow> chain nxt y (y # ys)"
  by (induction xs arbitrary: p) auto

lemma chain_distinct: "chain nxt p xs \<Longrightarrow> distinct xs"
proof (induction xs arbitrary: p)
  case Nil
  then show ?case by simp
next
  case (Cons x xs)
  have "x \<notin> set xs"
  proof
    assume "x \<in> set xs"
    then obtain us vs where xs: "xs = us @ x # vs"
      by (auto simp: in_set_conv_decomp)
    from Cons.prems have "chain nxt (nxt x) (us @ x # vs)"
      by (simp add: xs)
    then have "chain nxt x (x # vs)"
      by (rule chain_append_suffix)
    then have "chain nxt (nxt x) vs" "chain nxt (nxt x) xs"
      using Cons.prems by simp_all
    then have "vs = xs"
      by (rule chain_unique)
    then show False
      by (simp add: xs)
  qed
  with Cons show ?case by auto
qed

lemma chain_no_NULL: "chain nxt p xs \<Longrightarrow> NULL \<notin> set xs"
  by (induction xs arbitrary: p) auto

end
