(* ===== verification/Common.thy ===== *)
theory Common
  imports Prelude
begin

text \<open>
  \<open>src/common.h\<close> and the start-up code of \<open>src/cmalloc.c\<close>: the size classes with
  their span sizes and block counts, the page size taken from the system, the lookup table
  from 16-byte buckets to classes, and the rounding helpers.

  The system is a parameter: \<open>platform\<close> holds the answer of \<open>sysconf(_SC_PAGESIZE)\<close>
  and of \<open>mmap\<close>. The state these functions keep, the page globals and the class table, is
  the record \<open>runtime\<close>.
\<close>

section \<open>What the system supplies\<close>

text \<open>
  \<open>mmap maps len\<close> is the address an anonymous private mapping of \<open>len\<close> bytes is given
  when the mappings \<open>maps\<close> (base and length) are live, or \<open>MAP_FAILED\<close>.
\<close>

type_synonym mapping_list = "(ptr \<times> u64) list"

record platform =
  sysconf_pagesize :: u64
  mmap :: "mapping_list \<Rightarrow> u64 \<Rightarrow> ptr"

text \<open>The documented page size: a power of two, here at least 4 KiB and at most 64 KiB.\<close>

definition page_size_ok :: "platform \<Rightarrow> bool" where
  "page_size_ok os \<longleftrightarrow> (\<exists>k\<in>{12..16}. sysconf_pagesize os = 2 ^ k)"

definition get_system_page_size :: "platform \<Rightarrow> u64" where
  "get_system_page_size os = sysconf_pagesize os"

definition get_system_page_shift :: "platform \<Rightarrow> nat" where
  "get_system_page_shift os = ctz (ucast (get_system_page_size os) :: 32 word)"

section \<open>Size classes\<close>

definition BYTE_ALIGNMENT :: u64 where
  "BYTE_ALIGNMENT = 16"

definition LARGE_CLASS_SIZE_INDEX :: int where
  "LARGE_CLASS_SIZE_INDEX = - 1"

definition MAX_SIZE_CLASS :: u64 where
  "MAX_SIZE_CLASS = 32768"

definition MAX_SPAN_BLOCK_COUNT :: nat where
  "MAX_SPAN_BLOCK_COUNT = 4096"

definition SIZE_CLASSES :: "u64 list" where
  "SIZE_CLASSES =
    [16, 32, 48, 64, 80, 96, 112, 128,
     144, 160, 176, 192, 208, 224, 240, 256,
     288, 320, 352, 384, 416, 448, 480, 512,
     576, 640, 704, 768, 832, 896, 960, 1024,
     1152, 1280, 1408, 1536, 1792, 2048,
     2560, 3072, 3584, 4096,
     5120, 6144, 7168, 8192,
     16384, 32768]"

definition SIZE_CLASS_SPAN_SIZE :: "u64 list" where
  "SIZE_CLASS_SPAN_SIZE =
    [65536, 65536, 65536, 65536, 65536, 65536, 65536, 65536,
     65536, 65536, 65536, 65536, 65536, 65536, 65536, 65536,
     131072, 131072, 131072, 131072, 131072, 131072, 131072, 131072,
     131072, 131072, 131072, 131072, 131072, 131072, 131072, 131072,
     262144, 262144, 262144, 262144, 262144, 262144,
     524288, 524288, 524288, 524288,
     524288, 524288, 524288, 524288,
     1048576, 1048576]"

definition SIZE_CLASS_BLOCK_COUNT :: "u64 list" where
  "SIZE_CLASS_BLOCK_COUNT =
    [4096, 2048, 1365, 1024, 819, 682, 585, 512,
     455, 409, 372, 341, 315, 292, 273, 256,
     455, 409, 372, 341, 315, 292, 273, 256,
     227, 204, 186, 170, 157, 146, 136, 128,
     227, 204, 186, 170, 146, 128,
     204, 170, 146, 128,
     102, 85, 73, 64,
     64, 32]"

definition SIZE_CLASS_COUNT :: nat where
  "SIZE_CLASS_COUNT = 48"

definition SIZE_CLASS_TABLE_LEN :: nat where
  "SIZE_CLASS_TABLE_LEN = 2049"

lemma length_tables [simp]:
  "length SIZE_CLASSES = SIZE_CLASS_COUNT"
  "length SIZE_CLASS_SPAN_SIZE = SIZE_CLASS_COUNT"
  "length SIZE_CLASS_BLOCK_COUNT = SIZE_CLASS_COUNT"
  by (simp_all add: SIZE_CLASSES_def SIZE_CLASS_SPAN_SIZE_def SIZE_CLASS_BLOCK_COUNT_def
      SIZE_CLASS_COUNT_def)

section \<open>Runtime globals and their initialisation\<close>

record runtime =
  cmalloc_page_size :: u64
  cmalloc_page_shift :: nat
  cmalloc_size_class_table :: "nat \<Rightarrow> u8"

text \<open>
  The loops of \<open>cmalloc_runtime_init\<close>: the inner one moves \<open>cls\<close> past the classes
  that are too small for the bucket, the outer one fills the table bucket by bucket with
  \<open>cls\<close> carried along.
\<close>

function advance_class :: "nat \<Rightarrow> u64 \<Rightarrow> nat" where
  "advance_class cls largest_in_bucket =
     (if cls < SIZE_CLASS_COUNT \<and> SIZE_CLASSES ! cls < largest_in_bucket
      then advance_class (Suc cls) largest_in_bucket
      else cls)"
  by pat_completeness auto
termination
  by (relation "measure (\<lambda>(cls, _). SIZE_CLASS_COUNT - cls)") auto

declare advance_class.simps [simp del]

function fill_table :: "nat \<Rightarrow> nat \<Rightarrow> (nat \<Rightarrow> u8) \<Rightarrow> (nat \<Rightarrow> u8)" where
  "fill_table b cls table =
     (if b < SIZE_CLASS_TABLE_LEN
      then let largest_in_bucket = push_bit 4 (word_of_nat b);
               cls = advance_class cls largest_in_bucket
           in fill_table (Suc b) cls
                (table(b := (if cls < SIZE_CLASS_COUNT then word_of_nat cls else 0)))
      else table)"
  by pat_completeness auto
termination
  by (relation "measure (\<lambda>(b, _, _). SIZE_CLASS_TABLE_LEN - b)") auto

declare fill_table.simps [simp del]

definition cmalloc_runtime_init :: "platform \<Rightarrow> runtime \<Rightarrow> runtime" where
  "cmalloc_runtime_init os rt =
     (if cmalloc_page_size rt \<noteq> 0 then rt
      else rt\<lparr>cmalloc_page_size := get_system_page_size os,
              cmalloc_page_shift := get_system_page_shift os,
              cmalloc_size_class_table := fill_table 0 0 (cmalloc_size_class_table rt)\<rparr>)"

text \<open>The globals before any code has run: static storage is zero.\<close>

definition runtime_zero :: runtime where
  "runtime_zero = \<lparr>cmalloc_page_size = 0, cmalloc_page_shift = 0,
                   cmalloc_size_class_table = (\<lambda>_. 0)\<rparr>"

section \<open>Rounding helpers and the class lookup\<close>

definition round_down_page_index :: "runtime \<Rightarrow> ptr \<Rightarrow> u64" where
  "round_down_page_index rt p = drop_bit (cmalloc_page_shift rt) p"

definition round_up_page_index :: "runtime \<Rightarrow> ptr \<Rightarrow> u64" where
  "round_up_page_index rt p = drop_bit (cmalloc_page_shift rt) (p + cmalloc_page_size rt - 1)"

definition round_up_page :: "runtime \<Rightarrow> u64 \<Rightarrow> u64" where
  "round_up_page rt num =
     (num + (cmalloc_page_size rt - 1)) AND NOT (cmalloc_page_size rt - 1)"

definition round_down_page :: "runtime \<Rightarrow> u64 \<Rightarrow> u64" where
  "round_down_page rt num = num AND NOT (cmalloc_page_size rt - 1)"

definition get_size_class_index :: "runtime \<Rightarrow> u64 \<Rightarrow> int" where
  "get_size_class_index rt sz =
     (if sz > MAX_SIZE_CLASS then LARGE_CLASS_SIZE_INDEX
      else int (unat (cmalloc_size_class_table rt
                        (unat (drop_bit 4 (sz + (BYTE_ALIGNMENT - 1)))))))"

definition align_up_ptr :: "ptr \<Rightarrow> ptr" where
  "align_up_ptr p = (p + (BYTE_ALIGNMENT - 1)) AND NOT (BYTE_ALIGNMENT - 1)"

definition align_down_ptr :: "ptr \<Rightarrow> ptr" where
  "align_down_ptr p = p AND NOT (BYTE_ALIGNMENT - 1)"

definition align_up :: "u64 \<Rightarrow> u64" where
  "align_up val = (val + (BYTE_ALIGNMENT - 1)) AND NOT (BYTE_ALIGNMENT - 1)"

definition align_down :: "u64 \<Rightarrow> u64" where
  "align_down val = val AND NOT (BYTE_ALIGNMENT - 1)"

section \<open>Facts about the class tables\<close>

text \<open>
  Row by row: block size, span size and block count agree, every block size is a multiple of
  16, and every span size a multiple of 64 KiB, hence of every supported page size.
\<close>

definition class_row_ok :: "u64 \<Rightarrow> u64 \<Rightarrow> u64 \<Rightarrow> bool" where
  "class_row_ok c sp n \<longleftrightarrow>
     16 dvd unat c \<and> 16 \<le> unat c \<and> unat c \<le> 32768 \<and>
     65536 dvd unat sp \<and> 0 < unat sp \<and> unat sp \<le> 1048576 \<and>
     unat n * unat c \<le> unat sp \<and> unat sp < (unat n + 1) * unat c \<and>
     32 \<le> unat n \<and> unat n \<le> MAX_SPAN_BLOCK_COUNT"

lemma class_rows_ok:
  "list_all (\<lambda>(c, sp, n). class_row_ok c sp n)
     (zip SIZE_CLASSES (zip SIZE_CLASS_SPAN_SIZE SIZE_CLASS_BLOCK_COUNT))"
  by (simp add: SIZE_CLASSES_def SIZE_CLASS_SPAN_SIZE_def SIZE_CLASS_BLOCK_COUNT_def
      class_row_ok_def MAX_SPAN_BLOCK_COUNT_def)

lemma class_row:
  assumes "i < SIZE_CLASS_COUNT"
  shows "class_row_ok (SIZE_CLASSES ! i) (SIZE_CLASS_SPAN_SIZE ! i) (SIZE_CLASS_BLOCK_COUNT ! i)"
proof -
  let ?z = "zip SIZE_CLASSES (zip SIZE_CLASS_SPAN_SIZE SIZE_CLASS_BLOCK_COUNT)"
  from assms have "i < length ?z" by simp
  with class_rows_ok have "(\<lambda>(c, sp, n). class_row_ok c sp n) (?z ! i)"
    by (simp only: list_all_length)
  with assms show ?thesis by simp
qed

lemma size_classes_increase: "sorted_wrt (<) SIZE_CLASSES"
proof -
  have "successively (<) SIZE_CLASSES"
    by (simp add: SIZE_CLASSES_def)
  then show ?thesis
    by (subst (asm) successively_conv_sorted_wrt) (auto intro: transpI)
qed

lemma size_class_less_iff:
  assumes "i < SIZE_CLASS_COUNT" "j < SIZE_CLASS_COUNT"
  shows "SIZE_CLASSES ! i < SIZE_CLASSES ! j \<longleftrightarrow> i < j"
proof -
  have up: "SIZE_CLASSES ! a < SIZE_CLASSES ! b" if "a < b" "b < SIZE_CLASS_COUNT" for a b
    using size_classes_increase that
    by (auto simp: sorted_wrt_iff_nth_less)
  show ?thesis
    using up [of i j] up [of j i] assms by (metis less_asym' less_irrefl linorder_neqE_nat)
qed

lemma last_size_class: "SIZE_CLASSES ! 47 = MAX_SIZE_CLASS"
  by (simp add: SIZE_CLASSES_def MAX_SIZE_CLASS_def)

section \<open>The table agrees with a linear scan\<close>

text \<open>
  The specification the table replaces: scan the classes for the first one that is large
  enough.
\<close>

definition first_fit :: "u64 \<Rightarrow> nat" where
  "first_fit sz = length (takeWhile (\<lambda>c. c < sz) SIZE_CLASSES)"

lemma first_fit_less: "i < first_fit sz \<Longrightarrow> SIZE_CLASSES ! i < sz"
  unfolding first_fit_def by (metis nth_mem set_takeWhileD takeWhile_nth)

lemma first_fit_ge: "first_fit sz < SIZE_CLASS_COUNT \<Longrightarrow> sz \<le> SIZE_CLASSES ! first_fit sz"
  unfolding first_fit_def using nth_length_takeWhile [of "\<lambda>c. c < sz" SIZE_CLASSES] by simp

lemma first_fit_le_count: "first_fit sz \<le> SIZE_CLASS_COUNT"
  unfolding first_fit_def using length_takeWhile_le [of "\<lambda>c. c < sz" SIZE_CLASSES] by simp

lemma first_fit_eqI:
  assumes "n \<le> SIZE_CLASS_COUNT" "\<And>i. i < n \<Longrightarrow> SIZE_CLASSES ! i < sz"
    and "n < SIZE_CLASS_COUNT \<Longrightarrow> sz \<le> SIZE_CLASSES ! n"
  shows "first_fit sz = n"
proof (rule linorder_cases [of "first_fit sz" n])
  assume l: "first_fit sz < n"
  with assms(1) have "sz \<le> SIZE_CLASSES ! first_fit sz" by (intro first_fit_ge) simp
  with assms(2) [OF l] show ?thesis by simp
next
  assume "n < first_fit sz"
  with first_fit_less [of n sz] assms(3) first_fit_le_count [of sz] show ?thesis by force
qed simp

lemma first_fit_exists: "sz \<le> MAX_SIZE_CLASS \<Longrightarrow> first_fit sz < SIZE_CLASS_COUNT"
  using first_fit_less [of 47 sz] first_fit_le_count [of sz]
  by (fastforce simp: last_size_class SIZE_CLASS_COUNT_def)

lemma first_fit_mono: "a \<le> b \<Longrightarrow> i < first_fit a \<Longrightarrow> SIZE_CLASSES ! i < b"
  using first_fit_less [of i a] by simp

lemma advance_class_first_fit:
  assumes "cls \<le> SIZE_CLASS_COUNT" "\<And>i. i < cls \<Longrightarrow> SIZE_CLASSES ! i < l"
  shows "advance_class cls l = first_fit l"
  using assms
proof (induction cls l rule: advance_class.induct)
  case (1 cls l)
  show ?case
  proof (cases "cls < SIZE_CLASS_COUNT \<and> SIZE_CLASSES ! cls < l")
    case True
    then have "advance_class (Suc cls) l = first_fit l"
      using "1.prems" by (intro "1.IH") (auto simp: less_Suc_eq)
    with True show ?thesis by (simp add: advance_class.simps [of cls l])
  next
    case False
    with "1.prems" have "first_fit l = cls" by (intro first_fit_eqI) auto
    with False show ?thesis by (auto simp: advance_class.simps [of cls l])
  qed
qed

text \<open>The upper end of bucket \<open>b\<close>.\<close>

definition bucket_top :: "nat \<Rightarrow> u64" where
  "bucket_top b = push_bit 4 (word_of_nat b)"

lemma unat_bucket_top: "b < SIZE_CLASS_TABLE_LEN \<Longrightarrow> unat (bucket_top b) = 16 * b"
  by (simp add: bucket_top_def SIZE_CLASS_TABLE_LEN_def push_bit_eq_mult unat_word_ariths
      unsigned_of_nat take_bit_eq_mod)

lemma bucket_top_le_max: "b < SIZE_CLASS_TABLE_LEN \<Longrightarrow> bucket_top b \<le> MAX_SIZE_CLASS"
  by (simp add: word_le_nat_alt unat_bucket_top MAX_SIZE_CLASS_def)
     (simp add: SIZE_CLASS_TABLE_LEN_def)

lemma fill_table_spec:
  assumes "cls \<le> SIZE_CLASS_COUNT" "\<And>i. i < cls \<Longrightarrow> SIZE_CLASSES ! i < bucket_top b"
  shows "fill_table b cls table j =
           (if b \<le> j \<and> j < SIZE_CLASS_TABLE_LEN then word_of_nat (first_fit (bucket_top j))
            else table j)"
  using assms
proof (induction b cls table rule: fill_table.induct)
  case (1 b cls table)
  show ?case
  proof (cases "b < SIZE_CLASS_TABLE_LEN")
    case False
    then show ?thesis by (auto simp: fill_table.simps [of b])
  next
    case True
    let ?c = "first_fit (bucket_top b)"
    let ?t = "table(b := (if ?c < SIZE_CLASS_COUNT then word_of_nat ?c else 0))"
    have adv: "advance_class cls (bucket_top b) = ?c"
      using "1.prems" by (rule advance_class_first_fit)
    have lt: "?c < SIZE_CLASS_COUNT"
      using True by (intro first_fit_exists bucket_top_le_max)
    have step: "fill_table b cls table = fill_table (Suc b) ?c ?t"
      using True adv by (simp add: fill_table.simps [of b] bucket_top_def Let_def)
    have nxt: "Suc b < SIZE_CLASS_TABLE_LEN \<Longrightarrow> i < ?c \<Longrightarrow> SIZE_CLASSES ! i < bucket_top (Suc b)" for i
      using True by (intro first_fit_mono [of "bucket_top b"]) (simp_all add: word_le_nat_alt unat_bucket_top)
    show ?thesis
    proof (cases "Suc b < SIZE_CLASS_TABLE_LEN")
      case True
      have "fill_table (Suc b) ?c ?t j =
          (if Suc b \<le> j \<and> j < SIZE_CLASS_TABLE_LEN then word_of_nat (first_fit (bucket_top j)) else ?t j)"
        using lt nxt [OF True]
        by (intro "1.IH" [OF \<open>b < SIZE_CLASS_TABLE_LEN\<close> refl refl,
              folded bucket_top_def, unfolded adv]) simp_all
      with step lt \<open>b < SIZE_CLASS_TABLE_LEN\<close> show ?thesis by (auto simp: Suc_le_eq)
    next
      case False
      with step lt True show ?thesis by (auto simp: fill_table.simps)
    qed
  qed
qed

section \<open>The initialised runtime\<close>

definition runtime_ok :: "runtime \<Rightarrow> bool" where
  "runtime_ok rt \<longleftrightarrow>
     12 \<le> cmalloc_page_shift rt \<and> cmalloc_page_shift rt \<le> 16 \<and>
     cmalloc_page_size rt = 2 ^ cmalloc_page_shift rt \<and>
     (\<forall>j < SIZE_CLASS_TABLE_LEN.
        cmalloc_size_class_table rt j = word_of_nat (first_fit (bucket_top j)))"

lemma ctz_ucast_power: "k < 32 \<Longrightarrow> ctz (ucast (2 ^ k :: u64) :: 32 word) = k"
  by (rule ctz_lowest_set) (auto simp: bit_ucast_iff bit_exp_iff)

lemma runtime_init_ok:
  assumes "page_size_ok os" "cmalloc_page_size rt = 0"
  shows "runtime_ok (cmalloc_runtime_init os rt)"
proof -
  from assms(1) obtain k where "12 \<le> k" "k \<le> 16" "sysconf_pagesize os = 2 ^ k"
    by (auto simp: page_size_ok_def)
  with assms(2) show ?thesis
    by (simp add: runtime_ok_def cmalloc_runtime_init_def get_system_page_shift_def
        get_system_page_size_def ctz_ucast_power fill_table_spec)
qed

lemma unat_page_size:
  "runtime_ok rt \<Longrightarrow> unat (cmalloc_page_size rt) = 2 ^ cmalloc_page_shift rt"
  by (simp add: runtime_ok_def unat_exp64)

lemma page_shift_bounds:
  "runtime_ok rt \<Longrightarrow> 12 \<le> cmalloc_page_shift rt \<and> cmalloc_page_shift rt \<le> 16"
  by (simp add: runtime_ok_def)

lemma page_size_minus_1:
  "runtime_ok rt \<Longrightarrow> cmalloc_page_size rt - 1 = mask (cmalloc_page_shift rt)"
  by (simp add: runtime_ok_def mask_eq_exp_minus_1)

lemma byte_alignment_mask: "BYTE_ALIGNMENT - 1 = mask 4"
  by (simp add: BYTE_ALIGNMENT_def mask_eq_exp_minus_1)

section \<open>The rounding helpers compute what their names say\<close>

text \<open>
  Adding a mask and clearing it rounds up, unless the addition wraps: then the sum is below
  the alignment and rounding gives 0.
\<close>

lemma unat_round_up_mask:
  fixes w :: u64
  assumes "k < 64"
  shows "unat ((w + mask k) AND NOT (mask k)) =
           (if unat w + (2 ^ k - 1) < 2 ^ 64 then (unat w + (2 ^ k - 1)) div 2 ^ k * 2 ^ k else 0)"
proof -
  have m: "unat (mask k :: u64) = 2 ^ k - 1"
    using assms by (rule unat_mask64)
  have w: "unat w < 2 ^ 64"
    using unsigned_less [of w] by simp
  have "(1::nat) \<le> 2 ^ k" by simp
  then have "unat w + (2 ^ k - 1) - 2 ^ 64 < 2 ^ k"
    using w by linarith
  with w show ?thesis
    by (auto simp: unat_and_not_mask unat_plus_if' m)
qed

lemma round_up_page_value:
  assumes "runtime_ok rt"
  shows "unat (round_up_page rt n) =
           (let ps = unat (cmalloc_page_size rt)
            in if unat n + (ps - 1) < 2 ^ 64 then (unat n + (ps - 1)) div ps * ps else 0)"
  using assms page_shift_bounds [OF assms] unat_round_up_mask [of "cmalloc_page_shift rt" n]
  by (simp add: round_up_page_def page_size_minus_1 unat_page_size Let_def)

lemma align_up_ptr_value:
  "unat p + 15 < 2 ^ 64 \<Longrightarrow> unat (align_up_ptr p) = (unat p + 15) div 16 * 16"
  using unat_round_up_mask [of 4 p] by (simp add: align_up_ptr_def byte_alignment_mask)

lemma align_up_ptr_bounds:
  assumes "unat p + 15 < 2 ^ 64"
  shows "unat p \<le> unat (align_up_ptr p)" "unat (align_up_ptr p) \<le> unat p + 15"
    and "16 dvd unat (align_up_ptr p)"
  unfolding align_up_ptr_value [OF assms] by auto

lemma align_up_ptr_le:
  assumes "unat p \<le> e" "16 dvd e" "e \<le> 2 ^ 63"
  shows "unat (align_up_ptr p) \<le> e"
proof -
  from assms have "unat p + 15 < 2 ^ 64" by simp
  with assms show ?thesis by (auto simp: align_up_ptr_value elim!: dvdE)
qed

section \<open>The class lookup is the linear scan\<close>

lemma size_class_multiple: "i < SIZE_CLASS_COUNT \<Longrightarrow> 16 dvd unat (SIZE_CLASSES ! i)"
  using class_row [of i] by (simp add: class_row_ok_def)

lemma first_fit_bucket:
  assumes "sz \<le> MAX_SIZE_CLASS"
  shows "first_fit (bucket_top ((unat sz + 15) div 16)) = first_fit sz"
proof -
  let ?b = "(unat sz + 15) div 16"
  have b: "?b < SIZE_CLASS_TABLE_LEN"
    using assms by (simp add: word_le_nat_alt MAX_SIZE_CLASS_def SIZE_CLASS_TABLE_LEN_def)
  have same: "c < bucket_top ?b \<longleftrightarrow> c < sz" if "16 dvd unat c" for c :: u64
  proof -
    from that obtain k where "unat c = 16 * k" ..
    moreover have "16 * k < 16 * ((s + 15) div 16) \<longleftrightarrow> 16 * k < s" for s :: nat
      using less_eq_div_iff_mult_less_eq [of 16 "Suc k" "s + 15"] by (simp add: Suc_le_eq) linarith
    ultimately show ?thesis
      by (simp only: word_less_nat_alt unat_bucket_top [OF b])
  qed
  have "takeWhile (\<lambda>c. c < bucket_top ?b) SIZE_CLASSES = takeWhile (\<lambda>c. c < sz) SIZE_CLASSES"
    by (rule takeWhile_cong) (auto simp: in_set_conv_nth same size_class_multiple)
  then show ?thesis by (simp add: first_fit_def)
qed

lemma get_size_class_index_value:
  assumes "runtime_ok rt"
  shows "get_size_class_index rt sz =
           (if sz > MAX_SIZE_CLASS then LARGE_CLASS_SIZE_INDEX else int (first_fit sz))"
proof (cases "sz > MAX_SIZE_CLASS")
  case False
  let ?b = "(unat sz + 15) div 16"
  have "unat sz \<le> 32768"
    using False by (simp add: word_less_nat_alt MAX_SIZE_CLASS_def)
  then have "unat (drop_bit 4 (sz + (BYTE_ALIGNMENT - 1))) = ?b"
    by (simp add: unat_drop_bit BYTE_ALIGNMENT_def unat_plus_if')
  moreover have "?b < SIZE_CLASS_TABLE_LEN"
    using \<open>unat sz \<le> 32768\<close> by (simp add: SIZE_CLASS_TABLE_LEN_def)
  moreover have "first_fit sz < SIZE_CLASS_COUNT"
    using False by (intro first_fit_exists) simp
  ultimately show ?thesis
    using False assms first_fit_bucket [of sz]
    by (simp add: get_size_class_index_def runtime_ok_def SIZE_CLASS_COUNT_def
        unsigned_of_nat take_bit_nat_eq_self_iff)
qed (simp add: get_size_class_index_def)

end
