(* ===== verification/SpanBlocks.thy ===== *)
theory SpanBlocks
  imports Common
begin

text \<open>
  \<open>src/span.h\<close>: the span descriptor and its block bitmap. \<open>allocate_block\<close> takes the
  lowest free block through the two-level bitmap (\<open>nonfull_bitmap\<close> names the words of
  \<open>block_bitmap\<close> that still have a set bit); \<open>free_block\<close> sets the bit of the block an
  address falls into. \<open>init_blocks\<close> is the bitmap part of \<open>cmalloc_initialize_span\<close>
  in \<open>src/span.c\<close>. The abstract view of the bitmap is the set of free block indices.

  Array indices that the code has proved small are natural numbers; an index outside the
  64-word bitmap is the fault \<open>Out_Of_Bounds\<close>.
\<close>

section \<open>The span descriptor\<close>

record span_t =
  phys_next :: ptr
  phys_prev :: ptr
  next_in_uninitialized_bin :: ptr
  span_base :: ptr
  page_count :: u64
  is_initialized :: bool
  size_class_index :: int
  block_size :: u64
  block_count :: u64
  free_count :: u64
  nonfull_bitmap :: u64
  block_bitmap :: "nat \<Rightarrow> u64"
  next_in_size_class_bin :: ptr
  prev_in_size_class_bin :: ptr

definition SPAN_BLOCK_BITMAP_BITS_PER_WORD :: nat where
  "SPAN_BLOCK_BITMAP_BITS_PER_WORD = 64"

definition SPAN_BLOCK_BITMAP_WORD_COUNT :: nat where
  "SPAN_BLOCK_BITMAP_WORD_COUNT =
     (MAX_SPAN_BLOCK_COUNT + SPAN_BLOCK_BITMAP_BITS_PER_WORD - 1)
       div SPAN_BLOCK_BITMAP_BITS_PER_WORD"

definition SPAN_BLOCK_BITMAP_WORD_INDEX :: "nat \<Rightarrow> nat" where
  "SPAN_BLOCK_BITMAP_WORD_INDEX block_index = block_index div 64"

definition SPAN_BLOCK_BITMAP_BIT_INDEX :: "nat \<Rightarrow> nat" where
  "SPAN_BLOCK_BITMAP_BIT_INDEX block_index = block_index mod 64"

definition SPAN_BLOCK_BITMAP_BIT :: "nat \<Rightarrow> u64" where
  "SPAN_BLOCK_BITMAP_BIT block_index = push_bit (SPAN_BLOCK_BITMAP_BIT_INDEX block_index) 1"

lemma bitmap_constants [simp]:
  "SPAN_BLOCK_BITMAP_BITS_PER_WORD = 64" "SPAN_BLOCK_BITMAP_WORD_COUNT = 64"
  "SPAN_BLOCK_BITMAP_WORD_INDEX n = n div 64" "SPAN_BLOCK_BITMAP_BIT n = one_bit (n mod 64)"
  by (simp_all add: SPAN_BLOCK_BITMAP_BITS_PER_WORD_def SPAN_BLOCK_BITMAP_WORD_COUNT_def
      MAX_SPAN_BLOCK_COUNT_def SPAN_BLOCK_BITMAP_WORD_INDEX_def SPAN_BLOCK_BITMAP_BIT_def
      SPAN_BLOCK_BITMAP_BIT_INDEX_def one_bit_def)

section \<open>Taking and returning blocks\<close>

definition allocate_block :: "span_t \<Rightarrow> fault + ptr \<times> span_t" where
  "allocate_block span =
     (if nonfull_bitmap span = 0 then Inr (NULL, span)
      else
        let span1 = span\<lparr>free_count := free_count span - 1\<rparr>;
            word_index = ctz (nonfull_bitmap span1);
            word = block_bitmap span1 word_index
        in if word = 0 then Inl Ctz_Of_Zero
           else
             let bit_index = ctz word;
                 block_index = bit_index + word_index * SPAN_BLOCK_BITMAP_BITS_PER_WORD;
                 span2 = span1\<lparr>block_bitmap := (block_bitmap span1)
                           (word_index := word AND NOT (SPAN_BLOCK_BITMAP_BIT block_index))\<rparr>;
                 span3 = (if block_bitmap span2 word_index = 0
                          then span2\<lparr>nonfull_bitmap :=
                                 nonfull_bitmap span2 AND NOT (SPAN_BLOCK_BITMAP_BIT word_index)\<rparr>
                          else span2)
             in Inr (span_base span3 + word_of_nat block_index * block_size span3, span3))"

definition free_block :: "ptr \<Rightarrow> span_t \<Rightarrow> fault + span_t" where
  "free_block block span =
     (let span1 = span\<lparr>free_count := free_count span + 1\<rparr>;
          rel_address = block - span_base span1
      in if block_size span1 = 0 then Inl Div_By_Zero
         else
           let block_index = unat (rel_address div block_size span1);
               word_index = SPAN_BLOCK_BITMAP_WORD_INDEX block_index
           in if word_index \<ge> SPAN_BLOCK_BITMAP_WORD_COUNT then Inl Out_Of_Bounds
              else Inr (span1\<lparr>
                block_bitmap := (block_bitmap span1)(word_index :=
                  block_bitmap span1 word_index OR SPAN_BLOCK_BITMAP_BIT block_index),
                nonfull_bitmap := nonfull_bitmap span1 OR SPAN_BLOCK_BITMAP_BIT word_index\<rparr>))"

section \<open>Setting up the bitmap of a new span\<close>

function clear_words :: "nat \<Rightarrow> (nat \<Rightarrow> u64) \<Rightarrow> (nat \<Rightarrow> u64)" where
  "clear_words i bm =
     (if i < SPAN_BLOCK_BITMAP_WORD_COUNT then clear_words (Suc i) (bm(i := 0)) else bm)"
  by pat_completeness auto
termination
  by (relation "measure (\<lambda>(i, _). SPAN_BLOCK_BITMAP_WORD_COUNT - i)") auto

declare clear_words.simps [simp del]

function set_free_words :: "u64 \<Rightarrow> u64 \<Rightarrow> u64 \<Rightarrow> span_t \<Rightarrow> fault + span_t" where
  "set_free_words word_index word_count blocks_in_last_word span =
     (if word_index < word_count then
        if unat word_index \<ge> SPAN_BLOCK_BITMAP_WORD_COUNT then Inl Out_Of_Bounds
        else
          let free_blocks =
                (if word_index = word_count - 1
                    \<and> blocks_in_last_word < word_of_nat SPAN_BLOCK_BITMAP_BITS_PER_WORD
                 then push_bit (unat blocks_in_last_word) 1 - 1
                 else - 1)
          in set_free_words (word_index + 1) word_count blocks_in_last_word
               (span\<lparr>block_bitmap := (block_bitmap span)(unat word_index := free_blocks),
                     nonfull_bitmap :=
                       nonfull_bitmap span OR SPAN_BLOCK_BITMAP_BIT (unat word_index)\<rparr>)
      else Inr span)"
  by pat_completeness auto
termination
  by (relation "measure (\<lambda>(i, n, _, _). unat n - unat i)")
     (auto simp: unat_inc word_less_nat_alt)

declare set_free_words.simps [simp del]

definition init_blocks :: "span_t \<Rightarrow> fault + span_t" where
  "init_blocks span =
     (let word_count = (block_count span + (word_of_nat SPAN_BLOCK_BITMAP_BITS_PER_WORD - 1))
                         div word_of_nat SPAN_BLOCK_BITMAP_BITS_PER_WORD;
          blocks_in_last_word = block_count span
                         - (word_count - 1) * word_of_nat SPAN_BLOCK_BITMAP_BITS_PER_WORD
      in set_free_words 0 word_count blocks_in_last_word
           (span\<lparr>nonfull_bitmap := 0, block_bitmap := clear_words 0 (block_bitmap span)\<rparr>))"

section \<open>The abstract view: the set of free blocks\<close>

definition free_set :: "span_t \<Rightarrow> nat set" where
  "free_set span = {i. i < MAX_SPAN_BLOCK_COUNT \<and> bit (block_bitmap span (i div 64)) (i mod 64)}"

text \<open>The address of block \<open>i\<close>.\<close>

definition block_addr :: "span_t \<Rightarrow> nat \<Rightarrow> ptr" where
  "block_addr span i = span_base span + word_of_nat i * block_size span"

text \<open>
  The geometry of an initialised span: its blocks lie one after the other without wrapping
  around the address space.
\<close>

definition span_geometry :: "span_t \<Rightarrow> bool" where
  "span_geometry span \<longleftrightarrow>
     0 < unat (block_size span) \<and> 0 < unat (block_count span) \<and>
     unat (block_count span) \<le> MAX_SPAN_BLOCK_COUNT \<and>
     unat (span_base span) + unat (block_count span) * unat (block_size span) < 2 ^ 64"

text \<open>
  The bitmap invariant: \<open>nonfull_bitmap\<close> marks exactly the words with a free block, free
  blocks are blocks of the span, and \<open>free_count\<close> counts them.
\<close>

definition blocks_ok :: "span_t \<Rightarrow> bool" where
  "blocks_ok span \<longleftrightarrow>
     (\<forall>w. bit (nonfull_bitmap span) w \<longleftrightarrow> w < 64 \<and> block_bitmap span w \<noteq> 0) \<and>
     free_set span \<subseteq> {..<unat (block_count span)} \<and>
     unat (free_count span) = card (free_set span)"

lemma free_set_iff:
  "i \<in> free_set span \<longleftrightarrow>
     i < MAX_SPAN_BLOCK_COUNT \<and> bit (block_bitmap span (i div 64)) (i mod 64)"
  by (simp add: free_set_def)

lemma free_set_index: "b < 64 \<Longrightarrow> w < 64 \<Longrightarrow>
    b + w * 64 \<in> free_set span \<longleftrightarrow> bit (block_bitmap span w) b"
  by (simp add: free_set_iff MAX_SPAN_BLOCK_COUNT_def)

lemma finite_free_set [simp]: "finite (free_set span)"
  by (simp add: free_set_def)

lemma word_nonzero_free:
  assumes "w < 64"
  shows "block_bitmap span w \<noteq> 0 \<longleftrightarrow> (\<exists>i\<in>free_set span. i div 64 = w)"
proof
  assume "block_bitmap span w \<noteq> 0"
  then obtain b where "b < 64" "bit (block_bitmap span w) b"
    by (auto simp: word_nonzero_iff_bit)
  with assms have "b + w * 64 \<in> free_set span" by (simp add: free_set_index)
  with \<open>b < 64\<close> show "\<exists>i\<in>free_set span. i div 64 = w" by force
next
  assume "\<exists>i\<in>free_set span. i div 64 = w"
  then show "block_bitmap span w \<noteq> 0" by (auto simp: free_set_iff)
qed

lemma nonfull_empty:
  assumes "blocks_ok span"
  shows "nonfull_bitmap span = 0 \<longleftrightarrow> free_set span = {}"
proof -
  have "nonfull_bitmap span \<noteq> 0 \<longleftrightarrow> (\<exists>w<64. block_bitmap span w \<noteq> 0)"
    using assms by (auto simp: word_nonzero_iff_bit blocks_ok_def)
  also have "\<dots> \<longleftrightarrow> free_set span \<noteq> {}"
  proof -
    have "i div 64 < 64" if "i \<in> free_set span" for i
      using that by (simp add: free_set_iff MAX_SPAN_BLOCK_COUNT_def less_mult_imp_div_less)
    then show ?thesis using word_nonzero_free by blast
  qed
  finally show ?thesis by blast
qed

lemma unat_block_addr:
  assumes "span_geometry span" "i < unat (block_count span)"
  shows "unat (block_addr span i) = unat (span_base span) + i * unat (block_size span)"
proof -
  let ?s = "unat (block_size span)" and ?c = "unat (block_count span)"
  have g: "unat (span_base span) + ?c * ?s < 2 ^ 64" "0 < ?s" "?c \<le> 4096"
    using assms(1) by (auto simp: span_geometry_def MAX_SPAN_BLOCK_COUNT_def)
  have "i * ?s \<le> ?c * ?s" using assms(2) by (intro mult_right_mono) auto
  then have *: "unat (span_base span) + i * ?s < 2 ^ 64" using g(1) by linarith
  have "i < 2 ^ 64" using assms(2) g(3) by simp
  then have i: "unat (word_of_nat i :: u64) = i" by (rule unat_word_of_nat64)
  with * have "unat (word_of_nat i * block_size span) = i * ?s"
    by (simp add: unat_mult_lem [THEN iffD1])
  with * show ?thesis
    by (simp add: block_addr_def unat_add_lem [THEN iffD1])
qed

text \<open>Only the bitmap and the count change when blocks come and go.\<close>

definition same_descr :: "span_t \<Rightarrow> span_t \<Rightarrow> bool" where
  "same_descr span span' \<longleftrightarrow>
     span' = span\<lparr>free_count := free_count span', nonfull_bitmap := nonfull_bitmap span',
                  block_bitmap := block_bitmap span'\<rparr>"

lemma same_descr_fields:
  assumes "same_descr span span'"
  shows "phys_next span' = phys_next span" "phys_prev span' = phys_prev span"
    "next_in_uninitialized_bin span' = next_in_uninitialized_bin span"
    "span_base span' = span_base span" "page_count span' = page_count span"
    "is_initialized span' = is_initialized span"
    "size_class_index span' = size_class_index span" "block_size span' = block_size span"
    "block_count span' = block_count span"
    "next_in_size_class_bin span' = next_in_size_class_bin span"
    "prev_in_size_class_bin span' = prev_in_size_class_bin span"
  by (subst assms [unfolded same_descr_def], simp)+

lemma same_descr_geometry: "same_descr span span' \<Longrightarrow> span_geometry span \<Longrightarrow> span_geometry span'"
  by (simp add: span_geometry_def same_descr_fields)

section \<open>Allocation takes the lowest free block\<close>

lemma split_index: "j = b + w * 64 \<longleftrightarrow> j div 64 = w \<and> j mod 64 = b" if "b < 64" for b j w :: nat
  using that by auto

lemma free_set_clear:
  assumes "b < 64" and bm: "block_bitmap span' =
      (block_bitmap span)(w := block_bitmap span w AND NOT (one_bit b))"
  shows "free_set span' = free_set span - {b + w * 64}"
  using assms(1) by (auto simp: free_set_iff bm bit_word_simps split_index split: if_splits)

lemma free_set_add:
  assumes "i < 4096" and bm: "block_bitmap span' =
      (block_bitmap span)(i div 64 := block_bitmap span (i div 64) OR one_bit (i mod 64))"
  shows "free_set span' = insert i (free_set span)"
proof (rule set_eqI)
  fix j
  show "j \<in> free_set span' \<longleftrightarrow> j \<in> insert i (free_set span)"
  proof (cases "j = i")
    case True
    with assms(1) show ?thesis
      by (simp add: free_set_iff bm bit_word_simps MAX_SPAN_BLOCK_COUNT_def)
  next
    case False
    then have "j div 64 \<noteq> i div 64 \<or> j mod 64 \<noteq> i mod 64"
      using div_mod_unique by blast
    with False show ?thesis
      by (auto simp: free_set_iff bm bit_word_simps)
  qed
qed

lemma lowest_free_block:
  assumes ok: "blocks_ok span" and ne: "free_set span \<noteq> {}"
  defines "w \<equiv> ctz (nonfull_bitmap span)"
  defines "b \<equiv> ctz (block_bitmap span w)"
  shows "w < 64" "b < 64" "block_bitmap span w \<noteq> 0" "nonfull_bitmap span \<noteq> 0"
    and "Min (free_set span) = b + w * 64"
proof -
  show nz: "nonfull_bitmap span \<noteq> 0"
    using nonfull_empty [OF ok] ne by simp
  have wbit: "bit (nonfull_bitmap span) w" and wmin: "\<And>m. m < w \<Longrightarrow> \<not> bit (nonfull_bitmap span) m"
    using ctz_props [OF nz] by (auto simp: w_def)
  with ok show w: "w < 64" and wnz: "block_bitmap span w \<noteq> 0"
    by (auto simp: blocks_ok_def)
  have bbit: "bit (block_bitmap span w) b" and bmin: "\<And>m. m < b \<Longrightarrow> \<not> bit (block_bitmap span w) m"
    and b: "b < 64"
    using ctz_props [OF wnz] by (auto simp: b_def)
  show "b < 64" by (rule b)
  show "Min (free_set span) = b + w * 64"
  proof (rule Min_eqI)
    show "b + w * 64 \<in> free_set span"
      using b w bbit by (simp add: free_set_index)
    fix j assume j: "j \<in> free_set span"
    then have "j div 64 < 64" "block_bitmap span (j div 64) \<noteq> 0"
      by (auto simp: free_set_iff MAX_SPAN_BLOCK_COUNT_def less_mult_imp_div_less)
    with ok have "bit (nonfull_bitmap span) (j div 64)"
      by (simp add: blocks_ok_def)
    with wmin have "w \<le> j div 64" by (meson not_le)
    moreover have "b \<le> j mod 64" if "j div 64 = w"
      using j bmin that by (meson free_set_iff not_le)
    ultimately show "b + w * 64 \<le> j"
      using b div_mult_mod_eq [of j 64] by (cases "j div 64 = w") linarith+
  qed simp
qed

lemma allocate_block_empty:
  "blocks_ok span \<Longrightarrow> free_set span = {} \<Longrightarrow> allocate_block span = Inr (NULL, span)"
  by (simp add: allocate_block_def nonfull_empty)

lemma blocks_ok_update:
  assumes ok: "blocks_ok span" and descr: "same_descr span span'"
    and fs: "free_set span' \<subseteq> {..<unat (block_count span)}"
    and cnt: "unat (free_count span') = card (free_set span')"
    and nf: "\<And>w. bit (nonfull_bitmap span') w \<longleftrightarrow> w < 64 \<and> block_bitmap span' w \<noteq> 0"
  shows "blocks_ok span'"
  using assms by (simp add: blocks_ok_def same_descr_fields)

lemma allocate_block_takes_lowest:
  assumes ok: "blocks_ok span" and ne: "free_set span \<noteq> {}"
  obtains span' where "allocate_block span = Inr (block_addr span (Min (free_set span)), span')"
    and "free_set span' = free_set span - {Min (free_set span)}"
    and "blocks_ok span'" and "same_descr span span'"
proof -
  let ?w = "ctz (nonfull_bitmap span)"
  let ?b = "ctz (block_bitmap span ?w)"
  let ?bm = "(block_bitmap span)(?w := block_bitmap span ?w AND NOT (one_bit ?b))"
  let ?nf = "if ?bm ?w = 0 then nonfull_bitmap span AND NOT (one_bit ?w) else nonfull_bitmap span"
  let ?s = "span\<lparr>free_count := free_count span - 1, nonfull_bitmap := ?nf, block_bitmap := ?bm\<rparr>"
  note low = lowest_free_block [OF ok ne]
  have "(?b + ?w * 64) mod 64 = ?b" using low(2) by simp
  then have alloc: "allocate_block span = Inr (block_addr span (Min (free_set span)), ?s)"
    using low(1,3,4) by (simp add: allocate_block_def low(5) block_addr_def Let_def)
  have descr: "same_descr span ?s" by (simp add: same_descr_def)
  have fs: "free_set ?s = free_set span - {Min (free_set span)}"
    unfolding low(5) using low(2) by (intro free_set_clear) simp_all
  have mem: "Min (free_set span) \<in> free_set span" using ne by simp
  have "0 < card (free_set span)" using ne by (simp add: card_gt_0_iff)
  with ok have "unat (free_count span - 1) = card (free_set span) - 1"
    by (auto simp: blocks_ok_def unat_sub word_le_nat_alt)
  then have cnt: "unat (free_count ?s) = card (free_set ?s)"
    unfolding fs using mem by simp
  have "blocks_ok ?s"
  proof (rule blocks_ok_update [OF ok descr _ cnt])
    show "free_set ?s \<subseteq> {..<unat (block_count span)}"
      unfolding fs using ok by (auto simp: blocks_ok_def)
    show "bit (nonfull_bitmap ?s) w \<longleftrightarrow> w < 64 \<and> block_bitmap ?s w \<noteq> 0" for w
      using ok low(1,3) by (auto simp: blocks_ok_def bit_word_simps)
  qed
  with alloc fs descr show thesis by (intro that)
qed

section \<open>Freeing returns the block an address falls into\<close>

lemma block_index_of_addr:
  assumes "span_geometry span" "i < unat (block_count span)"
    and "unat (block_addr span i) \<le> unat p" "unat p < unat (block_addr span i) + unat (block_size span)"
  shows "unat ((p - span_base span) div block_size span) = i"
proof -
  have a: "unat (block_addr span i) = unat (span_base span) + i * unat (block_size span)"
    using assms(1,2) by (rule unat_block_addr)
  then have "span_base span \<le> p"
    using assms(3) by (simp add: word_le_nat_alt)
  then have "unat (p - span_base span) = unat p - unat (span_base span)"
    by (rule unat_sub)
  moreover have "(unat p - unat (span_base span)) div unat (block_size span) = i"
    using assms(3,4) a by (intro div_nat_eqI) (auto simp: algebra_simps)
  ultimately show ?thesis by (simp add: unat_div)
qed

lemma free_block_returns:
  assumes ok: "blocks_ok span" and geo: "span_geometry span" and i: "i < unat (block_count span)"
    and p: "unat (block_addr span i) \<le> unat p"
           "unat p < unat (block_addr span i) + unat (block_size span)"
    and used: "i \<notin> free_set span"
  obtains span' where "free_block p span = Inr span'"
    and "free_set span' = insert i (free_set span)"
    and "blocks_ok span'" and "same_descr span span'"
proof -
  let ?bm = "(block_bitmap span)(i div 64 := block_bitmap span (i div 64) OR one_bit (i mod 64))"
  let ?s = "span\<lparr>free_count := free_count span + 1,
                 nonfull_bitmap := nonfull_bitmap span OR one_bit (i div 64), block_bitmap := ?bm\<rparr>"
  have i4: "i < 4096" and nz: "block_size span \<noteq> 0"
    using geo i by (auto simp: span_geometry_def MAX_SPAN_BLOCK_COUNT_def)
  then have w: "i div 64 < 64" by (simp add: less_mult_imp_div_less)
  have free: "free_block p span = Inr ?s"
    using nz w block_index_of_addr [OF geo i p] by (simp add: free_block_def Let_def)
  have descr: "same_descr span ?s" by (simp add: same_descr_def)
  have fs: "free_set ?s = insert i (free_set span)"
    using i4 by (intro free_set_add) simp_all
  have sub: "insert i (free_set span) \<subseteq> {..<unat (block_count span)}"
    using ok i by (auto simp: blocks_ok_def)
  then have "card (insert i (free_set span)) \<le> unat (block_count span)"
    using card_mono [OF _ sub] by simp
  moreover have "card (insert i (free_set span)) = Suc (card (free_set span))"
    using used by simp
  moreover have "unat (block_count span) < 2 ^ 64" by (rule unat_less64)
  ultimately have cnt: "unat (free_count ?s) = card (free_set ?s)"
    using ok by (simp add: fs blocks_ok_def unat_plus_if')
  have bi: "block_bitmap span (i div 64) OR one_bit (i mod 64) \<noteq> 0"
    by (auto simp: word_nonzero_iff_bit bit_word_simps intro!: exI [of _ "i mod 64"])
  have "blocks_ok ?s"
  proof (rule blocks_ok_update [OF ok descr _ cnt])
    show "free_set ?s \<subseteq> {..<unat (block_count span)}"
      unfolding fs by (rule sub)
    show "bit (nonfull_bitmap ?s) w' \<longleftrightarrow> w' < 64 \<and> block_bitmap ?s w' \<noteq> 0" for w'
      using ok w bi by (auto simp: blocks_ok_def bit_word_simps)
  qed
  with free fs descr show thesis by (intro that)
qed

section \<open>The bitmap of a new span marks every block free\<close>

lemma clear_words_value:
  "clear_words i bm = (\<lambda>w. if i \<le> w \<and> w < SPAN_BLOCK_BITMAP_WORD_COUNT then 0 else bm w)"
proof (induction i bm rule: clear_words.induct)
  case (1 i bm)
  show ?case
  proof (cases "i < SPAN_BLOCK_BITMAP_WORD_COUNT")
    case True
    then have "clear_words i bm = clear_words (Suc i) (bm(i := 0))"
      by (simp add: clear_words.simps [of i bm])
    also have "\<dots> = (\<lambda>w. if Suc i \<le> w \<and> w < SPAN_BLOCK_BITMAP_WORD_COUNT then 0 else (bm(i := 0)) w)"
      using True by (rule "1.IH")
    finally show ?thesis using True by (auto simp: fun_eq_iff)
  next
    case False
    then show ?thesis by (auto simp: clear_words.simps [of i bm] fun_eq_iff)
  qed
qed

text \<open>The word written at index \<open>w\<close> of \<open>wc\<close> words.\<close>

definition free_word :: "u64 \<Rightarrow> u64 \<Rightarrow> u64 \<Rightarrow> u64" where
  "free_word wc last_bits w =
     (if w = wc - 1 \<and> last_bits < 64 then push_bit (unat last_bits) 1 - 1 else - 1)"

lemma set_free_words_value:
  assumes "unat wc \<le> 64"
  shows "\<exists>nf. set_free_words i wc lb span = Inr (span\<lparr>
             block_bitmap := (\<lambda>w. if unat i \<le> w \<and> w < unat wc then free_word wc lb (word_of_nat w)
                                  else block_bitmap span w),
             nonfull_bitmap := nf\<rparr>) \<and>
           (\<forall>w. bit nf w \<longleftrightarrow> bit (nonfull_bitmap span) w \<or> (unat i \<le> w \<and> w < unat wc))"
  using assms
proof (induction i wc lb span rule: set_free_words.induct)
  case (1 i wc lb span)
  show ?case
  proof (cases "i < wc")
    case False
    then show ?thesis
      by (intro exI [of _ "nonfull_bitmap span"])
         (auto simp: set_free_words.simps [of i] word_less_nat_alt fun_eq_iff intro!: span_t.equality)
  next
    case True
    let ?s = "span\<lparr>block_bitmap := (block_bitmap span)(unat i := free_word wc lb i),
                   nonfull_bitmap := nonfull_bitmap span OR SPAN_BLOCK_BITMAP_BIT (unat i)\<rparr>"
    from True "1.prems" have i: "unat i < 64" "\<not> 64 \<le> unat i" "unat i < unat wc"
      by (auto simp: word_less_nat_alt)
    have fw: "(if i = wc - 1 \<and> lb < word_of_nat SPAN_BLOCK_BITMAP_BITS_PER_WORD
               then push_bit (unat lb) 1 - 1 else - 1) = free_word wc lb i"
      by (simp add: free_word_def)
    have step: "set_free_words i wc lb span = set_free_words (i + 1) wc lb ?s"
      using True i by (simp add: set_free_words.simps [of i] free_word_def Let_def)
    obtain nf where nf: "set_free_words (i + 1) wc lb ?s = Inr (?s\<lparr>
             block_bitmap := (\<lambda>w. if unat (i + 1) \<le> w \<and> w < unat wc then free_word wc lb (word_of_nat w)
                                  else block_bitmap ?s w),
             nonfull_bitmap := nf\<rparr>)"
      and bits: "\<And>w. bit nf w \<longleftrightarrow> bit (nonfull_bitmap ?s) w \<or> (unat (i + 1) \<le> w \<and> w < unat wc)"
      using "1.IH" [OF True i(2) [folded bitmap_constants(2)] fw [symmetric] "1.prems"] by blast
    have "(\<lambda>w. if unat (i + 1) \<le> w \<and> w < unat wc then free_word wc lb (word_of_nat w)
                                  else block_bitmap ?s w) =
          (\<lambda>w. if unat i \<le> w \<and> w < unat wc then free_word wc lb (word_of_nat w)
                                  else block_bitmap span w)"
      using i by (auto simp: fun_eq_iff unat_inc [OF True])
    with nf step have "set_free_words i wc lb span = Inr (span\<lparr>
             block_bitmap := (\<lambda>w. if unat i \<le> w \<and> w < unat wc then free_word wc lb (word_of_nat w)
                                  else block_bitmap span w),
             nonfull_bitmap := nf\<rparr>)"
      by simp
    moreover have "bit nf w \<longleftrightarrow> bit (nonfull_bitmap span) w \<or> (unat i \<le> w \<and> w < unat wc)" for w
      using i by (auto simp: bits bit_word_simps unat_inc [OF True])
    ultimately show ?thesis by blast
  qed
qed

text \<open>How many words the blocks need, and how many bits of the last one.\<close>

lemma word_counts:
  fixes n :: u64
  assumes "1 \<le> unat n" "unat n \<le> 4096"
  defines "wc \<equiv> (n + 63) div 64"
  defines "lb \<equiv> n - (wc - 1) * 64"
  shows "unat wc = (unat n + 63) div 64" "unat wc \<le> 64" "1 \<le> unat wc"
    and "unat lb = unat n - (unat wc - 1) * 64" "1 \<le> unat lb" "unat lb \<le> 64"
proof -
  have "unat (n + 63) = unat n + 63" using assms(2) by (simp add: unat_plus_if')
  then show wc: "unat wc = (unat n + 63) div 64" by (simp add: wc_def unat_div)
  with assms(1,2) show le: "unat wc \<le> 64" and ge: "1 \<le> unat wc" by auto
  then have w1: "unat (wc - 1) = unat wc - 1" by (simp add: unat_sub word_le_nat_alt)
  have "unat (wc - 1) * unat (64 :: u64) < 2 ^ LENGTH(64)"
    using w1 le by simp
  then have "unat ((wc - 1) * 64) = unat (wc - 1) * unat (64 :: u64)"
    by (rule unat_mult_lem [THEN iffD1])
  then have m: "unat ((wc - 1) * 64) = (unat wc - 1) * 64"
    by (simp only: w1) simp
  moreover have "(unat wc - 1) * 64 \<le> unat n" using wc ge by linarith
  ultimately show lb: "unat lb = unat n - (unat wc - 1) * 64"
    unfolding lb_def by (metis m unat_sub word_le_nat_alt)
  show "1 \<le> unat lb" "unat lb \<le> 64" using lb wc ge assms(1) by linarith+
qed

lemma bit_free_word:
  fixes n :: u64
  assumes n: "1 \<le> unat n" "unat n \<le> 4096" and b: "b < 64"
  defines "wc \<equiv> (n + 63) div 64"
  defines "lb \<equiv> n - (wc - 1) * 64"
  assumes w: "w < unat wc"
  shows "bit (free_word wc lb (word_of_nat w)) b \<longleftrightarrow> b + w * 64 < unat n"
proof -
  note c = word_counts [OF n, folded wc_def, folded lb_def]
  have w64: "unat (word_of_nat w :: u64) = w" using w c(2) by (intro unat_word_of_nat64) simp
  have w1: "unat (wc - 1) = unat wc - 1" using c(3) by (simp add: unat_sub word_le_nat_alt)
  have last: "word_of_nat w = wc - 1 \<longleftrightarrow> w = unat wc - 1"
    by (simp add: word_unat_eq_iff w64 w1)
  show ?thesis
  proof (cases "w = unat wc - 1 \<and> unat lb < 64")
    case True
    then have "free_word wc lb (word_of_nat w) = mask (unat lb)"
      using last by (simp add: free_word_def word_less_nat_alt mask_eq_exp_minus_1)
    then have "bit (free_word wc lb (word_of_nat w)) b \<longleftrightarrow> b < unat lb"
      using b by (simp add: bit_mask_iff)
    with True c show ?thesis by linarith
  next
    case False
    then have "free_word wc lb (word_of_nat w) = - 1"
      using last by (auto simp: free_word_def word_less_nat_alt)
    then have "bit (free_word wc lb (word_of_nat w)) b"
      using b by simp
    moreover have "b + w * 64 < unat n"
    proof (cases "w = unat wc - 1")
      case True
      with False c b show ?thesis by linarith
    next
      case neq: False
      with w have "(w + 1) * 64 \<le> (unat wc - 1) * 64" by (intro mult_right_mono) auto
      moreover have "(unat wc - 1) * 64 < unat n"
        using c(4,5) by (cases "unat n \<le> (unat wc - 1) * 64") simp_all
      ultimately have "(w + 1) * 64 < unat n" by (rule le_less_trans)
      with b show ?thesis by simp
    qed
    ultimately show ?thesis by simp
  qed
qed

lemma init_blocks_all_free:
  assumes n: "1 \<le> unat (block_count span)" "unat (block_count span) \<le> MAX_SPAN_BLOCK_COUNT"
    and cnt: "free_count span = block_count span"
  obtains span' where "init_blocks span = Inr span'" and "same_descr span span'"
    and "free_set span' = {..<unat (block_count span)}" and "blocks_ok span'"
    and "free_count span' = block_count span"
proof -
  let ?n = "block_count span"
  let ?wc = "(?n + 63) div 64"
  let ?lb = "?n - (?wc - 1) * 64"
  have n4: "unat ?n \<le> 4096" using n(2) by (simp add: MAX_SPAN_BLOCK_COUNT_def)
  note c = word_counts [OF n(1) n4]
  let ?start = "span\<lparr>nonfull_bitmap := 0, block_bitmap := clear_words 0 (block_bitmap span)\<rparr>"
  obtain nf where run: "set_free_words 0 ?wc ?lb ?start = Inr (?start\<lparr>
       block_bitmap := (\<lambda>w. if unat (0::u64) \<le> w \<and> w < unat ?wc then free_word ?wc ?lb (word_of_nat w)
                            else block_bitmap ?start w), nonfull_bitmap := nf\<rparr>)"
    and bits: "\<And>w. bit nf w \<longleftrightarrow> bit (nonfull_bitmap ?start) w \<or> (unat (0::u64) \<le> w \<and> w < unat ?wc)"
    using set_free_words_value [OF c(2), of 0 ?lb ?start] by blast
  let ?bm = "\<lambda>w. if w < unat ?wc then free_word ?wc ?lb (word_of_nat w)
                 else clear_words 0 (block_bitmap span) w"
  let ?s = "span\<lparr>nonfull_bitmap := nf, block_bitmap := ?bm\<rparr>"
  have eq: "?start\<lparr>
       block_bitmap := (\<lambda>w. if unat (0::u64) \<le> w \<and> w < unat ?wc then free_word ?wc ?lb (word_of_nat w)
                            else block_bitmap ?start w), nonfull_bitmap := nf\<rparr> = ?s"
    by (rule span_t.equality) (auto simp: fun_eq_iff)
  have "init_blocks span = set_free_words 0 ?wc ?lb ?start"
    by (simp add: init_blocks_def Let_def)
  also note run
  finally have init: "init_blocks span = Inr ?s"
    unfolding eq .
  have descr: "same_descr span ?s" by (simp add: same_descr_def)
  have fs: "free_set ?s = {..<unat ?n}"
  proof (rule set_eqI)
    fix j :: nat
    have j: "j mod 64 + j div 64 * 64 = j" by simp
    show "j \<in> free_set ?s \<longleftrightarrow> j \<in> {..<unat ?n}"
    proof (cases "j div 64 < unat ?wc")
      case True
      then have "bit (?bm (j div 64)) (j mod 64) \<longleftrightarrow> j < unat ?n"
        using bit_free_word [OF n(1) n4 _ True, of "j mod 64"] j by simp
      then show ?thesis using n4 by (auto simp: free_set_iff MAX_SPAN_BLOCK_COUNT_def)
    next
      case False
      then have "\<not> j < unat ?n" using c(1) by linarith
      with False show ?thesis
        by (auto simp: free_set_iff clear_words_value MAX_SPAN_BLOCK_COUNT_def less_mult_imp_div_less)
    qed
  qed
  have nz: "block_bitmap ?s w \<noteq> 0 \<longleftrightarrow> w < unat ?wc" if "w < 64" for w
  proof -
    have "\<exists>j\<in>{..<unat ?n}. j div 64 = w" if "w < unat ?wc"
      using that c(1) by (intro bexI [of _ "w * 64"]) auto
    moreover have "w < unat ?wc" if "j \<in> {..<unat ?n}" "j div 64 = w" for j
      using that c(1) by auto
    ultimately show ?thesis
      using word_nonzero_free [OF that, of ?s] unfolding fs by blast
  qed
  have "bit (nonfull_bitmap ?s) w \<longleftrightarrow> w < 64 \<and> block_bitmap ?s w \<noteq> 0" for w
  proof -
    have "bit (nonfull_bitmap ?s) w \<longleftrightarrow> w < 64 \<and> w < unat ?wc"
      using bits [of w] c(2) by auto
    then show ?thesis using nz by blast
  qed
  then have "blocks_ok ?s"
    unfolding blocks_ok_def fs using cnt by simp
  moreover have "free_count ?s = ?n" using cnt by simp
  ultimately show thesis using init descr fs by (intro that [of ?s])
qed

end
