(* ===== verification/SpanPool.thy ===== *)
theory SpanPool
  imports SpanBlocks
begin

text \<open>
  The contract between \<open>cmalloc.c\<close> and the block bitmap of a span: a pool hands out its
  lowest free block and takes blocks back. What follows for sequences of operations is proved
  from the contract; the interpretation discharges it for \<open>allocate_block\<close> and
  \<open>free_block\<close>.
\<close>

section \<open>The contract\<close>

fun take_many :: "('s \<Rightarrow> fault + ptr \<times> 's) \<Rightarrow> nat \<Rightarrow> 's \<Rightarrow> fault + ptr list \<times> 's" where
  "take_many tk 0 s = Inr ([], s)"
| "take_many tk (Suc n) s =
     bindr (tk s) (\<lambda>(p, s). bindr (take_many tk n s) (\<lambda>(ps, s). Inr (p # ps, s)))"

lemma sorted_list_of_set_Min:
  "finite A \<Longrightarrow> A \<noteq> {} \<Longrightarrow> sorted_list_of_set A = Min A # sorted_list_of_set (A - {Min A})"
  for A :: "nat set"
  by (rule sorted_list_of_set_nonempty)

locale block_pool =
  fixes inv :: "'s \<Rightarrow> bool"
    and blocks :: "'s \<Rightarrow> nat set"
    and free :: "'s \<Rightarrow> nat set"
    and addr :: "'s \<Rightarrow> nat \<Rightarrow> ptr"
    and tk :: "'s \<Rightarrow> fault + ptr \<times> 's"
    and give :: "ptr \<Rightarrow> 's \<Rightarrow> fault + 's"
  assumes take_none: "inv s \<Longrightarrow> free s = {} \<Longrightarrow> tk s = Inr (NULL, s)"
    and take_some: "inv s \<Longrightarrow> free s \<noteq> {} \<Longrightarrow>
      \<exists>s'. tk s = Inr (addr s (Min (free s)), s') \<and> inv s' \<and> blocks s' = blocks s \<and>
        addr s' = addr s \<and> free s' = free s - {Min (free s)}"
    and give_back: "inv s \<Longrightarrow> i \<in> blocks s \<Longrightarrow> i \<notin> free s \<Longrightarrow>
      \<exists>s'. give (addr s i) s = Inr s' \<and> inv s' \<and> blocks s' = blocks s \<and>
        addr s' = addr s \<and> free s' = insert i (free s)"
    and free_blocks: "inv s \<Longrightarrow> free s \<subseteq> blocks s"
    and finite_free: "finite (free s)"
begin

text \<open>Taking \<open>n\<close> blocks yields the \<open>n\<close> lowest ones in order.\<close>

lemma take_lowest:
  assumes "inv s" "n \<le> card (free s)"
  shows "\<exists>s'. take_many tk n s = Inr (map (addr s) (take n (sorted_list_of_set (free s))), s') \<and>
    inv s' \<and> blocks s' = blocks s \<and> addr s' = addr s \<and>
    free s' = free s - set (take n (sorted_list_of_set (free s)))"
  using assms
proof (induction n arbitrary: s)
  case 0
  then show ?case by simp
next
  case (Suc n)
  then have ne: "free s \<noteq> {}" by auto
  then obtain s1 where s1: "tk s = Inr (addr s (Min (free s)), s1)" "inv s1" "blocks s1 = blocks s"
    "addr s1 = addr s" "free s1 = free s - {Min (free s)}"
    using take_some [OF Suc.prems(1)] by blast
  have "card (free s1) = card (free s) - 1"
    using s1(5) ne finite_free by (simp add: card_Diff_singleton)
  then have "n \<le> card (free s1)" using Suc.prems(2) by simp
  from Suc.IH [OF s1(2) this] obtain s2 where
    "take_many tk n s1 = Inr (map (addr s1) (take n (sorted_list_of_set (free s1))), s2)"
    "inv s2" "blocks s2 = blocks s1" "addr s2 = addr s1"
    "free s2 = free s1 - set (take n (sorted_list_of_set (free s1)))" by blast
  then show ?case
    using s1 by (intro exI [of _ s2]) (auto simp: sorted_list_of_set_Min [OF finite_free ne])
qed

text \<open>Taking every block empties the pool; the next request gets \<open>NULL\<close>.\<close>

lemma take_all:
  assumes "inv s"
  shows "\<exists>s'. take_many tk (card (free s)) s = Inr (map (addr s) (sorted_list_of_set (free s)), s') \<and>
    inv s' \<and> free s' = {} \<and> tk s' = Inr (NULL, s')"
proof -
  have "length (sorted_list_of_set (free s)) = card (free s)"
    using finite_free by simp
  then obtain s' where "take_many tk (card (free s)) s = Inr (map (addr s) (sorted_list_of_set (free s)), s')"
    "inv s'" "free s' = {}"
    using take_lowest [OF assms order_refl] finite_free by auto
  then show ?thesis using take_none by blast
qed

text \<open>Giving back what was just taken restores the set of free blocks.\<close>

lemma take_give:
  assumes "inv s" "free s \<noteq> {}"
  shows "\<exists>p s1 s2. tk s = Inr (p, s1) \<and> give p s1 = Inr s2 \<and> inv s2 \<and> free s2 = free s"
proof -
  let ?i = "Min (free s)"
  have mem: "?i \<in> free s" using assms(2) finite_free by simp
  obtain s1 where s1: "tk s = Inr (addr s ?i, s1)" "inv s1" "blocks s1 = blocks s"
    "addr s1 = addr s" "free s1 = free s - {?i}"
    using take_some [OF assms] by blast
  moreover have "?i \<in> blocks s1" "?i \<notin> free s1" using mem free_blocks [OF assms(1)] s1 by auto
  ultimately obtain s2 where "give (addr s ?i) s1 = Inr s2" "inv s2" "free s2 = insert ?i (free s1)"
    using give_back [of s1 ?i] by auto
  with s1 mem show ?thesis by (auto simp: insert_absorb)
qed

end

section \<open>Spans are block pools\<close>

definition span_ok :: "span_t \<Rightarrow> bool" where
  "span_ok span \<longleftrightarrow> blocks_ok span \<and> span_geometry span"

definition span_blocks :: "span_t \<Rightarrow> nat set" where
  "span_blocks span = {..<unat (block_count span)}"

lemma same_descr_addr: "same_descr span span' \<Longrightarrow> block_addr span' = block_addr span"
  by (simp add: block_addr_def same_descr_fields fun_eq_iff)

lemma same_descr_blocks: "same_descr span span' \<Longrightarrow> span_blocks span' = span_blocks span"
  by (simp add: span_blocks_def same_descr_fields)

lemma block_size_positive: "span_geometry span \<Longrightarrow> 0 < unat (block_size span)"
  by (simp add: span_geometry_def)

interpretation span_pool: block_pool span_ok span_blocks free_set block_addr allocate_block free_block
proof unfold_locales
  fix s :: span_t
  show "finite (free_set s)" by simp
  assume s: "span_ok s"
  then have ok: "blocks_ok s" "span_geometry s" by (simp_all add: span_ok_def)
  show "free_set s = {} \<Longrightarrow> allocate_block s = Inr (NULL, s)"
    using ok(1) by (rule allocate_block_empty)
  show "free_set s \<subseteq> span_blocks s" using ok by (simp add: blocks_ok_def span_blocks_def)
  show "\<exists>s'. allocate_block s = Inr (block_addr s (Min (free_set s)), s') \<and> span_ok s' \<and>
      span_blocks s' = span_blocks s \<and> block_addr s' = block_addr s \<and>
      free_set s' = free_set s - {Min (free_set s)}" if ne: "free_set s \<noteq> {}"
  proof -
    obtain s' where "allocate_block s = Inr (block_addr s (Min (free_set s)), s')"
      "free_set s' = free_set s - {Min (free_set s)}" "blocks_ok s'" "same_descr s s'"
      using allocate_block_takes_lowest [OF ok(1) ne] .
    then show ?thesis
      using ok(2) by (auto simp: span_ok_def same_descr_addr same_descr_blocks same_descr_geometry)
  qed
  show "\<exists>s'. free_block (block_addr s i) s = Inr s' \<and> span_ok s' \<and>
      span_blocks s' = span_blocks s \<and> block_addr s' = block_addr s \<and>
      free_set s' = insert i (free_set s)" if i: "i \<in> span_blocks s" "i \<notin> free_set s" for i
  proof -
    obtain s' where "free_block (block_addr s i) s = Inr s'"
      "free_set s' = insert i (free_set s)" "blocks_ok s'" "same_descr s s'"
      using free_block_returns [OF ok _ order_refl _ i(2)] i(1) block_size_positive [OF ok(2)]
      by (auto simp: span_blocks_def)
    then show ?thesis
      using ok(2) by (auto simp: span_ok_def same_descr_addr same_descr_blocks same_descr_geometry)
  qed
qed

end
