(* ===== verification/MetaHeap.thy ===== *)
theory MetaHeap
  imports Common
begin

text \<open>
  The memory of the allocator's own data, shared by \<open>src/metadata.c\<close> and
  \<open>src/range_map.c\<close>, and the read side of the range map. The structs that live in
  metadata chunks are kept in one heap per type, indexed by address; all heaps start zeroed,
  as fresh anonymous pages are. A free metadata block holds the link of its free list in its
  first word (\<open>link_heap\<close>). \<open>mappings\<close> is the operating system's list of live
  mappings, which \<open>mmap\<close> answers from.
\<close>

section \<open>Node types and sizes of \<open>range_map.c\<close>\<close>

definition L1_BITS :: nat where "L1_BITS = 12"
definition L2_BITS :: nat where "L2_BITS = 12"
definition L3_BITS :: nat where "L3_BITS = 11"

definition L1_SIZE :: u64 where "L1_SIZE = push_bit L1_BITS 1"
definition L2_SIZE :: u64 where "L2_SIZE = push_bit L2_BITS 1"
definition L3_SIZE :: u64 where "L3_SIZE = push_bit L3_BITS 1"

record l3_node =
  l3 :: "u64 \<Rightarrow> ptr"
  l3_count :: u64

record l2_node =
  l2 :: "u64 \<Rightarrow> ptr"
  l2_count :: u64

record l1_node =
  l1 :: "u64 \<Rightarrow> ptr"

text \<open>Pointers and counts take 8 bytes each.\<close>

definition sizeof_l1_node :: u64 where "sizeof_l1_node = 8 * L1_SIZE"
definition sizeof_l2_node :: u64 where "sizeof_l2_node = 8 * L2_SIZE + 8"
definition sizeof_l3_node :: u64 where "sizeof_l3_node = 8 * L3_SIZE + 8"

lemma sizeof_nodes [simp]:
  "sizeof_l1_node = 32768" "sizeof_l2_node = 32776" "sizeof_l3_node = 16392"
  by (simp_all add: sizeof_l1_node_def sizeof_l2_node_def sizeof_l3_node_def
      L1_SIZE_def L2_SIZE_def L3_SIZE_def L1_BITS_def L2_BITS_def L3_BITS_def)

section \<open>The metadata state\<close>

record meta_chunk =
  chunk_prev :: ptr
  chunk_cur :: ptr
  chunk_end :: ptr

record meta_state =
  meta_arena :: ptr
  free_list_map :: ptr
  chunk_heap :: "ptr \<Rightarrow> meta_chunk"
  link_heap :: "ptr \<Rightarrow> ptr"
  l1_heap :: "ptr \<Rightarrow> l1_node"
  l2_heap :: "ptr \<Rightarrow> l2_node"
  l3_heap :: "ptr \<Rightarrow> l3_node"
  mappings :: mapping_list

definition meta_zero :: meta_state where
  "meta_zero = \<lparr>meta_arena = NULL, free_list_map = NULL,
     chunk_heap = (\<lambda>_. \<lparr>chunk_prev = NULL, chunk_cur = NULL, chunk_end = NULL\<rparr>),
     link_heap = (\<lambda>_. NULL), l1_heap = (\<lambda>_. \<lparr>l1 = (\<lambda>_. NULL)\<rparr>),
     l2_heap = (\<lambda>_. \<lparr>l2 = (\<lambda>_. NULL), l2_count = 0\<rparr>),
     l3_heap = (\<lambda>_. \<lparr>l3 = (\<lambda>_. NULL), l3_count = 0\<rparr>), mappings = []\<rparr>"

text \<open>The system calls: a successful \<open>mmap\<close> adds a mapping, \<open>munmap\<close> removes it.\<close>

definition sys_mmap :: "platform \<Rightarrow> meta_state \<Rightarrow> u64 \<Rightarrow> ptr \<times> meta_state" where
  "sys_mmap os m len =
     (let a = mmap os (mappings m) len
      in if a = MAP_FAILED then (a, m) else (a, m\<lparr>mappings := (a, len) # mappings m\<rparr>))"

definition sys_munmap :: "meta_state \<Rightarrow> ptr \<Rightarrow> u64 \<Rightarrow> meta_state" where
  "sys_munmap m a len = m\<lparr>mappings := removeAll (a, len) (mappings m)\<rparr>"

section \<open>Reading and writing node fields\<close>

definition l1_at :: "meta_state \<Rightarrow> ptr \<Rightarrow> u64 \<Rightarrow> ptr" where
  "l1_at m p i = l1 (l1_heap m p) i"

definition l2_at :: "meta_state \<Rightarrow> ptr \<Rightarrow> u64 \<Rightarrow> ptr" where
  "l2_at m p i = l2 (l2_heap m p) i"

definition l3_at :: "meta_state \<Rightarrow> ptr \<Rightarrow> u64 \<Rightarrow> ptr" where
  "l3_at m p i = l3 (l3_heap m p) i"

definition l2_count_at :: "meta_state \<Rightarrow> ptr \<Rightarrow> u64" where
  "l2_count_at m p = l2_count (l2_heap m p)"

definition l3_count_at :: "meta_state \<Rightarrow> ptr \<Rightarrow> u64" where
  "l3_count_at m p = l3_count (l3_heap m p)"

definition set_l1 :: "meta_state \<Rightarrow> ptr \<Rightarrow> u64 \<Rightarrow> ptr \<Rightarrow> meta_state" where
  "set_l1 m p i v = m\<lparr>l1_heap := (l1_heap m)(p := (l1_heap m p)\<lparr>l1 := (l1 (l1_heap m p))(i := v)\<rparr>)\<rparr>"

definition set_l2 :: "meta_state \<Rightarrow> ptr \<Rightarrow> u64 \<Rightarrow> ptr \<Rightarrow> meta_state" where
  "set_l2 m p i v = m\<lparr>l2_heap := (l2_heap m)(p := (l2_heap m p)\<lparr>l2 := (l2 (l2_heap m p))(i := v)\<rparr>)\<rparr>"

definition set_l3 :: "meta_state \<Rightarrow> ptr \<Rightarrow> u64 \<Rightarrow> ptr \<Rightarrow> meta_state" where
  "set_l3 m p i v = m\<lparr>l3_heap := (l3_heap m)(p := (l3_heap m p)\<lparr>l3 := (l3 (l3_heap m p))(i := v)\<rparr>)\<rparr>"

definition set_l2_count :: "meta_state \<Rightarrow> ptr \<Rightarrow> u64 \<Rightarrow> meta_state" where
  "set_l2_count m p n = m\<lparr>l2_heap := (l2_heap m)(p := (l2_heap m p)\<lparr>l2_count := n\<rparr>)\<rparr>"

definition set_l3_count :: "meta_state \<Rightarrow> ptr \<Rightarrow> u64 \<Rightarrow> meta_state" where
  "set_l3_count m p n = m\<lparr>l3_heap := (l3_heap m)(p := (l3_heap m p)\<lparr>l3_count := n\<rparr>)\<rparr>"

text \<open>\<open>memset(p, 0, sizeof(...))\<close> on a node.\<close>

definition zero_l2 :: "meta_state \<Rightarrow> ptr \<Rightarrow> meta_state" where
  "zero_l2 m p = m\<lparr>l2_heap := (l2_heap m)(p := \<lparr>l2 = (\<lambda>_. NULL), l2_count = 0\<rparr>)\<rparr>"

definition zero_l3 :: "meta_state \<Rightarrow> ptr \<Rightarrow> meta_state" where
  "zero_l3 m p = m\<lparr>l3_heap := (l3_heap m)(p := \<lparr>l3 = (\<lambda>_. NULL), l3_count = 0\<rparr>)\<rparr>"

definition set_link :: "meta_state \<Rightarrow> ptr \<Rightarrow> ptr \<Rightarrow> meta_state" where
  "set_link m p v = m\<lparr>link_heap := (link_heap m)(p := v)\<rparr>"

lemmas node_defs = l1_at_def l2_at_def l3_at_def l2_count_at_def l3_count_at_def
  set_l1_def set_l2_def set_l3_def set_l2_count_def set_l3_count_def
  zero_l2_def zero_l3_def set_link_def

lemma node_reads [heap_simps]:
  "l1_at (set_l1 m p i v) q j = (if q = p \<and> j = i then v else l1_at m q j)"
  "l1_at (set_l2 m p i v) q j = l1_at m q j" "l1_at (set_l3 m p i v) q j = l1_at m q j"
  "l1_at (set_l2_count m p n) q j = l1_at m q j" "l1_at (set_l3_count m p n) q j = l1_at m q j"
  "l1_at (zero_l2 m p) q j = l1_at m q j" "l1_at (zero_l3 m p) q j = l1_at m q j"
  "l1_at (set_link m p v) q j = l1_at m q j"
  "l2_at (set_l2 m p i v) q j = (if q = p \<and> j = i then v else l2_at m q j)"
  "l2_at (set_l1 m p i v) q j = l2_at m q j" "l2_at (set_l3 m p i v) q j = l2_at m q j"
  "l2_at (set_l2_count m p n) q j = l2_at m q j" "l2_at (set_l3_count m p n) q j = l2_at m q j"
  "l2_at (zero_l2 m p) q j = (if q = p then NULL else l2_at m q j)"
  "l2_at (zero_l3 m p) q j = l2_at m q j" "l2_at (set_link m p v) q j = l2_at m q j"
  "l3_at (set_l3 m p i v) q j = (if q = p \<and> j = i then v else l3_at m q j)"
  "l3_at (set_l1 m p i v) q j = l3_at m q j" "l3_at (set_l2 m p i v) q j = l3_at m q j"
  "l3_at (set_l2_count m p n) q j = l3_at m q j" "l3_at (set_l3_count m p n) q j = l3_at m q j"
  "l3_at (zero_l2 m p) q j = l3_at m q j"
  "l3_at (zero_l3 m p) q j = (if q = p then NULL else l3_at m q j)"
  "l3_at (set_link m p v) q j = l3_at m q j"
  by (auto simp: node_defs)

lemma count_reads [heap_simps]:
  "l2_count_at (set_l2_count m p n) q = (if q = p then n else l2_count_at m q)"
  "l2_count_at (set_l1 m p i v) q = l2_count_at m q" "l2_count_at (set_l2 m p i v) q = l2_count_at m q"
  "l2_count_at (set_l3 m p i v) q = l2_count_at m q" "l2_count_at (set_l3_count m p n) q = l2_count_at m q"
  "l2_count_at (zero_l2 m p) q = (if q = p then 0 else l2_count_at m q)"
  "l2_count_at (zero_l3 m p) q = l2_count_at m q" "l2_count_at (set_link m p v) q = l2_count_at m q"
  "l3_count_at (set_l3_count m p n) q = (if q = p then n else l3_count_at m q)"
  "l3_count_at (set_l1 m p i v) q = l3_count_at m q" "l3_count_at (set_l2 m p i v) q = l3_count_at m q"
  "l3_count_at (set_l3 m p i v) q = l3_count_at m q" "l3_count_at (set_l2_count m p n) q = l3_count_at m q"
  "l3_count_at (zero_l3 m p) q = (if q = p then 0 else l3_count_at m q)"
  "l3_count_at (zero_l2 m p) q = l3_count_at m q" "l3_count_at (set_link m p v) q = l3_count_at m q"
  by (auto simp: node_defs)

lemma field_reads [heap_simps]:
  "meta_arena (set_l1 m p i v) = meta_arena m"
  "free_list_map (set_l1 m p i v) = free_list_map m"
  "chunk_heap (set_l1 m p i v) = chunk_heap m"
  "mappings (set_l1 m p i v) = mappings m"
  "meta_arena (set_l2 m p i v) = meta_arena m"
  "free_list_map (set_l2 m p i v) = free_list_map m"
  "chunk_heap (set_l2 m p i v) = chunk_heap m"
  "mappings (set_l2 m p i v) = mappings m"
  "meta_arena (set_l3 m p i v) = meta_arena m"
  "free_list_map (set_l3 m p i v) = free_list_map m"
  "chunk_heap (set_l3 m p i v) = chunk_heap m"
  "mappings (set_l3 m p i v) = mappings m"
  "meta_arena (set_l2_count m p n) = meta_arena m"
  "free_list_map (set_l2_count m p n) = free_list_map m"
  "chunk_heap (set_l2_count m p n) = chunk_heap m"
  "mappings (set_l2_count m p n) = mappings m"
  "meta_arena (set_l3_count m p n) = meta_arena m"
  "free_list_map (set_l3_count m p n) = free_list_map m"
  "chunk_heap (set_l3_count m p n) = chunk_heap m"
  "mappings (set_l3_count m p n) = mappings m"
  "meta_arena (zero_l2 m p) = meta_arena m"
  "free_list_map (zero_l2 m p) = free_list_map m"
  "chunk_heap (zero_l2 m p) = chunk_heap m"
  "mappings (zero_l2 m p) = mappings m"
  "meta_arena (zero_l3 m p) = meta_arena m"
  "free_list_map (zero_l3 m p) = free_list_map m"
  "chunk_heap (zero_l3 m p) = chunk_heap m"
  "mappings (zero_l3 m p) = mappings m"
  "meta_arena (set_link m p v) = meta_arena m"
  "free_list_map (set_link m p v) = free_list_map m"
  "chunk_heap (set_link m p v) = chunk_heap m"
  "mappings (set_link m p v) = mappings m"
  "link_heap (set_l1 m p i v) = link_heap m"
  "link_heap (set_l2 m p i v) = link_heap m"
  "link_heap (set_l3 m p i v) = link_heap m"
  "link_heap (set_l2_count m p n) = link_heap m"
  "link_heap (set_l3_count m p n) = link_heap m"
  "link_heap (zero_l2 m p) = link_heap m"
  "link_heap (zero_l3 m p) = link_heap m"
  "link_heap (set_link m p v) = (link_heap m)(p := v)"
  by (simp_all add: node_defs)

lemma meta_update_reads [heap_simps]:
  "l1_at (m\<lparr>free_list_map := x\<rparr>) = l1_at m" "l2_at (m\<lparr>free_list_map := x\<rparr>) = l2_at m"
  "l3_at (m\<lparr>free_list_map := x\<rparr>) = l3_at m" "l2_count_at (m\<lparr>free_list_map := x\<rparr>) = l2_count_at m"
  "l3_count_at (m\<lparr>free_list_map := x\<rparr>) = l3_count_at m"
  "l1_at (m\<lparr>meta_arena := x\<rparr>) = l1_at m" "l2_at (m\<lparr>meta_arena := x\<rparr>) = l2_at m"
  "l3_at (m\<lparr>meta_arena := x\<rparr>) = l3_at m" "l2_count_at (m\<lparr>meta_arena := x\<rparr>) = l2_count_at m"
  "l3_count_at (m\<lparr>meta_arena := x\<rparr>) = l3_count_at m"
  "l1_at (m\<lparr>chunk_heap := ch\<rparr>) = l1_at m" "l2_at (m\<lparr>chunk_heap := ch\<rparr>) = l2_at m"
  "l3_at (m\<lparr>chunk_heap := ch\<rparr>) = l3_at m" "l2_count_at (m\<lparr>chunk_heap := ch\<rparr>) = l2_count_at m"
  "l3_count_at (m\<lparr>chunk_heap := ch\<rparr>) = l3_count_at m"
  "l1_at (m\<lparr>mappings := ms\<rparr>) = l1_at m" "l2_at (m\<lparr>mappings := ms\<rparr>) = l2_at m"
  "l3_at (m\<lparr>mappings := ms\<rparr>) = l3_at m" "l2_count_at (m\<lparr>mappings := ms\<rparr>) = l2_count_at m"
  "l3_count_at (m\<lparr>mappings := ms\<rparr>) = l3_count_at m"
  by (auto simp: fun_eq_iff node_defs)

section \<open>The indices of a key and the lookup\<close>

definition l1_index :: "u64 \<Rightarrow> u64" where
  "l1_index key = drop_bit (L2_BITS + L3_BITS) key AND (L1_SIZE - 1)"

definition l2_index :: "u64 \<Rightarrow> u64" where
  "l2_index key = drop_bit L3_BITS key AND (L2_SIZE - 1)"

definition l3_index :: "u64 \<Rightarrow> u64" where
  "l3_index key = key AND (L3_SIZE - 1)"

definition cmalloc_get :: "meta_state \<Rightarrow> ptr \<Rightarrow> u64 \<Rightarrow> fault + ptr" where
  "cmalloc_get m range_map key =
     (if \<not> valid_ptr range_map then Inl Bad_Deref
      else if l1_at m range_map (l1_index key) = NULL
           \<or> l2_at m (l1_at m range_map (l1_index key)) (l2_index key) = NULL
      then Inr NULL
      else Inr (l3_at m (l2_at m (l1_at m range_map (l1_index key)) (l2_index key)) (l3_index key)))"

text \<open>
  The three indices together are the low 35 bits of the key, so two keys share a slot only
  when these agree.
\<close>

lemma index_masks:
  "l1_index key = drop_bit 23 key AND mask 12" "l2_index key = drop_bit 11 key AND mask 12"
  "l3_index key = key AND mask 11"
  by (simp_all add: l1_index_def l2_index_def l3_index_def L1_SIZE_def L2_SIZE_def L3_SIZE_def
      L1_BITS_def L2_BITS_def L3_BITS_def mask_eq_exp_minus_1)

lemma index_bounds: "l1_index key < L1_SIZE" "l2_index key < L2_SIZE" "l3_index key < L3_SIZE"
proof -
  have "unat (l1_index key) < 2 ^ 12" "unat (l2_index key) < 2 ^ 12" "unat (l3_index key) < 2 ^ 11"
    unfolding index_masks unat_and_mask by simp_all
  then show "l1_index key < L1_SIZE" "l2_index key < L2_SIZE" "l3_index key < L3_SIZE"
    by (simp_all add: word_less_nat_alt L1_SIZE_def L2_SIZE_def L3_SIZE_def
        L1_BITS_def L2_BITS_def L3_BITS_def)
qed

definition same_slot :: "u64 \<Rightarrow> u64 \<Rightarrow> bool" where
  "same_slot j k \<longleftrightarrow> l1_index j = l1_index k \<and> l2_index j = l2_index k \<and> l3_index j = l3_index k"

lemma same_slot_iff: "same_slot j k \<longleftrightarrow> unat j mod 2 ^ 35 = unat k mod 2 ^ 35"
proof -
  have split: "unat x mod 2 ^ 35 =
      unat (l1_index x) * 2 ^ 23 + unat (l2_index x) * 2 ^ 11 + unat (l3_index x)" for x
  proof -
    have "n mod 2 ^ 35 = (n div 2 ^ 23) mod 2 ^ 12 * 2 ^ 23
            + (n div 2 ^ 11) mod 2 ^ 12 * 2 ^ 11 + n mod 2 ^ 11" for n :: nat
    proof -
      have "n mod (2 ^ 23 * 2 ^ 12) = 2 ^ 23 * (n div 2 ^ 23 mod 2 ^ 12) + n mod 2 ^ 23"
        by (rule mod_mult2_eq)
      moreover have "n mod (2 ^ 11 * 2 ^ 12) = 2 ^ 11 * (n div 2 ^ 11 mod 2 ^ 12) + n mod 2 ^ 11"
        by (rule mod_mult2_eq)
      ultimately show ?thesis by simp
    qed
    then show ?thesis
      unfolding index_masks unat_and_mask unat_drop_bit .
  qed
  have "l1_index j = l1_index k" "l2_index j = l2_index k" "l3_index j = l3_index k"
    if "unat j mod 2 ^ 35 = unat k mod 2 ^ 35"
  proof -
    have eq: "take_bit 35 j = take_bit 35 k"
      using that by (simp only: take_bit_eq_mask word_unat_eq_iff unat_and_mask)
    have "l1_index x = drop_bit 23 (take_bit 35 x)"
      "l2_index x = take_bit 12 (drop_bit 11 (take_bit 35 x))"
      "l3_index x = take_bit 11 (take_bit 35 x)" for x
      unfolding index_masks take_bit_eq_mask [symmetric]
      by (simp_all only: drop_bit_take_bit take_bit_take_bit) simp_all
    with eq show "l1_index j = l1_index k" "l2_index j = l2_index k" "l3_index j = l3_index k"
      by (simp_all only:)
  qed
  moreover have "unat j mod 2 ^ 35 = unat k mod 2 ^ 35" if "same_slot j k"
    using that by (simp only: same_slot_def split)
  ultimately show ?thesis
    unfolding same_slot_def by blast
qed

lemma same_slot_small:
  "unat j < 2 ^ 35 \<Longrightarrow> unat k < 2 ^ 35 \<Longrightarrow> same_slot j k \<longleftrightarrow> j = k"
  by (simp add: same_slot_iff word_unat_eq_iff)

end
