(* ===== verification/Metadata.thy ===== *)
theory Metadata
  imports MetaHeap
begin

text \<open>
  \<open>src/metadata.c\<close> and the write side of \<open>src/range_map.c\<close>. The two files call each
  other: the trie takes its nodes from the metadata allocator, and the metadata allocator keeps
  its free lists, keyed by object size, in a trie of its own (\<open>free_list_map\<close>). The mutual
  recursion is defined as it is in the code; it terminates because the allocator only calls
  \<open>cmalloc_map\<close> for a key whose nodes exist already.
\<close>

section \<open>The chunk arena\<close>

definition META_CHUNK_SIZE :: u64 where
  "META_CHUNK_SIZE = 4 * 1024 * 1024"

definition sizeof_meta_chunk :: u64 where
  "sizeof_meta_chunk = 24"

text \<open>The last two lines of \<open>cmalloc_alloc_metadata\<close>: take \<open>size\<close> bytes at \<open>cur\<close>.\<close>

definition take_from_chunk :: "meta_state \<Rightarrow> u64 \<Rightarrow> ptr \<times> meta_state" where
  "take_from_chunk m sz =
     (let a = meta_arena m;
          r = chunk_cur (chunk_heap m a)
      in (r, m\<lparr>chunk_heap := (chunk_heap m)(a :=
                 (chunk_heap m a)\<lparr>chunk_cur := align_up_ptr (chunk_cur (chunk_heap m a) + sz)\<rparr>)\<rparr>))"

definition new_chunk :: "meta_state \<Rightarrow> ptr \<Rightarrow> ptr \<Rightarrow> meta_state" where
  "new_chunk m a prev =
     m\<lparr>meta_arena := a,
       chunk_heap := (chunk_heap m)(a :=
         \<lparr>chunk_prev = prev, chunk_cur = align_up_ptr (a + sizeof_meta_chunk),
          chunk_end = a + META_CHUNK_SIZE\<rparr>)\<rparr>"

definition bump_alloc :: "platform \<Rightarrow> meta_state \<Rightarrow> u64 \<Rightarrow> fault + ptr \<times> meta_state" where
  "bump_alloc os m sz =
     (if meta_arena m = MAP_FAILED then Inl Bad_Deref
      else if meta_arena m = NULL
           \<or> sint (chunk_end (chunk_heap m (meta_arena m)) - chunk_cur (chunk_heap m (meta_arena m)))
               < sint sz
      then
        (let prev = meta_arena m;
             (a, m1) = sys_mmap os m META_CHUNK_SIZE
         in if a = MAP_FAILED then Inr (NULL, m1\<lparr>meta_arena := a\<rparr>)
            else if a = NULL then Inl Bad_Deref
            else Inr (take_from_chunk (new_chunk m1 a prev) sz))
      else Inr (take_from_chunk m sz))"

section \<open>Allocation and mapping, mutually recursive\<close>

text \<open>The nodes on the path of a key.\<close>

definition path_present :: "meta_state \<Rightarrow> ptr \<Rightarrow> u64 \<Rightarrow> bool" where
  "path_present m r key \<longleftrightarrow>
     valid_ptr r \<and> l1_at m r (l1_index key) \<noteq> NULL
     \<and> l2_at m (l1_at m r (l1_index key)) (l2_index key) \<noteq> NULL"

lemma get_not_NULL_path: "cmalloc_get m r key = Inr p \<Longrightarrow> p \<noteq> NULL \<Longrightarrow> path_present m r key"
  by (auto simp: cmalloc_get_def path_present_def split: if_splits)

function cmalloc_alloc_metadata :: "platform \<Rightarrow> meta_state \<Rightarrow> u64 \<Rightarrow> fault + ptr \<times> meta_state"
  and cmalloc_map :: "platform \<Rightarrow> meta_state \<Rightarrow> ptr \<Rightarrow> ptr \<Rightarrow> u64 \<Rightarrow> fault + meta_state"
where
  "cmalloc_alloc_metadata os m sz =
     bindr (if free_list_map m = NULL then Inr NULL else cmalloc_get m (free_list_map m) sz)
       (\<lambda>free_list.
          if free_list \<noteq> NULL then
            bindr (cmalloc_map os m (free_list_map m) (link_heap m free_list) sz)
              (\<lambda>m. Inr (free_list, m))
          else bump_alloc os m sz)"
| "cmalloc_map os m range_map value key =
     (if \<not> valid_ptr range_map then Inl Bad_Deref
      else
        bindr
          (if l1_at m range_map (l1_index key) = NULL then
             bindr (cmalloc_alloc_metadata os m sizeof_l2_node) (\<lambda>(p, m).
               if \<not> valid_ptr p then Inl Bad_Deref
               else Inr (zero_l2 (set_l1 m range_map (l1_index key) p) p))
           else Inr m)
          (\<lambda>m. bindr
             (let q = l1_at m range_map (l1_index key)
              in if l2_at m q (l2_index key) = NULL then
                   bindr (cmalloc_alloc_metadata os m sizeof_l3_node) (\<lambda>(p, m).
                     if \<not> valid_ptr p then Inl Bad_Deref
                     else
                       let m = zero_l3 (set_l2 m q (l2_index key) p) p
                       in Inr (set_l2_count m q (l2_count_at m q + 1)))
                 else Inr m)
             (\<lambda>m. let n = l2_at m (l1_at m range_map (l1_index key)) (l2_index key);
                      m = (if l3_at m n (l3_index key) = NULL
                           then set_l3_count m n (l3_count_at m n + 1) else m)
                  in Inr (set_l3 m n (l3_index key) value))))"
  by pat_completeness auto

termination
  by (relation "measure (\<lambda>x. case x of
         Inl (os, m, sz) \<Rightarrow> 2
       | Inr (os, m, r, v, key) \<Rightarrow> if path_present m r key then 1 else 3)")
     (auto simp: path_present_def cmalloc_get_def split: if_splits)

declare cmalloc_alloc_metadata.simps [simp del] cmalloc_map.simps [simp del]

section \<open>Freeing metadata, unmapping, and ranges of keys\<close>

definition cmalloc_initialize_range_map :: "platform \<Rightarrow> meta_state \<Rightarrow> fault + ptr \<times> meta_state" where
  "cmalloc_initialize_range_map os m = cmalloc_alloc_metadata os m sizeof_l1_node"

definition cmalloc_free_metadata :: "platform \<Rightarrow> meta_state \<Rightarrow> ptr \<Rightarrow> u64 \<Rightarrow> fault + meta_state" where
  "cmalloc_free_metadata os m p sz =
     bindr
       (if free_list_map m = NULL then
          bindr (cmalloc_initialize_range_map os m) (\<lambda>(q, m). Inr (m\<lparr>free_list_map := q\<rparr>))
        else Inr m)
       (\<lambda>m. bindr (cmalloc_get m (free_list_map m) sz)
         (\<lambda>head. if \<not> valid_ptr p then Inl Bad_Deref
                  else cmalloc_map os (set_link m p head) (free_list_map m) p sz))"

definition cmalloc_unmap :: "platform \<Rightarrow> meta_state \<Rightarrow> ptr \<Rightarrow> u64 \<Rightarrow> fault + meta_state" where
  "cmalloc_unmap os m range_map key =
     (if \<not> valid_ptr range_map then Inl Bad_Deref
      else
        let q = l1_at m range_map (l1_index key)
        in if q = NULL then Inl Assert_Failed
           else
             let n = l2_at m q (l2_index key)
             in if n = NULL then Inl Assert_Failed
                else if l3_at m n (l3_index key) = NULL then Inl Assert_Failed
                else
                  let m = set_l3 m n (l3_index key) NULL;
                      m = set_l3_count m n (l3_count_at m n - 1)
                  in bindr
                       (if l3_count_at m n = 0 then
                          bindr (cmalloc_free_metadata os m n sizeof_l3_node) (\<lambda>m.
                            let m = set_l2 m q (l2_index key) NULL
                            in Inr (set_l2_count m q (l2_count_at m q - 1)))
                        else Inr m)
                       (\<lambda>m. if l2_count_at m q = 0 then
                               bindr (cmalloc_free_metadata os m q sizeof_l2_node) (\<lambda>m.
                                 Inr (set_l1 m range_map (l1_index key) NULL))
                             else Inr m))"

function cmalloc_map_range ::
  "platform \<Rightarrow> meta_state \<Rightarrow> ptr \<Rightarrow> ptr \<Rightarrow> u64 \<Rightarrow> u64 \<Rightarrow> fault + meta_state" where
  "cmalloc_map_range os m range_map data i to =
     (if i < to then
        bindr (cmalloc_map os m range_map data i)
          (\<lambda>m. cmalloc_map_range os m range_map data (i + 1) to)
      else Inr m)"
  by pat_completeness auto
termination
  by (relation "measure (\<lambda>(_, _, _, _, i, n). unat n - unat i)")
     (auto simp: unat_inc word_less_nat_alt)

function cmalloc_unmap_range ::
  "platform \<Rightarrow> meta_state \<Rightarrow> ptr \<Rightarrow> u64 \<Rightarrow> u64 \<Rightarrow> fault + meta_state" where
  "cmalloc_unmap_range os m range_map i to =
     (if i < to then
        bindr (cmalloc_unmap os m range_map i)
          (\<lambda>m. cmalloc_unmap_range os m range_map (i + 1) to)
      else Inr m)"
  by pat_completeness auto
termination
  by (relation "measure (\<lambda>(_, _, _, i, n). unat n - unat i)")
     (auto simp: unat_inc word_less_nat_alt)

declare cmalloc_map_range.simps [simp del] cmalloc_unmap_range.simps [simp del]

section \<open>The recursion unfolded\<close>

text \<open>The lookup as a total function, and the leaf node that holds a key's slot.\<close>

definition look :: "meta_state \<Rightarrow> ptr \<Rightarrow> u64 \<Rightarrow> ptr" where
  "look m r key =
     (if l1_at m r (l1_index key) = NULL
         \<or> l2_at m (l1_at m r (l1_index key)) (l2_index key) = NULL then NULL
      else l3_at m (l2_at m (l1_at m r (l1_index key)) (l2_index key)) (l3_index key))"

definition leaf_of :: "meta_state \<Rightarrow> ptr \<Rightarrow> u64 \<Rightarrow> ptr" where
  "leaf_of m r key = l2_at m (l1_at m r (l1_index key)) (l2_index key)"

lemma cmalloc_get_look: "valid_ptr r \<Longrightarrow> cmalloc_get m r key = Inr (look m r key)"
  by (simp add: cmalloc_get_def look_def)

lemma cmalloc_get_invalid: "\<not> valid_ptr r \<Longrightarrow> cmalloc_get m r key = Inl Bad_Deref"
  by (simp add: cmalloc_get_def)

lemma look_path: "look m r key \<noteq> NULL \<Longrightarrow> valid_ptr r \<Longrightarrow> path_present m r key"
  by (auto simp: look_def path_present_def split: if_splits)

text \<open>The last step of \<open>cmalloc_map\<close>: count the slot if it was empty and store.\<close>

definition put_slot :: "meta_state \<Rightarrow> ptr \<Rightarrow> u64 \<Rightarrow> ptr \<Rightarrow> meta_state" where
  "put_slot m n i value =
     (let m = (if l3_at m n i = NULL then set_l3_count m n (l3_count_at m n + 1) else m)
      in set_l3 m n i value)"

text \<open>The steps before it: make the nodes of the path.\<close>

definition make_mid :: "platform \<Rightarrow> meta_state \<Rightarrow> ptr \<Rightarrow> u64 \<Rightarrow> fault + meta_state" where
  "make_mid os m r key =
     (if l1_at m r (l1_index key) = NULL then
        bindr (cmalloc_alloc_metadata os m sizeof_l2_node) (\<lambda>(p, m).
          if \<not> valid_ptr p then Inl Bad_Deref
          else Inr (zero_l2 (set_l1 m r (l1_index key) p) p))
      else Inr m)"

definition make_leaf :: "platform \<Rightarrow> meta_state \<Rightarrow> ptr \<Rightarrow> u64 \<Rightarrow> fault + meta_state" where
  "make_leaf os m r key =
     (let q = l1_at m r (l1_index key)
      in if l2_at m q (l2_index key) = NULL then
           bindr (cmalloc_alloc_metadata os m sizeof_l3_node) (\<lambda>(p, m).
             if \<not> valid_ptr p then Inl Bad_Deref
             else
               let m = zero_l3 (set_l2 m q (l2_index key) p) p
               in Inr (set_l2_count m q (l2_count_at m q + 1)))
         else Inr m)"

lemma cmalloc_map_steps:
  "valid_ptr r \<Longrightarrow> cmalloc_map os m r v key =
     bindr (make_mid os m r key) (\<lambda>m. bindr (make_leaf os m r key)
       (\<lambda>m. Inr (put_slot m (leaf_of m r key) (l3_index key) v)))"
  by (simp add: cmalloc_map.simps make_mid_def make_leaf_def put_slot_def leaf_of_def Let_def)

lemma cmalloc_map_invalid: "\<not> valid_ptr r \<Longrightarrow> cmalloc_map os m r v key = Inl Bad_Deref"
  by (simp add: cmalloc_map.simps)

lemma cmalloc_map_present:
  "path_present m r key \<Longrightarrow>
     cmalloc_map os m r v key = Inr (put_slot m (leaf_of m r key) (l3_index key) v)"
  by (simp add: path_present_def cmalloc_map_steps make_mid_def make_leaf_def)

text \<open>The head of the free list for a size.\<close>

definition free_head :: "meta_state \<Rightarrow> u64 \<Rightarrow> ptr" where
  "free_head m sz = (if free_list_map m = NULL then NULL else look m (free_list_map m) sz)"

lemma alloc_from_free_list:
  assumes "free_list_map m \<noteq> MAP_FAILED" "free_head m sz \<noteq> NULL"
  shows "cmalloc_alloc_metadata os m sz =
           Inr (free_head m sz, put_slot m (leaf_of m (free_list_map m) sz) (l3_index sz)
                                  (link_heap m (free_head m sz)))"
proof -
  from assms(2) have n: "free_list_map m \<noteq> NULL"
    and l: "free_head m sz = look m (free_list_map m) sz"
    by (auto simp: free_head_def split: if_splits)
  with assms(1) have v: "valid_ptr (free_list_map m)" by (simp add: valid_ptr_def)
  with assms(2) l have "path_present m (free_list_map m) sz" by (simp add: look_path)
  with n v l assms(2) show ?thesis
    by (simp add: cmalloc_alloc_metadata.simps cmalloc_get_look cmalloc_map_present)
qed

lemma alloc_from_chunk:
  assumes "free_list_map m \<noteq> MAP_FAILED" "free_head m sz = NULL"
  shows "cmalloc_alloc_metadata os m sz = bump_alloc os m sz"
  using assms by (cases "free_list_map m = NULL")
    (simp_all add: cmalloc_alloc_metadata.simps free_head_def cmalloc_get_look valid_ptr_def)

end
