(* ===== verification/SpanBins.thy ===== *)
theory SpanBins
  imports Common
begin

text \<open>
  The index over the free-span bins of \<open>src/span.c\<close>: one bit per page count says whether
  the bin of spans of that size is non-empty, and a best-fit query finds the smallest
  non-empty bin that is large enough.

  The bitmap has 129 words; every caller passes a page count below \<open>MAX_BINNED_PAGES\<close>,
  so the word index is in range (\<open>bin_word_in_range\<close>).
\<close>

definition MAX_BINNED_PAGES :: u64 where
  "MAX_BINNED_PAGES = 8193"

definition FREE_BITMAP_WORDS :: nat where
  "FREE_BITMAP_WORDS = (unat MAX_BINNED_PAGES + 63) div 64"

definition NO_FITTING_PAGE_SEQUENCE :: u64 where
  "NO_FITTING_PAGE_SEQUENCE = - 1"

definition BITS_PER_WORD :: nat where
  "BITS_PER_WORD = 64"

definition PAGE_BITMAP_WORD_INDEX :: "u64 \<Rightarrow> nat" where
  "PAGE_BITMAP_WORD_INDEX pages = unat (drop_bit 6 pages)"

definition PAGE_BITMAP_BIT_INDEX :: "u64 \<Rightarrow> nat" where
  "PAGE_BITMAP_BIT_INDEX pages = unat (pages AND 63)"

definition mark_binned_span_non_empty :: "u64 \<Rightarrow> (nat \<Rightarrow> u64) \<Rightarrow> (nat \<Rightarrow> u64)" where
  "mark_binned_span_non_empty pages bm =
     (let word_index = PAGE_BITMAP_WORD_INDEX pages;
          bit_index = PAGE_BITMAP_BIT_INDEX pages
      in bm(word_index := bm word_index OR push_bit bit_index 1))"

definition mark_binned_span_empty :: "u64 \<Rightarrow> (nat \<Rightarrow> u64) \<Rightarrow> (nat \<Rightarrow> u64)" where
  "mark_binned_span_empty pages bm =
     (let word_index = PAGE_BITMAP_WORD_INDEX pages;
          bit_index = PAGE_BITMAP_BIT_INDEX pages
      in bm(word_index := bm word_index AND NOT (push_bit bit_index 1)))"

function scan_words :: "(nat \<Rightarrow> u64) \<Rightarrow> nat \<Rightarrow> u64 \<Rightarrow> u64" where
  "scan_words bm word_index word =
     (if word \<noteq> 0 then
        let found_bit = ctz word;
            result = word_of_nat (word_index * BITS_PER_WORD + found_bit)
        in if result < MAX_BINNED_PAGES then result else NO_FITTING_PAGE_SEQUENCE
      else
        let word_index = Suc word_index
        in if word_index \<ge> FREE_BITMAP_WORDS then NO_FITTING_PAGE_SEQUENCE
           else scan_words bm word_index (bm word_index))"
  by pat_completeness auto
termination
  by (relation "measure (\<lambda>(_, w, _). FREE_BITMAP_WORDS - w)") auto

declare scan_words.simps [simp del]

definition find_best_fitting_uninitialized_span :: "(nat \<Rightarrow> u64) \<Rightarrow> u64 \<Rightarrow> u64" where
  "find_best_fitting_uninitialized_span bm pages =
     (let word_index = PAGE_BITMAP_WORD_INDEX pages;
          bit_index = PAGE_BITMAP_BIT_INDEX pages;
          word = bm word_index AND push_bit bit_index (- 1)
      in scan_words bm word_index word)"

section \<open>The bitmap as a set of page counts\<close>

definition bin_bits :: "(nat \<Rightarrow> u64) \<Rightarrow> nat set" where
  "bin_bits bm = {k. k < FREE_BITMAP_WORDS * 64 \<and> bit (bm (k div 64)) (k mod 64)}"

lemma page_bitmap_indices:
  "PAGE_BITMAP_WORD_INDEX pages = unat pages div 64"
  "PAGE_BITMAP_BIT_INDEX pages = unat pages mod 64"
proof -
  have "(63 :: u64) = mask 6" by (simp add: mask_eq_exp_minus_1)
  then have "unat (pages AND 63) = unat pages mod 2 ^ 6"
    by (simp only: unat_and_mask)
  then show "PAGE_BITMAP_BIT_INDEX pages = unat pages mod 64"
    by (simp add: PAGE_BITMAP_BIT_INDEX_def)
  show "PAGE_BITMAP_WORD_INDEX pages = unat pages div 64"
    unfolding PAGE_BITMAP_WORD_INDEX_def unat_drop_bit by simp
qed

lemma free_bitmap_words: "FREE_BITMAP_WORDS = 129"
  by (simp add: FREE_BITMAP_WORDS_def MAX_BINNED_PAGES_def)

lemma bin_word_in_range:
  "pages < MAX_BINNED_PAGES \<Longrightarrow> PAGE_BITMAP_WORD_INDEX pages < FREE_BITMAP_WORDS"
  by (simp add: page_bitmap_indices free_bitmap_words MAX_BINNED_PAGES_def word_less_nat_alt)

lemma bin_bits_iff: "k \<in> bin_bits bm \<longleftrightarrow> k < FREE_BITMAP_WORDS * 64 \<and> bit (bm (k div 64)) (k mod 64)"
  by (simp add: bin_bits_def)

lemma one_bit_push: "push_bit n 1 = one_bit n"
  by (simp add: one_bit_def)

lemma bin_bits_mark:
  assumes "pages < MAX_BINNED_PAGES"
  shows "bin_bits (mark_binned_span_non_empty pages bm) = insert (unat pages) (bin_bits bm)"
proof (rule set_eqI)
  fix k
  have p: "unat pages < FREE_BITMAP_WORDS * 64"
    using assms by (simp add: free_bitmap_words MAX_BINNED_PAGES_def word_less_nat_alt)
  show "k \<in> bin_bits (mark_binned_span_non_empty pages bm) \<longleftrightarrow> k \<in> insert (unat pages) (bin_bits bm)"
  proof (cases "k = unat pages")
    case True
    with p show ?thesis
      by (simp add: bin_bits_iff mark_binned_span_non_empty_def page_bitmap_indices Let_def
          one_bit_push bit_word_simps del: push_bit_of_1)
  next
    case False
    then have "k div 64 \<noteq> unat pages div 64 \<or> k mod 64 \<noteq> unat pages mod 64"
      using div_mod_unique by blast
    with False show ?thesis
      by (auto simp: bin_bits_iff mark_binned_span_non_empty_def page_bitmap_indices Let_def
          one_bit_push bit_word_simps simp del: push_bit_of_1)
  qed
qed

lemma bin_bits_unmark:
  "bin_bits (mark_binned_span_empty pages bm) = bin_bits bm - {unat pages}"
proof (rule set_eqI)
  fix k
  show "k \<in> bin_bits (mark_binned_span_empty pages bm) \<longleftrightarrow> k \<in> bin_bits bm - {unat pages}"
  proof (cases "k = unat pages")
    case True
    then show ?thesis
      by (simp add: bin_bits_iff mark_binned_span_empty_def page_bitmap_indices Let_def
          one_bit_push bit_word_simps del: push_bit_of_1)
  next
    case False
    then have "k div 64 \<noteq> unat pages div 64 \<or> k mod 64 \<noteq> unat pages mod 64"
      using div_mod_unique by blast
    with False show ?thesis
      by (auto simp: bin_bits_iff mark_binned_span_empty_def page_bitmap_indices Let_def
          one_bit_push bit_word_simps simp del: push_bit_of_1)
  qed
qed

text \<open>
  Best fit, stated on the set: the answer is the least member that is at least the request,
  and \<open>NO_FITTING_PAGE_SEQUENCE\<close> when there is none.
\<close>

definition best_fit_spec :: "nat set \<Rightarrow> nat \<Rightarrow> u64" where
  "best_fit_spec S n =
     (if \<exists>k\<in>S. n \<le> k \<and> k < unat MAX_BINNED_PAGES
      then word_of_nat (Min {k \<in> S. n \<le> k \<and> k < unat MAX_BINNED_PAGES})
      else NO_FITTING_PAGE_SEQUENCE)"

lemma best_fit_spec_eqI:
  assumes "k \<in> S" "n \<le> k" "k < unat MAX_BINNED_PAGES" "\<And>j. j \<in> S \<Longrightarrow> n \<le> j \<Longrightarrow> k \<le> j"
  shows "best_fit_spec S n = word_of_nat k"
proof -
  have "Min {k \<in> S. n \<le> k \<and> k < unat MAX_BINNED_PAGES} = k"
    using assms by (intro Min_eqI) auto
  with assms show ?thesis by (auto simp: best_fit_spec_def)
qed

lemma scan_words_best_fit:
  assumes "w < FREE_BITMAP_WORDS"
    and "\<And>b. b < 64 \<Longrightarrow> bit word b \<longleftrightarrow> b + w * 64 \<in> bin_bits bm \<and> n \<le> b + w * 64"
    and "\<And>k. k \<in> bin_bits bm \<Longrightarrow> n \<le> k \<Longrightarrow> w * 64 \<le> k"
    and "n \<le> Suc w * 64"
  shows "scan_words bm w word = best_fit_spec (bin_bits bm) n"
  using assms
proof (induction bm w word rule: scan_words.induct)
  case (1 bm w word)
  show ?case
  proof (cases "word = 0")
    case False
    let ?k = "w * BITS_PER_WORD + ctz word"
    have b: "ctz word < 64" "bit word (ctz word)" "\<And>m. m < ctz word \<Longrightarrow> \<not> bit word m"
      using ctz_props [OF False] by simp_all
    have k: "?k = ctz word + w * 64" by (simp add: BITS_PER_WORD_def)
    then have mem: "?k \<in> bin_bits bm" "n \<le> ?k"
      unfolding k using b "1.prems"(2) by blast+
    have least: "?k \<le> j" if "j \<in> bin_bits bm" "n \<le> j" for j
    proof (rule ccontr)
      assume "\<not> ?k \<le> j"
      moreover have "w * 64 \<le> j" using that by (rule "1.prems"(3))
      ultimately have "j - w * 64 < ctz word" "j = (j - w * 64) + w * 64" using k by linarith+
      then have "bit word (j - w * 64)"
        using "1.prems"(2) [of "j - w * 64"] b(1) that by simp
      with b(3) \<open>j - w * 64 < ctz word\<close> show False by blast
    qed
    have "?k < 2 ^ 64" using "1.prems"(1) b(1) by (simp add: k free_bitmap_words)
    then have u: "unat (word_of_nat ?k :: u64) = ?k" by (rule unat_word_of_nat64)
    show ?thesis
    proof (cases "?k < unat MAX_BINNED_PAGES")
      case True
      then have "best_fit_spec (bin_bits bm) n = word_of_nat ?k"
        using mem least by (intro best_fit_spec_eqI)
      with True False u show ?thesis
        by (simp add: scan_words.simps [of bm w] Let_def word_less_nat_alt)
    next
      case big: False
      then have "\<not> (\<exists>k\<in>bin_bits bm. n \<le> k \<and> k < unat MAX_BINNED_PAGES)"
        using least by force
      then have "best_fit_spec (bin_bits bm) n = NO_FITTING_PAGE_SEQUENCE"
        unfolding best_fit_spec_def by (rule if_not_P)
      with big False u show ?thesis
        by (simp add: scan_words.simps [of bm w] Let_def word_less_nat_alt)
    qed
  next
    case True
    have above: "Suc w * 64 \<le> k" if "k \<in> bin_bits bm" "n \<le> k" for k
    proof (rule ccontr)
      assume "\<not> Suc w * 64 \<le> k"
      with "1.prems"(3) [OF that] have "k - w * 64 < 64" "k = (k - w * 64) + w * 64" by simp_all
      with "1.prems"(2) [of "k - w * 64"] that True show False by simp
    qed
    show ?thesis
    proof (cases "Suc w \<ge> FREE_BITMAP_WORDS")
      case last: True
      have "\<not> (\<exists>k\<in>bin_bits bm. n \<le> k \<and> k < unat MAX_BINNED_PAGES)"
      proof
        assume "\<exists>k\<in>bin_bits bm. n \<le> k \<and> k < unat MAX_BINNED_PAGES"
        then obtain k where "k \<in> bin_bits bm" "n \<le> k" by blast
        with above have "Suc w * 64 \<le> k" by blast
        moreover from \<open>k \<in> bin_bits bm\<close> have "k < FREE_BITMAP_WORDS * 64"
          by (simp add: bin_bits_iff)
        ultimately show False using last by (simp add: free_bitmap_words)
      qed
      then have "best_fit_spec (bin_bits bm) n = NO_FITTING_PAGE_SEQUENCE"
        unfolding best_fit_spec_def by (rule if_not_P)
      with True last show ?thesis
        by (simp add: scan_words.simps [of bm w])
    next
      case False
      have "scan_words bm (Suc w) (bm (Suc w)) = best_fit_spec (bin_bits bm) n"
      proof (rule "1.IH")
        show "\<not> word \<noteq> 0" using True by simp
        show "Suc w < FREE_BITMAP_WORDS" using False by simp
        show "bit (bm (Suc w)) b \<longleftrightarrow> b + Suc w * 64 \<in> bin_bits bm \<and> n \<le> b + Suc w * 64"
          if "b < 64" for b
        proof -
          have "(b + Suc w * 64) div 64 = Suc w" "(b + Suc w * 64) mod 64 = b"
            using that mod_mult_self1 [of b "Suc w" 64] by (simp_all del: mult_Suc)
          moreover have "b + Suc w * 64 < FREE_BITMAP_WORDS * 64"
            using that False by (simp add: free_bitmap_words)
          ultimately show ?thesis
            using "1.prems"(4) unfolding bin_bits_iff by simp
        qed
        show "n \<le> Suc (Suc w) * 64" using "1.prems"(4) by simp
      qed (use False above in \<open>auto\<close>)
      with True False show ?thesis
        by (simp add: scan_words.simps [of bm w])
    qed
  qed
qed

lemma find_best_fit_value:
  assumes "pages < MAX_BINNED_PAGES"
  shows "find_best_fitting_uninitialized_span bm pages = best_fit_spec (bin_bits bm) (unat pages)"
proof -
  let ?w = "unat pages div 64" and ?b = "unat pages mod 64"
  have w: "?w < FREE_BITMAP_WORDS"
    using bin_word_in_range [OF assms] by (simp add: page_bitmap_indices)
  have "scan_words bm ?w (bm ?w AND push_bit ?b (- 1)) = best_fit_spec (bin_bits bm) (unat pages)"
  proof (rule scan_words_best_fit [OF w])
    show "bit (bm ?w AND push_bit ?b (- 1)) b \<longleftrightarrow>
            b + ?w * 64 \<in> bin_bits bm \<and> unat pages \<le> b + ?w * 64" if b: "b < 64" for b
    proof -
      have "b + ?w * 64 < FREE_BITMAP_WORDS * 64" using b w by (simp add: free_bitmap_words)
      moreover have "(?b \<le> b) = (unat pages \<le> b + ?w * 64)"
        using div_mult_mod_eq [of "unat pages" 64] by linarith
      ultimately show ?thesis
        using b by (auto simp: bin_bits_iff bit_and_iff bit_not_iff bit_mask_iff)
    qed
    show "?w * 64 \<le> k" if "unat pages \<le> k" for k
      using that div_mult_mod_eq [of "unat pages" 64] by linarith
    show "unat pages \<le> Suc ?w * 64"
      using mod_less_divisor [of 64 "unat pages"] div_mult_mod_eq [of "unat pages" 64] by simp
  qed
  then show ?thesis
    by (simp add: find_best_fitting_uninitialized_span_def page_bitmap_indices Let_def)
qed

end
