(* ===== verification/Spans.thy ===== *)
theory Spans
  imports Metadata SpanBlocks SpanBins
begin

text \<open>
  \<open>src/span.c\<close>: spans are page ranges taken from 32 MiB data chunks (or from a mapping of
  their own when they have \<open>MAX_BINNED_PAGES\<close> pages or more), kept in bins by page count
  while they are not in use, split on a best-fit basis, and entered page by page in the range
  map \<open>page_map\<close>. The span descriptors and the chunk records live in metadata memory and
  are kept here in typed heaps, indexed by address.
\<close>

section \<open>State\<close>

record data_chunk =
  chunk_base :: ptr
  data_prev :: ptr

record span_state =
  rt :: runtime
  meta :: meta_state
  page_map :: ptr
  data_arena :: ptr
  data_chunk_heap :: "ptr \<Rightarrow> data_chunk"
  span_heap :: "ptr \<Rightarrow> span_t"
  uninitilized_span_bin :: "nat \<Rightarrow> ptr"
  non_empty_bitmap :: "nat \<Rightarrow> u64"

definition DATA_CHUNK_SIZE :: u64 where
  "DATA_CHUNK_SIZE = 32 * 1024 * 1024"

definition DATA_CHUNK_PAGE_COUNT :: "runtime \<Rightarrow> u64" where
  "DATA_CHUNK_PAGE_COUNT r = drop_bit (cmalloc_page_shift r) DATA_CHUNK_SIZE"

text \<open>The size of \<open>span_t\<close> on an LP64 target (512 bytes of it the block bitmap).\<close>

definition sizeof_span :: u64 where
  "sizeof_span = 608"

definition sizeof_data_chunk :: u64 where
  "sizeof_data_chunk = 16"

definition zero_span :: span_t where
  "zero_span = \<lparr>phys_next = NULL, phys_prev = NULL, next_in_uninitialized_bin = NULL,
     span_base = NULL, page_count = 0, is_initialized = False, size_class_index = 0,
     block_size = 0, block_count = 0, free_count = 0, nonfull_bitmap = 0,
     block_bitmap = (\<lambda>_. 0), next_in_size_class_bin = NULL, prev_in_size_class_bin = NULL\<rparr>"

definition span_state_zero :: "runtime \<Rightarrow> span_state" where
  "span_state_zero r = \<lparr>rt = r, meta = meta_zero, page_map = NULL, data_arena = NULL,
     data_chunk_heap = (\<lambda>_. \<lparr>chunk_base = NULL, data_prev = NULL\<rparr>),
     span_heap = (\<lambda>_. zero_span), uninitilized_span_bin = (\<lambda>_. NULL),
     non_empty_bitmap = (\<lambda>_. 0)\<rparr>"

definition upd_span :: "span_state \<Rightarrow> ptr \<Rightarrow> (span_t \<Rightarrow> span_t) \<Rightarrow> span_state" where
  "upd_span s p f = s\<lparr>span_heap := (span_heap s)(p := f (span_heap s p))\<rparr>"

definition set_bin :: "span_state \<Rightarrow> u64 \<Rightarrow> ptr \<Rightarrow> span_state" where
  "set_bin s pages p = s\<lparr>uninitilized_span_bin := (uninitilized_span_bin s)(unat pages := p)\<rparr>"

definition mark_non_empty :: "span_state \<Rightarrow> u64 \<Rightarrow> span_state" where
  "mark_non_empty s pages =
     s\<lparr>non_empty_bitmap := mark_binned_span_non_empty pages (non_empty_bitmap s)\<rparr>"

definition mark_empty :: "span_state \<Rightarrow> u64 \<Rightarrow> span_state" where
  "mark_empty s pages =
     s\<lparr>non_empty_bitmap := mark_binned_span_empty pages (non_empty_bitmap s)\<rparr>"

text \<open>The calls into the metadata layer, on the metadata part of the state.\<close>

definition alloc_meta :: "platform \<Rightarrow> span_state \<Rightarrow> u64 \<Rightarrow> fault + ptr \<times> span_state" where
  "alloc_meta os s sz =
     bindr (cmalloc_alloc_metadata os (meta s) sz) (\<lambda>(p, m).
       if \<not> valid_ptr p then Inl Bad_Deref else Inr (p, s\<lparr>meta := m\<rparr>))"

definition map_span_pages :: "platform \<Rightarrow> span_state \<Rightarrow> ptr \<Rightarrow> fault + span_state" where
  "map_span_pages os s span =
     (let from = round_down_page_index (rt s) (span_base (span_heap s span))
      in bindr (cmalloc_map_range os (meta s) (page_map s) span from
                  (from + page_count (span_heap s span)))
           (\<lambda>m. Inr (s\<lparr>meta := m\<rparr>)))"

definition mmap_pages :: "platform \<Rightarrow> span_state \<Rightarrow> u64 \<Rightarrow> ptr \<times> span_state" where
  "mmap_pages os s pages =
     (let (a, m) = sys_mmap os (meta s) (push_bit (cmalloc_page_shift (rt s)) pages)
      in (a, s\<lparr>meta := m\<rparr>))"

section \<open>\<open>alloc_span\<close>, path by path\<close>

text \<open>Spans of \<open>MAX_BINNED_PAGES\<close> pages or more get a mapping of their own.\<close>

definition alloc_span_large :: "platform \<Rightarrow> span_state \<Rightarrow> u64 \<Rightarrow> fault + ptr \<times> span_state" where
  "alloc_span_large os s pages =
     bindr (alloc_meta os s sizeof_span) (\<lambda>(span, s).
       let (a, s) = mmap_pages os s pages;
           s = upd_span s span (\<lambda>d. d\<lparr>span_base := a, page_count := pages, is_initialized := False\<rparr>)
       in bindr (map_span_pages os s span) (\<lambda>s. Inr (span, s)))"

text \<open>A bin holds a span of exactly the right size.\<close>

definition alloc_span_exact :: "span_state \<Rightarrow> u64 \<Rightarrow> fault + ptr \<times> span_state" where
  "alloc_span_exact s pages =
     (let temp = uninitilized_span_bin s (unat pages)
      in if \<not> valid_ptr temp then Inl Bad_Deref
         else
           let s = set_bin s pages (next_in_uninitialized_bin (span_heap s temp));
               s = (if uninitilized_span_bin s (unat pages) = NULL then mark_empty s pages else s)
           in Inr (temp, s))"

text \<open>The best fit is larger: cut it, and put the rest back in its bin.\<close>

definition alloc_span_split ::
  "platform \<Rightarrow> span_state \<Rightarrow> u64 \<Rightarrow> u64 \<Rightarrow> fault + ptr \<times> span_state" where
  "alloc_span_split os s pages best =
     (let best_fit = uninitilized_span_bin s (unat best)
      in if \<not> valid_ptr best_fit then Inl Bad_Deref
         else
           let s = set_bin s best (next_in_uninitialized_bin (span_heap s best_fit));
               s = (if uninitilized_span_bin s (unat best) = NULL then mark_empty s best else s);
               s = upd_span s best_fit (\<lambda>d. d\<lparr>page_count := pages\<rparr>)
           in bindr (alloc_meta os s sizeof_span) (\<lambda>(split, s).
                let rest = best - pages;
                    b = span_heap s best_fit;
                    s = upd_span s split (\<lambda>d. d\<lparr>
                          span_base := span_base b + push_bit (cmalloc_page_shift (rt s)) pages,
                          page_count := rest, is_initialized := False,
                          phys_next := phys_next b, phys_prev := best_fit,
                          next_in_uninitialized_bin := uninitilized_span_bin s (unat rest)\<rparr>);
                    s = set_bin s rest split
                in bindr (map_span_pages os s split) (\<lambda>s.
                     let s = mark_non_empty s rest;
                         nxt = phys_next (span_heap s best_fit);
                         s = (if nxt \<noteq> NULL then upd_span s nxt (\<lambda>d. d\<lparr>phys_prev := split\<rparr>) else s);
                         s = upd_span s best_fit (\<lambda>d. d\<lparr>phys_next := split\<rparr>)
                     in Inr (best_fit, s))))"

text \<open>
  No fit: map a fresh chunk, hand out its first pages and bin the remainder. A failed
  \<open>mmap\<close> restores \<open>data_arena\<close> and returns \<open>NULL\<close>.
\<close>

definition alloc_span_chunk :: "platform \<Rightarrow> span_state \<Rightarrow> u64 \<Rightarrow> fault + ptr \<times> span_state" where
  "alloc_span_chunk os s pages =
     (let chunk_pages = DATA_CHUNK_PAGE_COUNT (rt s);
          chunk_pages = (if pages > chunk_pages then pages else chunk_pages);
          prev = data_arena s
      in bindr (alloc_meta os s sizeof_data_chunk) (\<lambda>(arena, s).
           let s = s\<lparr>data_arena := arena\<rparr>;
               (a, s) = mmap_pages os s chunk_pages;
               s = s\<lparr>data_chunk_heap := (data_chunk_heap s)(arena :=
                       \<lparr>chunk_base = a, data_prev = prev\<rparr>)\<rparr>
           in if a = MAP_FAILED then Inr (NULL, s\<lparr>data_arena := prev\<rparr>)
              else bindr (alloc_meta os s sizeof_span) (\<lambda>(fit, s).
                let s = upd_span s fit (\<lambda>d. d\<lparr>span_base := a, next_in_uninitialized_bin := NULL,
                          page_count := pages, is_initialized := False\<rparr>)
                in bindr (map_span_pages os s fit) (\<lambda>s.
                  let s = upd_span s fit (\<lambda>d. d\<lparr>phys_prev := NULL, phys_next := NULL\<rparr>);
                      remaining = chunk_pages - pages
                  in if remaining > 0 \<and> remaining < MAX_BINNED_PAGES then
                       bindr (alloc_meta os s sizeof_span) (\<lambda>(split, s).
                         let s = upd_span s split (\<lambda>d. d\<lparr>
                               span_base := a + push_bit (cmalloc_page_shift (rt s)) pages,
                               page_count := remaining, is_initialized := False\<rparr>)
                         in bindr (map_span_pages os s split) (\<lambda>s.
                              let s = upd_span s fit (\<lambda>d. d\<lparr>phys_next := split\<rparr>);
                                  s = upd_span s split (\<lambda>d. d\<lparr>phys_prev := fit, phys_next := NULL,
                                        next_in_uninitialized_bin :=
                                          uninitilized_span_bin s (unat remaining)\<rparr>);
                                  s = set_bin s remaining split;
                                  s = mark_non_empty s remaining
                              in Inr (fit, s)))
                     else Inr (fit, s)))))"

definition alloc_span :: "platform \<Rightarrow> span_state \<Rightarrow> u64 \<Rightarrow> fault + ptr \<times> span_state" where
  "alloc_span os s sz =
     bindr
       (if page_map s = NULL then
          bindr (cmalloc_initialize_range_map os (meta s))
            (\<lambda>(p, m). Inr (s\<lparr>page_map := p, meta := m\<rparr>))
        else Inr s)
       (\<lambda>s.
          let pages = drop_bit (cmalloc_page_shift (rt s)) (round_up_page (rt s) sz)
          in if pages \<ge> MAX_BINNED_PAGES then alloc_span_large os s pages
             else
               let best = find_best_fitting_uninitialized_span (non_empty_bitmap s) pages
               in if data_arena s \<noteq> NULL \<and> best \<noteq> NO_FITTING_PAGE_SEQUENCE then
                    if pages = best then alloc_span_exact s pages
                    else alloc_span_split os s pages best
                  else alloc_span_chunk os s pages)"

section \<open>Caching, initialising and finding spans\<close>

definition cmalloc_cache_span :: "platform \<Rightarrow> span_state \<Rightarrow> ptr \<Rightarrow> fault + span_state" where
  "cmalloc_cache_span os s span =
     (if \<not> valid_ptr span then Inl Bad_Deref
      else
        let d = span_heap s span
        in if page_count d \<ge> MAX_BINNED_PAGES then
             let from = round_down_page_index (rt s) (span_base d)
             in bindr (cmalloc_unmap_range os (meta s) (page_map s) from (from + page_count d))
                  (\<lambda>m. bindr
                    (cmalloc_free_metadata os
                       (sys_munmap m (span_base d)
                          (push_bit (cmalloc_page_shift (rt s)) (page_count d)))
                       span sizeof_span)
                    (\<lambda>m. Inr (s\<lparr>meta := m\<rparr>)))
           else
             let s = upd_span s span (\<lambda>d. d\<lparr>is_initialized := False,
                       next_in_uninitialized_bin := uninitilized_span_bin s (unat (page_count d))\<rparr>);
                 s = set_bin s (page_count d) span
             in Inr (mark_non_empty s (page_count d)))"

text \<open>
  The descriptor part of \<open>cmalloc_initialize_span\<close>; \<open>init_blocks\<close> is its bitmap part.
\<close>

definition describe_span :: "int \<Rightarrow> u64 \<Rightarrow> span_t \<Rightarrow> span_t" where
  "describe_span class_index requested_size d =
     (let d = (if class_index = LARGE_CLASS_SIZE_INDEX
               then d\<lparr>block_size := requested_size, block_count := 1\<rparr>
               else d\<lparr>block_size := SIZE_CLASSES ! nat class_index,
                      block_count := SIZE_CLASS_BLOCK_COUNT ! nat class_index\<rparr>)
      in d\<lparr>is_initialized := True, size_class_index := class_index,
           free_count := block_count d\<rparr>)"

definition cmalloc_initialize_span ::
  "platform \<Rightarrow> span_state \<Rightarrow> int \<Rightarrow> u64 \<Rightarrow> fault + ptr \<times> span_state" where
  "cmalloc_initialize_span os s class_index requested_size =
     (if class_index \<noteq> LARGE_CLASS_SIZE_INDEX
         \<and> (class_index < 0 \<or> class_index \<ge> int SIZE_CLASS_COUNT) then Inl Out_Of_Bounds
      else
        bindr (alloc_span os s (if class_index = LARGE_CLASS_SIZE_INDEX then requested_size
                                else SIZE_CLASS_SPAN_SIZE ! nat class_index))
          (\<lambda>(new, s).
             if new = NULL then Inl Assert_Failed
             else bindr (init_blocks (describe_span class_index requested_size (span_heap s new)))
                    (\<lambda>d. Inr (new, upd_span s new (\<lambda>_. d)))))"

definition cmalloc_get_span :: "span_state \<Rightarrow> ptr \<Rightarrow> fault + ptr" where
  "cmalloc_get_span s p = cmalloc_get (meta s) (page_map s) (round_down_page_index (rt s) p)"

end
