(* ===== verification/MetaArena.thy ===== *)
theory MetaArena
  imports Metadata
begin

text \<open>
  The chunk arena of the metadata allocator hands out disjoint blocks. A block is an address
  with a size; the invariant is stated over the set of all blocks carved so far, in use or in a
  free list: they are 16-byte aligned, pairwise disjoint, lie inside live mappings and outside
  the part of the current chunk that is still free.
\<close>

type_synonym block = "ptr \<times> u64"

definition block_bytes :: "block \<Rightarrow> nat set" where
  "block_bytes b = bytes (fst b) (unat (snd b))"

text \<open>
  What \<open>mmap\<close> documents for an anonymous mapping without a hint: it fails, or returns a
  non-null page-aligned address whose range lies in the 47-bit user space and overlaps no live
  mapping.
\<close>

definition mmap_result_ok :: "platform \<Rightarrow> mapping_list \<Rightarrow> u64 \<Rightarrow> ptr \<Rightarrow> bool" where
  "mmap_result_ok os maps len a \<longleftrightarrow>
     a = MAP_FAILED \<or>
     a \<noteq> NULL \<and> unat (sysconf_pagesize os) dvd unat a \<and> unat a + unat len \<le> 2 ^ 47 \<and>
     (\<forall>d\<in>set maps. block_bytes (a, len) \<inter> block_bytes d = {})"

definition os_ok :: "platform \<Rightarrow> bool" where
  "os_ok os \<longleftrightarrow> page_size_ok os \<and>
     (\<forall>maps len. 0 < unat len \<longrightarrow> mmap_result_ok os maps len (mmap os maps len))"

lemma os_ok_mmap:
  assumes "os_ok os" "0 < unat len" "mmap os maps len = a" "a \<noteq> MAP_FAILED"
  shows "a \<noteq> NULL" "unat (sysconf_pagesize os) dvd unat a" "unat a + unat len \<le> 2 ^ 47"
    and "d \<in> set maps \<Longrightarrow> block_bytes (a, len) \<inter> block_bytes d = {}"
proof -
  have "mmap_result_ok os maps len a"
    using assms(1-3) unfolding os_ok_def by blast
  with assms(4) show "a \<noteq> NULL" "unat (sysconf_pagesize os) dvd unat a"
    "unat a + unat len \<le> 2 ^ 47" "d \<in> set maps \<Longrightarrow> block_bytes (a, len) \<inter> block_bytes d = {}"
    unfolding mmap_result_ok_def by blast+
qed

lemma page_size_multiple: "page_size_ok os \<Longrightarrow> 16 dvd unat (sysconf_pagesize os)"
proof -
  assume "page_size_ok os"
  then obtain k where k: "12 \<le> k" "k \<le> 16" "sysconf_pagesize os = 2 ^ k"
    by (auto simp: page_size_ok_def)
  have "(2::nat) ^ 4 dvd 2 ^ k" using k(1) by (intro le_imp_power_dvd) simp
  with k(2,3) show ?thesis by (simp add: unat_exp64)
qed

section \<open>The invariant of the arena and of the carved blocks\<close>

definition cur_of :: "meta_state \<Rightarrow> ptr" where
  "cur_of m = chunk_cur (chunk_heap m (meta_arena m))"

definition end_of :: "meta_state \<Rightarrow> ptr" where
  "end_of m = chunk_end (chunk_heap m (meta_arena m))"

text \<open>The part of the current chunk not handed out yet.\<close>

definition room :: "meta_state \<Rightarrow> nat set" where
  "room m = (if meta_arena m = NULL then {} else {unat (cur_of m) ..< unat (end_of m)})"

definition arena_inv :: "meta_state \<Rightarrow> bool" where
  "arena_inv m \<longleftrightarrow> meta_arena m \<noteq> MAP_FAILED \<and>
     (meta_arena m \<noteq> NULL \<longrightarrow>
        0 < unat (cur_of m) \<and> 16 dvd unat (cur_of m) \<and> 16 dvd unat (end_of m) \<and>
        unat (cur_of m) \<le> unat (end_of m) \<and> unat (end_of m) \<le> 2 ^ 47 \<and>
        (\<exists>d\<in>set (mappings m). room m \<subseteq> block_bytes d))"

definition block_ok :: "meta_state \<Rightarrow> block \<Rightarrow> bool" where
  "block_ok m b \<longleftrightarrow>
     fst b \<noteq> NULL \<and> 16 dvd unat (fst b) \<and> 0 < unat (snd b) \<and>
     unat (fst b) + unat (snd b) \<le> 2 ^ 47 \<and> block_bytes b \<inter> room m = {} \<and>
     (\<exists>d\<in>set (mappings m). block_bytes b \<subseteq> block_bytes d)"

definition blocks_inv :: "block set \<Rightarrow> meta_state \<Rightarrow> bool" where
  "blocks_inv B m \<longleftrightarrow>
     (\<forall>b\<in>B. block_ok m b) \<and> (\<forall>b\<in>B. \<forall>c\<in>B. b \<noteq> c \<longrightarrow> block_bytes b \<inter> block_bytes c = {})"

lemma blocks_inv_mono: "blocks_inv B m \<Longrightarrow> C \<subseteq> B \<Longrightarrow> blocks_inv C m"
  unfolding blocks_inv_def by blast

lemma blocks_inv_same_addr:
  assumes "blocks_inv B m" "(p, s) \<in> B" "(p, t) \<in> B"
  shows "s = t"
proof (rule ccontr)
  assume "s \<noteq> t"
  with assms have "block_bytes (p, s) \<inter> block_bytes (p, t) = {}"
    unfolding blocks_inv_def by blast
  moreover from assms have "block_ok m (p, s)" "block_ok m (p, t)"
    unfolding blocks_inv_def by blast+
  then have "0 < unat s" "0 < unat t"
    by (simp_all add: block_ok_def)
  ultimately show False by (auto simp: block_bytes_def bytes_def)
qed

lemma blocks_inv_valid: "blocks_inv B m \<Longrightarrow> (p, s) \<in> B \<Longrightarrow> valid_ptr p"
proof -
  assume "blocks_inv B m" "(p, s) \<in> B"
  then have "block_ok m (p, s)"
    unfolding blocks_inv_def by blast
  then show "valid_ptr p" by (auto simp: valid_ptr_def block_ok_def)
qed

text \<open>The parts of the state the bump allocator leaves alone.\<close>

definition same_nodes :: "meta_state \<Rightarrow> meta_state \<Rightarrow> bool" where
  "same_nodes m m' \<longleftrightarrow>
     free_list_map m' = free_list_map m \<and> link_heap m' = link_heap m \<and>
     l1_heap m' = l1_heap m \<and> l2_heap m' = l2_heap m \<and> l3_heap m' = l3_heap m"

lemma same_nodes_refl [simp]: "same_nodes m m"
  by (simp add: same_nodes_def)

lemma same_nodes_reads:
  assumes "same_nodes m m'"
  shows "l1_at m' = l1_at m" "l2_at m' = l2_at m" "l3_at m' = l3_at m"
    "l2_count_at m' = l2_count_at m" "l3_count_at m' = l3_count_at m"
    "free_list_map m' = free_list_map m" "link_heap m' = link_heap m" "look m' = look m"
    "leaf_of m' = leaf_of m"
  using assms by (auto simp: same_nodes_def node_defs look_def leaf_of_def fun_eq_iff)

section \<open>Taking a block\<close>

lemma take_from_chunk_inv:
  assumes ar: "arena_inv m" "meta_arena m \<noteq> NULL" and B: "blocks_inv B m"
    and sz: "0 < unat sz" "unat (cur_of m) + unat sz \<le> unat (end_of m)"
    and run: "take_from_chunk m sz = (p, m')"
  shows "arena_inv m'" "blocks_inv (insert (p, sz) B) m'" "same_nodes m m'"
    and "p \<noteq> NULL" "\<forall>b\<in>B. block_bytes (p, sz) \<inter> block_bytes b = {}"
    and "mappings m' = mappings m"
proof -
  let ?cur = "unat (cur_of m)" and ?lim = "unat (end_of m)"
  from ar have a: "0 < ?cur" "16 dvd ?cur" "16 dvd ?lim" "?lim \<le> 2 ^ 47"
    and am: "\<exists>d\<in>set (mappings m). room m \<subseteq> block_bytes d" and nf: "meta_arena m \<noteq> MAP_FAILED"
    by (auto simp: arena_inv_def)
  have "unat (cur_of m + sz) = ?cur + unat sz"
    using sz(2) a(4) by (simp add: unat_plus_if')
  then have lo: "?cur + unat sz \<le> unat (align_up_ptr (cur_of m + sz))"
    and hi: "unat (align_up_ptr (cur_of m + sz)) \<le> ?lim"
    and al: "16 dvd unat (align_up_ptr (cur_of m + sz))"
    using sz(2) a(3,4) align_up_ptr_le [of "cur_of m + sz" ?lim]
      align_up_ptr_bounds [of "cur_of m + sz"] by simp_all
  from run have p: "p = cur_of m"
    and m': "m' = m\<lparr>chunk_heap := (chunk_heap m)(meta_arena m :=
                (chunk_heap m (meta_arena m))\<lparr>chunk_cur := align_up_ptr (cur_of m + sz)\<rparr>)\<rparr>"
    by (auto simp: take_from_chunk_def cur_of_def Let_def)
  have f: "cur_of m' = align_up_ptr (cur_of m + sz)" "end_of m' = end_of m"
    "meta_arena m' = meta_arena m" "mappings m' = mappings m"
    by (simp_all add: m' cur_of_def end_of_def)
  have rm: "room m = {?cur ..< ?lim}" using ar(2) by (simp add: room_def)
  have rm': "room m' = {unat (align_up_ptr (cur_of m + sz)) ..< ?lim}"
    using ar(2) f by (simp add: room_def)
  have sub: "room m' \<subseteq> room m" using lo by (auto simp: rm rm')
  have pb: "block_bytes (p, sz) = {?cur ..< ?cur + unat sz}"
    by (simp add: block_bytes_def bytes_def p)
  then have inr: "block_bytes (p, sz) \<subseteq> room m" using sz(2) by (auto simp: rm)
  show "arena_inv m'"
    using am sub lo hi al a nf unfolding arena_inv_def f by (auto dest: subset_trans [OF sub])
  show "same_nodes m m'" by (simp add: same_nodes_def m')
  show nn: "p \<noteq> NULL" using a(1) p by auto
  show dis: "\<forall>b\<in>B. block_bytes (p, sz) \<inter> block_bytes b = {}"
    using B inr unfolding blocks_inv_def block_ok_def by blast
  show "mappings m' = mappings m" by (rule f(4))
  have new: "block_ok m' (p, sz)"
    unfolding block_ok_def f(4)
  proof (intro conjI)
    show "block_bytes (p, sz) \<inter> room m' = {}" using lo by (auto simp: pb rm')
    show "\<exists>d\<in>set (mappings m). block_bytes (p, sz) \<subseteq> block_bytes d" using am inr by blast
  qed (use nn p a sz in auto)
  have old: "block_ok m' b" if "b \<in> B" for b
  proof -
    from B that have "block_ok m b" unfolding blocks_inv_def by blast
    then show ?thesis using sub unfolding block_ok_def f(4) by blast
  qed
  show "blocks_inv (insert (p, sz) B) m'"
    using new old dis B unfolding blocks_inv_def by blast
qed

lemma signed_fits:
  fixes a b sz :: u64
  assumes "unat a \<le> unat b" "unat b \<le> 2 ^ 47" "unat sz < 2 ^ 63" "\<not> sint (b - a) < sint sz"
  shows "unat a + unat sz \<le> unat b"
proof -
  have d: "unat (b - a) = unat b - unat a"
    using assms(1) by (intro unat_sub) (simp add: word_le_nat_alt)
  have "sint (b - a) = int (unat (b - a))" "sint sz = int (unat sz)"
    using assms(2,3) d by (intro sint_small; simp)+
  then have "int (unat sz) \<le> int (unat (b - a))"
    using assms(4) by (simp only: not_less)
  then have "unat sz \<le> unat b - unat a"
    by (simp only: d of_nat_le_iff)
  with assms(1) show ?thesis by linarith
qed

section \<open>Starting a new chunk\<close>

lemma new_chunk_inv:
  assumes os: "os_ok os" and B: "blocks_inv B m"
    and run: "sys_mmap os m META_CHUNK_SIZE = (a, m1)" and ok: "a \<noteq> MAP_FAILED"
  shows "arena_inv (new_chunk m1 a prev)" "meta_arena (new_chunk m1 a prev) \<noteq> NULL"
    and "blocks_inv B (new_chunk m1 a prev)" "same_nodes m (new_chunk m1 a prev)"
    and "unat (end_of (new_chunk m1 a prev)) - unat (cur_of (new_chunk m1 a prev)) = 4194272"
    and "mappings (new_chunk m1 a prev) = (a, META_CHUNK_SIZE) # mappings m"
proof -
  let ?m = "new_chunk m1 a prev"
  have len: "unat META_CHUNK_SIZE = 4194304" by (simp add: META_CHUNK_SIZE_def)
  from run ok have am: "mmap os (mappings m) META_CHUNK_SIZE = a"
    and m1: "m1 = m\<lparr>mappings := (a, META_CHUNK_SIZE) # mappings m\<rparr>"
    by (auto simp: sys_mmap_def Let_def split: if_splits)
  note r = os_ok_mmap [OF os _ am ok]
  have r1: "a \<noteq> NULL" "unat a + 4194304 \<le> 2 ^ 47" using r(1,3) len by simp_all
  have a16: "16 dvd unat a"
    using r(2) page_size_multiple os len by (auto simp: os_ok_def intro: dvd_trans)
  have dis: "block_bytes (a, META_CHUNK_SIZE) \<inter> block_bytes d = {}" if "d \<in> set (mappings m)" for d
    using r(4) that len by simp
  have "unat (a + sizeof_meta_chunk) = unat a + 24"
    using r1(2) by (simp add: sizeof_meta_chunk_def unat_plus_if')
  moreover from a16 obtain k where "unat a = 16 * k" by (elim dvdE)
  ultimately have cur: "unat (align_up_ptr (a + sizeof_meta_chunk)) = unat a + 32"
    using r1(2) by (simp add: align_up_ptr_value)
  have en: "unat (a + META_CHUNK_SIZE) = unat a + 4194304"
    using r1(2) len by (simp add: unat_plus_if')
  have f: "meta_arena ?m = a" "cur_of ?m = align_up_ptr (a + sizeof_meta_chunk)"
    "end_of ?m = a + META_CHUNK_SIZE" "mappings ?m = (a, META_CHUNK_SIZE) # mappings m"
    by (simp_all add: new_chunk_def cur_of_def end_of_def m1)
  have rm: "room ?m = {unat a + 32 ..< unat a + 4194304}"
    unfolding room_def f cur en using r1(1) by simp
  have sub: "room ?m \<subseteq> block_bytes (a, META_CHUNK_SIZE)"
    unfolding rm by (auto simp: block_bytes_def len)
  show "meta_arena ?m \<noteq> NULL" using r1(1) f by simp
  show "same_nodes m ?m" by (simp add: same_nodes_def new_chunk_def m1)
  show "unat (end_of ?m) - unat (cur_of ?m) = 4194272" by (simp add: f cur en)
  show "mappings ?m = (a, META_CHUNK_SIZE) # mappings m" by (rule f(4))
  show "arena_inv ?m"
    unfolding arena_inv_def f cur en using a16 r1 ok sub by auto
  have "block_ok ?m b" if "b \<in> B" for b
  proof -
    from B that have b: "block_ok m b" unfolding blocks_inv_def by blast
    then obtain d where d: "d \<in> set (mappings m)" "block_bytes b \<subseteq> block_bytes d"
      unfolding block_ok_def by blast
    with dis sub have "block_bytes b \<inter> room ?m = {}" by blast
    with b d show ?thesis unfolding block_ok_def f(4) by (auto intro: bexI)
  qed
  then show "blocks_inv B ?m" using B unfolding blocks_inv_def by blast
qed

text \<open>
  The bump allocator: unless it has no memory, it carves a block that overlaps no other, inside
  a live mapping, for every size up to \<open>META_CHUNK_SIZE - 32\<close>. It faults only when an
  earlier \<open>mmap\<close> failed.
\<close>

definition size_ok :: "u64 \<Rightarrow> bool" where
  "size_ok sz \<longleftrightarrow> 0 < unat sz \<and> unat sz \<le> 4194272"

lemma bump_alloc_inv:
  assumes os: "os_ok os" and ar: "arena_inv m" and B: "blocks_inv B m" and sz: "size_ok sz"
    and run: "bump_alloc os m sz = Inr (p, m')" and ok: "p \<noteq> NULL"
  shows "arena_inv m'" "blocks_inv (insert (p, sz) B) m'" "same_nodes m m'"
    and "\<forall>b\<in>B. block_bytes (p, sz) \<inter> block_bytes b = {}" "set (mappings m) \<subseteq> set (mappings m')"
proof -
  let ?full = "meta_arena m = NULL
           \<or> sint (chunk_end (chunk_heap m (meta_arena m)) - chunk_cur (chunk_heap m (meta_arena m)))
               < sint sz"
  have nf: "meta_arena m \<noteq> MAP_FAILED" using ar by (simp add: arena_inv_def)
  have goal: "arena_inv m' \<and> blocks_inv (insert (p, sz) B) m' \<and> same_nodes m m' \<and>
    (\<forall>b\<in>B. block_bytes (p, sz) \<inter> block_bytes b = {}) \<and> set (mappings m) \<subseteq> set (mappings m')"
  proof (cases ?full)
    case True
    obtain a m1 where mm: "sys_mmap os m META_CHUNK_SIZE = (a, m1)" by fastforce
    with run True nf ok have a: "a \<noteq> MAP_FAILED" "a \<noteq> NULL"
      and tk: "take_from_chunk (new_chunk m1 a (meta_arena m)) sz = (p, m')"
      by (auto simp: bump_alloc_def Let_def split: if_splits)
    let ?n = "new_chunk m1 a (meta_arena m)"
    note n = new_chunk_inv [OF os B mm a(1), of "meta_arena m"]
    have "unat (cur_of ?n) + unat sz \<le> unat (end_of ?n)"
      using n(5) sz by (simp only: size_ok_def) linarith
    note t = take_from_chunk_inv [OF n(1,2,3) _ this tk]
    have "same_nodes m m'"
      using n(4) t(3) sz by (simp add: same_nodes_def size_ok_def)
    with t n(6) sz show ?thesis by (auto simp: size_ok_def)
  next
    case False
    with run nf have tk: "take_from_chunk m sz = (p, m')"
      by (simp add: bump_alloc_def)
    from False have na: "meta_arena m \<noteq> NULL"
      and big: "\<not> sint (end_of m - cur_of m) < sint sz"
      by (auto simp: cur_of_def end_of_def)
    have "unat (cur_of m) + unat sz \<le> unat (end_of m)"
      using ar na sz big by (intro signed_fits) (auto simp: arena_inv_def size_ok_def)
    note t = take_from_chunk_inv [OF ar na B _ this tk]
    with sz show ?thesis by (simp add: size_ok_def)
  qed
  then show "arena_inv m'" "blocks_inv (insert (p, sz) B) m'" "same_nodes m m'"
    "\<forall>b\<in>B. block_bytes (p, sz) \<inter> block_bytes b = {}" "set (mappings m) \<subseteq> set (mappings m')"
    by blast+
qed

text \<open>With memory available the bump allocator returns a block.\<close>

definition chunk_available :: "platform \<Rightarrow> meta_state \<Rightarrow> bool" where
  "chunk_available os m \<longleftrightarrow> mmap os (mappings m) META_CHUNK_SIZE \<noteq> MAP_FAILED"

lemma bump_alloc_returns:
  assumes os: "os_ok os" and ar: "arena_inv m" and av: "chunk_available os m"
  obtains p m' where "bump_alloc os m sz = Inr (p, m')" "p \<noteq> NULL"
proof -
  let ?full = "meta_arena m = NULL
           \<or> sint (chunk_end (chunk_heap m (meta_arena m)) - chunk_cur (chunk_heap m (meta_arena m)))
               < sint sz"
  have nf: "meta_arena m \<noteq> MAP_FAILED" using ar by (simp add: arena_inv_def)
  show thesis
  proof (cases ?full)
    case True
    obtain a m1 where mm: "sys_mmap os m META_CHUNK_SIZE = (a, m1)" by fastforce
    then have am: "a = mmap os (mappings m) META_CHUNK_SIZE"
      by (auto simp: sys_mmap_def Let_def split: if_splits)
    with av have a: "a \<noteq> MAP_FAILED" by (simp add: chunk_available_def)
    have a0: "a \<noteq> NULL"
      using os_ok_mmap(1) [OF os _ am [symmetric] a] by (simp add: META_CHUNK_SIZE_def)
    let ?n = "new_chunk m1 a (meta_arena m)"
    have "bump_alloc os m sz = Inr (take_from_chunk ?n sz)"
      using True nf mm a a0 by (simp add: bump_alloc_def Let_def)
    moreover have "blocks_inv {} m" by (simp add: blocks_inv_def)
    note n = new_chunk_inv [OF os this mm a, of "meta_arena m"]
    have "fst (take_from_chunk ?n sz) = cur_of ?n"
      by (simp add: take_from_chunk_def cur_of_def Let_def)
    moreover have "cur_of ?n \<noteq> NULL"
      using n(1,2) by (auto simp: arena_inv_def)
    ultimately show thesis by (metis prod.collapse that)
  next
    case False
    with nf have "bump_alloc os m sz = Inr (take_from_chunk m sz)"
      by (simp add: bump_alloc_def)
    moreover have "fst (take_from_chunk m sz) = cur_of m"
      by (simp add: take_from_chunk_def cur_of_def Let_def)
    moreover have "cur_of m \<noteq> NULL"
      using False ar by (auto simp: arena_inv_def)
    ultimately show thesis by (metis prod.collapse that)
  qed
qed

end
