(* ===== verification/MetaInv.thy ===== *)
theory MetaInv
  imports MetaArena
begin

text \<open>
  The invariant of the whole metadata layer, over two pieces of bookkeeping the code does not
  store: the set \<open>A\<close> of blocks in use and, for each size, the list \<open>F\<close> of its free
  blocks. The size of a block tells its type, so the root nodes of the tries in use are the
  blocks of size \<open>sizeof_l1_node\<close>. The tries are trees (no node has two parents), the counts
  of every trie but \<open>free_list_map\<close> are the numbers of entries, and \<open>free_list_map\<close> holds
  for each size the head of a chain through exactly the free blocks of that size. Root nodes
  are never freed: the code leaves a new root as it is, relying on fresh pages being zero.
\<close>

section \<open>The invariant\<close>

definition roots :: "block set \<Rightarrow> ptr set" where
  "roots A = {r. (r, sizeof_l1_node) \<in> A}"

definition mid :: "block set \<Rightarrow> meta_state \<Rightarrow> ptr \<Rightarrow> bool" where
  "mid A m q \<longleftrightarrow> q \<noteq> NULL \<and> (\<exists>r i. r \<in> roots A \<and> l1_at m r i = q)"

definition leaf :: "block set \<Rightarrow> meta_state \<Rightarrow> ptr \<Rightarrow> bool" where
  "leaf A m n \<longleftrightarrow> n \<noteq> NULL \<and> (\<exists>q j. mid A m q \<and> l2_at m q j = n)"

definition trie_inv :: "block set \<Rightarrow> meta_state \<Rightarrow> bool" where
  "trie_inv A m \<longleftrightarrow>
     (\<forall>q. mid A m q \<longrightarrow> (q, sizeof_l2_node) \<in> A) \<and>
     (\<forall>n. leaf A m n \<longrightarrow> (n, sizeof_l3_node) \<in> A) \<and>
     (\<forall>r r' i i'. r \<in> roots A \<longrightarrow> r' \<in> roots A \<longrightarrow> l1_at m r i \<noteq> NULL \<longrightarrow>
        l1_at m r i = l1_at m r' i' \<longrightarrow> r = r' \<and> i = i') \<and>
     (\<forall>q q' j j'. mid A m q \<longrightarrow> mid A m q' \<longrightarrow> l2_at m q j \<noteq> NULL \<longrightarrow>
        l2_at m q j = l2_at m q' j' \<longrightarrow> q = q' \<and> j = j') \<and>
     (\<forall>r i. r \<notin> roots A \<longrightarrow> l1_at m r i = NULL)"

text \<open>A count is the number of entries of its node, all below the size of the array.\<close>

definition counted :: "(u64 \<Rightarrow> ptr) \<Rightarrow> u64 \<Rightarrow> u64 \<Rightarrow> bool" where
  "counted entries n cnt \<longleftrightarrow>
     {j. entries j \<noteq> NULL} \<subseteq> {..<n} \<and> cnt = word_of_nat (card {j. entries j \<noteq> NULL})"

definition counts_inv :: "block set \<Rightarrow> meta_state \<Rightarrow> bool" where
  "counts_inv A m \<longleftrightarrow>
     (\<forall>r\<in>roots A. r \<noteq> free_list_map m \<longrightarrow>
        (\<forall>i. l1_at m r i \<noteq> NULL \<longrightarrow>
           counted (l2_at m (l1_at m r i)) L2_SIZE (l2_count_at m (l1_at m r i)) \<and>
           (\<forall>j. l2_at m (l1_at m r i) j \<noteq> NULL \<longrightarrow>
              counted (l3_at m (l2_at m (l1_at m r i) j)) L3_SIZE
                (l3_count_at m (l2_at m (l1_at m r i) j)))))"

definition free_blocks :: "(u64 \<Rightarrow> ptr list) \<Rightarrow> block set" where
  "free_blocks F = {(p, s). p \<in> set (F s)}"

definition lists_inv :: "block set \<Rightarrow> (u64 \<Rightarrow> ptr list) \<Rightarrow> meta_state \<Rightarrow> bool" where
  "lists_inv A F m \<longleftrightarrow>
     F sizeof_l1_node = [] \<and>
     (if free_list_map m = NULL then \<forall>s. F s = []
      else free_list_map m \<in> roots A \<and>
           (\<forall>s. if unat s < 2 ^ 35 then chain (link_heap m) (look m (free_list_map m) s) (F s)
                else F s = []))"

definition meta_inv :: "block set \<Rightarrow> (u64 \<Rightarrow> ptr list) \<Rightarrow> meta_state \<Rightarrow> bool" where
  "meta_inv A F m \<longleftrightarrow>
     arena_inv m \<and> blocks_inv (A \<union> free_blocks F) m \<and> A \<inter> free_blocks F = {} \<and>
     trie_inv A m \<and> counts_inv A m \<and> lists_inv A F m"

lemma meta_invD:
  assumes "meta_inv A F m"
  shows "arena_inv m" "blocks_inv (A \<union> free_blocks F) m" "A \<inter> free_blocks F = {}"
    and "trie_inv A m" "counts_inv A m" "lists_inv A F m"
  using assms by (auto simp: meta_inv_def)

lemma root_valid: "meta_inv A F m \<Longrightarrow> r \<in> roots A \<Longrightarrow> valid_ptr r"
  by (rule blocks_inv_valid [OF meta_invD(2), where s = sizeof_l1_node])
     (auto simp: roots_def)

lemma free_list_map_root: "meta_inv A F m \<Longrightarrow> free_list_map m \<noteq> NULL \<Longrightarrow> free_list_map m \<in> roots A"
  using meta_invD(6) [of A F m] by (simp add: lists_inv_def)

lemma free_list_map_ok: "meta_inv A F m \<Longrightarrow> free_list_map m \<noteq> MAP_FAILED"
  using root_valid [of A F m "free_list_map m"] free_list_map_root [of A F m] by force

lemma trie_invI:
  assumes "\<And>q. mid A m q \<Longrightarrow> (q, sizeof_l2_node) \<in> A" "\<And>n. leaf A m n \<Longrightarrow> (n, sizeof_l3_node) \<in> A"
    and "\<And>r r' i i'. r \<in> roots A \<Longrightarrow> r' \<in> roots A \<Longrightarrow> l1_at m r i \<noteq> NULL \<Longrightarrow>
           l1_at m r i = l1_at m r' i' \<Longrightarrow> r = r' \<and> i = i'"
    and "\<And>q q' j j'. mid A m q \<Longrightarrow> mid A m q' \<Longrightarrow> l2_at m q j \<noteq> NULL \<Longrightarrow>
           l2_at m q j = l2_at m q' j' \<Longrightarrow> q = q' \<and> j = j'"
    and "\<And>r i. r \<notin> roots A \<Longrightarrow> l1_at m r i = NULL"
  shows "trie_inv A m"
  unfolding trie_inv_def using assms by blast

lemma trie_mid: "trie_inv A m \<Longrightarrow> mid A m q \<Longrightarrow> (q, sizeof_l2_node) \<in> A"
  and trie_leaf: "trie_inv A m \<Longrightarrow> leaf A m n \<Longrightarrow> (n, sizeof_l3_node) \<in> A"
  and trie_zero: "trie_inv A m \<Longrightarrow> r \<notin> roots A \<Longrightarrow> l1_at m r i = NULL"
  unfolding trie_inv_def by blast+

lemma trie_parent1:
  "trie_inv A m \<Longrightarrow> r \<in> roots A \<Longrightarrow> r' \<in> roots A \<Longrightarrow> l1_at m r i \<noteq> NULL \<Longrightarrow>
     l1_at m r i = l1_at m r' i' \<longleftrightarrow> r = r' \<and> i = i'"
  unfolding trie_inv_def by blast

lemma trie_parent2:
  "trie_inv A m \<Longrightarrow> mid A m q \<Longrightarrow> mid A m q' \<Longrightarrow> l2_at m q j \<noteq> NULL \<Longrightarrow>
     l2_at m q j = l2_at m q' j' \<longleftrightarrow> q = q' \<and> j = j'"
  unfolding trie_inv_def by blast

lemma midI: "r \<in> roots A \<Longrightarrow> l1_at m r i \<noteq> NULL \<Longrightarrow> mid A m (l1_at m r i)"
  unfolding mid_def by blast

section \<open>Storing into a slot\<close>

lemma put_slot_l3: "l3_at (put_slot m n i v) q = (if q = n then (l3_at m n)(i := v) else l3_at m q)"
  by (simp add: put_slot_def Let_def heap_simps fun_eq_iff)

lemma put_slot_reads [heap_simps]:
  "l1_at (put_slot m n i v) = l1_at m" "l2_at (put_slot m n i v) = l2_at m"
  "l3_at (put_slot m n i v) q j = (if q = n \<and> j = i then v else l3_at m q j)"
  "l2_count_at (put_slot m n i v) = l2_count_at m"
  "l3_count_at (put_slot m n i v) q =
     (if q = n \<and> l3_at m n i = NULL then l3_count_at m n + 1 else l3_count_at m q)"
  "meta_arena (put_slot m n i v) = meta_arena m" "free_list_map (put_slot m n i v) = free_list_map m"
  "chunk_heap (put_slot m n i v) = chunk_heap m" "mappings (put_slot m n i v) = mappings m"
  "link_heap (put_slot m n i v) = link_heap m"
  by (simp_all add: put_slot_def Let_def heap_simps fun_eq_iff)

lemma look_leaf:
  "valid_ptr r \<Longrightarrow> look m r key =
     (if path_present m r key then l3_at m (leaf_of m r key) (l3_index key) else NULL)"
  by (simp add: look_def path_present_def leaf_of_def)

text \<open>
  The tries are trees, so writing the slot of \<open>key\<close> below \<open>r\<close> changes that slot only.
\<close>

lemma same_leaf:
  assumes t: "trie_inv A m" and r: "r \<in> roots A" "r' \<in> roots A"
    and p: "path_present m r key" "path_present m r' key'"
  shows "leaf_of m r key = leaf_of m r' key' \<longleftrightarrow>
           r = r' \<and> l1_index key = l1_index key' \<and> l2_index key = l2_index key'"
proof -
  have m: "mid A m (l1_at m r (l1_index key))" "mid A m (l1_at m r' (l1_index key'))"
    using r p by (auto simp: path_present_def intro: midI)
  have "leaf_of m r key = leaf_of m r' key' \<longleftrightarrow>
          l1_at m r (l1_index key) = l1_at m r' (l1_index key') \<and> l2_index key = l2_index key'"
    unfolding leaf_of_def using p(1) by (intro trie_parent2 [OF t m]) (simp add: path_present_def)
  also have "l1_at m r (l1_index key) = l1_at m r' (l1_index key') \<longleftrightarrow> r = r' \<and> l1_index key = l1_index key'"
    using p(1) by (intro trie_parent1 [OF t r]) (simp add: path_present_def)
  finally show ?thesis by blast
qed

lemma look_put:
  assumes t: "trie_inv A m" and r: "r \<in> roots A" "r' \<in> roots A" and v: "valid_ptr r'"
    and p: "path_present m r key"
  shows "look (put_slot m (leaf_of m r key) (l3_index key) val) r' key' =
           (if r' = r \<and> same_slot key' key then val else look m r' key')"
proof -
  let ?m = "put_slot m (leaf_of m r key) (l3_index key) val"
  have same: "path_present ?m r' key' = path_present m r' key'" "leaf_of ?m r' key' = leaf_of m r' key'"
    by (simp_all add: path_present_def leaf_of_def heap_simps)
  show ?thesis
  proof (cases "path_present m r' key'")
    case True
    then show ?thesis
      using same_leaf [OF t r(2,1) True p] same v
      by (auto simp: look_leaf heap_simps same_slot_def)
  next
    case False
    with p same v show ?thesis
      by (auto simp: look_leaf path_present_def same_slot_def)
  qed
qed

end
