(* ===== verification/MetaAlloc.thy ===== *)
theory MetaAlloc
  imports MetaInv
begin

text \<open>
  \<open>cmalloc_alloc_metadata\<close> keeps the metadata invariant: it adds the block it returns to the
  blocks in use, taking it from the free list of its size when that is not empty and from a
  chunk otherwise, and changes no trie but \<open>free_list_map\<close>.
\<close>

section \<open>Parts of the invariant that an update leaves alone\<close>

lemma arena_inv_cong:
  "meta_arena m' = meta_arena m \<Longrightarrow> chunk_heap m' = chunk_heap m \<Longrightarrow> mappings m' = mappings m \<Longrightarrow>
     arena_inv m' = arena_inv m"
  by (simp add: arena_inv_def room_def cur_of_def end_of_def)

lemma blocks_inv_cong:
  "meta_arena m' = meta_arena m \<Longrightarrow> chunk_heap m' = chunk_heap m \<Longrightarrow> mappings m' = mappings m \<Longrightarrow>
     blocks_inv B m' = blocks_inv B m"
  by (simp add: blocks_inv_def block_ok_def room_def cur_of_def end_of_def)

lemma mid_cong: "roots A' = roots A \<Longrightarrow> l1_at m' = l1_at m \<Longrightarrow> mid A' m' = mid A m"
  by (simp add: mid_def fun_eq_iff)

lemma trie_inv_cong:
  assumes "trie_inv A m" "roots A' = roots A" "A \<subseteq> A'" "l1_at m' = l1_at m" "l2_at m' = l2_at m"
  shows "trie_inv A' m'"
proof -
  have md: "mid A' m' = mid A m" using assms(2,4) by (rule mid_cong)
  then have lf: "leaf A' m' = leaf A m" by (simp add: leaf_def assms(5) fun_eq_iff)
  note t = assms(1)
  show ?thesis
  proof (rule trie_invI, unfold md lf assms(2,4,5))
    show "q = q' \<and> j = j'" if "mid A m q" "mid A m q'" "l2_at m q j \<noteq> NULL" "l2_at m q j = l2_at m q' j'"
      for q q' j j' using trie_parent2 [OF t, of q q' j j'] that by simp
    show "r = r' \<and> i = i'" if "r \<in> roots A" "r' \<in> roots A" "l1_at m r i \<noteq> NULL" "l1_at m r i = l1_at m r' i'"
      for r r' i i' using trie_parent1 [OF t, of r r' i i'] that by simp
  qed (use assms(3) trie_mid [OF t] trie_leaf [OF t] trie_zero [OF t] in auto)
qed

text \<open>A new block starts without children: only a new root could have any.\<close>

lemma mid_insert:
  "(sz = sizeof_l1_node \<Longrightarrow> \<forall>i. l1_at m p i = NULL) \<Longrightarrow> mid (insert (p, sz) A) m = mid A m"
  by (auto simp: mid_def roots_def fun_eq_iff)

lemma trie_inv_insert:
  assumes "trie_inv A m" "(sz = sizeof_l1_node \<Longrightarrow> \<forall>i. l1_at m p i = NULL)"
  shows "trie_inv (insert (p, sz) A) m"
proof -
  let ?A = "insert (p, sz) A"
  have md: "mid ?A m = mid A m" using assms(2) by (rule mid_insert)
  then have lf: "leaf ?A m = leaf A m" by (simp add: leaf_def fun_eq_iff)
  have rt: "r \<in> roots A" if "r \<in> roots ?A" "l1_at m r i \<noteq> NULL" for r i
    using that assms(2) by (auto simp: roots_def)
  have nrt: "r \<notin> roots A" if "r \<notin> roots ?A" for r
    using that by (auto simp: roots_def)
  note t = assms(1)
  show ?thesis
  proof (rule trie_invI, unfold md lf)
    fix r r' i i'
    assume r: "r \<in> roots ?A" "r' \<in> roots ?A" "l1_at m r i \<noteq> NULL" "l1_at m r i = l1_at m r' i'"
    then have "r \<in> roots A" "r' \<in> roots A" using rt [of r i] rt [of r' i'] by simp_all
    with r show "r = r' \<and> i = i'"
      using trie_parent1 [OF t, of r r' i i'] by simp
  next
    fix q q' j j'
    assume "mid A m q" "mid A m q'" "l2_at m q j \<noteq> NULL" "l2_at m q j = l2_at m q' j'"
    then show "q = q' \<and> j = j'" using trie_parent2 [OF t, of q q' j j'] by simp
  qed (use trie_mid [OF t] trie_leaf [OF t] trie_zero [OF t] nrt in auto)
qed

lemma counts_inv_insert:
  assumes "counts_inv A m" "(sz = sizeof_l1_node \<Longrightarrow> \<forall>i. l1_at m p i = NULL)"
  shows "counts_inv (insert (p, sz) A) m"
  using assms by (auto simp: counts_inv_def roots_def)

text \<open>The blocks in use are not in a free list, whatever size they are listed under.\<close>

lemma meta_inv_same_addr:
  "meta_inv A F m \<Longrightarrow> (p, s) \<in> A \<union> free_blocks F \<Longrightarrow> (p, t) \<in> A \<union> free_blocks F \<Longrightarrow> s = t"
  using blocks_inv_same_addr meta_invD(2) by blast

lemma meta_inv_not_free: "meta_inv A F m \<Longrightarrow> (p, s) \<in> A \<Longrightarrow> p \<notin> set (F t)"
  using meta_inv_same_addr [of A F m p s t] meta_invD(3) [of A F m]
  by (auto simp: free_blocks_def)

section \<open>Writing a slot of \<open>free_list_map\<close>\<close>

lemma counts_inv_put_list:
  assumes t: "trie_inv A m" and c: "counts_inv A m" and f: "free_list_map m \<in> roots A"
    and p: "path_present m (free_list_map m) key"
  shows "counts_inv A (put_slot m (leaf_of m (free_list_map m) key) i v)"
proof -
  let ?f = "free_list_map m" let ?n = "leaf_of m ?f key"
  have "l2_at m (l1_at m r a) j \<noteq> ?n"
    if "r \<in> roots A" "r \<noteq> ?f" "l1_at m r a \<noteq> NULL" "l2_at m (l1_at m r a) j \<noteq> NULL" for r a j
  proof
    assume "l2_at m (l1_at m r a) j = ?n"
    then have "l1_at m r a = l1_at m ?f (l1_index key)"
      using that p f trie_parent2 [OF t midI midI, of r a ?f "l1_index key" j "l2_index key"]
      by (auto simp: leaf_of_def path_present_def)
    then show False
      using that f trie_parent1 [OF t that(1) f that(3)] by blast
  qed
  then show ?thesis
    using c by (simp add: counts_inv_def put_slot_l3 heap_simps)
qed

lemma chain_lists:
  assumes "meta_inv A F m" "free_list_map m \<noteq> NULL" "unat s < 2 ^ 35"
  shows "chain (link_heap m) (look m (free_list_map m) s) (F s)"
  using meta_invD(6) [OF assms(1)] assms(2,3) by (auto simp: lists_inv_def)

lemma lists_inv_put_list:
  assumes I: "meta_inv A F m" and f: "free_list_map m \<noteq> NULL" and sz: "unat sz < 2 ^ 35"
    and p: "path_present m (free_list_map m) sz" and n1: "sz \<noteq> sizeof_l1_node"
    and xs: "chain (link_heap m) v xs"
    and A': "roots A' = roots A" and F': "F' = F(sz := xs)"
  shows "lists_inv A' F' (put_slot m (leaf_of m (free_list_map m) sz) (l3_index sz) v)"
proof -
  have fr: "free_list_map m \<in> roots A" using I f by (rule free_list_map_root)
  have lk: "look (put_slot m (leaf_of m (free_list_map m) sz) (l3_index sz) v) (free_list_map m) s =
      (if s = sz then v else look m (free_list_map m) s)" if "unat s < 2 ^ 35" for s
    using look_put [OF meta_invD(4) [OF I] fr fr root_valid [OF I fr] p] that sz
    by (simp add: same_slot_small)
  show ?thesis
    using meta_invD(6) [OF I] f fr lk xs sz n1 by (auto simp: lists_inv_def A' F' heap_simps)
qed

lemma look_put_list:
  assumes I: "meta_inv A F m" and r: "r \<in> roots A" "r \<noteq> free_list_map m"
    and f: "free_list_map m \<noteq> NULL" and p: "path_present m (free_list_map m) key"
  shows "look (put_slot m (leaf_of m (free_list_map m) key) (l3_index key) v) r = look m r"
  using look_put [OF meta_invD(4) [OF I] free_list_map_root [OF I f] r(1) root_valid [OF I r(1)] p] r(2)
  by (auto simp: fun_eq_iff)

section \<open>Allocation\<close>

text \<open>What an allocation of \<open>p\<close> with size \<open>sz\<close> does, apart from the invariant.\<close>

definition alloc_effect :: "block set \<Rightarrow> meta_state \<Rightarrow> ptr \<Rightarrow> u64 \<Rightarrow> meta_state \<Rightarrow> bool" where
  "alloc_effect A m p sz m' \<longleftrightarrow>
     (\<forall>s. (p, s) \<notin> A) \<and> l1_at m' = l1_at m \<and> l2_at m' = l2_at m \<and> l2_count_at m' = l2_count_at m \<and>
     free_list_map m' = free_list_map m \<and> link_heap m' = link_heap m \<and>
     set (mappings m) \<subseteq> set (mappings m') \<and>
     (\<forall>r\<in>roots A. r \<noteq> free_list_map m \<longrightarrow> look m' r = look m r)"

lemma size_ok_small: "size_ok sz \<Longrightarrow> unat sz < 2 ^ 35"
  by (simp add: size_ok_def)

lemma free_head_hd:
  assumes I: "meta_inv A F m" and sz: "size_ok sz"
  shows "free_head m sz = (case F sz of [] \<Rightarrow> NULL | p # _ \<Rightarrow> p)"
proof (cases "free_list_map m = NULL")
  case True
  then show ?thesis
    using meta_invD(6) [OF I] by (simp add: free_head_def lists_inv_def)
next
  case False
  with chain_lists [OF I False size_ok_small [OF sz]] show ?thesis
    by (cases "F sz") (simp_all add: free_head_def)
qed

lemma alloc_pop:
  assumes I: "meta_inv A F m" and sz: "size_ok sz" and fs: "F sz = p # ps"
  defines "m' \<equiv> put_slot m (leaf_of m (free_list_map m) sz) (l3_index sz) (link_heap m p)"
  shows "cmalloc_alloc_metadata os m sz = Inr (p, m')" "p \<noteq> NULL"
    and "meta_inv (insert (p, sz) A) (F(sz := ps)) m'" "alloc_effect A m p sz m'"
    and "mappings m' = mappings m"
proof -
  let ?f = "free_list_map m"
  have h: "free_head m sz = p" using free_head_hd [OF I sz] fs by simp
  from meta_invD(6) [OF I] fs have f: "?f \<noteq> NULL" and n1: "sz \<noteq> sizeof_l1_node"
    by (auto simp: lists_inv_def split: if_splits)
  note fr = free_list_map_root [OF I f]
  have ch: "chain (link_heap m) p (p # ps)"
    using chain_lists [OF I f size_ok_small [OF sz]] h f fs by (simp add: free_head_def)
  then show p: "p \<noteq> NULL" by simp
  have pp: "path_present m ?f sz"
    using h p f root_valid [OF I fr] by (intro look_path) (simp_all add: free_head_def)
  show "cmalloc_alloc_metadata os m sz = Inr (p, m')"
    using alloc_from_free_list [OF free_list_map_ok [OF I], of sz os] h p by (simp add: m'_def)
  have rt: "roots (insert (p, sz) A) = roots A" using n1 by (auto simp: roots_def)
  have same: "insert (p, sz) A \<union> free_blocks (F(sz := ps)) = A \<union> free_blocks F"
    using fs by (auto simp: free_blocks_def split: if_splits)
  have dst: "p \<notin> set ps" using chain_distinct [OF ch] by simp
  have pn: "(p, s) \<notin> A" for s
    using meta_inv_not_free [OF I, of p s sz] fs by auto
  have fld: "meta_arena m' = meta_arena m" "chunk_heap m' = chunk_heap m" "mappings m' = mappings m"
    "l1_at m' = l1_at m" "l2_at m' = l2_at m" "l2_count_at m' = l2_count_at m"
    "link_heap m' = link_heap m" "free_list_map m' = free_list_map m"
    by (simp_all add: m'_def heap_simps)
  show "mappings m' = mappings m" by (rule fld)
  show "alloc_effect A m p sz m'"
    using look_put_list [OF I _ _ f pp] pn fld by (auto simp: alloc_effect_def m'_def)
  show "meta_inv (insert (p, sz) A) (F(sz := ps)) m'"
    unfolding meta_inv_def same
  proof (intro conjI)
    show "arena_inv m'" using meta_invD(1) [OF I] arena_inv_cong [OF fld(1-3)] by simp
    show "blocks_inv (A \<union> free_blocks F) m'"
      using meta_invD(2) [OF I] blocks_inv_cong [OF fld(1-3)] by simp
    show "insert (p, sz) A \<inter> free_blocks (F(sz := ps)) = {}"
      using meta_invD(3) [OF I] dst fs by (auto simp: free_blocks_def split: if_splits)
    show "trie_inv (insert (p, sz) A) m'"
      using meta_invD(4) [OF I] rt fld(4,5) by (auto intro: trie_inv_cong)
    have "counts_inv A m'"
      unfolding m'_def by (rule counts_inv_put_list [OF meta_invD(4,5) [OF I] fr pp])
    then show "counts_inv (insert (p, sz) A) m'" using n1 by (intro counts_inv_insert) simp_all
    show "lists_inv (insert (p, sz) A) (F(sz := ps)) m'"
      unfolding m'_def using ch
      by (intro lists_inv_put_list [OF I f size_ok_small [OF sz] pp n1 _ rt refl]) simp
  qed
qed

lemma alloc_bump:
  assumes os: "os_ok os" and I: "meta_inv A F m" and sz: "size_ok sz" and fs: "F sz = []"
    and run: "cmalloc_alloc_metadata os m sz = Inr (p, m')" and ok: "p \<noteq> NULL"
  shows "meta_inv (insert (p, sz) A) F m'" "alloc_effect A m p sz m'"
proof -
  have "free_head m sz = NULL" using free_head_hd [OF I sz] fs by simp
  with run have bump: "bump_alloc os m sz = Inr (p, m')"
    using alloc_from_chunk [OF free_list_map_ok [OF I], of sz os] by simp
  note b = bump_alloc_inv [OF os meta_invD(1,2) [OF I] sz bump ok]
  note rd = same_nodes_reads [OF b(3)]
  have szp: "0 < unat sz" using sz by (simp add: size_ok_def)
  have new: "(p, s) \<notin> A \<union> free_blocks F" for s
  proof
    assume m: "(p, s) \<in> A \<union> free_blocks F"
    then have "block_ok m (p, s)" using meta_invD(2) [OF I] unfolding blocks_inv_def by blast
    then have "0 < unat s" by (simp add: block_ok_def)
    moreover have "block_bytes (p, sz) \<inter> block_bytes (p, s) = {}" using b(4) m by blast
    ultimately show False using szp by (auto simp: block_bytes_def bytes_def)
  qed
  then have "p \<notin> roots A" by (auto simp: roots_def)
  then have l1: "\<forall>i. l1_at m' p i = NULL"
    using meta_invD(4) [OF I] rd(1) by (simp add: trie_inv_def)
  show "alloc_effect A m p sz m'"
    using new b(5) rd by (auto simp: alloc_effect_def)
  show "meta_inv (insert (p, sz) A) F m'"
    unfolding meta_inv_def
  proof (intro conjI)
    show "arena_inv m'" by (rule b(1))
    show "blocks_inv (insert (p, sz) A \<union> free_blocks F) m'" using b(2) by simp
    show "insert (p, sz) A \<inter> free_blocks F = {}" using meta_invD(3) [OF I] new by auto
    have "trie_inv A m'" using meta_invD(4) [OF I] rd by (auto intro: trie_inv_cong)
    then show "trie_inv (insert (p, sz) A) m'" using l1 by (intro trie_inv_insert)
    have "counts_inv A m'" using meta_invD(5) [OF I] by (simp add: counts_inv_def rd)
    then show "counts_inv (insert (p, sz) A) m'" using l1 by (intro counts_inv_insert)
    show "lists_inv (insert (p, sz) A) F m'"
      using meta_invD(6) [OF I] by (auto simp: lists_inv_def rd roots_def)
  qed
qed

lemma alloc_inv:
  assumes os: "os_ok os" and I: "meta_inv A F m" and sz: "size_ok sz"
    and run: "cmalloc_alloc_metadata os m sz = Inr (p, m')" and ok: "p \<noteq> NULL"
  shows "meta_inv (insert (p, sz) A) (F(sz := tl (F sz))) m'" "alloc_effect A m p sz m'"
proof -
  show "meta_inv (insert (p, sz) A) (F(sz := tl (F sz))) m'"
  proof (cases "F sz")
    case Nil
    then have "F(sz := tl (F sz)) = F" by (simp add: fun_upd_idem)
    with alloc_bump(1) [OF os I sz Nil run ok] show ?thesis by simp
  next
    case (Cons q qs)
    from alloc_pop(1) [OF I sz Cons, of os] run have "q = p"
      and m': "m' = put_slot m (leaf_of m (free_list_map m) sz) (l3_index sz) (link_heap m q)"
      by simp_all
    then show ?thesis using alloc_pop(3) [OF I sz Cons] Cons unfolding m' by simp
  qed
  show "alloc_effect A m p sz m'"
  proof (cases "F sz")
    case Nil
    then show ?thesis by (rule alloc_bump(2) [OF os I sz _ run ok])
  next
    case (Cons q qs)
    from alloc_pop(1) [OF I sz Cons, of os] run have "q = p"
      and m': "m' = put_slot m (leaf_of m (free_list_map m) sz) (l3_index sz) (link_heap m q)"
      by simp_all
    then show ?thesis using alloc_pop(4) [OF I sz Cons] unfolding m' by simp
  qed
qed

end
