(* ===== verification/MetaMap.thy ===== *)
theory MetaMap
  imports MetaPath
begin

text \<open>
  What \<open>cmalloc_map\<close> and \<open>cmalloc_free_metadata\<close> do to the metadata state. Making the
  path of a key only takes blocks of the two node sizes; after it the operation writes one slot.
  The second half shows that enough memory rules out every fault.
\<close>

section \<open>The path of a key\<close>

declare sizeof_nodes [simp del]

definition node_size :: "u64 \<Rightarrow> bool" where
  "node_size s \<longleftrightarrow> s = sizeof_l2_node \<or> s = sizeof_l3_node"

lemma size_ok_nodes: "size_ok sizeof_l1_node" "size_ok sizeof_l2_node" "size_ok sizeof_l3_node"
  by (simp_all add: size_ok_def sizeof_nodes)

text \<open>The nodes of the tries with roots in \<open>R\<close> stay as they are.\<close>

definition nodes_kept :: "ptr set \<Rightarrow> meta_state \<Rightarrow> meta_state \<Rightarrow> bool" where
  "nodes_kept R m m' \<longleftrightarrow>
     (\<forall>r\<in>R. l1_at m' r = l1_at m r \<and>
        (\<forall>i. l1_at m r i \<noteq> NULL \<longrightarrow> l2_at m' (l1_at m r i) = l2_at m (l1_at m r i)))"

lemma nodes_kept_same: "l1_at m' = l1_at m \<Longrightarrow> l2_at m' = l2_at m \<Longrightarrow> nodes_kept R m m'"
  by (simp add: nodes_kept_def)

lemma nodes_kept_trans: "nodes_kept R m m1 \<Longrightarrow> nodes_kept R1 m1 m2 \<Longrightarrow> R \<subseteq> R1 \<Longrightarrow> nodes_kept R m m2"
  unfolding nodes_kept_def by (metis subsetD)

text \<open>The state after some nodes below the root \<open>r0\<close> have been made.\<close>

definition grown :: "ptr \<Rightarrow> block set \<Rightarrow> (u64 \<Rightarrow> ptr list) \<Rightarrow> meta_state \<Rightarrow>
    block set \<Rightarrow> (u64 \<Rightarrow> ptr list) \<Rightarrow> meta_state \<Rightarrow> bool" where
  "grown r0 A F m A' F' m' \<longleftrightarrow>
     meta_inv A' F' m' \<and> A \<subseteq> A' \<and> (\<forall>b\<in>A' - A. node_size (snd b)) \<and>
     (\<forall>s. F' s \<noteq> F s \<longrightarrow> node_size s) \<and> (\<forall>s. F s = [] \<longrightarrow> F' s = []) \<and>
     free_list_map m' = free_list_map m \<and> link_heap m' = link_heap m \<and>
     set (mappings m) \<subseteq> set (mappings m') \<and> nodes_kept (roots A - {r0}) m m' \<and>
     (\<forall>r\<in>roots A. r \<noteq> free_list_map m \<longrightarrow> look m' r = look m r)"

lemma grown_refl: "meta_inv A F m \<Longrightarrow> grown r0 A F m A F m"
  by (simp add: grown_def nodes_kept_same)

lemma grown_roots: "grown r0 A F m A' F' m' \<Longrightarrow> roots A' = roots A"
proof -
  assume g: "grown r0 A F m A' F' m'"
  have n: "\<not> node_size sizeof_l1_node" by (simp add: node_size_def sizeof_nodes)
  from g have "\<forall>b\<in>A' - A. node_size (snd b)" by (simp add: grown_def)
  with n have "(r, sizeof_l1_node) \<in> A' \<Longrightarrow> (r, sizeof_l1_node) \<in> A" for r
    by (metis DiffI snd_conv)
  with g show ?thesis by (auto simp: grown_def roots_def)
qed

lemma grown_trans:
  assumes "grown r0 A F m A1 F1 m1" "grown r0 A1 F1 m1 A2 F2 m2"
  shows "grown r0 A F m A2 F2 m2"
proof -
  note rt = grown_roots [OF assms(1)]
  note g = assms [unfolded grown_def rt]
  show ?thesis
    unfolding grown_def
  proof (intro conjI)
    show "A \<subseteq> A2" "\<forall>b\<in>A2 - A. node_size (snd b)" "set (mappings m) \<subseteq> set (mappings m2)"
      using g by blast+
    show "\<forall>s. F2 s \<noteq> F s \<longrightarrow> node_size s" using g by metis
    show "\<forall>r\<in>roots A. r \<noteq> free_list_map m \<longrightarrow> look m2 r = look m r" using g by simp
    show "nodes_kept (roots A - {r0}) m m2"
      using g by (auto intro: nodes_kept_trans)
  qed (use g in simp_all)
qed

lemma make_mid_grown:
  assumes os: "os_ok os" and I: "meta_inv A F m" and r: "r \<in> roots A"
    and run: "make_mid os m r key = Inr m'"
  obtains A' F' where "grown r A F m A' F' m'" "mid A' m' (l1_at m' r (l1_index key))"
proof (cases "l1_at m r (l1_index key) = NULL")
  case False
  with run r I show thesis
    by (intro that [of A F]) (auto simp: make_mid_def intro: grown_refl midI)
next
  case True
  with run obtain p m1 where al: "cmalloc_alloc_metadata os m sizeof_l2_node = Inr (p, m1)"
    and p: "valid_ptr p" and m': "m' = link_mid m1 r (l1_index key) p"
    by (auto simp: make_mid_def link_mid_def bindr_eq_Inr split: if_splits)
  note a = alloc_inv [OF os I size_ok_nodes(2) al valid_ptr_not_NULL [OF p]]
  let ?A = "insert (p, sizeof_l2_node) A"
  note e = a(2) [unfolded alloc_effect_def]
  have rt: "roots ?A = roots A" by (auto simp: roots_def sizeof_nodes)
  have nm: "\<not> mid ?A m1 p"
    using e trie_mid [OF meta_invD(4) [OF I], of p] by (auto simp: mid_def rt)
  have l: "l1_at m1 r (l1_index key) = NULL" using e True by simp
  note k = link_mid_inv [OF a(1) _ nm valid_ptr_not_NULL [OF p] r [folded rt] l]
  note lk = link_mid_look [OF nm l, unfolded rt]
  have "mid ?A m1 = mid A m" using e rt by (intro mid_cong) simp_all
  then have "l1_at m r' i \<noteq> p" if "r' \<in> roots A" for r' i
    using nm p midI [OF that, of m i] by (metis valid_ptr_not_NULL)
  then have pk: "nodes_kept (roots A - {r}) m m'"
    using e by (auto simp: nodes_kept_def m' link_mid_reads)
  show thesis
  proof (rule that)
    show "grown r A F m ?A (F(sizeof_l2_node := tl (F sizeof_l2_node))) m'"
      using pk unfolding grown_def m' using k(1) e lk link_mid_reads(6) [of m1 r "l1_index key" p]
      by (auto simp: same_arena_def node_size_def)
    show "mid ?A m' (l1_at m' r (l1_index key))"
      using k(2) by (simp add: m' link_mid_reads)
  qed
qed

lemma make_leaf_grown:
  assumes os: "os_ok os" and I: "meta_inv A F m" and r: "r \<in> roots A"
    and q: "mid A m (l1_at m r (l1_index key))"
    and run: "make_leaf os m r key = Inr m'"
  obtains A' F' where "grown r A F m A' F' m'" "path_present m' r key"
proof (cases "leaf_of m r key = NULL")
  case False
  with run q I root_valid [OF I r] show thesis
    by (intro that [of A F]) (auto simp: make_leaf_def leaf_of_def path_present_def mid_def intro: grown_refl)
next
  case True
  let ?q = "l1_at m r (l1_index key)"
  from True run obtain p m1 where al: "cmalloc_alloc_metadata os m sizeof_l3_node = Inr (p, m1)"
    and p: "valid_ptr p" and m': "m' = link_leaf m1 ?q (l2_index key) p"
    by (auto simp: make_leaf_def leaf_of_def link_leaf_def bindr_eq_Inr Let_def split: if_splits)
  note a = alloc_inv [OF os I size_ok_nodes(3) al valid_ptr_not_NULL [OF p]]
  let ?A = "insert (p, sizeof_l3_node) A"
  note e = a(2) [unfolded alloc_effect_def]
  have rt: "roots ?A = roots A" by (auto simp: roots_def sizeof_nodes)
  have md: "mid ?A m1 = mid A m" using e rt by (intro mid_cong) simp_all
  have nl: "\<not> leaf ?A m1 p"
    using e trie_leaf [OF meta_invD(4) [OF I], of p] by (auto simp: leaf_def md)
  have l: "mid ?A m1 ?q" "l2_at m1 ?q (l2_index key) = NULL"
    using e True q by (simp_all add: md leaf_of_def)
  note k = link_leaf_inv [OF a(1) _ nl valid_ptr_not_NULL [OF p] l index_bounds(2)]
  note lk = link_leaf_look [OF nl l, unfolded rt]
  have "?q \<noteq> NULL" using q by (simp add: mid_def)
  then have "l1_at m r' i \<noteq> ?q" if "r' \<in> roots A" "r' \<noteq> r" for r' i
    using trie_parent1 [OF meta_invD(4) [OF I] r that(1), of "l1_index key" i] that(2) by auto
  then have pk: "nodes_kept (roots A - {r}) m m'"
    using e by (auto simp: nodes_kept_def m' link_leaf_reads)
  show thesis
  proof (rule that)
    show "grown r A F m ?A (F(sizeof_l3_node := tl (F sizeof_l3_node))) m'"
      using pk unfolding grown_def m' using k e lk link_leaf_reads(6) [of m1 ?q "l2_index key" p]
      by (auto simp: same_arena_def node_size_def)
    have "l1_at m' r (l1_index key) = ?q" using e by (simp add: m' link_leaf_reads)
    then show "path_present m' r key"
      using q p root_valid [OF I r] by (auto simp: path_present_def m' link_leaf_reads mid_def)
  qed
qed

text \<open>\<open>cmalloc_map\<close>: the path is made, then its slot is written.\<close>

lemma cmalloc_map_grown:
  assumes os: "os_ok os" and I: "meta_inv A F m" and r: "r \<in> roots A"
    and run: "cmalloc_map os m r v key = Inr m'"
  obtains A' F' n where "grown r A F m A' F' n" "path_present n r key"
    "m' = put_slot n (leaf_of n r key) (l3_index key) v" "path_present m r key \<Longrightarrow> A' = A \<and> F' = F \<and> n = m"
proof (cases "path_present m r key")
  case True
  with run I show thesis
    by (intro that [of A F m]) (auto simp: cmalloc_map_present intro: grown_refl)
next
  case False
  from run obtain m1 n where s: "make_mid os m r key = Inr m1" "make_leaf os m1 r key = Inr n"
    and m': "m' = put_slot n (leaf_of n r key) (l3_index key) v"
    by (auto simp: cmalloc_map_steps [OF root_valid [OF I r]] elim!: bindr_InrE)
  obtain A1 F1 where g: "grown r A F m A1 F1 m1" and q: "mid A1 m1 (l1_at m1 r (l1_index key))"
    using make_mid_grown [OF os I r s(1)] .
  have I1: "meta_inv A1 F1 m1" using g by (simp add: grown_def)
  have r1: "r \<in> roots A1" using r grown_roots [OF g] by simp
  obtain A2 F2 where "grown r A1 F1 m1 A2 F2 n" and "path_present n r key"
    using make_leaf_grown [OF os I1 r1 q s(2)] .
  with g m' False show thesis by (intro that [of A2 F2 n]) (auto intro: grown_trans)
qed

section \<open>Writing a slot of an ordinary map\<close>

lemma counts_inv_put:
  assumes I: "meta_inv A F m" and r: "r \<in> roots A" "r \<noteq> free_list_map m"
    and p: "path_present m r key"
    and n: "\<And>c. counted (l3_at m (leaf_of m r key)) L3_SIZE (l3_count_at m (leaf_of m r key)) \<Longrightarrow>
       counted ((l3_at m (leaf_of m r key))(l3_index key := v)) L3_SIZE c'"
    and m': "l1_at m' = l1_at m" "l2_at m' = l2_at m" "l2_count_at m' = l2_count_at m"
      "free_list_map m' = free_list_map m"
      "\<And>q. l3_at m' q = (if q = leaf_of m r key then (l3_at m q)(l3_index key := v) else l3_at m q)"
      "\<And>q. l3_count_at m' q = (if q = leaf_of m r key then c' else l3_count_at m q)"
  shows "counts_inv A m'"
  using meta_invD(5) [OF I] n r p unfolding counts_inv_def m'
  by (auto simp: leaf_of_def path_present_def)

lemma put_slot_same_arena: "same_arena m (put_slot m n i v)"
  by (simp add: same_arena_def heap_simps)

lemma put_slot_inv:
  assumes I: "meta_inv A F m" and r: "r \<in> roots A" "r \<noteq> free_list_map m"
    and p: "path_present m r key" and v: "v \<noteq> NULL"
  shows "meta_inv A F (put_slot m (leaf_of m r key) (l3_index key) v)"
proof -
  let ?n = "leaf_of m r key"
  let ?m = "put_slot m ?n (l3_index key) v"
  note t = meta_invD(4) [OF I]
  show ?thesis
  proof (rule meta_inv_same_arena [OF I put_slot_same_arena])
    show "trie_inv A ?m" using t by (rule trie_inv_cong) (simp_all add: heap_simps)
    show "counts_inv A ?m"
    proof (rule counts_inv_put [OF I r p, where v = v and
        c' = "if l3_at m ?n (l3_index key) = NULL then l3_count_at m ?n + 1 else l3_count_at m ?n"])
      show "counted ((l3_at m ?n)(l3_index key := v)) L3_SIZE
          (if l3_at m ?n (l3_index key) = NULL then l3_count_at m ?n + 1 else l3_count_at m ?n)"
        if "counted (l3_at m ?n) L3_SIZE (l3_count_at m ?n)"
        using counted_insert [OF that index_bounds(3) v] .
    qed (auto simp: put_slot_l3 heap_simps)
    show "look ?m (free_list_map m) = look m (free_list_map m)" if "free_list_map m \<in> roots A"
      using look_put [OF t r(1) that root_valid [OF I that] p] r(2) by (auto simp: fun_eq_iff)
  qed
qed

lemma cmalloc_map_spec:
  assumes os: "os_ok os" and I: "meta_inv A F m" and r: "r \<in> roots A" "r \<noteq> free_list_map m"
    and v: "v \<noteq> NULL" and run: "cmalloc_map os m r v key = Inr m'"
  obtains A' F' where "meta_inv A' F' m'" "A \<subseteq> A'" "\<forall>b\<in>A' - A. node_size (snd b)"
    "free_list_map m' = free_list_map m" "set (mappings m) \<subseteq> set (mappings m')"
    "\<forall>k. look m' r k = (if same_slot k key then v else look m r k)"
    "\<forall>r'\<in>roots A. r' \<noteq> r \<and> r' \<noteq> free_list_map m \<longrightarrow> look m' r' = look m r'"
proof -
  obtain A' F' n where g: "grown r A F m A' F' n" and p: "path_present n r key"
    and m': "m' = put_slot n (leaf_of n r key) (l3_index key) v"
    using cmalloc_map_grown [OF os I r(1) run] .
  from g have In: "meta_inv A' F' n" and f: "free_list_map n = free_list_map m"
    and lk: "\<And>r. r \<in> roots A \<Longrightarrow> r \<noteq> free_list_map m \<Longrightarrow> look n r = look m r"
    by (auto simp: grown_def)
  note rt = grown_roots [OF g]
  have rA: "r \<in> roots A'" "r \<noteq> free_list_map n" using r rt f by simp_all
  note put = look_put [OF meta_invD(4) [OF In] rA(1) _ root_valid [OF In] p]
  show thesis
  proof (rule that)
    show "meta_inv A' F' m'" unfolding m' by (rule put_slot_inv [OF In rA p v])
    show "\<forall>k. look m' r k = (if same_slot k key then v else look m r k)"
      unfolding m' using put [OF rA(1) rA(1)] lk r by simp
    show "\<forall>r'\<in>roots A. r' \<noteq> r \<and> r' \<noteq> free_list_map m \<longrightarrow> look m' r' = look m r'"
    proof (intro ballI impI ext, elim conjE)
      fix r' k assume "r' \<in> roots A" "r' \<noteq> r" "r' \<noteq> free_list_map m"
      then show "look m' r' k = look m r' k"
        unfolding m' using put [of r' v k] rt lk by simp
    qed
  qed (use g in \<open>auto simp: grown_def m' heap_simps\<close>)
qed

end
