(* ===== verification/MetaFree.thy ===== *)
theory MetaFree
  imports MetaMap
begin

text \<open>
  \<open>cmalloc_free_metadata\<close> pushes a block on the free list of its size, and
  \<open>cmalloc_unmap\<close> clears a slot and frees the nodes it leaves empty. In \<open>cmalloc_unmap\<close>
  a node is freed before the link to it is cleared; the proofs reorder the two.
\<close>

section \<open>The link word of a block in use\<close>

lemma set_link_nodes:
  "l1_at (set_link m p v) = l1_at m" "l2_at (set_link m p v) = l2_at m"
  "l3_at (set_link m p v) = l3_at m" "l2_count_at (set_link m p v) = l2_count_at m"
  "l3_count_at (set_link m p v) = l3_count_at m"
  by (simp_all add: fun_eq_iff heap_simps)

lemma look_set_link: "look (set_link m p v) = look m"
  by (simp add: look_def set_link_nodes fun_eq_iff)

lemma set_link_inv:
  assumes I: "meta_inv A F m" and p: "(p, s) \<in> A"
  shows "meta_inv A F (set_link m p v)"
proof -
  have "chain ((link_heap m)(p := v)) h (F t) = chain (link_heap m) h (F t)" for h t
    using meta_inv_not_free [OF I p, of t] by simp
  then have "lists_inv A F (set_link m p v)"
    using meta_invD(6) [OF I] by (simp add: lists_inv_def look_set_link heap_simps cong: if_cong)
  moreover have "counts_inv A (set_link m p v)"
    using meta_invD(5) [OF I] by (simp add: counts_inv_def set_link_nodes heap_simps)
  moreover have "trie_inv A (set_link m p v)"
    using meta_invD(4) [OF I] by (rule trie_inv_cong) (simp_all add: heap_simps fun_eq_iff)
  ultimately show ?thesis
    using meta_invD(1,2,3) [OF I] arena_inv_cong [of "set_link m p v" m]
      blocks_inv_cong [of "set_link m p v" m]
    by (simp add: meta_inv_def heap_simps)
qed

section \<open>Pushing a block\<close>

lemma push_inv:
  assumes I: "meta_inv A F m" and p: "(p, sz) \<in> A" "\<not> mid A m p" "\<not> leaf A m p"
    and sz: "size_ok sz" "sz \<noteq> sizeof_l1_node" and f: "free_list_map m \<noteq> NULL"
    and pp: "path_present m (free_list_map m) sz"
    and lk: "link_heap m p = look m (free_list_map m) sz"
  shows "meta_inv (A - {(p, sz)}) (F(sz := p # F sz))
           (put_slot m (leaf_of m (free_list_map m) sz) (l3_index sz) p)"
proof -
  let ?A = "A - {(p, sz)}" and ?F = "F(sz := p # F sz)"
  let ?m = "put_slot m (leaf_of m (free_list_map m) sz) (l3_index sz) p"
  have rt: "roots ?A = roots A" using sz(2) by (auto simp: roots_def)
  have blocks: "?A \<union> free_blocks ?F = A \<union> free_blocks F"
    using p(1) by (auto simp: free_blocks_def split: if_splits)
  note t = meta_invD(4) [OF I]
  have md: "mid ?A ?m = mid A m" using rt by (intro mid_cong) (simp_all add: heap_simps)
  have lf: "leaf ?A ?m = leaf A m" by (simp add: leaf_def md heap_simps fun_eq_iff)
  show ?thesis
    unfolding meta_inv_def blocks
  proof (intro conjI)
    show "arena_inv ?m" using meta_invD(1) [OF I] arena_inv_cong [of ?m m] by (simp add: heap_simps)
    show "blocks_inv (A \<union> free_blocks F) ?m"
      using meta_invD(2) [OF I] blocks_inv_cong [of ?m m] by (simp add: heap_simps)
    show "?A \<inter> free_blocks ?F = {}"
      using meta_invD(3) [OF I] by (auto simp: free_blocks_def split: if_splits)
    show "trie_inv ?A ?m"
    proof (rule trie_invI, unfold md lf rt)
      show "(q, sizeof_l2_node) \<in> ?A" if "mid A m q" for q
        using trie_mid [OF t that] that p(2) by auto
      show "(n, sizeof_l3_node) \<in> ?A" if "leaf A m n" for n
        using trie_leaf [OF t that] that p(3) by auto
      show "l1_at ?m r i = NULL" if "r \<notin> roots A" for r i
        using trie_zero [OF t that] by (simp add: heap_simps)
      show "r = r' \<and> i = i'"
        if "r \<in> roots A" "r' \<in> roots A" "l1_at ?m r i \<noteq> NULL" "l1_at ?m r i = l1_at ?m r' i'" for r r' i i'
        using that trie_parent1 [OF t, of r r' i i'] by (simp add: heap_simps)
      show "q = q' \<and> j = j'"
        if "mid A m q" "mid A m q'" "l2_at ?m q j \<noteq> NULL" "l2_at ?m q j = l2_at ?m q' j'" for q q' j j'
        using that trie_parent2 [OF t, of q q' j j'] by (simp add: heap_simps)
    qed
    have "counts_inv A ?m"
      by (rule counts_inv_put_list [OF t meta_invD(5) [OF I] free_list_map_root [OF I f] pp])
    then show "counts_inv ?A ?m" by (simp add: counts_inv_def rt)
    have "chain (link_heap m) p (p # F sz)"
      using chain_lists [OF I f size_ok_small [OF sz(1)]] lk
        blocks_inv_valid [OF meta_invD(2) [OF I], of p sz] p(1) by auto
    then show "lists_inv ?A ?F ?m"
      by (rule lists_inv_put_list [OF I f size_ok_small [OF sz(1)] pp sz(2) _ rt refl])
  qed
qed

section \<open>\<open>cmalloc_free_metadata\<close> up to its last store\<close>

text \<open>
  The state before the block is entered as the head of its free list: \<open>free_list_map\<close>
  exists, the path of the size is made, and the block links to the old head.
\<close>

definition ready_to_push :: "block set \<Rightarrow> (u64 \<Rightarrow> ptr list) \<Rightarrow> meta_state \<Rightarrow> ptr \<Rightarrow> u64 \<Rightarrow>
    block set \<Rightarrow> (u64 \<Rightarrow> ptr list) \<Rightarrow> meta_state \<Rightarrow> bool" where
  "ready_to_push A F m p sz A' F' n \<longleftrightarrow>
     meta_inv A' F' n \<and> A \<subseteq> A' \<and> (\<forall>b\<in>A' - A. node_size (snd b) \<or> snd b = sizeof_l1_node) \<and>
     (\<forall>s. F' s \<noteq> F s \<longrightarrow> node_size s) \<and> (\<forall>s. F s = [] \<longrightarrow> F' s = []) \<and>
     free_list_map n \<noteq> NULL \<and> path_present n (free_list_map n) sz \<and>
     link_heap n p = look n (free_list_map n) sz \<and>
     set (mappings m) \<subseteq> set (mappings n) \<and> nodes_kept (roots A - {free_list_map m}) m n \<and>
     (\<forall>r\<in>roots A. r \<noteq> free_list_map m \<longrightarrow> r \<noteq> free_list_map n \<and> look n r = look m r)"

text \<open>The first call makes \<open>free_list_map\<close>.\<close>

lemma init_free_list_map:
  assumes os: "os_ok os" and I: "meta_inv A F m" and f: "free_list_map m = NULL"
    and run: "cmalloc_initialize_range_map os m = Inr (q, m1)" and q: "q \<noteq> NULL"
  defines "m2 \<equiv> m1\<lparr>free_list_map := q\<rparr>"
  shows "meta_inv (insert (q, sizeof_l1_node) A) F m2" "nodes_kept R m m2"
    and "set (mappings m) \<subseteq> set (mappings m2)"
    and "\<forall>r\<in>roots A. r \<noteq> free_list_map m \<longrightarrow> r \<noteq> q \<and> look m2 r = look m r"
    and "\<forall>s. (q, s) \<notin> A"
proof -
  have F: "F s = []" for s using meta_invD(6) [OF I] f by (simp add: lists_inv_def)
  have Ftl: "F(sizeof_l1_node := tl (F sizeof_l1_node)) = F" by (simp add: F fun_upd_idem)
  note a = alloc_inv [OF os I size_ok_nodes(1) run [unfolded cmalloc_initialize_range_map_def] q,
      unfolded Ftl]
  note e = a(2) [unfolded alloc_effect_def]
  from e show new: "\<forall>s. (q, s) \<notin> A" by blast
  then have "q \<notin> roots A" by (auto simp: roots_def)
  then have "l1_at m1 q i = NULL" for i
    using e trie_zero [OF meta_invD(4) [OF I], of q i] by simp
  then have lq: "look m2 q s = NULL" for s
    by (simp add: m2_def look_def heap_simps)
  have lk: "look m2 = look m1" by (simp add: m2_def look_def heap_simps fun_eq_iff)
  let ?A = "insert (q, sizeof_l1_node) A"
  have rt: "roots ?A = insert q (roots A)" by (auto simp: roots_def)
  show "\<forall>r\<in>roots A. r \<noteq> free_list_map m \<longrightarrow> r \<noteq> q \<and> look m2 r = look m r"
    using e \<open>q \<notin> roots A\<close> by (auto simp: lk)
  show "set (mappings m) \<subseteq> set (mappings m2)" using e by (simp add: m2_def)
  show "nodes_kept R m m2" using e by (intro nodes_kept_same) (simp_all add: m2_def heap_simps)
  have "trie_inv ?A m2"
    using meta_invD(4) [OF a(1)] by (rule trie_inv_cong) (simp_all add: m2_def heap_simps)
  moreover have "counts_inv ?A m2"
    using meta_invD(5) [OF a(1)] e f root_valid [OF a(1)]
    by (auto simp: counts_inv_def m2_def heap_simps)
  moreover have "lists_inv ?A F m2"
    using q lq F by (auto simp: lists_inv_def m2_def rt)
  moreover have "arena_inv m2 = arena_inv m1" "blocks_inv (?A \<union> free_blocks F) m2 = blocks_inv (?A \<union> free_blocks F) m1"
    by (rule arena_inv_cong blocks_inv_cong; simp add: m2_def)+
  ultimately show "meta_inv ?A F m2"
    using meta_invD(1,2,3) [OF a(1)] by (simp add: meta_inv_def)
qed

lemma free_metadata_ready:
  assumes os: "os_ok os" and I: "meta_inv A F m" and p: "(p, sz) \<in> A"
    and sz: "size_ok sz" "sz \<noteq> sizeof_l1_node"
    and run: "cmalloc_free_metadata os m p sz = Inr m'"
  obtains A' F' n where "ready_to_push A F m p sz A' F' n"
    "m' = put_slot n (leaf_of n (free_list_map n) sz) (l3_index sz) p"
    "path_present m (free_list_map m) sz \<Longrightarrow> A' = A \<and> F' = F \<and> mappings n = mappings m"
proof -
  let ?init = "if free_list_map m = NULL then
          bindr (cmalloc_initialize_range_map os m) (\<lambda>(q, m). Inr (m\<lparr>free_list_map := q\<rparr>))
        else Inr m"
  from run obtain m1 head where i: "?init = Inr m1"
    and g: "cmalloc_get m1 (free_list_map m1) sz = Inr head"
    and mp: "cmalloc_map os (set_link m1 p head) (free_list_map m1) p sz = Inr m'"
    by (auto simp: cmalloc_free_metadata_def elim!: bindr_InrE split: if_splits)
  have fv: "valid_ptr (free_list_map m1)"
    using g by (auto simp: cmalloc_get_def split: if_splits)
  with g have hd: "head = look m1 (free_list_map m1) sz" by (simp add: cmalloc_get_look)
  obtain A1 where A1: "meta_inv A1 F m1" "A \<subseteq> A1" "\<forall>b\<in>A1 - A. snd b = sizeof_l1_node"
    "set (mappings m) \<subseteq> set (mappings m1)" "nodes_kept (roots A) m m1"
    "\<forall>r\<in>roots A. r \<noteq> free_list_map m \<longrightarrow> r \<noteq> free_list_map m1 \<and> look m1 r = look m r"
    "free_list_map m \<noteq> NULL \<Longrightarrow> A1 = A \<and> m1 = m"
  proof (cases "free_list_map m = NULL")
    case True
    with i obtain q m0 where q: "cmalloc_initialize_range_map os m = Inr (q, m0)"
      and m1: "m1 = m0\<lparr>free_list_map := q\<rparr>" by (auto elim!: bindr_InrE)
    with fv have "q \<noteq> NULL" by auto
    note n = init_free_list_map [OF os I True q this, folded m1]
    show thesis
      using n True by (intro that [of "insert (q, sizeof_l1_node) A"]) (auto simp: m1)
  next
    case False
    with i I show thesis by (intro that [of A]) (auto intro: nodes_kept_same)
  qed
  have p1: "(p, sz) \<in> A1" using p A1(2) by blast
  let ?l = "set_link m1 p head"
  note L = set_link_inv [OF A1(1) p1, of head]
  have fr: "free_list_map m1 \<in> roots A1"
    using fv by (intro free_list_map_root [OF A1(1)]) auto
  obtain A' F' n where gr: "grown (free_list_map m1) A1 F ?l A' F' n" and pp: "path_present n (free_list_map m1) sz"
    and m': "m' = put_slot n (leaf_of n (free_list_map m1) sz) (l3_index sz) p"
    and sm: "path_present ?l (free_list_map m1) sz \<Longrightarrow> A' = A1 \<and> F' = F \<and> n = ?l"
    by (rule cmalloc_map_grown [OF os L fr mp]) blast
  note G = gr [unfolded grown_def]
  have fn: "free_list_map n = free_list_map m1" using G by (simp add: heap_simps)
  have pl: "path_present ?l (free_list_map m1) sz = path_present m1 (free_list_map m1) sz"
    by (simp add: path_present_def heap_simps)
  have lp: "link_heap n p = look n (free_list_map m1) sz"
  proof (cases "path_present m1 (free_list_map m1) sz")
    case True
    with pl sm show ?thesis by (simp add: heap_simps hd look_set_link)
  next
    case False
    then have h: "head = NULL" using hd fv by (auto dest: look_path)
    have nn: "free_list_map m1 \<noteq> NULL" using fv by auto
    have "F sz = []"
      using chain_lists [OF A1(1) nn size_ok_small [OF sz(1)]] h hd by simp
    then have "F' sz = []" using G by blast
    moreover have "meta_inv A' F' n" using G by blast
    ultimately have "look n (free_list_map m1) sz = NULL"
      using chain_lists [of A' F' n sz] nn size_ok_small [OF sz(1)] by (simp add: fn)
    then show ?thesis using G h by (simp add: heap_simps)
  qed
  have rt: "roots A \<subseteq> roots A1" using A1(2) by (auto simp: roots_def)
  have k0: "nodes_kept (roots A - {free_list_map m}) m ?l"
    using A1(5) by (simp add: nodes_kept_def set_link_nodes)
  show thesis
  proof (rule that)
    show "ready_to_push A F m p sz A' F' n"
      unfolding ready_to_push_def fn
    proof (intro conjI)
      show "A \<subseteq> A'" "\<forall>b\<in>A' - A. node_size (snd b) \<or> snd b = sizeof_l1_node"
        using A1(2,3) G by blast+
      show "set (mappings m) \<subseteq> set (mappings n)" using A1(4) G by (simp add: heap_simps) blast
      have "roots A - {free_list_map m} \<subseteq> roots A1 - {free_list_map m1}" using A1(6) rt by blast
      then show "nodes_kept (roots A - {free_list_map m}) m n"
        using nodes_kept_trans [OF k0] G by blast
      show "\<forall>r\<in>roots A. r \<noteq> free_list_map m \<longrightarrow> r \<noteq> free_list_map m1 \<and> look n r = look m r"
        using A1(6) G rt by (auto simp: look_set_link heap_simps)
    qed (use G pp lp fv in auto)
    show "m' = put_slot n (leaf_of n (free_list_map n) sz) (l3_index sz) p" by (simp add: m' fn)
    show "A' = A \<and> F' = F \<and> mappings n = mappings m" if x: "path_present m (free_list_map m) sz"
    proof -
      from x have "free_list_map m \<noteq> NULL" by (auto simp: path_present_def)
      with A1(7) x pl sm show ?thesis by (auto simp: heap_simps)
    qed
  qed
qed

end
