(* ===== verification/MetaUnmap.thy ===== *)
theory MetaUnmap
  imports MetaFree
begin

text \<open>
  \<open>cmalloc_free_metadata\<close> on a block of the client and \<open>cmalloc_unmap\<close>: what they do to
  the blocks in use and to the lookups.
\<close>

section \<open>Clearing links\<close>

definition unlink_leaf :: "meta_state \<Rightarrow> ptr \<Rightarrow> u64 \<Rightarrow> meta_state" where
  "unlink_leaf m q j = (let m = set_l2 m q j NULL in set_l2_count m q (l2_count_at m q - 1))"

lemma unlink_leaf_reads:
  "l1_at (unlink_leaf m q j) = l1_at m"
  "l2_at (unlink_leaf m q j) q' = (if q' = q then (l2_at m q)(j := NULL) else l2_at m q')"
  "l2_count_at (unlink_leaf m q j) q' = (if q' = q then l2_count_at m q - 1 else l2_count_at m q')"
  "l3_at (unlink_leaf m q j) = l3_at m" "l3_count_at (unlink_leaf m q j) = l3_count_at m"
  "same_arena m (unlink_leaf m q j)"
  by (auto simp: unlink_leaf_def heap_simps fun_eq_iff same_arena_def Let_def)

lemma same_mid:
  assumes "trie_inv A m" "r \<in> roots A" "r' \<in> roots A" "l1_at m r i \<noteq> NULL"
  shows "l1_at m r' i' = l1_at m r i \<longleftrightarrow> r' = r \<and> i' = i"
  using trie_parent1 [OF assms] by metis

lemma unlink_leaf_inv:
  assumes I: "meta_inv A F m" and r: "r \<in> roots A" "r \<noteq> free_list_map m"
    and q: "l1_at m r i = q" "q \<noteq> NULL" and n: "l2_at m q j = n" "n \<noteq> NULL"
    and none: "\<And>k. l1_index k = i \<Longrightarrow> l2_index k = j \<Longrightarrow> look m r k = NULL"
  shows "meta_inv A F (unlink_leaf m q j)" "\<not> leaf A (unlink_leaf m q j) n"
    and "r' \<in> roots A \<Longrightarrow> look (unlink_leaf m q j) r' = look m r'"
proof -
  let ?m = "unlink_leaf m q j"
  note t = meta_invD(4) [OF I]
  have mq: "mid A m q" using midI [OF r(1), of m i] q by simp
  have sq: "l1_at m r' i' = q \<longleftrightarrow> r' = r \<and> i' = i" if "r' \<in> roots A" for r' i'
    using same_mid [OF t r(1) that, of i i'] q by simp
  show lk: "look ?m r' = look m r'" if "r' \<in> roots A" for r'
  proof
    fix k
    show "look ?m r' k = look m r' k"
      using sq [OF that, of "l1_index k"] none [of k] by (auto simp: look_def unlink_leaf_reads)
  qed
  have md: "mid A ?m = mid A m" by (simp add: mid_def unlink_leaf_reads fun_eq_iff)
  have lf: "leaf A ?m x \<Longrightarrow> leaf A m x" for x
    by (auto simp: leaf_def md unlink_leaf_reads split: if_splits)
  show "\<not> leaf A ?m n"
  proof
    assume "leaf A ?m n"
    then obtain q' j' where x: "mid A m q'" "l2_at ?m q' j' = n" by (auto simp: leaf_def md)
    then have "\<not> (q' = q \<and> j' = j)" using n(2) by (auto simp: unlink_leaf_reads)
    moreover from this have "l2_at m q' j' = n" using x(2) by (auto simp: unlink_leaf_reads split: if_splits)
    ultimately show False
      using trie_parent2 [OF t mq x(1), of j j'] n by auto
  qed
  have "trie_inv A ?m"
  proof (rule trie_invI)
    show "(x, sizeof_l2_node) \<in> A" if "mid A ?m x" for x using trie_mid [OF t] that by (simp add: md)
    show "(x, sizeof_l3_node) \<in> A" if "leaf A ?m x" for x using trie_leaf [OF t lf [OF that]] .
    show "l1_at ?m x y = NULL" if "x \<notin> roots A" for x y
      using trie_zero [OF t that] by (simp add: unlink_leaf_reads)
    show "x = x' \<and> y = y'"
      if "x \<in> roots A" "x' \<in> roots A" "l1_at ?m x y \<noteq> NULL" "l1_at ?m x y = l1_at ?m x' y'" for x x' y y'
      using that trie_parent1 [OF t, of x x' y y'] by (simp add: unlink_leaf_reads)
    show "x = x' \<and> y = y'"
      if "mid A ?m x" "mid A ?m x'" "l2_at ?m x y \<noteq> NULL" "l2_at ?m x y = l2_at ?m x' y'" for x x' y y'
      using that trie_parent2 [OF t, of x x' y y'] by (auto simp: md unlink_leaf_reads split: if_splits)
  qed
  moreover have "counts_inv A ?m"
    unfolding counts_inv_def
  proof (intro ballI impI allI)
    fix r' i'
    assume x: "r' \<in> roots A" "r' \<noteq> free_list_map ?m" "l1_at ?m r' i' \<noteq> NULL"
    let ?q = "l1_at ?m r' i'"
    have e: "?q = l1_at m r' i'" "free_list_map ?m = free_list_map m"
      using unlink_leaf_reads(6) by (simp_all add: unlink_leaf_reads same_arena_def)
    have c: "counted (l2_at m ?q) L2_SIZE (l2_count_at m ?q)"
      "l2_at m ?q k \<noteq> NULL \<Longrightarrow> counted (l3_at m (l2_at m ?q k)) L3_SIZE (l3_count_at m (l2_at m ?q k))" for k
      using x meta_invD(5) [OF I] unfolding e by (auto simp: counts_inv_def)
    have "counted ((l2_at m q)(j := NULL)) L2_SIZE (l2_count_at m q - 1)" if "?q = q"
      using counted_remove [of "l2_at m q" L2_SIZE "l2_count_at m q" j] c(1) that n by simp
    then show "counted (l2_at ?m ?q) L2_SIZE (l2_count_at ?m ?q) \<and>
      (\<forall>k. l2_at ?m ?q k \<noteq> NULL \<longrightarrow>
         counted (l3_at ?m (l2_at ?m ?q k)) L3_SIZE (l3_count_at ?m (l2_at ?m ?q k)))"
      using c by (auto simp: unlink_leaf_reads)
  qed
  ultimately show "meta_inv A F ?m"
    using lk by (intro meta_inv_same_arena [OF I unlink_leaf_reads(6)])
qed

lemma set_l1_reads:
  "l1_at (set_l1 m r i v) r' = (if r' = r then (l1_at m r)(i := v) else l1_at m r')"
  "l2_at (set_l1 m r i v) = l2_at m" "l3_at (set_l1 m r i v) = l3_at m"
  "l2_count_at (set_l1 m r i v) = l2_count_at m" "l3_count_at (set_l1 m r i v) = l3_count_at m"
  "same_arena m (set_l1 m r i v)"
  by (auto simp: heap_simps fun_eq_iff same_arena_def)

lemma unlink_mid_inv:
  assumes I: "meta_inv A F m" and r: "r \<in> roots A"
    and q: "l1_at m r i = q" "q \<noteq> NULL" and none: "l2_at m q = (\<lambda>_. NULL)"
  shows "meta_inv A F (set_l1 m r i NULL)" "\<not> mid A (set_l1 m r i NULL) q"
    and "r' \<in> roots A \<Longrightarrow> look (set_l1 m r i NULL) r' = look m r'"
proof -
  let ?m = "set_l1 m r i NULL"
  note t = meta_invD(4) [OF I]
  have sq: "l1_at m r' i' = q \<longleftrightarrow> r' = r \<and> i' = i" if "r' \<in> roots A" for r' i'
    using same_mid [OF t r that, of i i'] q by simp
  show lk: "look ?m r' = look m r'" if "r' \<in> roots A" for r'
    using q none by (auto simp: look_def set_l1_reads fun_eq_iff)
  have md: "mid A ?m x \<longleftrightarrow> mid A m x \<and> x \<noteq> q" for x
    using sq r q(2) by (auto simp: mid_def set_l1_reads split: if_splits)
  then show "\<not> mid A ?m q" by simp
  have lf: "leaf A ?m x \<Longrightarrow> leaf A m x" for x by (auto simp: leaf_def md set_l1_reads)
  have "trie_inv A ?m"
  proof (rule trie_invI)
    show "(x, sizeof_l2_node) \<in> A" if "mid A ?m x" for x using trie_mid [OF t] that by (simp add: md)
    show "(x, sizeof_l3_node) \<in> A" if "leaf A ?m x" for x using trie_leaf [OF t lf [OF that]] .
    show "l1_at ?m x y = NULL" if "x \<notin> roots A" for x y
      using trie_zero [OF t that] by (auto simp: set_l1_reads)
    show "x = x' \<and> y = y'"
      if "x \<in> roots A" "x' \<in> roots A" "l1_at ?m x y \<noteq> NULL" "l1_at ?m x y = l1_at ?m x' y'" for x x' y y'
      using that trie_parent1 [OF t, of x x' y y'] by (auto simp: set_l1_reads split: if_splits)
    show "x = x' \<and> y = y'"
      if "mid A ?m x" "mid A ?m x'" "l2_at ?m x y \<noteq> NULL" "l2_at ?m x y = l2_at ?m x' y'" for x x' y y'
      using that trie_parent2 [OF t, of x x' y y'] by (simp add: md set_l1_reads)
  qed
  moreover have "counts_inv A ?m"
    using meta_invD(5) [OF I] set_l1_reads(6) [of m r i NULL]
    by (auto simp: counts_inv_def set_l1_reads same_arena_def split: if_splits)
  ultimately show "meta_inv A F ?m"
    using lk by (intro meta_inv_same_arena [OF I set_l1_reads(6)])
qed

section \<open>Clearing a slot\<close>

definition clear_slot :: "meta_state \<Rightarrow> ptr \<Rightarrow> u64 \<Rightarrow> meta_state" where
  "clear_slot m n i = (let m = set_l3 m n i NULL in set_l3_count m n (l3_count_at m n - 1))"

lemma clear_slot_reads:
  "l1_at (clear_slot m n i) = l1_at m" "l2_at (clear_slot m n i) = l2_at m"
  "l2_count_at (clear_slot m n i) = l2_count_at m"
  "l3_at (clear_slot m n i) x = (if x = n then (l3_at m n)(i := NULL) else l3_at m x)"
  "l3_count_at (clear_slot m n i) x = (if x = n then l3_count_at m n - 1 else l3_count_at m x)"
  "same_arena m (clear_slot m n i)"
  by (auto simp: clear_slot_def heap_simps fun_eq_iff same_arena_def Let_def)

lemma clear_slot_look: "look (clear_slot m n i) = look (put_slot m n i NULL)"
  by (simp add: look_def clear_slot_reads put_slot_l3 heap_simps fun_eq_iff)

lemma clear_slot_inv:
  assumes I: "meta_inv A F m" and r: "r \<in> roots A" "r \<noteq> free_list_map m"
    and p: "path_present m r key" and v: "look m r key \<noteq> NULL"
  defines "m' \<equiv> clear_slot m (leaf_of m r key) (l3_index key)"
  shows "meta_inv A F m'"
    and "r' \<in> roots A \<Longrightarrow> look m' r' k = (if r' = r \<and> same_slot k key then NULL else look m r' k)"
    and "l3_count_at m' (leaf_of m r key) = 0 \<longleftrightarrow> l3_at m' (leaf_of m r key) = (\<lambda>_. NULL)"
proof -
  let ?n = "leaf_of m r key"
  note t = meta_invD(4) [OF I]
  have vr: "valid_ptr r" by (rule root_valid [OF I r(1)])
  show lk: "look m' r' k = (if r' = r \<and> same_slot k key then NULL else look m r' k)" if "r' \<in> roots A" for r' k
    unfolding m'_def clear_slot_look by (rule look_put [OF t r(1) that root_valid [OF I that] p])
  have nn: "l3_at m ?n (l3_index key) \<noteq> NULL" using v p vr by (simp add: look_leaf)
  have c': "counts_inv A m'"
  proof (rule counts_inv_put [OF I r p, where v = NULL and c' = "l3_count_at m ?n - 1"])
    show "counted ((l3_at m ?n)(l3_index key := NULL)) L3_SIZE (l3_count_at m ?n - 1)"
      if "counted (l3_at m ?n) L3_SIZE (l3_count_at m ?n)"
      using that nn by (rule counted_remove)
  qed (use clear_slot_reads(6) [of m ?n "l3_index key"] in \<open>auto simp: m'_def clear_slot_reads same_arena_def\<close>)
  show "meta_inv A F m'"
  proof (rule meta_inv_same_arena [OF I _ _ c'])
    show "same_arena m m'" by (simp add: m'_def clear_slot_reads)
    show "trie_inv A m'" using t by (rule trie_inv_cong) (simp_all add: m'_def clear_slot_reads)
    show "look m' (free_list_map m) = look m (free_list_map m)" if "free_list_map m \<in> roots A"
      using lk [OF that] r(2) by (auto simp: fun_eq_iff)
  qed
  have "counted (l3_at m ?n) L3_SIZE (l3_count_at m ?n)"
    using meta_invD(5) [OF I] r p unfolding counts_inv_def leaf_of_def path_present_def by blast
  then have "counted ((l3_at m ?n)(l3_index key := NULL)) L3_SIZE (l3_count_at m ?n - 1)"
    using nn by (rule counted_remove)
  from counted_zero [OF this] show "l3_count_at m' ?n = 0 \<longleftrightarrow> l3_at m' ?n = (\<lambda>_. NULL)"
    unfolding m'_def clear_slot_reads by simp
qed

section \<open>Freeing a block\<close>

text \<open>The blocks of the client: those of no node size.\<close>

definition client :: "block set \<Rightarrow> block set" where
  "client A = {b \<in> A. \<not> node_size (snd b) \<and> snd b \<noteq> sizeof_l1_node}"

text \<open>The lookups in the client's maps stay.\<close>

definition index_kept :: "block set \<Rightarrow> meta_state \<Rightarrow> block set \<Rightarrow> meta_state \<Rightarrow> bool" where
  "index_kept A m A' m' \<longleftrightarrow>
     roots A \<subseteq> roots A' \<and> set (mappings m) \<subseteq> set (mappings m') \<and>
     (\<forall>r\<in>roots A. r \<noteq> free_list_map m \<longrightarrow> r \<noteq> free_list_map m' \<and> look m' r = look m r)"

lemma index_kept_trans:
  "index_kept A m A1 m1 \<Longrightarrow> index_kept A1 m1 A2 m2 \<Longrightarrow> index_kept A m A2 m2"
  unfolding index_kept_def by (metis subset_iff)

lemma node_sizes_differ:
  "node_size sizeof_l2_node" "node_size sizeof_l3_node" "\<not> node_size sizeof_l1_node"
  "sizeof_l2_node \<noteq> sizeof_l1_node" "sizeof_l3_node \<noteq> sizeof_l1_node" "sizeof_l2_node \<noteq> sizeof_l3_node"
  by (simp_all add: node_size_def sizeof_nodes)

text \<open>
  The store that completes a free, after the links to the block have been cleared. \<open>U\<close> is
  the state before it.
\<close>

lemma push_unlinked:
  assumes rd: "ready_to_push A F m p sz A' F' N" and p: "(p, sz) \<in> A"
    and sz: "size_ok sz" "sz \<noteq> sizeof_l1_node"
    and U: "meta_inv A' F' U" "same_arena N U" "\<not> mid A' U p" "\<not> leaf A' U p"
      "\<And>r. r \<in> roots A' \<Longrightarrow> look U r = look N r"
      "path_present U (free_list_map N) sz" "leaf_of U (free_list_map N) sz = leaf_of N (free_list_map N) sz"
  defines "M \<equiv> put_slot U (leaf_of N (free_list_map N) sz) (l3_index sz) p"
  shows "meta_inv (A' - {(p, sz)}) (F'(sz := p # F' sz)) M"
    and "client (A' - {(p, sz)}) = client A - {(p, sz)}"
    and "index_kept A m (A' - {(p, sz)}) M"
proof -
  note R = rd [unfolded ready_to_push_def]
  have f: "free_list_map U = free_list_map N" and l: "link_heap U = link_heap N"
    and mp: "mappings U = mappings N"
    using U(2) by (auto simp: same_arena_def)
  have fn: "free_list_map U \<noteq> NULL" using R f by simp
  have fr: "free_list_map U \<in> roots A'" by (rule free_list_map_root [OF U(1) fn])
  have pA: "(p, sz) \<in> A'" using R p by blast
  have M: "M = put_slot U (leaf_of U (free_list_map U) sz) (l3_index sz) p"
    by (simp add: M_def f U(7))
  show "meta_inv (A' - {(p, sz)}) (F'(sz := p # F' sz)) M"
    unfolding M using R U f l fr
    by (intro push_inv [OF U(1) pA U(3,4) sz fn]) simp_all
  have rt: "roots A \<subseteq> roots (A' - {(p, sz)})" "roots A \<subseteq> roots A'"
    using R sz(2) by (auto simp: roots_def)
  have lk: "look M r = look N r" if "r \<in> roots A'" "r \<noteq> free_list_map N" for r
    unfolding M using look_put_list [OF U(1) that(1) _ fn] U(5,6) that f by simp
  show "index_kept A m (A' - {(p, sz)}) M"
    using R rt lk by (auto simp: index_kept_def M_def heap_simps mp f)
  have "client A' = client A"
    using R by (auto simp: client_def)
  then show "client (A' - {(p, sz)}) = client A - {(p, sz)}" by (auto simp: client_def)
qed

lemma free_client_spec:
  assumes os: "os_ok os" and I: "meta_inv A F m" and p: "(p, sz) \<in> client A" and sz: "size_ok sz"
    and run: "cmalloc_free_metadata os m p sz = Inr m'"
  obtains A' F' where "meta_inv A' F' m'" "client A' = client A - {(p, sz)}" "index_kept A m A' m'"
    "\<exists>ps. F' sz = p # ps"
proof -
  have pA: "(p, sz) \<in> A" and s: "sz \<noteq> sizeof_l1_node" "\<not> node_size sz"
    using p by (auto simp: client_def)
  obtain A' F' N where rd: "ready_to_push A F m p sz A' F' N"
    and m': "m' = put_slot N (leaf_of N (free_list_map N) sz) (l3_index sz) p"
    by (rule free_metadata_ready [OF os I pA sz s(1) run]) blast
  note R = rd [unfolded ready_to_push_def]
  have N: "meta_inv A' F' N" and pA': "(p, sz) \<in> A'" using R pA by blast+
  note t = meta_invD(4) [OF N]
  have "sz = u" if "(p, u) \<in> A'" for u using meta_inv_same_addr [OF N, of p sz u] that pA' by simp
  then have "\<not> mid A' N p" "\<not> leaf A' N p"
    using trie_mid [OF t, of p] trie_leaf [OF t, of p] s(2) node_sizes_differ by metis+
  then show thesis
    using push_unlinked [OF rd pA sz s(1) N _ _ _ refl] R m'
    by (intro that [of "A' - {(p, sz)}" "F'(sz := p # F' sz)"]) (simp_all add: same_arena_def)
qed

section \<open>Freeing an empty node\<close>

lemma put_unlink_leaf:
  "unlink_leaf (put_slot m n i v) q j = put_slot (unlink_leaf m q j) n i v"
  by (simp add: unlink_leaf_def put_slot_def node_defs Let_def)

lemma put_set_l1: "set_l1 (put_slot m n i v) r j w = put_slot (set_l1 m r j w) n i v"
  by (simp add: put_slot_def node_defs Let_def)

lemma free_leaf_spec:
  assumes os: "os_ok os" and I: "meta_inv A F m" and r: "r \<in> roots A" "r \<noteq> free_list_map m"
    and p: "path_present m r key" and emp: "l3_at m (leaf_of m r key) = (\<lambda>_. NULL)"
    and run: "cmalloc_free_metadata os m (leaf_of m r key) sizeof_l3_node = Inr m1"
  obtains A' F' where
    "meta_inv A' F' (unlink_leaf m1 (l1_at m r (l1_index key)) (l2_index key))"
    "client A' = client A"
    "index_kept A m A' (unlink_leaf m1 (l1_at m r (l1_index key)) (l2_index key))"
    "l1_at m1 r = l1_at m r"
proof -
  let ?i = "l1_index key" and ?j = "l2_index key" and ?n = "leaf_of m r key"
  let ?q = "l1_at m r ?i"
  let ?M = "unlink_leaf m1 ?q ?j"
  note t0 = meta_invD(4) [OF I]
  have qn: "?q \<noteq> NULL" "l2_at m ?q ?j = ?n" "?n \<noteq> NULL"
    using p by (auto simp: path_present_def leaf_of_def)
  have nA: "(?n, sizeof_l3_node) \<in> A"
    using trie_leaf [OF t0 leafI [OF midI [OF r(1) qn(1)], of ?j]] qn by simp
  obtain A' F' N where rd: "ready_to_push A F m ?n sizeof_l3_node A' F' N"
    and m1: "m1 = put_slot N (leaf_of N (free_list_map N) sizeof_l3_node) (l3_index sizeof_l3_node) ?n"
    by (rule free_metadata_ready [OF os I nA size_ok_nodes(3) node_sizes_differ(5) run]) blast
  note R = rd [unfolded ready_to_push_def]
  have N: "meta_inv A' F' N" and nA': "(?n, sizeof_l3_node) \<in> A'" and AA: "A \<subseteq> A'"
    using R nA by blast+
  have rA: "r \<in> roots A'" using r(1) AA by (auto simp: roots_def)
  have rf: "r \<noteq> free_list_map N" and lkN: "look N r = look m r" using R r by auto
  have l1r: "l1_at N r = l1_at m r" and l2q: "l2_at N ?q = l2_at m ?q"
    using R r qn(1) by (auto simp: nodes_kept_def)
  have none: "look N r k = NULL" if "l1_index k = ?i" "l2_index k = ?j" for k
    using emp that by (simp add: lkN look_def leaf_of_def)
  let ?U = "unlink_leaf N ?q ?j"
  note U = unlink_leaf_inv [OF N rA rf _ qn(1) _ qn(3) none, unfolded l1r l2q, OF refl qn(2)]
  note t = meta_invD(4) [OF N]
  have fr: "free_list_map N \<in> roots A'" using R by (intro free_list_map_root [OF N]) blast
  have nq: "l1_at N (free_list_map N) x \<noteq> ?q" for x
    using same_mid [OF t rA fr, of ?i x] l1r qn(1) rf by auto
  have nm: "\<not> mid A' ?U ?n"
    using trie_mid [OF meta_invD(4) [OF U(1)], of ?n] meta_inv_same_addr [OF N, of ?n _ sizeof_l3_node] nA'
      node_sizes_differ(6) by blast
  note P = push_unlinked [OF rd nA size_ok_nodes(3) node_sizes_differ(5) U(1) unlink_leaf_reads(6) nm U(2,3)]
  have pp: "path_present ?U (free_list_map N) s = path_present N (free_list_map N) s"
    "leaf_of ?U (free_list_map N) s = leaf_of N (free_list_map N) s" for s
    using nq by (simp_all add: path_present_def leaf_of_def unlink_leaf_reads)
  have M: "?M = put_slot ?U (leaf_of N (free_list_map N) sizeof_l3_node) (l3_index sizeof_l3_node) ?n"
    by (simp add: m1 put_unlink_leaf)
  show thesis
  proof (rule that)
    show "l1_at m1 r = l1_at m r" by (simp add: m1 heap_simps l1r)
    show "meta_inv (A' - {(?n, sizeof_l3_node)}) (F'(sizeof_l3_node := ?n # F' sizeof_l3_node)) ?M"
      unfolding M using R pp by (intro P(1)) simp_all
    show "index_kept A m (A' - {(?n, sizeof_l3_node)}) ?M"
      unfolding M using R pp by (intro P(3)) simp_all
    have "client (A' - {(?n, sizeof_l3_node)}) = client A - {(?n, sizeof_l3_node)}"
      using R pp by (intro P(2)) simp_all
    then show "client (A' - {(?n, sizeof_l3_node)}) = client A"
      using node_sizes_differ by (auto simp: client_def)
  qed
qed

end
