(* ===== verification/MetaClient.thy ===== *)
theory MetaClient
  imports MetaUnmap
begin

text \<open>
  The metadata layer as its client, the span layer, sees it: blocks of its own sizes to allocate
  and free, and the page map, a partial function from page numbers to pointers.
\<close>

section \<open>\<open>cmalloc_unmap\<close>\<close>

lemma free_mid_spec:
  assumes os: "os_ok os" and I: "meta_inv A F m" and r: "r \<in> roots A" "r \<noteq> free_list_map m"
    and q: "l1_at m r i = q" "q \<noteq> NULL" and emp: "l2_at m q = (\<lambda>_. NULL)"
    and run: "cmalloc_free_metadata os m q sizeof_l2_node = Inr m1"
  obtains A' F' where "meta_inv A' F' (set_l1 m1 r i NULL)" "client A' = client A"
    "index_kept A m A' (set_l1 m1 r i NULL)"
proof -
  let ?M = "set_l1 m1 r i NULL"
  have qA: "(q, sizeof_l2_node) \<in> A"
    using trie_mid [OF meta_invD(4) [OF I] midI [OF r(1), of m i]] q by simp
  obtain A' F' N where rd: "ready_to_push A F m q sizeof_l2_node A' F' N"
    and m1: "m1 = put_slot N (leaf_of N (free_list_map N) sizeof_l2_node) (l3_index sizeof_l2_node) q"
    by (rule free_metadata_ready [OF os I qA size_ok_nodes(2) node_sizes_differ(4) run]) blast
  note R = rd [unfolded ready_to_push_def]
  have N: "meta_inv A' F' N" and qA': "(q, sizeof_l2_node) \<in> A'" and AA: "A \<subseteq> A'"
    using R qA by blast+
  have rA: "r \<in> roots A'" using r(1) AA by (auto simp: roots_def)
  have rf: "r \<noteq> free_list_map N" using R r by auto
  have "nodes_kept (roots A - {free_list_map m}) m N" using R by blast
  then have nk: "l1_at N r = l1_at m r \<and> (\<forall>i. l1_at m r i \<noteq> NULL \<longrightarrow> l2_at N (l1_at m r i) = l2_at m (l1_at m r i))"
    using r unfolding nodes_kept_def by blast
  then have l1r: "l1_at N r i = q" using q(1) by simp
  have "l2_at N (l1_at m r i) = l2_at m (l1_at m r i)"
    using conjunct2 [OF nk, rule_format, of i] q by simp
  with emp q(1) have l2q: "l2_at N q = (\<lambda>_. NULL)" by simp
  let ?U = "set_l1 N r i NULL"
  note U = unlink_mid_inv [OF N rA l1r q(2) l2q]
  have nl: "\<not> leaf A' ?U q"
    using trie_leaf [OF meta_invD(4) [OF U(1)], of q] qA' node_sizes_differ(6)
      meta_inv_same_addr [OF N, of q sizeof_l3_node sizeof_l2_node] by auto
  note P = push_unlinked [OF rd qA size_ok_nodes(2) node_sizes_differ(4) U(1) set_l1_reads(6) U(2) nl U(3)]
  have pp: "path_present ?U (free_list_map N) s = path_present N (free_list_map N) s"
    "leaf_of ?U (free_list_map N) s = leaf_of N (free_list_map N) s" for s
    using rf by (simp_all add: path_present_def leaf_of_def set_l1_reads)
  have M: "?M = put_slot ?U (leaf_of N (free_list_map N) sizeof_l2_node) (l3_index sizeof_l2_node) q"
    by (simp add: m1 put_set_l1)
  show thesis
  proof (rule that)
    show "meta_inv (A' - {(q, sizeof_l2_node)}) (F'(sizeof_l2_node := q # F' sizeof_l2_node)) ?M"
      unfolding M using R pp by (intro P(1)) simp_all
    show "index_kept A m (A' - {(q, sizeof_l2_node)}) ?M"
      unfolding M using R pp by (intro P(3)) simp_all
    have "client (A' - {(q, sizeof_l2_node)}) = client A - {(q, sizeof_l2_node)}"
      using R pp by (intro P(2)) simp_all
    then show "client (A' - {(q, sizeof_l2_node)}) = client A"
      using node_sizes_differ by (auto simp: client_def)
  qed
qed

lemma cmalloc_unmap_steps:
  assumes "valid_ptr r"
  shows "cmalloc_unmap os m r key =
    (if look m r key = NULL then Inl Assert_Failed
     else
       let m1 = clear_slot m (leaf_of m r key) (l3_index key)
       in bindr
            (if l3_count_at m1 (leaf_of m r key) = 0
             then bindr (cmalloc_free_metadata os m1 (leaf_of m r key) sizeof_l3_node)
                    (\<lambda>m2. Inr (unlink_leaf m2 (l1_at m r (l1_index key)) (l2_index key)))
             else Inr m1)
            (\<lambda>m2. if l2_count_at m2 (l1_at m r (l1_index key)) = 0
                   then bindr (cmalloc_free_metadata os m2 (l1_at m r (l1_index key)) sizeof_l2_node)
                          (\<lambda>m3. Inr (set_l1 m3 r (l1_index key) NULL))
                   else Inr m2))"
  using assms
  by (simp add: cmalloc_unmap_def look_def leaf_of_def clear_slot_def unlink_leaf_def Let_def)

lemma index_kept_refl: "index_kept A m A m"
  by (simp add: index_kept_def)

lemma cmalloc_unmap_spec:
  assumes os: "os_ok os" and I: "meta_inv A F m" and r: "r \<in> roots A" "r \<noteq> free_list_map m"
    and run: "cmalloc_unmap os m r key = Inr m'"
  obtains A' F' m1 where "meta_inv A' F' m'" "client A' = client A" "index_kept A m1 A' m'"
    "free_list_map m1 = free_list_map m" "mappings m1 = mappings m"
    "\<forall>r'\<in>roots A. \<forall>k. look m1 r' k = (if r' = r \<and> same_slot k key then NULL else look m r' k)"
    "look m r key \<noteq> NULL"
proof -
  let ?n = "leaf_of m r key" and ?q = "l1_at m r (l1_index key)"
  let ?m1 = "clear_slot m ?n (l3_index key)"
  have vr: "valid_ptr r" by (rule root_valid [OF I r(1)])
  note run' = run [unfolded cmalloc_unmap_steps [OF vr] Let_def]
  from run' have v: "look m r key \<noteq> NULL" by (auto split: if_splits)
  then have p: "path_present m r key" using vr by (rule look_path)
  then have qn: "?q \<noteq> NULL" by (simp add: path_present_def)
  note C = clear_slot_inv [OF I r p v]
  have s: "free_list_map ?m1 = free_list_map m" "mappings ?m1 = mappings m"
    using clear_slot_reads(6) [of m ?n "l3_index key"] by (simp_all add: same_arena_def)
  have p1: "path_present ?m1 r key" "leaf_of ?m1 r key = ?n" "l1_at ?m1 r (l1_index key) = ?q"
    using p by (simp_all add: path_present_def leaf_of_def clear_slot_reads)
  have r1: "r \<noteq> free_list_map ?m1" using r(2) s(1) by simp
  from run' v obtain m2 where step1: "(if l3_count_at ?m1 ?n = 0
             then bindr (cmalloc_free_metadata os ?m1 ?n sizeof_l3_node)
                    (\<lambda>m2. Inr (unlink_leaf m2 ?q (l2_index key))) else Inr ?m1) = Inr m2"
    and step2: "(if l2_count_at m2 ?q = 0
                   then bindr (cmalloc_free_metadata os m2 ?q sizeof_l2_node)
                          (\<lambda>m3. Inr (set_l1 m3 r (l1_index key) NULL)) else Inr m2) = Inr m'"
    by (auto elim!: bindr_InrE)
  obtain A2 F2 where S2: "meta_inv A2 F2 m2" "client A2 = client A" "index_kept A ?m1 A2 m2"
    "l1_at m2 r (l1_index key) = ?q"
  proof (cases "l3_count_at ?m1 ?n = 0")
    case True
    with step1 obtain m1' where fr: "cmalloc_free_metadata os ?m1 ?n sizeof_l3_node = Inr m1'"
      and m2: "m2 = unlink_leaf m1' ?q (l2_index key)"
      by (auto elim!: bindr_InrE)
    have "l3_at ?m1 (leaf_of ?m1 r key) = (\<lambda>_. NULL)" using C(3) True p1(2) by simp
    then show thesis
      using free_leaf_spec [OF os C(1) r(1) r1 p1(1)] fr m2 p1(2,3)
      by (metis that unlink_leaf_reads(1))
  next
    case False
    with step1 C(1) p1(3) show thesis by (intro that [of A F]) (auto simp: index_kept_refl)
  qed
  have r2: "r \<in> roots A2" "r \<noteq> free_list_map m2"
    using S2(3) r(1) r1 unfolding index_kept_def by blast+
  have "counted (l2_at m2 ?q) L2_SIZE (l2_count_at m2 ?q)"
    using meta_invD(5) [OF S2(1)] r2 qn S2(4) unfolding counts_inv_def by metis
  note cz = counted_zero [OF this]
  obtain A3 F3 where S3: "meta_inv A3 F3 m'" "client A3 = client A2" "index_kept A2 m2 A3 m'"
  proof (cases "l2_count_at m2 ?q = 0")
    case True
    with step2 obtain m3 where fr: "cmalloc_free_metadata os m2 ?q sizeof_l2_node = Inr m3"
      and m': "m' = set_l1 m3 r (l1_index key) NULL"
      by (auto elim!: bindr_InrE)
    show thesis
      using free_mid_spec [OF os S2(1) r2 S2(4) qn _ fr] True cz that m' by metis
  next
    case False
    with step2 S2 show thesis by (intro that [of A2 F2]) (auto simp: index_kept_refl)
  qed
  show thesis
    using S2(2) S3(2) C(2) by (intro that [OF S3(1) _ index_kept_trans [OF S2(3) S3(3)] s _ v]) auto
qed

end
