(* ===== verification/MetaLive.thy ===== *)
theory MetaLive
  imports MetaClient
begin

text \<open>
  Under the invariant the metadata layer faults only for lack of memory. \<open>reserve os maps k\<close>
  says that the system grants \<open>k\<close> more chunks, and \<open>reserve_with os Q maps k\<close> that \<open>Q\<close> holds of the list
  of mappings all the while; the lemmas count how many chunks an operation
  may map: one for an allocation, two for \<open>cmalloc_map\<close>, three for
  \<open>cmalloc_free_metadata\<close>, six for \<open>cmalloc_unmap\<close>.
\<close>

fun reserve_with :: "platform \<Rightarrow> (mapping_list \<Rightarrow> bool) \<Rightarrow> mapping_list \<Rightarrow> nat \<Rightarrow> bool" where
  "reserve_with os Q maps 0 \<longleftrightarrow> Q maps"
| "reserve_with os Q maps (Suc k) \<longleftrightarrow> Q maps \<and>
     (let a = mmap os maps META_CHUNK_SIZE
      in a \<noteq> MAP_FAILED \<and> reserve_with os Q ((a, META_CHUNK_SIZE) # maps) k)"

abbreviation reserve :: "platform \<Rightarrow> mapping_list \<Rightarrow> nat \<Rightarrow> bool" where
  "reserve os \<equiv> reserve_with os (\<lambda>_. True)"

lemma reserve_with_now: "reserve_with os Q maps k \<Longrightarrow> Q maps"
  by (cases k) simp_all

lemma reserve_mono: "reserve_with os Q maps n \<Longrightarrow> k \<le> n \<Longrightarrow> reserve_with os Q maps k"
proof (induction n arbitrary: k maps)
  case 0
  then show ?case by simp
next
  case (Suc n)
  then show ?case by (cases k) (auto simp: Let_def)
qed

lemma reserve_with_weaken:
  "reserve_with os P maps k \<Longrightarrow> (\<And>ms. P ms \<Longrightarrow> Q ms) \<Longrightarrow> reserve_with os Q maps k"
  by (induction k arbitrary: maps) (auto simp: Let_def)

text \<open>The layer adds only mappings of the size of a chunk.\<close>

lemma reserve_all:
  assumes "reserve os maps k" "\<forall>d \<in> set maps. P d" "\<And>a. P (a, META_CHUNK_SIZE)"
  shows "reserve_with os (\<lambda>ms. \<forall>d \<in> set ms. P d) maps k"
  using assms(1,2)
proof (induction k arbitrary: maps)
  case (Suc k)
  then show ?case using assms(3) by (simp add: Let_def)
qed simp

lemma bump_alloc_mappings:
  assumes "bump_alloc os m sz = Inr (p, m')"
  shows "mappings m' = mappings m \<or>
         mappings m' = (mmap os (mappings m) META_CHUNK_SIZE, META_CHUNK_SIZE) # mappings m"
  using assms
  by (auto simp: bump_alloc_def sys_mmap_def take_from_chunk_def new_chunk_def Let_def split: if_splits)

lemma alloc_returns:
  assumes os: "os_ok os" and I: "meta_inv A F m" and sz: "size_ok sz"
    and rs: "reserve_with os Q (mappings m) (Suc k)"
  obtains p m' where "cmalloc_alloc_metadata os m sz = Inr (p, m')" "valid_ptr p"
    "reserve_with os Q (mappings m') k"
proof -
  obtain p m' where run: "cmalloc_alloc_metadata os m sz = Inr (p, m')" and p: "p \<noteq> NULL"
    and r: "reserve_with os Q (mappings m') k"
  proof (cases "F sz")
    case Nil
    then have bump: "cmalloc_alloc_metadata os m sz = bump_alloc os m sz"
      using free_head_hd [OF I sz] by (intro alloc_from_chunk free_list_map_ok [OF I]) simp
    have "chunk_available os m" using rs by (simp add: chunk_available_def Let_def)
    then obtain p m' where b: "bump_alloc os m sz = Inr (p, m')" "p \<noteq> NULL"
      using bump_alloc_returns [OF os meta_invD(1) [OF I]] by metis
    have "reserve_with os Q (mappings m') k"
      using bump_alloc_mappings [OF b(1)] rs reserve_mono [OF rs, of k] by (auto simp: Let_def)
    with b bump show thesis by (intro that) simp_all
  next
    case (Cons p ps)
    note a = alloc_pop(1,2,5) [OF I sz Cons]
    have "reserve_with os Q (mappings m) k" using rs by (rule reserve_mono) simp
    with that [OF a(1,2)] a(3) show thesis by simp
  qed
  have "valid_ptr p"
    using alloc_inv(1) [OF os I sz run p] by (intro blocks_inv_valid [OF meta_invD(2)]) auto
  from that [OF run this r] show thesis .
qed

lemma make_mid_returns:
  assumes os: "os_ok os" and I: "meta_inv A F m" and rs: "reserve_with os Q (mappings m) (Suc k)"
  obtains m' where "make_mid os m r key = Inr m'" "reserve_with os Q (mappings m') k"
proof (cases "l1_at m r (l1_index key) = NULL")
  case True
  obtain p m1 where "cmalloc_alloc_metadata os m sizeof_l2_node = Inr (p, m1)" "valid_ptr p"
    "reserve_with os Q (mappings m1) k"
    using alloc_returns [OF os I size_ok_nodes(2) rs] .
  with True show thesis
    by (intro that [of "zero_l2 (set_l1 m1 r (l1_index key) p) p"]) (auto simp: make_mid_def heap_simps)
next
  case False
  with reserve_mono [OF rs, of k] show thesis by (intro that) (auto simp: make_mid_def)
qed

lemma make_leaf_returns:
  assumes os: "os_ok os" and I: "meta_inv A F m" and rs: "reserve_with os Q (mappings m) (Suc k)"
  obtains m' where "make_leaf os m r key = Inr m'" "reserve_with os Q (mappings m') k"
proof (cases "leaf_of m r key = NULL")
  case True
  obtain p m1 where "cmalloc_alloc_metadata os m sizeof_l3_node = Inr (p, m1)" "valid_ptr p"
    "reserve_with os Q (mappings m1) k"
    using alloc_returns [OF os I size_ok_nodes(3) rs] .
  with True show thesis
    by (intro that [of "link_leaf m1 (l1_at m r (l1_index key)) (l2_index key) p"])
       (auto simp: make_leaf_def leaf_of_def link_leaf_def heap_simps Let_def)
next
  case False
  with reserve_mono [OF rs, of k] show thesis
    by (intro that) (auto simp: make_leaf_def leaf_of_def Let_def)
qed

lemma cmalloc_map_returns:
  assumes os: "os_ok os" and I: "meta_inv A F m" and r: "r \<in> roots A"
    and rs: "reserve_with os Q (mappings m) (Suc (Suc k))"
  obtains m' where "cmalloc_map os m r v key = Inr m'" "reserve_with os Q (mappings m') k"
proof -
  obtain m1 where m1: "make_mid os m r key = Inr m1" "reserve_with os Q (mappings m1) (Suc k)"
    using make_mid_returns [OF os I rs] .
  obtain A1 F1 where "grown r A F m A1 F1 m1"
    using make_mid_grown [OF os I r m1(1)] by blast
  then have I1: "meta_inv A1 F1 m1" by (simp add: grown_def)
  obtain m2 where "make_leaf os m1 r key = Inr m2" "reserve_with os Q (mappings m2) k"
    using make_leaf_returns [OF os I1 m1(2)] .
  with m1(1) show thesis
    by (intro that [of "put_slot m2 (leaf_of m2 r key) (l3_index key) v"])
       (auto simp: cmalloc_map_steps [OF root_valid [OF I r]] heap_simps)
qed

lemma free_metadata_returns:
  assumes os: "os_ok os" and I: "meta_inv A F m" and p: "(p, sz) \<in> A"
    and rs: "reserve_with os Q (mappings m) (Suc (Suc (Suc k)))"
  obtains m' where "cmalloc_free_metadata os m p sz = Inr m'" "reserve_with os Q (mappings m') k"
proof -
  let ?init = "if free_list_map m = NULL then
          bindr (cmalloc_initialize_range_map os m) (\<lambda>(q, m). Inr (m\<lparr>free_list_map := q\<rparr>))
        else Inr m"
  obtain m1 A1 where i: "?init = Inr m1" and I1: "meta_inv A1 F m1" and AA: "A \<subseteq> A1"
    and f: "free_list_map m1 \<noteq> NULL" and rs1: "reserve_with os Q (mappings m1) (Suc (Suc k))"
  proof (cases "free_list_map m = NULL")
    case True
    obtain q m0 where a: "cmalloc_alloc_metadata os m sizeof_l1_node = Inr (q, m0)" "valid_ptr q"
      "reserve_with os Q (mappings m0) (Suc (Suc k))"
      using alloc_returns [OF os I size_ok_nodes(1) rs] .
    then have q: "cmalloc_initialize_range_map os m = Inr (q, m0)" "q \<noteq> NULL"
      by (auto simp: cmalloc_initialize_range_map_def)
    with init_free_list_map(1) [OF os I True q] a(3) True show thesis
      by (intro that [of "m0\<lparr>free_list_map := q\<rparr>" "insert (q, sizeof_l1_node) A"]) auto
  next
    case False
    with I reserve_mono [OF rs, of "Suc (Suc k)"] show thesis
      by (intro that [of m A]) auto
  qed
  note fr = free_list_map_root [OF I1 f]
  let ?h = "look m1 (free_list_map m1) sz"
  have g: "cmalloc_get m1 (free_list_map m1) sz = Inr ?h"
    by (rule cmalloc_get_look [OF root_valid [OF I1 fr]])
  have p1: "(p, sz) \<in> A1" using p AA by blast
  have vp: "valid_ptr p" using p1 by (intro blocks_inv_valid [OF meta_invD(2) [OF I1], of p sz]) simp
  have "reserve_with os Q (mappings (set_link m1 p ?h)) (Suc (Suc k))" using rs1 by (simp add: heap_simps)
  then obtain m' where "cmalloc_map os (set_link m1 p ?h) (free_list_map m1) p sz = Inr m'"
    "reserve_with os Q (mappings m') k"
    using cmalloc_map_returns [OF os set_link_inv [OF I1 p1, of ?h] fr] by blast
  with i g vp show thesis
    by (intro that) (auto simp: cmalloc_free_metadata_def)
qed

lemma unlink_leaf_mappings: "mappings (unlink_leaf m q j) = mappings m"
  using unlink_leaf_reads(6) [of m q j] by (simp add: same_arena_def)

lemma clear_slot_mappings: "mappings (clear_slot m n i) = mappings m"
  using clear_slot_reads(6) [of m n i] by (simp add: same_arena_def)

lemma cmalloc_unmap_returns:
  assumes os: "os_ok os" and I: "meta_inv A F m" and r: "r \<in> roots A" "r \<noteq> free_list_map m"
    and v: "look m r key \<noteq> NULL" and rs: "reserve_with os Q (mappings m) (k + 6)"
  obtains m' where "cmalloc_unmap os m r key = Inr m'" "reserve_with os Q (mappings m') k"
proof -
  let ?n = "leaf_of m r key" and ?q = "l1_at m r (l1_index key)"
  let ?m1 = "clear_slot m ?n (l3_index key)"
  have vr: "valid_ptr r" by (rule root_valid [OF I r(1)])
  with v have p: "path_present m r key" by (rule look_path)
  then have qn: "?q \<noteq> NULL" "l2_at m ?q (l2_index key) = ?n" "?n \<noteq> NULL"
    by (auto simp: path_present_def leaf_of_def)
  note C = clear_slot_inv [OF I r p v]
  have p1: "path_present ?m1 r key" "leaf_of ?m1 r key = ?n" "l1_at ?m1 r (l1_index key) = ?q"
    using p by (simp_all add: path_present_def leaf_of_def clear_slot_reads)
  have r1: "r \<noteq> free_list_map ?m1"
    using r(2) clear_slot_reads(6) [of m ?n "l3_index key"] by (simp add: same_arena_def)
  note t = meta_invD(4) [OF I]
  have nA: "(?n, sizeof_l3_node) \<in> A"
    using trie_leaf [OF t leafI [OF midI [OF r(1) qn(1)], of "l2_index key"]] qn by simp
  have rs1: "reserve_with os Q (mappings ?m1) (Suc (Suc (Suc (k + 3))))"
    using rs by (simp add: clear_slot_mappings eval_nat_numeral)
  let ?s1 = "if l3_count_at ?m1 ?n = 0
             then bindr (cmalloc_free_metadata os ?m1 ?n sizeof_l3_node)
                    (\<lambda>m2. Inr (unlink_leaf m2 ?q (l2_index key)))
             else Inr ?m1"
  obtain m2 A2 F2 where s1: "?s1 = Inr m2" and I2: "meta_inv A2 F2 m2" and rr: "r \<in> roots A2"
    and q2: "l1_at m2 r (l1_index key) = ?q" and rs2: "reserve_with os Q (mappings m2) (Suc (Suc (Suc k)))"
  proof (cases "l3_count_at ?m1 ?n = 0")
    case True
    then have e: "l3_at ?m1 (leaf_of ?m1 r key) = (\<lambda>_. NULL)" using C(3) p1(2) by simp
    obtain m1' where fr: "cmalloc_free_metadata os ?m1 ?n sizeof_l3_node = Inr m1'"
      and rs': "reserve_with os Q (mappings m1') (k + 3)"
      using free_metadata_returns [OF os C(1) nA rs1] .
    obtain A2 F2 where "meta_inv A2 F2 (unlink_leaf m1' ?q (l2_index key))"
      "index_kept A ?m1 A2 (unlink_leaf m1' ?q (l2_index key))" "l1_at m1' r = l1_at ?m1 r"
      using free_leaf_spec [OF os C(1) r(1) r1 p1(1) e, unfolded p1(2,3), OF fr] by blast
    with True fr rs' r(1) p1(3) show thesis
      by (intro that [of "unlink_leaf m1' ?q (l2_index key)" A2 F2])
         (auto simp: index_kept_def unlink_leaf_reads unlink_leaf_mappings eval_nat_numeral)
  next
    case False
    with C(1) r(1) p1(3) reserve_mono [OF rs1, of "Suc (Suc (Suc k))"] show thesis
      by (intro that [of ?m1 A F]) auto
  qed
  let ?s2 = "if l2_count_at m2 ?q = 0
                   then bindr (cmalloc_free_metadata os m2 ?q sizeof_l2_node)
                          (\<lambda>m3. Inr (set_l1 m3 r (l1_index key) NULL)) else Inr m2"
  have qA: "(?q, sizeof_l2_node) \<in> A2"
    using trie_mid [OF meta_invD(4) [OF I2] midI [OF rr, of m2 "l1_index key"]] q2 qn by simp
  obtain m' where "?s2 = Inr m'" "reserve_with os Q (mappings m') k"
  proof (cases "l2_count_at m2 ?q = 0")
    case True
    obtain m3 where "cmalloc_free_metadata os m2 ?q sizeof_l2_node = Inr m3" "reserve_with os Q (mappings m3) k"
      using free_metadata_returns [OF os I2 qA rs2] .
    with True show thesis
      by (intro that [of "set_l1 m3 r (l1_index key) NULL"]) (auto simp: heap_simps)
  next
    case False
    with reserve_mono [OF rs2, of k] show thesis by (intro that) auto
  qed
  with s1 v show thesis
    by (intro that) (simp_all add: cmalloc_unmap_steps [OF vr] Let_def)
qed

end
