(* ===== verification/MetaApi.thy ===== *)
theory MetaApi
  imports MetaLive
begin

text \<open>
  The contract of the range map, stated over an abstract state and proved for the trie of
  \<open>range_map.c\<close>. The range operations are derived from the single-key laws once, in the
  locales; the interpretation then gives them for \<open>cmalloc_map_range\<close> and
  \<open>cmalloc_unmap_range\<close>.
\<close>

section \<open>A partial function with ranges\<close>

definition in_range :: "u64 \<Rightarrow> u64 \<Rightarrow> u64 \<Rightarrow> bool" where
  "in_range i n k \<longleftrightarrow> i \<le> k \<and> k < n"

lemma in_range_step: "i < n \<Longrightarrow> in_range i n k \<longleftrightarrow> k = i \<or> in_range (i + 1) n k"
  using unat_inc [of i n] by (auto simp: in_range_def word_le_nat_alt word_less_nat_alt word_unat_eq_iff)

lemma in_range_empty: "\<not> i < n \<Longrightarrow> \<not> in_range i n k"
  by (auto simp: in_range_def)

text \<open>
  \<open>same\<close> is the aliasing of keys: the keys that share an entry.
\<close>

locale partial_index =
  fixes inv :: "'s \<Rightarrow> bool"
    and lookup :: "'s \<Rightarrow> u64 \<Rightarrow> ptr"
    and same :: "u64 \<Rightarrow> u64 \<Rightarrow> bool"
    and put :: "'s \<Rightarrow> ptr \<Rightarrow> u64 \<Rightarrow> fault + 's"
    and del :: "'s \<Rightarrow> u64 \<Rightarrow> fault + 's"
    and put_range :: "'s \<Rightarrow> ptr \<Rightarrow> u64 \<Rightarrow> u64 \<Rightarrow> fault + 's"
    and del_range :: "'s \<Rightarrow> u64 \<Rightarrow> u64 \<Rightarrow> fault + 's"
  assumes put_law: "inv s \<Longrightarrow> v \<noteq> NULL \<Longrightarrow> put s v k = Inr s' \<Longrightarrow>
      inv s' \<and> (\<forall>j. lookup s' j = (if same j k then v else lookup s j))"
    and del_law: "inv s \<Longrightarrow> del s k = Inr s' \<Longrightarrow>
      inv s' \<and> lookup s k \<noteq> NULL \<and> (\<forall>j. lookup s' j = (if same j k then NULL else lookup s j))"
    and same_refl: "same k k"
    and put_range_step: "put_range s v i n =
      (if i < n then bindr (put s v i) (\<lambda>s. put_range s v (i + 1) n) else Inr s)"
    and del_range_step: "del_range s i n =
      (if i < n then bindr (del s i) (\<lambda>s. del_range s (i + 1) n) else Inr s)"
begin

lemma put_range_law:
  assumes "inv s" "v \<noteq> NULL" "put_range s v i n = Inr s'"
  shows "inv s' \<and> (\<forall>j. lookup s' j = (if \<exists>k. in_range i n k \<and> same j k then v else lookup s j))"
  using assms
proof (induction "unat n - unat i" arbitrary: i s)
  case 0
  then have "\<not> i < n" by (simp add: word_less_nat_alt)
  with 0 show ?case using put_range_step [of s v i n] in_range_empty [of i n] by simp
next
  case (Suc d)
  then have l: "i < n" by (simp add: word_less_nat_alt)
  then have d: "d = unat n - unat (i + 1)" using Suc(2) unat_inc [OF l] by simp
  obtain s1 where s1: "put s v i = Inr s1" "put_range s1 v (i + 1) n = Inr s'"
    using Suc(5) put_range_step [of s v i n] l by (auto elim!: bindr_InrE)
  have p: "inv s1 \<and> (\<forall>j. lookup s1 j = (if same j i then v else lookup s j))"
    using put_law [OF Suc(3,4) s1(1)] .
  with Suc(1) [OF d _ Suc(4) s1(2)] in_range_step [OF l] show ?case
    by (metis (no_types, lifting))
qed

lemma del_range_law:
  assumes "inv s" "del_range s i n = Inr s'"
  shows "inv s' \<and> (\<forall>k. in_range i n k \<longrightarrow> lookup s k \<noteq> NULL) \<and>
    (\<forall>j. lookup s' j = (if \<exists>k. in_range i n k \<and> same j k then NULL else lookup s j))"
  using assms
proof (induction "unat n - unat i" arbitrary: i s)
  case 0
  then have "\<not> i < n" by (simp add: word_less_nat_alt)
  with 0 show ?case using del_range_step [of s i n] in_range_empty [of i n] by simp
next
  case (Suc d)
  then have l: "i < n" by (simp add: word_less_nat_alt)
  then have d: "d = unat n - unat (i + 1)" using Suc(2) unat_inc [OF l] by simp
  obtain s1 where s1: "del s i = Inr s1" "del_range s1 (i + 1) n = Inr s'"
    using Suc(4) del_range_step [of s i n] l by (auto elim!: bindr_InrE)
  have p: "inv s1 \<and> lookup s i \<noteq> NULL \<and> (\<forall>j. lookup s1 j = (if same j i then NULL else lookup s j))"
    using del_law [OF Suc(3) s1(1)] .
  with Suc(1) [OF d _ s1(2)] in_range_step [OF l] show ?case
    by (metis (no_types, lifting))
qed

text \<open>Removing what was entered restores the index.\<close>

lemma put_del_range:
  assumes "inv s" "v \<noteq> NULL" "put_range s v i n = Inr s1" "del_range s1 i n = Inr s2"
    and "\<And>j k. in_range i n k \<Longrightarrow> same j k \<Longrightarrow> lookup s j = NULL"
  shows "inv s2 \<and> (\<forall>j. lookup s2 j = lookup s j)"
proof -
  have p: "inv s1 \<and> (\<forall>j. lookup s1 j = (if \<exists>k. in_range i n k \<and> same j k then v else lookup s j))"
    using put_range_law [OF assms(1-3)] .
  then have "inv s2 \<and> (\<forall>j. lookup s2 j = (if \<exists>k. in_range i n k \<and> same j k then NULL else lookup s1 j))"
    using del_range_law [OF _ assms(4)] by blast
  with p assms(5) show ?thesis by (metis (no_types, lifting))
qed

end

text \<open>
  An index that does not fault while it has resources: an entry takes two units at most, a
  removal six.
\<close>

locale live_index = partial_index +
  fixes room :: "'s \<Rightarrow> nat \<Rightarrow> bool"
  assumes put_returns: "inv s \<Longrightarrow> v \<noteq> NULL \<Longrightarrow> room s (d + 2) \<Longrightarrow>
      \<exists>s'. put s v k = Inr s' \<and> room s' d"
    and del_returns: "inv s \<Longrightarrow> lookup s k \<noteq> NULL \<Longrightarrow> room s (d + 6) \<Longrightarrow>
      \<exists>s'. del s k = Inr s' \<and> room s' d"
begin

lemma put_range_returns:
  assumes "inv s" "v \<noteq> NULL" "room s (d + 2 * (unat n - unat i))"
  shows "\<exists>s'. put_range s v i n = Inr s' \<and> room s' d"
  using assms
proof (induction "unat n - unat i" arbitrary: i s)
  case 0
  then have "\<not> i < n" by (simp add: word_less_nat_alt)
  with 0 show ?case using put_range_step [of s v i n] by simp
next
  case (Suc c)
  then have l: "i < n" by (simp add: word_less_nat_alt)
  then have c: "c = unat n - unat (i + 1)" using Suc(2) unat_inc [OF l] by simp
  have "room s (d + 2 * c + 2)" using Suc(2,5) by (simp add: algebra_simps flip: Suc(2))
  then obtain s1 where s1: "put s v i = Inr s1" "room s1 (d + 2 * c)"
    using put_returns [OF Suc(3,4)] by blast
  moreover have "inv s1" using put_law [OF Suc(3,4) s1(1)] by blast
  ultimately show ?case
    using Suc(1) [OF c _ Suc(4)] c put_range_step [of s v i n] l by simp
qed

lemma del_range_returns:
  assumes "inv s" "\<And>k. in_range i n k \<Longrightarrow> lookup s k \<noteq> NULL"
    and "\<And>j k. in_range i n j \<Longrightarrow> in_range i n k \<Longrightarrow> same j k \<Longrightarrow> j = k"
    and "room s (d + 6 * (unat n - unat i))"
  shows "\<exists>s'. del_range s i n = Inr s' \<and> room s' d"
  using assms
proof (induction "unat n - unat i" arbitrary: i s)
  case 0
  then have "\<not> i < n" by (simp add: word_less_nat_alt)
  with 0 show ?case using del_range_step [of s i n] by simp
next
  case (Suc c)
  then have l: "i < n" by (simp add: word_less_nat_alt)
  then have c: "c = unat n - unat (i + 1)" using Suc(2) unat_inc [OF l] by simp
  note st = in_range_step [OF l]
  have "room s (d + 6 * c + 6)" using Suc(2,6) by (simp add: algebra_simps flip: Suc(2))
  then obtain s1 where s1: "del s i = Inr s1" "room s1 (d + 6 * c)"
    using del_returns [OF Suc(3)] Suc(4) st by blast
  have d: "inv s1" "\<And>j. lookup s1 j = (if same j i then NULL else lookup s j)"
    using del_law [OF Suc(3) s1(1)] by blast+
  have ni: "\<not> in_range (i + 1) n i"
    using unat_inc [OF l] by (simp add: in_range_def word_le_nat_alt)
  have "lookup s1 k \<noteq> NULL" if "in_range (i + 1) n k" for k
  proof -
    have "k \<noteq> i" using that ni by metis
    then have "\<not> same k i" using Suc(5) [of k i] that st by blast
    then show ?thesis using d(2) Suc(4) [of k] that st by simp
  qed
  moreover have "j = k" if "in_range (i + 1) n j" "in_range (i + 1) n k" "same j k" for j k
    using Suc(5) [OF _ _ that(3)] that st by blast
  ultimately have "\<exists>s'. del_range s1 (i + 1) n = Inr s' \<and> room s' d"
    using Suc(1) [OF c d(1)] s1(2) c by simp
  then show ?case using del_range_step [of s i n] l s1(1) by simp
qed

end

section \<open>The trie satisfies the contract\<close>

text \<open>
  \<open>page_inv os E r m\<close>: the metadata state \<open>m\<close> is well formed, \<open>r\<close> is the root of a
  map of the client, and \<open>E\<close> is the set of blocks the client has allocated.
\<close>

definition page_inv :: "platform \<Rightarrow> block set \<Rightarrow> ptr \<Rightarrow> meta_state \<Rightarrow> bool" where
  "page_inv os E r m \<longleftrightarrow> os_ok os \<and>
     (\<exists>A F. meta_inv A F m \<and> client A = E \<and> r \<in> roots A \<and> r \<noteq> free_list_map m)"

lemma page_inv_valid: "page_inv os E r m \<Longrightarrow> valid_ptr r"
  unfolding page_inv_def using root_valid by blast

lemma page_inv_get: "page_inv os E r m \<Longrightarrow> cmalloc_get m r k = Inr (look m r k)"
  by (rule cmalloc_get_look [OF page_inv_valid])

lemma client_insert_nodes:
  "A \<subseteq> A' \<Longrightarrow> \<forall>b\<in>A' - A. node_size (snd b) \<Longrightarrow> client A' = client A"
  by (auto simp: client_def)

lemma page_inv_map:
  assumes "page_inv os E r m" "v \<noteq> NULL" "cmalloc_map os m r v k = Inr m'"
  shows "page_inv os E r m' \<and> (\<forall>j. look m' r j = (if same_slot j k then v else look m r j))"
proof -
  obtain A F where I: "os_ok os" "meta_inv A F m" "client A = E" "r \<in> roots A" "r \<noteq> free_list_map m"
    using assms(1) unfolding page_inv_def by blast
  obtain A' F' where m': "meta_inv A' F' m'" "A \<subseteq> A'" "\<forall>b\<in>A' - A. node_size (snd b)"
    "free_list_map m' = free_list_map m" "\<forall>j. look m' r j = (if same_slot j k then v else look m r j)"
    by (rule cmalloc_map_spec [OF I(1,2,4,5) assms(2,3)]) blast
  have "client A' = E" "r \<in> roots A'" "r \<noteq> free_list_map m'"
    using client_insert_nodes [OF m'(2,3)] I m' by (auto simp: roots_def)
  with I(1) m'(1,5) show ?thesis unfolding page_inv_def by blast
qed

lemma page_inv_unmap:
  assumes "page_inv os E r m" "cmalloc_unmap os m r k = Inr m'"
  shows "page_inv os E r m' \<and> look m r k \<noteq> NULL \<and>
    (\<forall>j. look m' r j = (if same_slot j k then NULL else look m r j))"
proof -
  obtain A F where I: "os_ok os" "meta_inv A F m" "client A = E" "r \<in> roots A" "r \<noteq> free_list_map m"
    using assms(1) unfolding page_inv_def by blast
  obtain A' F' m1 where m': "meta_inv A' F' m'" "client A' = client A" "index_kept A m1 A' m'"
    "free_list_map m1 = free_list_map m" "look m r k \<noteq> NULL"
    "\<forall>r'\<in>roots A. \<forall>j. look m1 r' j = (if r' = r \<and> same_slot j k then NULL else look m r' j)"
    by (rule cmalloc_unmap_spec [OF I(1,2,4,5) assms(2)]) blast
  then have "look m' r = look m1 r" "r \<in> roots A'" "r \<noteq> free_list_map m'"
    using I(4,5) unfolding index_kept_def by auto
  with I m' show ?thesis unfolding page_inv_def by metis
qed

lemma page_inv_map_returns:
  assumes "page_inv os E r m" "reserve_with os Q (mappings m) (d + 2)"
  shows "\<exists>m'. cmalloc_map os m r v k = Inr m' \<and> reserve_with os Q (mappings m') d"
proof -
  obtain A F where I: "os_ok os" "meta_inv A F m" "r \<in> roots A"
    using assms(1) unfolding page_inv_def by blast
  have "reserve_with os Q (mappings m) (Suc (Suc d))" using assms(2) by simp
  from cmalloc_map_returns [OF I this] show ?thesis by metis
qed

lemma page_inv_unmap_returns:
  assumes "page_inv os E r m" "look m r k \<noteq> NULL" "reserve_with os Q (mappings m) (d + 6)"
  shows "\<exists>m'. cmalloc_unmap os m r k = Inr m' \<and> reserve_with os Q (mappings m') d"
proof -
  obtain A F where I: "os_ok os" "meta_inv A F m" "r \<in> roots A" "r \<noteq> free_list_map m"
    using assms(1) unfolding page_inv_def by blast
  from cmalloc_unmap_returns [OF I assms(2,3)] show ?thesis by metis
qed

interpretation page_index: live_index
  "page_inv os E r" "\<lambda>m. look m r" same_slot "\<lambda>m. cmalloc_map os m r" "\<lambda>m. cmalloc_unmap os m r"
  "\<lambda>m. cmalloc_map_range os m r" "\<lambda>m. cmalloc_unmap_range os m r" "\<lambda>m. reserve_with os Q (mappings m)"
  for os E r Q
proof unfold_locales
  fix m v k m'
  assume "page_inv os E r m" "v \<noteq> NULL" "cmalloc_map os m r v k = Inr m'"
  then show "page_inv os E r m' \<and> (\<forall>j. look m' r j = (if same_slot j k then v else look m r j))"
    by (rule page_inv_map)
next
  fix m k m'
  assume "page_inv os E r m" "cmalloc_unmap os m r k = Inr m'"
  then show "page_inv os E r m' \<and> look m r k \<noteq> NULL \<and>
    (\<forall>j. look m' r j = (if same_slot j k then NULL else look m r j))"
    by (rule page_inv_unmap)
qed (auto simp: same_slot_def cmalloc_map_range.simps cmalloc_unmap_range.simps
       intro: page_inv_map_returns page_inv_unmap_returns)

text \<open>Allocating a client block disturbs no page map.\<close>

lemma page_inv_alloc:
  assumes I: "page_inv os E r m" and sz: "size_ok sz" "\<not> node_size sz" "sz \<noteq> sizeof_l1_node"
    and run: "cmalloc_alloc_metadata os m sz = Inr (p, m')" and p: "p \<noteq> NULL"
  shows "page_inv os (insert (p, sz) E) r m'" "look m' r = look m r"
    and "\<forall>s. (p, s) \<notin> E"
proof -
  obtain A F where J: "os_ok os" "meta_inv A F m" "client A = E" "r \<in> roots A" "r \<noteq> free_list_map m"
    using I unfolding page_inv_def by blast
  note a = alloc_inv [OF J(1,2) sz(1) run p]
  note e = a(2) [unfolded alloc_effect_def]
  show "look m' r = look m r" "\<forall>s. (p, s) \<notin> E" using e J(3-5) by (auto simp: client_def)
  have "client (insert (p, sz) A) = insert (p, sz) E" "r \<in> roots (insert (p, sz) A)"
    using J sz by (auto simp: client_def roots_def)
  then show "page_inv os (insert (p, sz) E) r m'"
    using a(1) J e unfolding page_inv_def by metis
qed

lemma client_size: "\<not> node_size 608" "(608 :: u64) \<noteq> sizeof_l1_node" "size_ok 608"
  by (simp_all add: node_size_def sizeof_nodes size_ok_def)

end
