(* ===== verification/MetaSample.thy ===== *)
theory MetaSample
  imports MetaApi
begin

text \<open>
  A concrete system for the \<open>platform\<close> parameter: 4 KiB pages, and an \<open>mmap\<close> that places
  each mapping above all live ones, at multiples of 64 KiB, and fails at the end of the 47-bit
  user space. It shows that the hypotheses on the system can hold. \<open>sample_meta\<close> is the
  metadata state after the page map has been made on it.
\<close>

section \<open>A system\<close>

definition sample_top :: "mapping_list \<Rightarrow> nat" where
  "sample_top maps = foldr (\<lambda>(a, len) t. max t (unat a + unat len)) maps 65536"

definition sample_mmap :: "mapping_list \<Rightarrow> u64 \<Rightarrow> ptr" where
  "sample_mmap maps len =
     (let a = (sample_top maps + 65535) div 65536 * 65536
      in if a + unat len \<le> 2 ^ 47 then word_of_nat a else MAP_FAILED)"

definition sample_os :: platform where
  "sample_os = \<lparr>sysconf_pagesize = 4096, mmap = sample_mmap\<rparr>"

lemma sample_top_Cons: "sample_top ((a, len) # maps) = max (sample_top maps) (unat a + unat len)"
  by (simp add: sample_top_def)

lemma sample_top_ge: "65536 \<le> sample_top maps" "d \<in> set maps \<Longrightarrow> unat (fst d) + unat (snd d) \<le> sample_top maps"
  by (induction maps) (auto simp: sample_top_def)

lemma sample_os_ok: "os_ok sample_os"
proof -
  have "page_size_ok sample_os"
    by (auto simp: page_size_ok_def sample_os_def intro!: bexI [of _ 12])
  moreover have "mmap_result_ok sample_os maps len (sample_mmap maps len)" for maps len
  proof -
    let ?a = "(sample_top maps + 65535) div 65536 * 65536"
    have ge: "sample_top maps \<le> ?a" by linarith
    show ?thesis
    proof (cases "?a + unat len \<le> 2 ^ 47")
      case True
      then have "?a < 2 ^ 64" by simp
      then have u: "unat (word_of_nat ?a :: ptr) = ?a" by (rule unat_word_of_nat64)
      have s: "sample_mmap maps len = word_of_nat ?a" using True by (simp add: sample_mmap_def Let_def)
      have "(word_of_nat ?a :: ptr) \<noteq> NULL"
      proof
        assume "(word_of_nat ?a :: ptr) = NULL"
        with u have "?a = 0" by (metis unat_0)
        with ge sample_top_ge(1) [of maps] show False by linarith
      qed
      moreover have "(4096 :: nat) dvd ?a" using dvd_mult [of 4096 65536] by simp
      moreover have "block_bytes (word_of_nat ?a, len) \<inter> block_bytes d = {}" if "d \<in> set maps" for d
        using sample_top_ge(2) [OF that] ge u by (auto simp: block_bytes_def)
      ultimately show ?thesis
        using True unfolding s mmap_result_ok_def u by (simp add: sample_os_def)
    next
      case False
      then show ?thesis by (simp add: sample_mmap_def mmap_result_ok_def Let_def)
    qed
  qed
  ultimately show ?thesis by (simp add: os_ok_def sample_os_def mmap_result_ok_def)
qed

lemma sample_reserve: "sample_top maps + k * 2 ^ 23 \<le> 2 ^ 46 \<Longrightarrow> reserve sample_os maps k"
proof (induction k arbitrary: maps)
  case 0
  then show ?case by simp
next
  case (Suc k)
  let ?a = "(sample_top maps + 65535) div 65536 * 65536"
  have len: "unat META_CHUNK_SIZE = 4194304" by (simp add: META_CHUNK_SIZE_def)
  have le: "?a \<le> sample_top maps + 65535" by simp
  with Suc.prems have b: "?a + 4194304 + k * 2 ^ 23 \<le> 2 ^ 46" by simp
  then have "?a < 2 ^ 64" by simp
  then have u: "unat (word_of_nat ?a :: ptr) = ?a" by (rule unat_word_of_nat64)
  have m: "mmap sample_os maps META_CHUNK_SIZE = word_of_nat ?a"
    using b len by (simp add: sample_os_def sample_mmap_def Let_def)
  have nf: "(word_of_nat ?a :: ptr) \<noteq> MAP_FAILED"
  proof
    assume "(word_of_nat ?a :: ptr) = MAP_FAILED"
    with u have "?a = unat MAP_FAILED" by metis
    with b show False by simp
  qed
  have "sample_top ((word_of_nat ?a, META_CHUNK_SIZE) # maps) + k * 2 ^ 23 \<le> 2 ^ 46"
    using b le Suc.prems unfolding sample_top_Cons u len by (simp add: max_def)
  from Suc.IH [OF this] m nf show ?case by (simp add: Let_def)
qed

definition sample_rt :: runtime where
  "sample_rt = cmalloc_runtime_init sample_os runtime_zero"

lemma sample_rt_ok: "runtime_ok sample_rt"
  using sample_os_ok unfolding sample_rt_def os_ok_def
  by (intro runtime_init_ok) (simp_all add: runtime_zero_def)

lemma sample_rt_pages: "cmalloc_page_size sample_rt = 4096" "cmalloc_page_shift sample_rt = 12"
proof -
  show *: "cmalloc_page_size sample_rt = 4096"
    by (simp add: sample_rt_def cmalloc_runtime_init_def runtime_zero_def get_system_page_size_def
        sample_os_def)
  have "(2 :: nat) ^ cmalloc_page_shift sample_rt = 2 ^ 12"
    using unat_page_size [OF sample_rt_ok] * by simp
  then show "cmalloc_page_shift sample_rt = 12" by (simp only: power_inject_exp)
qed

section \<open>A metadata state\<close>

lemma meta_zero_inv: "meta_inv {} (\<lambda>_. []) meta_zero"
  by (simp add: meta_inv_def meta_zero_def arena_inv_def blocks_inv_def free_blocks_def
      trie_inv_def counts_inv_def lists_inv_def mid_def leaf_def roots_def l1_at_def)

text \<open>A new page map is empty.\<close>

lemma new_page_map:
  assumes os: "os_ok os" and I: "meta_inv A F m"
    and run: "cmalloc_initialize_range_map os m = Inr (r, m')" and r: "r \<noteq> NULL"
  shows "page_inv os (client A) r m'" "look m' r k = NULL"
proof -
  note a = alloc_inv [OF os I size_ok_nodes(1) run [unfolded cmalloc_initialize_range_map_def] r]
  note e = a(2) [unfolded alloc_effect_def]
  have nr: "r \<notin> roots A" using e by (auto simp: roots_def)
  then have "l1_at m' r i = NULL" for i
    using e trie_zero [OF meta_invD(4) [OF I], of r i] by simp
  then show "look m' r k = NULL" by (simp add: look_def)
  have "r \<noteq> free_list_map m'"
    using e nr free_list_map_root [OF I] r by metis
  moreover have "client (insert (r, sizeof_l1_node) A) = client A" "r \<in> roots (insert (r, sizeof_l1_node) A)"
    by (auto simp: client_def roots_def)
  ultimately show "page_inv os (client A) r m'"
    using os a(1) unfolding page_inv_def by blast
qed

definition sample_root :: ptr where
  "sample_root = 65568"

definition sample_meta :: meta_state where
  "sample_meta = (case cmalloc_initialize_range_map sample_os meta_zero of
     Inr (_, m) \<Rightarrow> m | Inl _ \<Rightarrow> meta_zero)"

lemma sample_init: "cmalloc_initialize_range_map sample_os meta_zero = Inr (sample_root, sample_meta)"
  by (simp add: sample_meta_def sample_root_def cmalloc_initialize_range_map_def
      cmalloc_alloc_metadata.simps bump_alloc_def meta_zero_def sys_mmap_def sample_os_def
      sample_mmap_def sample_top_def META_CHUNK_SIZE_def new_chunk_def take_from_chunk_def
      align_up_ptr_def BYTE_ALIGNMENT_def sizeof_meta_chunk_def Let_def)

lemma sample_page_inv: "page_inv sample_os {} sample_root sample_meta"
  using new_page_map(1) [OF sample_os_ok meta_zero_inv sample_init]
  by (simp add: sample_root_def client_def)

lemma sample_look: "look sample_meta sample_root k = NULL"
  using new_page_map(2) [OF sample_os_ok meta_zero_inv sample_init] by (simp add: sample_root_def)

lemma sample_mappings: "mappings sample_meta = [(65536, META_CHUNK_SIZE)]"
  by (simp add: sample_meta_def cmalloc_initialize_range_map_def
      cmalloc_alloc_metadata.simps bump_alloc_def meta_zero_def sys_mmap_def sample_os_def
      sample_mmap_def sample_top_def META_CHUNK_SIZE_def new_chunk_def take_from_chunk_def Let_def)

lemma sample_reserve_meta: "k \<le> 2 ^ 22 \<Longrightarrow> reserve sample_os (mappings sample_meta) k"
  by (rule sample_reserve) (simp add: sample_mappings sample_top_def META_CHUNK_SIZE_def)

end
