(* ===== verification/SpanTheorems.thy ===== *)
theory SpanTheorems
  imports SpanPool Spans MetaSample
begin

text \<open>
  The properties of the size classes, of the block bitmap of a span, and of the index over the
  free-span bins.
\<close>

section \<open>Size classes and rounding\<close>

text \<open>C33: after start-up, \<open>get_size_class_index\<close> returns the first class that is large
  enough, as a linear scan over the classes would, and \<open>LARGE_CLASS_SIZE_INDEX\<close> above the
  largest class.\<close>

theorem size_class_is_first_fit:
  assumes "page_size_ok os" "cmalloc_page_size rt0 = 0"
  defines "r \<equiv> cmalloc_runtime_init os rt0"
  shows "(sz > MAX_SIZE_CLASS \<longrightarrow> get_size_class_index r sz = LARGE_CLASS_SIZE_INDEX) \<and>
    (sz \<le> MAX_SIZE_CLASS \<longrightarrow>
      (\<exists>i < SIZE_CLASS_COUNT. get_size_class_index r sz = int i \<and> sz \<le> SIZE_CLASSES ! i \<and>
         (\<forall>j < i. SIZE_CLASSES ! j < sz)))"
proof -
  have "runtime_ok r" unfolding r_def using assms(1,2) by (rule runtime_init_ok)
  note v = get_size_class_index_value [OF this, of sz]
  have "sz \<le> SIZE_CLASSES ! first_fit sz" "first_fit sz < SIZE_CLASS_COUNT" if "sz \<le> MAX_SIZE_CLASS"
    using first_fit_ge first_fit_exists that by auto
  then show ?thesis using v first_fit_less by auto
qed

theorem size_class_is_first_fit_witness:
  "\<exists>i < SIZE_CLASS_COUNT. get_size_class_index sample_rt 100 = int i \<and> 100 \<le> SIZE_CLASSES ! i \<and>
     (\<forall>j < i. SIZE_CLASSES ! j < 100)"
proof -
  have "page_size_ok sample_os" using sample_os_ok by (simp add: os_ok_def)
  from size_class_is_first_fit [OF this, of runtime_zero 100] show ?thesis
    by (simp add: runtime_zero_def MAX_SIZE_CLASS_def sample_rt_def)
qed

text \<open>The class tables agree: every span holds as many blocks as fit and no more, blocks are
  multiples of 16, spans are multiples of every supported page size, and no span has more blocks
  than the bitmap has bits.\<close>

theorem class_tables_agree:
  assumes "i < SIZE_CLASS_COUNT" "page_size_ok os"
  shows "16 dvd unat (SIZE_CLASSES ! i) \<and>
    unat (sysconf_pagesize os) dvd unat (SIZE_CLASS_SPAN_SIZE ! i) \<and>
    unat (SIZE_CLASS_BLOCK_COUNT ! i) = unat (SIZE_CLASS_SPAN_SIZE ! i) div unat (SIZE_CLASSES ! i) \<and>
    1 \<le> unat (SIZE_CLASS_BLOCK_COUNT ! i) \<and> unat (SIZE_CLASS_BLOCK_COUNT ! i) \<le> MAX_SPAN_BLOCK_COUNT"
proof -
  let ?c = "unat (SIZE_CLASSES ! i)" and ?s = "unat (SIZE_CLASS_SPAN_SIZE ! i)"
    and ?n = "unat (SIZE_CLASS_BLOCK_COUNT ! i)"
  have r: "16 dvd ?c" "65536 dvd ?s" "?n * ?c \<le> ?s" "?s < (?n + 1) * ?c" "32 \<le> ?n"
    "?n \<le> MAX_SPAN_BLOCK_COUNT"
    using class_row [OF assms(1)] by (simp_all add: class_row_ok_def)
  have "?n = ?s div ?c" using r(3,4) by (intro div_nat_eqI [symmetric]) (simp_all add: mult.commute)
  moreover obtain k where k: "12 \<le> k" "k \<le> 16" "sysconf_pagesize os = 2 ^ k"
    using assms(2) by (auto simp: page_size_ok_def)
  have "(2 :: nat) ^ k dvd 2 ^ 16" using k(2) by (intro le_imp_power_dvd)
  then have "unat (sysconf_pagesize os) dvd ?s"
    using k r(2) by (auto simp: unat_exp64 intro: dvd_trans)
  ultimately show ?thesis using r by simp
qed

theorem class_tables_agree_witness:
  "unat (SIZE_CLASS_BLOCK_COUNT ! 2) = unat (SIZE_CLASS_SPAN_SIZE ! 2) div unat (SIZE_CLASSES ! 2)"
proof -
  have "page_size_ok sample_os" using sample_os_ok by (simp add: os_ok_def)
  from class_tables_agree [OF _ this, of 2] show ?thesis by (simp add: SIZE_CLASS_COUNT_def)
qed

text \<open>C38: \<open>round_up_page\<close> is the next multiple of the page size, except for the requests
  within a page of \<open>2 ^ 64\<close>, where the addition wraps and the result is 0.\<close>

theorem round_up_page_wraps:
  assumes "runtime_ok r"
  defines "ps \<equiv> unat (cmalloc_page_size r)"
  shows "if unat n \<le> 2 ^ 64 - ps
         then ps dvd unat (round_up_page r n) \<and> unat n \<le> unat (round_up_page r n) \<and>
              unat (round_up_page r n) < unat n + ps
         else round_up_page r n = 0"
proof -
  have "ps = 2 ^ cmalloc_page_shift r"
    using unat_page_size [OF assms(1)] by (simp add: ps_def)
  moreover have "(2 :: nat) ^ cmalloc_page_shift r \<le> 2 ^ 16"
    using page_shift_bounds [OF assms(1)] by (intro power_increasing) simp_all
  ultimately have ps: "1 \<le> ps" "ps \<le> 65536" by simp_all
  note v = round_up_page_value [OF assms(1), of n, folded ps_def, unfolded Let_def]
  show ?thesis
  proof (cases "unat n \<le> 2 ^ 64 - ps")
    case True
    then have "unat n + (ps - 1) < 2 ^ 64" using ps by simp
    then have e: "unat (round_up_page r n) = (unat n + (ps - 1)) div ps * ps" using v by simp
    have m: "(unat n + (ps - 1)) mod ps < ps" using ps by simp
    have "(unat n + (ps - 1)) div ps * ps + (unat n + (ps - 1)) mod ps = unat n + (ps - 1)" by simp
    then have "unat n \<le> unat (round_up_page r n)" "unat (round_up_page r n) < unat n + ps"
      using m ps unfolding e by linarith+
    moreover have "ps dvd unat (round_up_page r n)" unfolding e by simp
    ultimately show ?thesis using True by simp
  next
    case False
    then have "\<not> unat n + (ps - 1) < 2 ^ 64" using ps by linarith
    then have "unat (round_up_page r n) = 0" using v by simp
    with False show ?thesis by (simp add: word_unat_eq_iff)
  qed
qed

theorem round_up_page_wraps_witness:
  "round_up_page sample_rt (- 1) = 0 \<and> 4096 dvd unat (round_up_page sample_rt 5000)"
  using round_up_page_wraps [OF sample_rt_ok, of "- 1"] round_up_page_wraps [OF sample_rt_ok, of 5000]
  by (simp add: sample_rt_pages)

section \<open>Blocks of a span\<close>

lemma allocate_block_set:
  assumes "blocks_ok span"
  shows "if free_set span = {} then allocate_block span = Inr (NULL, span)
    else \<exists>span'. allocate_block span = Inr (block_addr span (Min (free_set span)), span') \<and>
           free_set span' = free_set span - {Min (free_set span)} \<and> blocks_ok span' \<and>
           unat (free_count span') + 1 = unat (free_count span)"
proof (cases "free_set span = {}")
  case True
  with allocate_block_empty [OF assms] show ?thesis by simp
next
  case False
  obtain span' where s: "allocate_block span = Inr (block_addr span (Min (free_set span)), span')"
    "free_set span' = free_set span - {Min (free_set span)}" "blocks_ok span'"
    using allocate_block_takes_lowest [OF assms False] by blast
  have "Min (free_set span) \<in> free_set span" "0 < card (free_set span)"
    using False by (simp_all add: card_gt_0_iff)
  then have "card (free_set span') + 1 = card (free_set span)" unfolding s(2) by simp
  then have "unat (free_count span') + 1 = unat (free_count span)"
    using s(3) assms by (simp add: blocks_ok_def)
  with s False show ?thesis by auto
qed

text \<open>C30: \<open>allocate_block\<close> refines removing the least element of the set of free blocks: it
  returns the address of the lowest free block, or \<open>NULL\<close> when there is none, and keeps the
  bitmap, the summary bitmap and the count consistent.\<close>

theorem allocate_block_refines:
  assumes "blocks_ok span"
  shows "if free_set span = {} then allocate_block span = Inr (NULL, span)
    else \<exists>span'. allocate_block span = Inr (block_addr span (Min (free_set span)), span') \<and>
           free_set span' = free_set span - {Min (free_set span)} \<and> blocks_ok span' \<and>
           unat (free_count span') + 1 = unat (free_count span)"
  by (rule allocate_block_set [OF assms])

text \<open>A span as \<open>cmalloc_initialize_span\<close> sets it up.\<close>

definition fresh_span :: "int \<Rightarrow> u64 \<Rightarrow> span_t \<Rightarrow> span_t \<Rightarrow> bool" where
  "fresh_span c sz d span \<longleftrightarrow> init_blocks (describe_span c sz d) = Inr span"

lemma class_index_nat: "i < SIZE_CLASS_COUNT \<Longrightarrow> int i \<noteq> LARGE_CLASS_SIZE_INDEX"
  by (simp add: LARGE_CLASS_SIZE_INDEX_def)

lemma describe_class_fields:
  assumes "i < SIZE_CLASS_COUNT"
  shows "block_size (describe_span (int i) sz d) = SIZE_CLASSES ! i"
    "block_count (describe_span (int i) sz d) = SIZE_CLASS_BLOCK_COUNT ! i"
    "free_count (describe_span (int i) sz d) = SIZE_CLASS_BLOCK_COUNT ! i"
    "span_base (describe_span (int i) sz d) = span_base d"
  using class_index_nat [OF assms] by (simp_all add: describe_span_def Let_def)

lemma fresh_class_span:
  assumes i: "i < SIZE_CLASS_COUNT"
    and fits: "unat (span_base d) + unat (SIZE_CLASS_SPAN_SIZE ! i) < 2 ^ 64"
  obtains span where "fresh_span (int i) sz d span" "span_ok span"
    "free_set span = {..<unat (SIZE_CLASS_BLOCK_COUNT ! i)}"
    "block_count span = SIZE_CLASS_BLOCK_COUNT ! i" "block_size span = SIZE_CLASSES ! i"
    "span_base span = span_base d" "same_descr (describe_span (int i) sz d) span"
proof -
  let ?d = "describe_span (int i) sz d"
  note f = describe_class_fields [OF i, of sz d]
  have r: "unat (SIZE_CLASS_BLOCK_COUNT ! i) * unat (SIZE_CLASSES ! i) \<le> unat (SIZE_CLASS_SPAN_SIZE ! i)"
    "32 \<le> unat (SIZE_CLASS_BLOCK_COUNT ! i)" "unat (SIZE_CLASS_BLOCK_COUNT ! i) \<le> MAX_SPAN_BLOCK_COUNT"
    "16 \<le> unat (SIZE_CLASSES ! i)"
    using class_row [OF i] by (simp_all add: class_row_ok_def)
  obtain span where s: "init_blocks ?d = Inr span" "same_descr ?d span"
    "free_set span = {..<unat (block_count ?d)}" "blocks_ok span"
    by (rule init_blocks_all_free [of ?d]) (use f r in simp_all)
  note sf = same_descr_fields [OF s(2)]
  have "span_geometry ?d" unfolding span_geometry_def f using r fits by linarith
  then have "span_ok span" using s(2,4) same_descr_geometry by (simp add: span_ok_def)
  with s f sf show thesis by (intro that [of span]) (simp_all add: fresh_span_def)
qed

text \<open>A fresh span of a size class hands out all its blocks, each once and in address order,
  and then \<open>NULL\<close>.\<close>

theorem fresh_span_hands_out_all:
  assumes "i < SIZE_CLASS_COUNT" "unat (span_base d) + unat (SIZE_CLASS_SPAN_SIZE ! i) < 2 ^ 64"
  shows "\<exists>span span'. init_blocks (describe_span (int i) sz d) = Inr span \<and>
    take_many allocate_block (unat (SIZE_CLASS_BLOCK_COUNT ! i)) span =
      Inr (map (\<lambda>k. span_base d + word_of_nat k * SIZE_CLASSES ! i)
             [0..<unat (SIZE_CLASS_BLOCK_COUNT ! i)], span') \<and>
    allocate_block span' = Inr (NULL, span')"
proof -
  let ?n = "unat (SIZE_CLASS_BLOCK_COUNT ! i)"
  obtain span where s: "fresh_span (int i) sz d span" "span_ok span" "free_set span = {..<?n}"
    "block_size span = SIZE_CLASSES ! i" "span_base span = span_base d"
    by (rule fresh_class_span [OF assms, of sz])
  have "card (free_set span) = ?n" "sorted_list_of_set (free_set span) = [0..<?n]"
    by (simp_all add: s(3) lessThan_atLeast0)
  moreover have "block_addr span = (\<lambda>k. span_base d + word_of_nat k * SIZE_CLASSES ! i)"
    by (simp add: block_addr_def s fun_eq_iff)
  ultimately show ?thesis
    using span_pool.take_all [OF s(2)] s(1) unfolding fresh_span_def by auto
qed

definition sample_span :: span_t where
  "sample_span = zero_span\<lparr>span_base := 1048576, page_count := 256\<rparr>"

theorem fresh_span_hands_out_all_witness:
  "\<exists>span span'. init_blocks (describe_span 47 32768 sample_span) = Inr span \<and>
    take_many allocate_block 32 span =
      Inr (map (\<lambda>k. 1048576 + word_of_nat k * 32768) [0..<32], span') \<and>
    allocate_block span' = Inr (NULL, span')"
  using fresh_span_hands_out_all [of 47 sample_span 32768]
  by (simp add: SIZE_CLASS_COUNT_def SIZE_CLASS_SPAN_SIZE_def SIZE_CLASS_BLOCK_COUNT_def
      SIZE_CLASSES_def sample_span_def)

lemma sample_span_fresh:
  obtains span where "span_ok span" "free_set span = {..<32}" "block_count span = 32"
    "block_size span = 32768" "span_base span = 1048576"
proof -
  have s: "unat (span_base sample_span) + unat (SIZE_CLASS_SPAN_SIZE ! 47) < 2 ^ 64"
    by (simp add: sample_span_def SIZE_CLASS_SPAN_SIZE_def)
  show thesis
    by (rule fresh_class_span [of 47, OF _ s])
       (auto simp: SIZE_CLASS_COUNT_def SIZE_CLASS_BLOCK_COUNT_def SIZE_CLASSES_def sample_span_def
         intro: that)
qed

theorem allocate_block_refines_witness:
  "\<exists>span span'. blocks_ok span \<and> allocate_block span = Inr (1048576, span') \<and>
     free_set span' = {1..<32}"
proof -
  obtain span where s: "span_ok span" "free_set span = {..<32}" "block_count span = 32"
    "block_size span = 32768" "span_base span = 1048576" by (rule sample_span_fresh)
  have m: "Min (free_set span) = 0" "free_set span \<noteq> {}" "{..<32} - {0} = {1..<32 :: nat}"
    unfolding s(2) by (auto intro!: Min_eqI simp: lessThan_empty_iff)
  from s(1) have ok: "blocks_ok span" by (simp add: span_ok_def)
  from allocate_block_refines [OF ok] obtain span' where
    "allocate_block span = Inr (block_addr span (Min (free_set span)), span')"
    "free_set span' = free_set span - {Min (free_set span)}"
    using m(2) by auto
  with ok m s(2,5) show ?thesis by (auto simp: block_addr_def)
qed

text \<open>C31: \<open>free_block\<close> accepts any address inside a block in use, not only its start, and
  marks exactly that block free; the next \<open>allocate_block\<close> returns the lowest free block, so
  a block freed below all others comes straight back.\<close>

theorem free_block_interior:
  assumes "blocks_ok span" "span_geometry span" "i < unat (block_count span)" "i \<notin> free_set span"
    and "unat (block_addr span i) \<le> unat p" "unat p < unat (block_addr span i) + unat (block_size span)"
  shows "\<exists>span'. free_block p span = Inr span' \<and> free_set span' = insert i (free_set span) \<and>
    blocks_ok span' \<and> unat (free_count span') = unat (free_count span) + 1 \<and>
    ((\<forall>j \<in> free_set span. i < j) \<longrightarrow>
       (\<exists>span''. allocate_block span' = Inr (block_addr span i, span'') \<and>
          free_set span'' = free_set span))"
proof -
  obtain s where s: "free_block p span = Inr s" "free_set s = insert i (free_set span)" "blocks_ok s"
    "same_descr span s"
    using free_block_returns [OF assms(1-3,5,6,4)] .
  have "unat (free_count s) = unat (free_count span) + 1"
    using s(2,3) assms(1,4) by (simp add: blocks_ok_def)
  moreover have "\<exists>s'. allocate_block s = Inr (block_addr span i, s') \<and> free_set s' = free_set span"
    if low: "\<forall>j \<in> free_set span. i < j"
  proof -
    have "Min (free_set s) = i" unfolding s(2) using low by (intro Min_eqI) auto
    then show ?thesis
      using allocate_block_set [OF s(3)] s(2) assms(4) same_descr_addr [OF s(4)] by auto
  qed
  ultimately show ?thesis using s by blast
qed

theorem free_block_interior_witness:
  "\<exists>span1 span2 span3. allocate_block span1 = Inr (1048576, span2) \<and>
     free_block (1048576 + 100) span2 = Inr span3 \<and> free_set span3 = free_set span1"
proof -
  obtain span where s: "span_ok span" "free_set span = {..<32}" "block_count span = 32"
    "block_size span = 32768" "span_base span = 1048576" by (rule sample_span_fresh)
  have ok: "blocks_ok span" using s(1) by (simp add: span_ok_def)
  have m: "Min (free_set span) = 0" "free_set span \<noteq> {}"
    unfolding s(2) by (auto intro!: Min_eqI simp: lessThan_empty_iff)
  obtain t where t: "allocate_block span = Inr (block_addr span 0, t)"
    "free_set t = free_set span - {0}" "blocks_ok t" "same_descr span t"
    using allocate_block_takes_lowest [OF ok m(2)] m(1) by metis
  have g: "span_geometry t" using same_descr_geometry [OF t(4)] s(1) by (simp add: span_ok_def)
  note tf = same_descr_fields [OF t(4)]
  have a: "block_addr t 0 = 1048576" "block_size t = 32768" by (simp_all add: block_addr_def tf s)
  obtain u where "free_block (1048576 + 100) t = Inr u" "free_set u = insert 0 (free_set t)"
    using free_block_interior [OF t(3) g, of 0 "1048576 + 100"] t(2) s(3) a by (auto simp: tf)
  moreover have "insert 0 (free_set t) = free_set span" unfolding t(2) s(2) by auto
  ultimately show ?thesis using t(1) s(5) by (auto simp: block_addr_def)
qed

text \<open>Nothing detects a double free: the block stays free, but \<open>free_count\<close> grows past
  the number of free blocks, so the span's invariant is lost.\<close>

theorem double_free_breaks_count:
  assumes "blocks_ok span" "span_geometry span" "i < unat (block_count span)" "i \<in> free_set span"
  shows "\<exists>span'. free_block (block_addr span i) span = Inr span' \<and> free_set span' = free_set span \<and>
    unat (free_count span') = card (free_set span') + 1 \<and> \<not> blocks_ok span'"
proof -
  have i4: "i < 4096" and nz: "block_size span \<noteq> 0" and w: "i div 64 < 64"
    using assms(2,3) by (auto simp: span_geometry_def MAX_SPAN_BLOCK_COUNT_def)
  have "unat ((block_addr span i - span_base span) div block_size span) = i"
    by (rule block_index_of_addr [OF assms(2,3) order_refl])
       (use block_size_positive [OF assms(2)] in simp)
  then obtain s where s: "free_block (block_addr span i) span = Inr s"
    and bm: "block_bitmap s = (block_bitmap span)(i div 64 :=
        block_bitmap span (i div 64) OR one_bit (i mod 64))"
    and fc: "free_count s = free_count span + 1"
    using nz w by (auto simp: free_block_def Let_def)
  have fs: "free_set s = free_set span"
    using free_set_add [OF i4 bm] assms(4) by (simp add: insert_absorb)
  have "card (free_set span) \<le> 4096"
    using card_mono [of "{..<4096}" "free_set span"] by (auto simp: free_set_def MAX_SPAN_BLOCK_COUNT_def)
  then have "unat (free_count s) = card (free_set span) + 1"
    using assms(1) by (simp add: fc blocks_ok_def unat_plus_if')
  then show ?thesis using s fs by (intro exI [of _ s]) (auto simp: blocks_ok_def)
qed

theorem double_free_breaks_count_witness:
  "\<exists>span span'. blocks_ok span \<and> free_block 1048576 span = Inr span' \<and> \<not> blocks_ok span'"
proof -
  obtain span where s: "span_ok span" "free_set span = {..<32}" "block_count span = 32"
    "block_size span = 32768" "span_base span = 1048576" by (rule sample_span_fresh)
  then have ok: "blocks_ok span" "span_geometry span" by (simp_all add: span_ok_def)
  have "block_addr span 0 = 1048576" by (simp add: block_addr_def s)
  with double_free_breaks_count [OF ok, of 0] ok(1) s(2,3) show ?thesis by auto
qed

text \<open>The blocks of a span of a size class are 16-byte aligned when the span is, lie inside
  the span, and do not overlap.\<close>

theorem class_blocks_disjoint:
  assumes "i < SIZE_CLASS_COUNT" "unat (span_base d) + unat (SIZE_CLASS_SPAN_SIZE ! i) < 2 ^ 64"
    and "16 dvd unat (span_base d)" "init_blocks (describe_span (int i) sz d) = Inr span"
    and "j \<in> free_set span" "k \<in> free_set span"
  shows "16 dvd unat (block_addr span j) \<and>
    bytes (block_addr span j) (unat (SIZE_CLASSES ! i)) \<subseteq>
      bytes (span_base d) (unat (SIZE_CLASS_SPAN_SIZE ! i)) \<and>
    (j \<noteq> k \<longrightarrow> bytes (block_addr span j) (unat (SIZE_CLASSES ! i)) \<inter>
                bytes (block_addr span k) (unat (SIZE_CLASSES ! i)) = {})"
proof -
  let ?c = "unat (SIZE_CLASSES ! i)" and ?n = "unat (SIZE_CLASS_BLOCK_COUNT ! i)"
  obtain s where s: "fresh_span (int i) sz d s" "span_ok s" "free_set s = {..<?n}"
    "block_count s = SIZE_CLASS_BLOCK_COUNT ! i" "block_size s = SIZE_CLASSES ! i" "span_base s = span_base d"
    by (rule fresh_class_span [OF assms(1,2), of sz])
  with assms(4) have span: "s = span" by (simp add: fresh_span_def)
  have r: "?n * ?c \<le> unat (SIZE_CLASS_SPAN_SIZE ! i)" "16 dvd ?c" "16 \<le> ?c"
    using class_row [OF assms(1)] by (simp_all add: class_row_ok_def)
  have g: "span_geometry span" using s(2) span by (simp add: span_ok_def)
  have a: "unat (block_addr span x) = unat (span_base d) + x * ?c" if "x \<in> free_set span" for x
    using unat_block_addr [OF g, of x] that s(3-6) by (simp add: span)
  have top: "x * ?c + ?c \<le> unat (SIZE_CLASS_SPAN_SIZE ! i)" if "x \<in> free_set span" for x
  proof -
    have "Suc x * ?c \<le> ?n * ?c" using that s(3) span by (intro mult_right_mono) auto
    with r(1) show ?thesis by simp
  qed
  have apart: "x * ?c + ?c \<le> y * ?c" if "x < y" for x y
    using mult_right_mono [of "Suc x" y ?c] that by simp
  have "bytes (block_addr span j) ?c \<inter> bytes (block_addr span k) ?c = {}" if "j \<noteq> k"
  proof -
    have "j * ?c + ?c \<le> k * ?c \<or> k * ?c + ?c \<le> j * ?c"
      using apart [of j k] apart [of k j] that by linarith
    then show ?thesis
      using r(3) a [OF assms(5)] a [OF assms(6)] by (subst bytes_disjoint_iff) auto
  qed
  moreover have "16 dvd unat (block_addr span j)"
    unfolding a [OF assms(5)] using assms(3) r(2) by simp
  moreover have "bytes (block_addr span j) ?c \<subseteq> bytes (span_base d) (unat (SIZE_CLASS_SPAN_SIZE ! i))"
    using top [OF assms(5)] a [OF assms(5)] by (intro bytes_subset) auto
  ultimately show ?thesis by blast
qed

theorem class_blocks_disjoint_witness:
  "\<exists>span. init_blocks (describe_span 47 32768 sample_span) = Inr span \<and>
     bytes (block_addr span 0) 32768 \<inter> bytes (block_addr span 1) 32768 = {}"
proof -
  have b: "unat (span_base sample_span) + unat (SIZE_CLASS_SPAN_SIZE ! 47) < 2 ^ 64"
    "16 dvd unat (span_base sample_span)" "47 < SIZE_CLASS_COUNT" "SIZE_CLASSES ! 47 = 32768"
    "SIZE_CLASS_BLOCK_COUNT ! 47 = 32"
    by (simp_all add: sample_span_def SIZE_CLASS_SPAN_SIZE_def SIZE_CLASS_COUNT_def SIZE_CLASSES_def
        SIZE_CLASS_BLOCK_COUNT_def)
  obtain span where s: "init_blocks (describe_span (int 47) 32768 sample_span) = Inr span"
    "free_set span = {..<unat (SIZE_CLASS_BLOCK_COUNT ! 47)}"
    by (rule fresh_class_span [OF b(3,1), of 32768]) (auto simp: fresh_span_def)
  from class_blocks_disjoint [OF b(3,1,2) s(1), of 0 1] s show ?thesis by (simp add: b)
qed

section \<open>The index over the free-span bins\<close>

text \<open>C32: the bitmap search finds the smallest marked page count that is at least the request,
  and reports \<open>NO_FITTING_PAGE_SEQUENCE\<close> exactly when there is none; marking and unmarking a
  page count add and remove it from the searched set.\<close>

theorem best_fit_is_least:
  assumes "pages < MAX_BINNED_PAGES" "p < MAX_BINNED_PAGES"
  shows "find_best_fitting_uninitialized_span bm pages = best_fit_spec (bin_bits bm) (unat pages) \<and>
    find_best_fitting_uninitialized_span (mark_binned_span_non_empty p bm) pages =
      best_fit_spec (insert (unat p) (bin_bits bm)) (unat pages) \<and>
    find_best_fitting_uninitialized_span (mark_binned_span_empty p bm) pages =
      best_fit_spec (bin_bits bm - {unat p}) (unat pages)"
  using assms by (simp add: find_best_fit_value bin_bits_mark bin_bits_unmark)

theorem best_fit_is_least_witness:
  "find_best_fitting_uninitialized_span (mark_binned_span_non_empty 300 (\<lambda>_. 0)) 17 = 300"
proof -
  have "bin_bits (\<lambda>_. 0) = {}" by (simp add: bin_bits_def)
  moreover have "best_fit_spec {300} 17 = word_of_nat 300"
    by (rule best_fit_spec_eqI) (simp_all add: MAX_BINNED_PAGES_def)
  ultimately show ?thesis
    using best_fit_is_least [of 17 300 "\<lambda>_. 0"] by (simp add: MAX_BINNED_PAGES_def)
qed

end
