(* ===== verification/MetaTheorems.thy ===== *)
theory MetaTheorems
  imports MetaSample
begin

text \<open>
  The properties of the metadata allocator and of the range map, each with an instance on the
  sample system.
\<close>

section \<open>The metadata allocator\<close>

text \<open>C28: \<open>cmalloc_alloc_metadata\<close> returns a 16-byte aligned block inside a live mapping that
  overlaps no block in use and no block of a free list, and keeps the invariant of the metadata
  layer, for every size up to the room of a chunk.\<close>

theorem metadata_block_fresh:
  assumes "os_ok os" "meta_inv A F m" "size_ok sz"
    and "cmalloc_alloc_metadata os m sz = Inr (p, m')" "p \<noteq> NULL"
  shows "meta_inv (insert (p, sz) A) (F(sz := tl (F sz))) m' \<and> 16 dvd unat p \<and>
    (\<forall>b \<in> A \<union> free_blocks (F(sz := tl (F sz))). block_bytes (p, sz) \<inter> block_bytes b = {}) \<and>
    (\<exists>d \<in> set (mappings m'). block_bytes (p, sz) \<subseteq> block_bytes d)"
proof -
  let ?F = "F(sz := tl (F sz))"
  have I: "meta_inv (insert (p, sz) A) ?F m'" by (rule alloc_inv(1) [OF assms])
  have new: "(p, sz) \<notin> A" using alloc_inv(2) [OF assms] by (simp add: alloc_effect_def)
  have "(p, sz) \<notin> free_blocks ?F" using meta_invD(3) [OF I] by blast
  with new have "b \<noteq> (p, sz)" if "b \<in> A \<union> free_blocks ?F" for b using that by blast
  then have "\<forall>b \<in> A \<union> free_blocks ?F. block_bytes (p, sz) \<inter> block_bytes b = {}"
    using meta_invD(2) [OF I] unfolding blocks_inv_def by blast
  moreover have "block_ok m' (p, sz)"
    using meta_invD(2) [OF I] unfolding blocks_inv_def by blast
  ultimately show ?thesis using I by (simp add: block_ok_def)
qed

lemma sample_alloc:
  "\<exists>m'. cmalloc_alloc_metadata sample_os meta_zero 608 = Inr (65568, m')"
  by (simp add: cmalloc_alloc_metadata.simps bump_alloc_def meta_zero_def sys_mmap_def sample_os_def
      sample_mmap_def sample_top_def META_CHUNK_SIZE_def new_chunk_def take_from_chunk_def
      align_up_ptr_def BYTE_ALIGNMENT_def sizeof_meta_chunk_def Let_def)

theorem metadata_block_fresh_witness:
  "\<exists>m'. cmalloc_alloc_metadata sample_os meta_zero 608 = Inr (65568, m') \<and>
     meta_inv {(65568, 608)} (\<lambda>_. []) m' \<and> (16 :: nat) dvd unat (65568 :: ptr)"
proof -
  obtain m' where m': "cmalloc_alloc_metadata sample_os meta_zero 608 = Inr (65568, m')"
    using sample_alloc by blast
  from metadata_block_fresh [OF sample_os_ok meta_zero_inv _ m']
  have "meta_inv {(65568, 608)} (\<lambda>_. []) m' \<and> (16 :: nat) dvd unat (65568 :: ptr)"
    by (simp add: size_ok_def fun_upd_idem)
  with m' show ?thesis by blast
qed

text \<open>C34: the free lists are last-in first-out: freeing a client block leaves every page lookup
  unchanged, and the next allocation of that size returns the same block.\<close>

theorem metadata_recycled:
  assumes "page_inv os E r m" "(p, sz) \<in> E" "size_ok sz"
    and "cmalloc_free_metadata os m p sz = Inr m1"
  shows "page_inv os (E - {(p, sz)}) r m1 \<and> (\<forall>k. cmalloc_get m1 r k = cmalloc_get m r k) \<and>
    (\<exists>m2. cmalloc_alloc_metadata os m1 sz = Inr (p, m2) \<and> page_inv os E r m2)"
proof -
  obtain A F where J: "os_ok os" "meta_inv A F m" "client A = E" "r \<in> roots A" "r \<noteq> free_list_map m"
    using assms(1) unfolding page_inv_def by blast
  have p: "(p, sz) \<in> client A" using J(3) assms(2) by simp
  then have sz: "\<not> node_size sz" "sz \<noteq> sizeof_l1_node" by (auto simp: client_def)
  obtain A' F' ps where S: "meta_inv A' F' m1" "client A' = client A - {(p, sz)}" "index_kept A m A' m1"
    "F' sz = p # ps"
    by (rule free_client_spec [OF J(1,2) p assms(3,4)]) blast
  have r: "r \<in> roots A'" "r \<noteq> free_list_map m1" "look m1 r = look m r"
    using S(3) J(4,5) unfolding index_kept_def by blast+
  have P1: "page_inv os (E - {(p, sz)}) r m1"
    using J(1,3) S(1,2) r unfolding page_inv_def by blast
  moreover have "cmalloc_get m1 r k = cmalloc_get m r k" for k
    using page_inv_get [OF P1] page_inv_get [OF assms(1)] r(3) by simp
  moreover obtain m2 where m2: "cmalloc_alloc_metadata os m1 sz = Inr (p, m2)" "p \<noteq> NULL"
    using alloc_pop(1) [OF S(1) assms(3) S(4), of os] alloc_pop(2) [OF S(1) assms(3) S(4)] by blast
  moreover have "page_inv os E r m2"
    using page_inv_alloc(1) [OF P1 assms(3) sz m2] assms(2) by (simp add: insert_absorb)
  ultimately show ?thesis by blast
qed

lemma sample_client_block:
  obtains p m where "page_inv sample_os {(p, 608)} sample_root m" "valid_ptr p"
    "reserve sample_os (mappings m) 100"
proof -
  obtain A F where J: "meta_inv A F sample_meta"
    using sample_page_inv unfolding page_inv_def by blast
  have "reserve sample_os (mappings sample_meta) (Suc 100)" by (rule sample_reserve_meta) simp
  then obtain p m where a: "cmalloc_alloc_metadata sample_os sample_meta 608 = Inr (p, m)" "valid_ptr p"
    "reserve sample_os (mappings m) 100"
    using alloc_returns [OF sample_os_ok J client_size(3)] by blast
  with page_inv_alloc(1) [OF sample_page_inv client_size(3,1,2) a(1)] show thesis
    by (intro that) auto
qed

theorem metadata_recycled_witness:
  "\<exists>p m m1 m2. cmalloc_free_metadata sample_os m p 608 = Inr m1 \<and>
     cmalloc_alloc_metadata sample_os m1 608 = Inr (p, m2) \<and> p \<noteq> NULL"
proof -
  obtain p m where m: "page_inv sample_os {(p, 608)} sample_root m" "valid_ptr p"
    "reserve sample_os (mappings m) 100" by (rule sample_client_block)
  then obtain A F where "meta_inv A F m" "(p, 608) \<in> A" unfolding page_inv_def client_def by blast
  moreover have "reserve sample_os (mappings m) (Suc (Suc (Suc 0)))"
    using m(3) by (rule reserve_mono) simp
  ultimately obtain m1 where m1: "cmalloc_free_metadata sample_os m p 608 = Inr m1"
    using free_metadata_returns [OF sample_os_ok] by metis
  from metadata_recycled [OF m(1) _ client_size(3) m1]
  obtain m2 where "cmalloc_alloc_metadata sample_os m1 608 = Inr (p, m2)" by auto
  with m1 m(2) show ?thesis by blast
qed

text \<open>C36: after \<open>mmap\<close> has refused a chunk, \<open>meta_arena\<close> is left at \<open>MAP_FAILED\<close>, and the
  next allocation that needs a chunk dereferences it.\<close>

theorem metadata_oom_then_fault:
  assumes "meta_inv A F m" "size_ok sz" "os_ok os"
    and "cmalloc_alloc_metadata os m sz = Inr (NULL, m')"
    and "size_ok sz'" "F sz' = []"
  shows "meta_arena m' = MAP_FAILED \<and> cmalloc_alloc_metadata os m' sz' = Inl Bad_Deref"
proof -
  have "F sz = []"
  proof (cases "F sz")
    case (Cons q qs)
    with alloc_pop(1) [OF assms(1,2) Cons, of os] alloc_pop(2) [OF assms(1,2) Cons] assms(4) show ?thesis by simp
  qed
  then have "free_head m sz = NULL" using free_head_hd [OF assms(1,2)] by simp
  with assms(4) have bump: "bump_alloc os m sz = Inr (NULL, m')"
    using alloc_from_chunk [OF free_list_map_ok [OF assms(1)], of sz os] by simp
  have m': "m' = m\<lparr>meta_arena := MAP_FAILED\<rparr>"
  proof (rule ccontr)
    assume ne: "m' \<noteq> m\<lparr>meta_arena := MAP_FAILED\<rparr>"
    let ?a = "mmap os (mappings m) META_CHUNK_SIZE"
    let ?full = "meta_arena m = NULL
           \<or> sint (chunk_end (chunk_heap m (meta_arena m)) - chunk_cur (chunk_heap m (meta_arena m)))
               < sint sz"
    have ar: "arena_inv m" by (rule meta_invD(1) [OF assms(1)])
    have B: "blocks_inv {} m" by (simp add: blocks_inv_def)
    show False
    proof (cases ?full)
      case True
      with bump ne ar have a: "?a \<noteq> MAP_FAILED"
        by (auto simp: bump_alloc_def arena_inv_def sys_mmap_def Let_def split: if_splits)
      obtain b m1 where mm: "sys_mmap os m META_CHUNK_SIZE = (b, m1)" by fastforce
      then have b: "b = ?a" by (auto simp: sys_mmap_def Let_def split: if_splits)
      note n = new_chunk_inv [OF assms(3) B mm, of "meta_arena m"]
      have "b \<noteq> NULL"
        using os_ok_mmap(1) [OF assms(3) _ b [symmetric]] a b by (simp add: META_CHUNK_SIZE_def)
      then have "fst (take_from_chunk (new_chunk m1 b (meta_arena m)) sz) = NULL"
        using bump True mm a b ar by (simp add: bump_alloc_def arena_inv_def Let_def)
      then show False
        using n(1,2) a b by (auto simp: take_from_chunk_def arena_inv_def cur_of_def Let_def)
    next
      case False
      with bump ar show False
        by (auto simp: bump_alloc_def take_from_chunk_def arena_inv_def cur_of_def Let_def)
    qed
  qed
  have "look m' = look m" by (simp add: m' look_def heap_simps fun_eq_iff)
  then have "free_head m' sz' = free_head m sz'" by (simp add: m' free_head_def)
  then have "free_head m' sz' = NULL" using free_head_hd [OF assms(1,5)] assms(6) by simp
  then have "cmalloc_alloc_metadata os m' sz' = bump_alloc os m' sz'"
    using free_list_map_ok [OF assms(1)] by (intro alloc_from_chunk) (simp_all add: m')
  then show ?thesis by (simp add: m' bump_alloc_def)
qed

text \<open>A system that refuses every mapping.\<close>

definition full_os :: platform where
  "full_os = sample_os\<lparr>mmap := (\<lambda>_ _. MAP_FAILED)\<rparr>"

lemma full_os_ok: "os_ok full_os"
  using sample_os_ok by (simp add: full_os_def os_ok_def page_size_ok_def mmap_result_ok_def)

theorem metadata_oom_then_fault_witness:
  "\<exists>m'. cmalloc_alloc_metadata full_os meta_zero 608 = Inr (NULL, m') \<and>
     cmalloc_alloc_metadata full_os m' 16 = Inl Bad_Deref"
proof -
  let ?m = "meta_zero\<lparr>meta_arena := MAP_FAILED\<rparr>"
  have a: "cmalloc_alloc_metadata full_os meta_zero 608 = Inr (NULL, ?m)"
    by (simp add: cmalloc_alloc_metadata.simps bump_alloc_def meta_zero_def sys_mmap_def full_os_def Let_def)
  have "cmalloc_alloc_metadata full_os ?m 16 = Inl Bad_Deref"
    using metadata_oom_then_fault [OF meta_zero_inv client_size(3) full_os_ok a, of 16]
    by (simp add: size_ok_def)
  with a show ?thesis by blast
qed

section \<open>The page map\<close>

text \<open>C25: \<open>cmalloc_map\<close> followed by \<open>cmalloc_get\<close>: the keys that share the slot of
  \<open>key\<close> read the new value, all others what they read before, although the call may have
  allocated trie nodes, taken them from the free lists, and changed \<open>free_list_map\<close>.\<close>

theorem get_after_map:
  assumes "page_inv os E r m" "v \<noteq> NULL" "cmalloc_map os m r v key = Inr m'"
  shows "page_inv os E r m' \<and>
    cmalloc_get m' r j = (if same_slot j key then Inr v else cmalloc_get m r j)"
  using page_index.put_law [OF assms] page_inv_get [OF assms(1)] page_inv_get [of os E r m']
  by auto

theorem get_after_map_witness:
  "\<exists>m'. cmalloc_map sample_os sample_meta sample_root 4096 7 = Inr m' \<and>
     cmalloc_get m' sample_root 7 = Inr 4096 \<and> cmalloc_get m' sample_root 8 = Inr NULL"
proof -
  obtain m' where m': "cmalloc_map sample_os sample_meta sample_root 4096 7 = Inr m'"
    using page_inv_map_returns [OF sample_page_inv sample_reserve_meta, where d = 0] by auto
  have "\<not> same_slot 8 7" by (simp add: same_slot_small)
  with get_after_map [OF sample_page_inv _ m', of 7] get_after_map [OF sample_page_inv _ m', of 8] m'
  show ?thesis
    using page_inv_get [OF sample_page_inv, of 8] by (simp add: same_slot_def sample_look)
qed

text \<open>C26: \<open>cmalloc_unmap\<close> clears exactly the slot of its key; recycling the nodes that
  become empty disturbs no other entry.\<close>

theorem get_after_unmap:
  assumes "page_inv os E r m" "cmalloc_unmap os m r key = Inr m'"
  shows "page_inv os E r m' \<and>
    cmalloc_get m' r j = (if same_slot j key then Inr NULL else cmalloc_get m r j)"
  using page_index.del_law [OF assms] page_inv_get [OF assms(1)] page_inv_get [of os E r m']
  by auto

lemma sample_mapped:
  obtains m where "cmalloc_map sample_os sample_meta sample_root 4096 7 = Inr m"
    "page_inv sample_os {} sample_root m" "look m sample_root 7 = 4096"
    "reserve sample_os (mappings m) 100"
proof -
  have "reserve sample_os (mappings sample_meta) (100 + 2)" by (rule sample_reserve_meta) simp
  then obtain m where m: "cmalloc_map sample_os sample_meta sample_root 4096 7 = Inr m"
    "reserve sample_os (mappings m) 100"
    using page_inv_map_returns [OF sample_page_inv, where d = 100] by blast
  have "page_inv sample_os {} sample_root m \<and> look m sample_root 7 = 4096"
    using page_inv_map [OF sample_page_inv _ m(1)] by (simp add: same_slot_def)
  with m show thesis by (intro that) auto
qed

theorem get_after_unmap_witness:
  "\<exists>m m'. cmalloc_map sample_os sample_meta sample_root 4096 7 = Inr m \<and>
     cmalloc_unmap sample_os m sample_root 7 = Inr m' \<and> cmalloc_get m' sample_root 7 = Inr NULL"
proof -
  obtain m where m: "cmalloc_map sample_os sample_meta sample_root 4096 7 = Inr m"
    "page_inv sample_os {} sample_root m" "look m sample_root 7 = 4096"
    "reserve sample_os (mappings m) 100" by (rule sample_mapped)
  have "reserve sample_os (mappings m) (94 + 6)" using m(4) by simp
  then obtain m' where m': "cmalloc_unmap sample_os m sample_root 7 = Inr m'"
    using page_inv_unmap_returns [OF m(2), where k = 7 and d = 94] m(3) by auto
  from get_after_unmap [OF m(2) m', of 7] m(1) m' show ?thesis by (auto simp: same_slot_def)
qed

text \<open>C35: with memory for six chunks, \<open>cmalloc_unmap\<close> fails its assertion exactly when the
  key is not mapped, and has no other fault.\<close>

theorem unmap_asserts_iff_unmapped:
  assumes "page_inv os E r m" "reserve os (mappings m) 6"
  shows "(case cmalloc_unmap os m r key of
      Inl e \<Rightarrow> e = Assert_Failed \<and> cmalloc_get m r key = Inr NULL
    | Inr m' \<Rightarrow> \<exists>p. p \<noteq> NULL \<and> cmalloc_get m r key = Inr p)"
proof (cases "look m r key = NULL")
  case True
  then show ?thesis
    using page_inv_valid [OF assms(1)] page_inv_get [OF assms(1)] by (simp add: cmalloc_unmap_steps)
next
  case False
  then show ?thesis
    using page_inv_unmap_returns [OF assms(1) False, where d = 0 and Q = "\<lambda>_. True"] assms(2)
      page_inv_get [OF assms(1)] by auto
qed

theorem unmap_asserts_iff_unmapped_witness:
  "cmalloc_unmap sample_os sample_meta sample_root 7 = Inl Assert_Failed"
proof -
  have "reserve sample_os (mappings sample_meta) 6" by (rule sample_reserve_meta) simp
  from unmap_asserts_iff_unmapped [OF sample_page_inv this, of 7] show ?thesis
    using page_inv_get [OF sample_page_inv, of 7]
    by (auto simp: sample_look split: sum.splits)
qed

text \<open>\<open>cmalloc_map_range\<close> enters a value at every page of a range and leaves every other
  page alone; with memory it returns.\<close>

theorem map_range_enters_pages:
  assumes "page_inv os E r m" "v \<noteq> NULL" "unat to \<le> 2 ^ 35"
    and "reserve os (mappings m) (2 * (unat to - unat from))"
  shows "\<exists>m'. cmalloc_map_range os m r v from to = Inr m' \<and> page_inv os E r m' \<and>
    (\<forall>j. unat j < 2 ^ 35 \<longrightarrow>
       cmalloc_get m' r j = (if from \<le> j \<and> j < to then Inr v else cmalloc_get m r j))"
proof -
  obtain m' where m': "cmalloc_map_range os m r v from to = Inr m'"
    using page_index.put_range_returns [OF assms(1,2), where d = 0 and i = "from" and n = to] assms(4) by auto
  note l = page_index.put_range_law [OF assms(1,2) m']
  have "(\<exists>k. in_range from to k \<and> same_slot j k) \<longleftrightarrow> from \<le> j \<and> j < to" if "unat j < 2 ^ 35" for j
  proof -
    have "same_slot j k \<longleftrightarrow> j = k" if "in_range from to k" for k
      using that assms(3) \<open>unat j < 2 ^ 35\<close>
      by (intro same_slot_small) (auto simp: in_range_def word_less_nat_alt)
    then show ?thesis by (auto simp: in_range_def)
  qed
  then have "cmalloc_get m' r j = (if from \<le> j \<and> j < to then Inr v else cmalloc_get m r j)"
    if "unat j < 2 ^ 35" for j
    using l that page_inv_get [OF assms(1), of j] page_inv_get [of os E r m' j] by auto
  with l m' show ?thesis by blast
qed

theorem map_range_enters_pages_witness:
  "\<exists>m'. cmalloc_map_range sample_os sample_meta sample_root 4096 16 272 = Inr m' \<and>
     cmalloc_get m' sample_root 100 = Inr 4096 \<and> cmalloc_get m' sample_root 272 = Inr NULL"
proof -
  have "reserve sample_os (mappings sample_meta) (2 * (unat (272 :: u64) - unat (16 :: u64)))"
    by (rule sample_reserve_meta) simp
  from map_range_enters_pages [OF sample_page_inv _ _ this, of 4096]
  obtain m' where "cmalloc_map_range sample_os sample_meta sample_root 4096 16 272 = Inr m'"
    "\<forall>j. unat j < 2 ^ 35 \<longrightarrow> cmalloc_get m' sample_root j =
       (if 16 \<le> j \<and> j < 272 then Inr 4096 else cmalloc_get sample_meta sample_root j)" by auto
  then show ?thesis
    using page_inv_get [OF sample_page_inv, of 272] by (intro exI [of _ m']) (simp add: sample_look)
qed

text \<open>C27: \<open>cmalloc_unmap_range\<close> undoes \<open>cmalloc_map_range\<close> on pages that were not mapped:
  both return when there is memory, and every page reads as before.\<close>

theorem map_unmap_range_roundtrip:
  assumes "page_inv os E r m" "v \<noteq> NULL" "unat to \<le> 2 ^ 35"
    and "\<forall>j. from \<le> j \<and> j < to \<longrightarrow> cmalloc_get m r j = Inr NULL"
    and "reserve os (mappings m) (8 * (unat to - unat from))"
  shows "\<exists>m1 m2. cmalloc_map_range os m r v from to = Inr m1 \<and>
    cmalloc_unmap_range os m1 r from to = Inr m2 \<and> page_inv os E r m2 \<and>
    (\<forall>j. unat j < 2 ^ 35 \<longrightarrow> cmalloc_get m2 r j = cmalloc_get m r j)"
proof -
  let ?d = "unat to - unat from"
  have "reserve os (mappings m) (6 * ?d + 2 * ?d)" using assms(5) by simp
  then obtain m1 where m1: "cmalloc_map_range os m r v from to = Inr m1"
    "reserve os (mappings m1) (6 * ?d)"
    using page_index.put_range_returns [OF assms(1,2)] by blast
  have l1: "page_inv os E r m1"
    "look m1 r j = (if \<exists>k. in_range from to k \<and> same_slot j k then v else look m r j)" for j
    using page_index.put_range_law [OF assms(1,2) m1(1)] by blast+
  have small: "unat j < 2 ^ 35" if "in_range from to j" for j
    using that assms(3) by (auto simp: in_range_def word_less_nat_alt)
  have "look m1 r k \<noteq> NULL" if "in_range from to k" for k
    using l1(2) [of k] that assms(2) same_slot_small [OF small [OF that] small [OF that]] by auto
  moreover have "j = k" if "in_range from to j" "in_range from to k" "same_slot j k" for j k
    using that small same_slot_small by blast
  ultimately obtain m2 where m2: "cmalloc_unmap_range os m1 r from to = Inr m2"
    using page_index.del_range_returns [OF l1(1), where d = 0 and i = "from" and n = to and Q = "\<lambda>_. True"] m1(2) by auto
  have l2: "page_inv os E r m2"
    "look m2 r j = (if \<exists>k. in_range from to k \<and> same_slot j k then NULL else look m1 r j)" for j
    using page_index.del_range_law [OF l1(1) m2] by blast+
  have "look m2 r j = look m r j" if j: "unat j < 2 ^ 35" for j
  proof (cases "\<exists>k. in_range from to k \<and> same_slot j k")
    case True
    then obtain k where k: "in_range from to k" "same_slot j k" by blast
    then have "j = k" using same_slot_small [OF j small] by simp
    then have "look m r j = NULL"
      using k(1) assms(4) page_inv_get [OF assms(1), of j] by (auto simp: in_range_def)
    with True l2(2) show ?thesis by simp
  next
    case False
    show ?thesis unfolding l2(2) [of j] l1(2) [of j] if_not_P [OF False] ..
  qed
  then show ?thesis
    using m1(1) m2 l2(1) page_inv_get [OF assms(1)] page_inv_get [OF l2(1)] by auto
qed

theorem map_unmap_range_roundtrip_witness:
  "\<exists>m1 m2. cmalloc_map_range sample_os sample_meta sample_root 4096 16 272 = Inr m1 \<and>
     cmalloc_unmap_range sample_os m1 sample_root 16 272 = Inr m2 \<and>
     cmalloc_get m2 sample_root 100 = Inr NULL"
proof -
  have r: "reserve sample_os (mappings sample_meta) (8 * (unat (272 :: u64) - unat (16 :: u64)))"
    by (rule sample_reserve_meta) simp
  have g: "cmalloc_get sample_meta sample_root j = Inr NULL" for j
    using page_inv_get [OF sample_page_inv] by (simp add: sample_look)
  obtain m1 m2 where "cmalloc_map_range sample_os sample_meta sample_root 4096 16 272 = Inr m1"
    "cmalloc_unmap_range sample_os m1 sample_root 16 272 = Inr m2"
    "\<forall>j. unat j < 2 ^ 35 \<longrightarrow> cmalloc_get m2 sample_root j = cmalloc_get sample_meta sample_root j"
    using map_unmap_range_roundtrip [OF sample_page_inv _ _ _ r, of 4096] g by auto
  then show ?thesis by (intro exI [of _ m1] exI [of _ m2]) (simp add: g)
qed

text \<open>C37: the page numbers of 47-bit addresses index the trie without collisions, for every
  supported page size.\<close>

theorem page_numbers_distinct:
  assumes "runtime_ok rt" "unat p < 2 ^ 47" "unat q < 2 ^ 47"
  shows "same_slot (round_down_page_index rt p) (round_down_page_index rt q) \<longleftrightarrow>
    unat p div unat (cmalloc_page_size rt) = unat q div unat (cmalloc_page_size rt)"
proof -
  have idx: "unat (round_down_page_index rt a) = unat a div 2 ^ cmalloc_page_shift rt" for a
    by (simp add: round_down_page_index_def unat_drop_bit)
  have small: "unat (round_down_page_index rt a) < 2 ^ 35" if "unat a < 2 ^ 47" for a
  proof -
    have "(2 :: nat) ^ 12 \<le> 2 ^ cmalloc_page_shift rt"
      using page_shift_bounds [OF assms(1)] by (intro power_increasing) simp_all
    then have "unat a div 2 ^ cmalloc_page_shift rt \<le> unat a div 2 ^ 12" by (intro div_le_mono2) simp_all
    also have "\<dots> < 2 ^ 35" using that by (intro less_mult_imp_div_less) simp
    finally show ?thesis by (simp only: idx)
  qed
  show ?thesis
    using same_slot_small [OF small [OF assms(2)] small [OF assms(3)]]
    by (simp add: word_unat_eq_iff idx unat_page_size [OF assms(1)])
qed

theorem page_numbers_distinct_witness:
  "same_slot (round_down_page_index sample_rt 65536) (round_down_page_index sample_rt 69631) \<and>
   \<not> same_slot (round_down_page_index sample_rt 65536) (round_down_page_index sample_rt 69632)"
  using page_numbers_distinct [OF sample_rt_ok, of 65536 69631]
    page_numbers_distinct [OF sample_rt_ok, of 65536 69632]
  by (simp add: sample_rt_pages)

end
