(* ===== verification/Cmalloc.thy ===== *)
theory Cmalloc
  imports Spans
begin

text \<open>
  \<open>src/cmalloc.c\<close>: the public entry points on top of the span layer. Each thread has one
  bin per size class, a doubly linked list of the spans it takes blocks from; the global lock
  guards span creation and caching. A thread is a number, \<open>thread_local_bin\<close> is indexed by
  it, and an operation is run by the thread given as an argument. \<open>mem\<close> is the byte
  content of user memory, written by \<open>ccalloc\<close> and \<open>crealloc\<close> only.
\<close>

section \<open>State, start-up and shutdown\<close>

record cm_state =
  sp :: span_state
  thread_local_bin :: "nat \<Rightarrow> nat \<Rightarrow> ptr"
  lock :: "nat option"
  mem :: "ptr \<Rightarrow> u8"

definition cm_zero :: "(ptr \<Rightarrow> u8) \<Rightarrow> cm_state" where
  "cm_zero bytes0 = \<lparr>sp = span_state_zero runtime_zero, thread_local_bin = (\<lambda>_ _. NULL),
                     lock = None, mem = bytes0\<rparr>"

definition pthread_mutex_lock :: "nat \<Rightarrow> cm_state \<Rightarrow> fault + cm_state" where
  "pthread_mutex_lock tid s =
     (if lock s = None then Inr (s\<lparr>lock := Some tid\<rparr>) else Inl Deadlock)"

definition pthread_mutex_unlock :: "cm_state \<Rightarrow> cm_state" where
  "pthread_mutex_unlock s = s\<lparr>lock := None\<rparr>"

definition cmalloc_constructor :: "platform \<Rightarrow> cm_state \<Rightarrow> cm_state" where
  "cmalloc_constructor os s =
     (let s = s\<lparr>lock := None\<rparr>
      in s\<lparr>sp := (sp s)\<lparr>rt := cmalloc_runtime_init os (rt (sp s))\<rparr>\<rparr>)"

section \<open>The thread-local bins\<close>

abbreviation span_at :: "cm_state \<Rightarrow> ptr \<Rightarrow> span_t" where
  "span_at s p \<equiv> span_heap (sp s) p"

definition set_span :: "cm_state \<Rightarrow> ptr \<Rightarrow> (span_t \<Rightarrow> span_t) \<Rightarrow> cm_state" where
  "set_span s p f = s\<lparr>sp := upd_span (sp s) p f\<rparr>"

definition set_local_bin :: "cm_state \<Rightarrow> nat \<Rightarrow> nat \<Rightarrow> ptr \<Rightarrow> cm_state" where
  "set_local_bin s tid c p =
     s\<lparr>thread_local_bin := (thread_local_bin s)(tid := (thread_local_bin s tid)(c := p))\<rparr>"

definition class_in_range :: "int \<Rightarrow> bool" where
  "class_in_range c \<longleftrightarrow> 0 \<le> c \<and> c < int SIZE_CLASS_COUNT"

definition bin_push :: "nat \<Rightarrow> int \<Rightarrow> ptr \<Rightarrow> cm_state \<Rightarrow> fault + cm_state" where
  "bin_push tid class_index span s =
     (if \<not> class_in_range class_index then Inl Out_Of_Bounds
      else if \<not> valid_ptr span then Inl Bad_Deref
      else
        let head = thread_local_bin s tid (nat class_index);
            s = set_span s span (\<lambda>d. d\<lparr>prev_in_size_class_bin := NULL\<rparr>);
            s = set_span s span (\<lambda>d. d\<lparr>next_in_size_class_bin := head\<rparr>);
            s = (if head \<noteq> NULL then set_span s head (\<lambda>d. d\<lparr>prev_in_size_class_bin := span\<rparr>) else s)
        in Inr (set_local_bin s tid (nat class_index) span))"

definition bin_remove :: "nat \<Rightarrow> int \<Rightarrow> ptr \<Rightarrow> cm_state \<Rightarrow> fault + cm_state" where
  "bin_remove tid class_index span s =
     (if \<not> class_in_range class_index then Inl Out_Of_Bounds
      else if \<not> valid_ptr span then Inl Bad_Deref
      else
        let prev = prev_in_size_class_bin (span_at s span);
            nxt = next_in_size_class_bin (span_at s span);
            s = (if prev \<noteq> NULL then set_span s prev (\<lambda>d. d\<lparr>next_in_size_class_bin := nxt\<rparr>)
                 else set_local_bin s tid (nat class_index) nxt);
            s = (if nxt \<noteq> NULL then set_span s nxt (\<lambda>d. d\<lparr>prev_in_size_class_bin := prev\<rparr>) else s)
        in Inr (set_span s span (\<lambda>d. d\<lparr>prev_in_size_class_bin := NULL,
                                        next_in_size_class_bin := NULL\<rparr>)))"

text \<open>\<open>allocate_block\<close> and \<open>free_block\<close> on a span of the heap.\<close>

definition take_block :: "ptr \<Rightarrow> cm_state \<Rightarrow> fault + ptr \<times> cm_state" where
  "take_block span s =
     (if \<not> valid_ptr span then Inl Bad_Deref
      else bindr (allocate_block (span_at s span)) (\<lambda>(p, d). Inr (p, set_span s span (\<lambda>_. d))))"

definition give_block :: "ptr \<Rightarrow> ptr \<Rightarrow> cm_state \<Rightarrow> fault + cm_state" where
  "give_block p span s =
     (if \<not> valid_ptr span then Inl Bad_Deref
      else bindr (free_block p (span_at s span)) (\<lambda>d. Inr (set_span s span (\<lambda>_. d))))"

section \<open>\<open>cmalloc\<close> and \<open>cfree\<close>\<close>

text \<open>Span creation and caching, under the lock.\<close>

definition locked_initialize_span ::
  "platform \<Rightarrow> nat \<Rightarrow> int \<Rightarrow> u64 \<Rightarrow> cm_state \<Rightarrow> fault + ptr \<times> cm_state" where
  "locked_initialize_span os tid class_index sz s =
     bindr (pthread_mutex_lock tid s) (\<lambda>s.
     bindr (cmalloc_initialize_span os (sp s) class_index sz) (\<lambda>(span, sps).
       Inr (span, pthread_mutex_unlock (s\<lparr>sp := sps\<rparr>))))"

definition locked_cache_span :: "platform \<Rightarrow> nat \<Rightarrow> ptr \<Rightarrow> cm_state \<Rightarrow> fault + cm_state" where
  "locked_cache_span os tid span s =
     bindr (pthread_mutex_lock tid s) (\<lambda>s.
     bindr (cmalloc_cache_span os (sp s) span) (\<lambda>sps.
       Inr (pthread_mutex_unlock (s\<lparr>sp := sps\<rparr>))))"

definition cmalloc :: "platform \<Rightarrow> nat \<Rightarrow> u64 \<Rightarrow> cm_state \<Rightarrow> fault + ptr \<times> cm_state" where
  "cmalloc os tid sz s =
     (let class_index = get_size_class_index (rt (sp s)) sz
      in if class_index \<noteq> LARGE_CLASS_SIZE_INDEX then
           let span = thread_local_bin s tid (nat class_index)
           in if span \<noteq> NULL then
                bindr (if free_count (span_at s span) = 1 then bin_remove tid class_index span s
                       else Inr s)
                  (\<lambda>s. take_block span s)
              else
                bindr (locked_initialize_span os tid class_index sz s) (\<lambda>(span, s).
                bindr (bin_push tid class_index span s) (\<lambda>s.
                take_block span s))
         else
           bindr (locked_initialize_span os tid class_index sz s) (\<lambda>(span, s).
           take_block span s))"

definition cfree :: "platform \<Rightarrow> nat \<Rightarrow> ptr \<Rightarrow> cm_state \<Rightarrow> fault + cm_state" where
  "cfree os tid p s =
     (if p = NULL then Inr s
      else
        bindr (cmalloc_get_span (sp s) p) (\<lambda>span.
          if \<not> valid_ptr span then Inl Bad_Deref
          else
            let class_index = size_class_index (span_at s span)
            in if class_index = LARGE_CLASS_SIZE_INDEX then locked_cache_span os tid span s
               else
                 bindr (if free_count (span_at s span) = 0 then bin_push tid class_index span s
                        else Inr s) (\<lambda>s.
                 bindr (give_block p span s) (\<lambda>s.
                   if free_count (span_at s span) = block_count (span_at s span) then
                     bindr (bin_remove tid class_index span s) (\<lambda>s.
                     locked_cache_span os tid span s)
                   else Inr s))))"

section \<open>\<open>ccalloc\<close> and \<open>crealloc\<close>\<close>

definition SIZE_MAX :: u64 where
  "SIZE_MAX = - 1"

text \<open>\<open>memset(p, 0, n)\<close> and \<open>memcpy(dst, src, n)\<close> on the bytes of user memory.\<close>

definition memset_zero :: "(ptr \<Rightarrow> u8) \<Rightarrow> ptr \<Rightarrow> u64 \<Rightarrow> (ptr \<Rightarrow> u8)" where
  "memset_zero bs p n = (\<lambda>a. if a - p < n then 0 else bs a)"

definition memcpy :: "(ptr \<Rightarrow> u8) \<Rightarrow> ptr \<Rightarrow> ptr \<Rightarrow> u64 \<Rightarrow> (ptr \<Rightarrow> u8)" where
  "memcpy bs dst src n = (\<lambda>a. if a - dst < n then bs (src + (a - dst)) else bs a)"

definition ccalloc :: "platform \<Rightarrow> nat \<Rightarrow> u64 \<Rightarrow> u64 \<Rightarrow> cm_state \<Rightarrow> fault + ptr \<times> cm_state" where
  "ccalloc os tid num sz s =
     (if num \<noteq> 0 \<and> sz > SIZE_MAX div num then Inr (NULL, s)
      else
        let total = num * sz
        in bindr (cmalloc os tid total s) (\<lambda>(p, s).
             if p = NULL then Inr (NULL, s)
             else if total \<noteq> 0 then
               if \<not> valid_ptr p then Inl Bad_Deref
               else Inr (p, s\<lparr>mem := memset_zero (mem s) p total\<rparr>)
             else Inr (p, s)))"

definition crealloc :: "platform \<Rightarrow> nat \<Rightarrow> ptr \<Rightarrow> u64 \<Rightarrow> cm_state \<Rightarrow> fault + ptr \<times> cm_state" where
  "crealloc os tid p sz s =
     (if p = NULL then cmalloc os tid sz s
      else if sz = 0 then bindr (cfree os tid p s) (\<lambda>s. Inr (NULL, s))
      else
        bindr (cmalloc_get_span (sp s) p) (\<lambda>span.
          if \<not> valid_ptr span then Inl Bad_Deref
          else if block_size (span_at s span) \<ge> sz then Inr (p, s)
          else
            bindr (cmalloc os tid sz s) (\<lambda>(new_ptr, s).
              if new_ptr = NULL then Inr (NULL, s)
              else if \<not> valid_ptr new_ptr then Inl Bad_Deref
              else
                let s = s\<lparr>mem := memcpy (mem s) new_ptr p (block_size (span_at s span))\<rparr>
                in bindr (cfree os tid p s) (\<lambda>s. Inr (new_ptr, s)))))"

end
