(* ===== verification/LocalBins.thy ===== *)
theory LocalBins
  imports Cmalloc SpanPool
begin

text \<open>
  The thread-local bins of \<open>cmalloc.c\<close> as doubly linked lists of spans: \<open>bin_push\<close> is
  consing on the front, \<open>bin_remove\<close> removing an element, and neither touches anything but
  the links of the spans of that list and its head.
\<close>

section \<open>Doubly linked segments\<close>

text \<open>
  \<open>dseg h pv p xs l q\<close>: from \<open>p\<close>, whose predecessor is \<open>pv\<close>, the links run through
  \<open>xs\<close> to \<open>q\<close>, whose predecessor is \<open>l\<close>.
\<close>

fun dseg :: "(ptr \<Rightarrow> span_t) \<Rightarrow> ptr \<Rightarrow> ptr \<Rightarrow> ptr list \<Rightarrow> ptr \<Rightarrow> ptr \<Rightarrow> bool" where
  "dseg h pv p [] l q \<longleftrightarrow> p = q \<and> l = pv"
| "dseg h pv p (x # xs) l q \<longleftrightarrow> p = x \<and> valid_ptr x \<and> prev_in_size_class_bin (h x) = pv \<and>
     dseg h x (next_in_size_class_bin (h x)) xs l q"

lemma dseg_append:
  "dseg h pv p (xs @ ys) l q \<longleftrightarrow> (\<exists>m r. dseg h pv p xs m r \<and> dseg h m r ys l q)"
  by (induction xs arbitrary: pv p) auto

lemma dseg_cong:
  assumes "\<And>x. x \<in> set xs \<Longrightarrow> prev_in_size_class_bin (h x) = prev_in_size_class_bin (g x) \<and>
      next_in_size_class_bin (h x) = next_in_size_class_bin (g x)"
  shows "dseg h pv p xs l q \<longleftrightarrow> dseg g pv p xs l q"
  using assms by (induction xs arbitrary: pv p) auto

lemma dseg_valid: "dseg h pv p xs l q \<Longrightarrow> x \<in> set xs \<Longrightarrow> valid_ptr x"
  by (induction xs arbitrary: pv p) auto

lemma dseg_last: "dseg h pv p xs l q \<Longrightarrow> xs \<noteq> [] \<Longrightarrow> l = last xs"
  by (induction xs arbitrary: pv p) (auto split: if_splits)

lemma dseg_first: "dseg h pv p xs l q \<Longrightarrow> p = (if xs = [] then q else hd xs)"
  by (cases xs) auto

text \<open>Redirecting the last link of a segment, and the back link of the first node.\<close>

lemma dseg_set_next:
  assumes "dseg h pv p xs l q" "xs \<noteq> []" "distinct xs"
  shows "dseg (h(l := (h l)\<lparr>next_in_size_class_bin := q'\<rparr>)) pv p xs l q'"
proof -
  from assms(2) obtain ys y where xs: "xs = ys @ [y]" by (metis append_butlast_last_id)
  have l: "l = y" using dseg_last [OF assms(1,2)] by (simp add: xs)
  obtain m r where s: "dseg h pv p ys m r" "r = y" "valid_ptr y" "prev_in_size_class_bin (h y) = m"
    using assms(1) by (auto simp: xs dseg_append)
  have "dseg (h(l := (h l)\<lparr>next_in_size_class_bin := q'\<rparr>)) pv p ys m r"
    using s(1) assms(3) by (subst dseg_cong [where g = h]) (auto simp: xs l)
  then show ?thesis using s l by (auto simp: xs dseg_append intro!: exI [of _ m] exI [of _ r])
qed

lemma dseg_set_prev:
  assumes "dseg h pv p (x # xs) l q" "x \<notin> set xs"
  shows "dseg (h(x := (h x)\<lparr>prev_in_size_class_bin := pv'\<rparr>)) pv' p (x # xs) l q"
proof -
  have "dseg (h(x := (h x)\<lparr>prev_in_size_class_bin := pv'\<rparr>)) x (next_in_size_class_bin (h x)) xs l q"
    using assms by (subst dseg_cong [where g = h]) auto
  with assms(1) show ?thesis by simp
qed

lemma dseg_skip: "y \<notin> set xs \<Longrightarrow> dseg (h(y := d)) pv p xs l q \<longleftrightarrow> dseg h pv p xs l q"
  by (rule dseg_cong) auto

definition dlist :: "(ptr \<Rightarrow> span_t) \<Rightarrow> ptr \<Rightarrow> ptr list \<Rightarrow> bool" where
  "dlist h p xs \<longleftrightarrow> distinct xs \<and> (\<exists>l. dseg h NULL p xs l NULL)"

lemma dlist_head: "dlist h p xs \<Longrightarrow> p = (if xs = [] then NULL else hd xs)"
  using dseg_first unfolding dlist_def by blast

lemma dlist_valid: "dlist h p xs \<Longrightarrow> x \<in> set xs \<Longrightarrow> valid_ptr x"
  using dseg_valid unfolding dlist_def by blast

lemma dlist_cong:
  assumes "\<And>x. x \<in> set xs \<Longrightarrow> prev_in_size_class_bin (h x) = prev_in_size_class_bin (g x) \<and>
      next_in_size_class_bin (h x) = next_in_size_class_bin (g x)"
  shows "dlist h p xs \<longleftrightarrow> dlist g p xs"
proof -
  have "dseg h NULL p xs l NULL = dseg g NULL p xs l NULL" for l
    using assms by (rule dseg_cong)
  then show ?thesis by (simp add: dlist_def)
qed

section \<open>The effect of the two operations on the heap\<close>

definition push_links :: "(ptr \<Rightarrow> span_t) \<Rightarrow> ptr \<Rightarrow> ptr \<Rightarrow> (ptr \<Rightarrow> span_t)" where
  "push_links h head x =
     (let h1 = h(x := (h x)\<lparr>prev_in_size_class_bin := NULL, next_in_size_class_bin := head\<rparr>)
      in if head = NULL then h1
         else h1(head := (h1 head)\<lparr>prev_in_size_class_bin := x\<rparr>))"

definition remove_links :: "(ptr \<Rightarrow> span_t) \<Rightarrow> ptr \<Rightarrow> (ptr \<Rightarrow> span_t)" where
  "remove_links h x =
     (let pv = prev_in_size_class_bin (h x); nx = next_in_size_class_bin (h x);
          h1 = (if pv = NULL then h else h(pv := (h pv)\<lparr>next_in_size_class_bin := nx\<rparr>));
          h2 = (if nx = NULL then h1 else h1(nx := (h1 nx)\<lparr>prev_in_size_class_bin := pv\<rparr>))
      in h2(x := (h2 x)\<lparr>prev_in_size_class_bin := NULL, next_in_size_class_bin := NULL\<rparr>))"

lemma push_links_dlist:
  assumes "dlist h head xs" "x \<notin> set xs" "valid_ptr x"
  shows "dlist (push_links h head x) x (x # xs)"
proof -
  let ?h1 = "h(x := (h x)\<lparr>prev_in_size_class_bin := NULL, next_in_size_class_bin := head\<rparr>)"
  obtain l where l: "dseg h NULL head xs l NULL" "distinct xs" using assms(1) by (auto simp: dlist_def)
  then have s1: "dseg ?h1 NULL head xs l NULL" using assms(2) by (simp add: dseg_skip)
  show ?thesis
  proof (cases xs)
    case Nil
    then show ?thesis using l assms by (auto simp: dlist_def push_links_def)
  next
    case (Cons y ys)
    then have y: "head = y" "y \<noteq> NULL" "y \<noteq> x" "y \<notin> set ys" using l assms(2) by auto
    have "dseg (?h1(y := (?h1 y)\<lparr>prev_in_size_class_bin := x\<rparr>)) x head xs l NULL"
      using dseg_set_prev [of ?h1 NULL head y ys l NULL x] s1 y(4) unfolding Cons by blast
    then have "dseg (push_links h head x) x head xs l NULL"
      using y by (simp add: push_links_def)
    moreover have "next_in_size_class_bin (push_links h head x x) = head"
      "prev_in_size_class_bin (push_links h head x x) = NULL"
      using y by (simp_all add: push_links_def)
    ultimately show ?thesis using assms(2,3) l(2) by (auto simp: dlist_def)
  qed
qed

lemma remove_links_dlist:
  assumes "dlist h head xs" "x \<in> set xs"
  defines "nx \<equiv> next_in_size_class_bin (h x)" and "pv \<equiv> prev_in_size_class_bin (h x)"
  shows "dlist (remove_links h x) (if pv = NULL then nx else head) (remove1 x xs)"
proof -
  obtain us vs where xs: "xs = us @ x # vs" using assms(2) by (auto simp: in_set_conv_decomp)
  obtain l where d: "distinct xs" "dseg h NULL head xs l NULL" using assms(1) by (auto simp: dlist_def)
  have nin: "x \<notin> set us" "x \<notin> set vs" "set us \<inter> set vs = {}" "distinct us" "distinct vs"
    using d(1) by (auto simp: xs)
  from d(2) have s: "dseg h NULL head us pv x" "dseg h x nx vs l NULL"
    by (auto simp: xs dseg_append nx_def pv_def)
  have r1: "remove1 x xs = us @ vs" using nin by (simp add: xs remove1_append)
  have pv: "pv = NULL \<longleftrightarrow> us = []"
  proof (cases "us = []")
    case False
    then have "valid_ptr pv" using dseg_last [OF s(1)] dseg_valid [OF s(1)] by simp
    with False show ?thesis by auto
  qed (use s(1) in simp)
  have nx: "nx = (if vs = [] then NULL else hd vs)" using dseg_first [OF s(2)] .
  let ?h1 = "if pv = NULL then h else h(pv := (h pv)\<lparr>next_in_size_class_bin := nx\<rparr>)"
  let ?h2 = "if nx = NULL then ?h1 else ?h1(nx := (?h1 nx)\<lparr>prev_in_size_class_bin := pv\<rparr>)"
  let ?head = "if pv = NULL then nx else head"
  have "pv \<in> set us" if "us \<noteq> []" using dseg_last [OF s(1) that] that by simp
  then have pvs: "pv \<notin> set vs" if "us \<noteq> []" using that nin(3) by blast
  have u1: "dseg ?h1 NULL ?head us pv nx"
  proof (cases "us = []")
    case True
    then show ?thesis using s(1) pv by auto
  next
    case False
    then show ?thesis using dseg_set_next [OF s(1) False nin(4), of nx] pv by auto
  qed
  have v1: "dseg ?h1 x nx vs l NULL" using s(2) pvs pv by (auto simp: dseg_skip)
  have u2: "dseg ?h2 NULL ?head us pv nx"
    using u1 nx nin(3) by (cases vs) (auto simp: dseg_skip)
  have v2: "\<exists>l. dseg ?h2 pv nx vs l NULL"
  proof (cases vs)
    case Nil
    then show ?thesis using nx by simp
  next
    case (Cons v ws)
    have vn: "nx = v" "v \<noteq> NULL" "v \<notin> set ws"
      using nx Cons dseg_valid [OF s(2), of v] nin(5) by auto
    then show ?thesis
      using dseg_set_prev [of ?h1 x nx v ws l NULL pv] v1 unfolding Cons by auto
  qed
  have "\<exists>l. dseg ?h2 NULL ?head (us @ vs) l NULL" unfolding dseg_append using u2 v2 by blast
  then have "\<exists>l. dseg (remove_links h x) NULL ?head (us @ vs) l NULL"
    using nin by (simp add: remove_links_def Let_def pv_def [symmetric] nx_def [symmetric] dseg_skip)
  then show ?thesis using nin by (simp add: dlist_def r1)
qed

section \<open>\<open>bin_push\<close> and \<open>bin_remove\<close>\<close>

definition set_heap :: "cm_state \<Rightarrow> (ptr \<Rightarrow> span_t) \<Rightarrow> cm_state" where
  "set_heap s h = s\<lparr>sp := (sp s)\<lparr>span_heap := h\<rparr>\<rparr>"

lemma set_span_heap: "set_span s p f = set_heap s ((span_heap (sp s))(p := f (span_heap (sp s) p)))"
  by (simp add: set_span_def set_heap_def upd_span_def)

lemma bin_push_eq:
  assumes "class_in_range c" "valid_ptr x"
  shows "bin_push tid c x s =
    Inr (set_local_bin (set_heap s (push_links (span_heap (sp s)) (thread_local_bin s tid (nat c)) x))
           tid (nat c) x)"
  using assms by (simp add: bin_push_def set_span_heap set_heap_def push_links_def Let_def)

lemma bin_remove_eq:
  assumes "class_in_range c" "valid_ptr x"
  shows "bin_remove tid c x s =
    Inr (set_heap (if prev_in_size_class_bin (span_at s x) = NULL
                   then set_local_bin s tid (nat c) (next_in_size_class_bin (span_at s x)) else s)
           (remove_links (span_heap (sp s)) x))"
  using assms
  by (simp add: bin_remove_def set_span_heap set_heap_def set_local_bin_def remove_links_def Let_def)

end
