(* ===== verification/ThreadCache.thy ===== *)
theory ThreadCache
  imports LocalBins
begin

text \<open>
  The thread-local bins as a client-visible contract, and the lemmas that carry the fast paths of
  \<open>cmalloc\<close> and \<open>cfree\<close>: what a bin operation or a block operation changes in the state.
\<close>

section \<open>The contract of a span list\<close>

fun push_many :: "(ptr \<Rightarrow> 's \<Rightarrow> fault + 's) \<Rightarrow> ptr list \<Rightarrow> 's \<Rightarrow> fault + 's" where
  "push_many push [] s = Inr s"
| "push_many push (x # xs) s = bindr (push x s) (push_many push xs)"

locale span_list =
  fixes holds :: "'s \<Rightarrow> ptr list \<Rightarrow> bool"
    and push :: "ptr \<Rightarrow> 's \<Rightarrow> fault + 's"
    and remove :: "ptr \<Rightarrow> 's \<Rightarrow> fault + 's"
  assumes push_law: "holds s xs \<Longrightarrow> x \<notin> set xs \<Longrightarrow> valid_ptr x \<Longrightarrow>
      \<exists>s'. push x s = Inr s' \<and> holds s' (x # xs)"
    and remove_law: "holds s xs \<Longrightarrow> x \<in> set xs \<Longrightarrow>
      \<exists>s'. remove x s = Inr s' \<and> holds s' (remove1 x xs)"
begin

lemma push_remove:
  assumes "holds s xs" "x \<notin> set xs" "valid_ptr x"
  shows "\<exists>s1 s2. push x s = Inr s1 \<and> remove x s1 = Inr s2 \<and> holds s2 xs"
  using push_law [OF assms] remove_law by fastforce

text \<open>Pushed spans come out last-in first-out.\<close>

lemma push_many_law:
  assumes "holds s xs" "distinct ys" "set ys \<inter> set xs = {}" "\<forall>y \<in> set ys. valid_ptr y"
  shows "\<exists>s'. push_many push ys s = Inr s' \<and> holds s' (rev ys @ xs)"
  using assms
proof (induction ys arbitrary: s xs)
  case Nil
  then show ?case by simp
next
  case (Cons y ys)
  obtain s1 where s1: "push y s = Inr s1" "holds s1 (y # xs)"
    using push_law [OF Cons.prems(1), of y] Cons.prems by auto
  have "set ys \<inter> set (y # xs) = {}" using Cons.prems by auto
  with Cons.IH [OF s1(2)] Cons.prems s1(1) show ?case by auto
qed

end

definition local_bin :: "cm_state \<Rightarrow> nat \<Rightarrow> nat \<Rightarrow> ptr list \<Rightarrow> bool" where
  "local_bin s tid c xs \<longleftrightarrow> dlist (span_heap (sp s)) (thread_local_bin s tid c) xs"

lemma set_local_bin_reads [simp]:
  "thread_local_bin (set_local_bin s tid c p) tid c = p"
  "t \<noteq> tid \<or> d \<noteq> c \<Longrightarrow> thread_local_bin (set_local_bin s tid c p) t d = thread_local_bin s t d"
  "sp (set_local_bin s tid c p) = sp s" "lock (set_local_bin s tid c p) = lock s"
  "mem (set_local_bin s tid c p) = mem s"
  by (auto simp: set_local_bin_def)

lemma set_heap_reads [simp]:
  "thread_local_bin (set_heap s h) = thread_local_bin s" "lock (set_heap s h) = lock s"
  "mem (set_heap s h) = mem s" "sp (set_heap s h) = (sp s)\<lparr>span_heap := h\<rparr>"
  by (simp_all add: set_heap_def)

interpretation thread_bin: span_list
  "\<lambda>s xs. class_in_range c \<and> local_bin s tid (nat c) xs" "bin_push tid c" "bin_remove tid c"
  for tid c
proof unfold_locales
  fix s xs x
  assume h: "class_in_range c \<and> local_bin s tid (nat c) xs" and "x \<notin> set xs" "valid_ptr x"
  then show "\<exists>s'. bin_push tid c x s = Inr s' \<and> class_in_range c \<and> local_bin s' tid (nat c) (x # xs)"
    using push_links_dlist by (auto simp: bin_push_eq local_bin_def)
next
  fix s xs x
  assume h: "class_in_range c \<and> local_bin s tid (nat c) xs" and x: "x \<in> set xs"
  then have "valid_ptr x" by (auto simp: local_bin_def intro: dlist_valid)
  then show "\<exists>s'. bin_remove tid c x s = Inr s' \<and> class_in_range c \<and> local_bin s' tid (nat c) (remove1 x xs)"
    using remove_links_dlist [of "span_heap (sp s)" "thread_local_bin s tid (nat c)" xs x] h x
    by (auto simp: bin_remove_eq local_bin_def)
qed

section \<open>What the operations leave alone\<close>

text \<open>A descriptor without its bin links.\<close>

definition unlinked :: "span_t \<Rightarrow> span_t" where
  "unlinked d = d\<lparr>prev_in_size_class_bin := NULL, next_in_size_class_bin := NULL\<rparr>"

lemma unlinked_same:
  assumes "unlinked d' = unlinked d"
  shows "span_base d' = span_base d" "page_count d' = page_count d"
    "is_initialized d' = is_initialized d" "size_class_index d' = size_class_index d"
    "block_size d' = block_size d" "block_count d' = block_count d" "free_count d' = free_count d"
    "nonfull_bitmap d' = nonfull_bitmap d" "block_bitmap d' = block_bitmap d"
  using assms by (cases d; cases d'; simp add: unlinked_def)+

lemma unlinked_blocks:
  assumes "unlinked d' = unlinked d"
  shows "free_set d' = free_set d" "block_addr d' = block_addr d" "span_ok d' = span_ok d"
    "span_blocks d' = span_blocks d"
  using unlinked_same [OF assms]
  by (auto simp: free_set_def block_addr_def span_ok_def blocks_ok_def span_geometry_def
      span_blocks_def fun_eq_iff)

lemma unlinked_push_links: "unlinked (push_links h head x p) = unlinked (h p)"
  by (simp add: push_links_def unlinked_def Let_def)

lemma unlinked_remove_links: "unlinked (remove_links h x p) = unlinked (h p)"
  by (simp add: remove_links_def unlinked_def Let_def)

text \<open>
  \<open>bin_step s s'\<close>: the two states differ in the bin of class \<open>c\<close> of thread \<open>tid\<close> and in
  bin links only.
\<close>

definition bin_step :: "nat \<Rightarrow> nat \<Rightarrow> cm_state \<Rightarrow> cm_state \<Rightarrow> bool" where
  "bin_step tid c s s' \<longleftrightarrow>
     (\<exists>h g. s' = s\<lparr>sp := (sp s)\<lparr>span_heap := h\<rparr>, thread_local_bin := g\<rparr> \<and>
        (\<forall>p. unlinked (h p) = unlinked (span_at s p)) \<and>
        (\<forall>t d. t \<noteq> tid \<or> d \<noteq> c \<longrightarrow> g t d = thread_local_bin s t d))"

lemma bin_step_refl: "bin_step tid c s s"
  unfolding bin_step_def by (intro exI [of _ "span_heap (sp s)"] exI [of _ "thread_local_bin s"]) simp

lemma bin_step_frame:
  assumes "bin_step tid c s s'"
  shows "rt (sp s') = rt (sp s)" "meta (sp s') = meta (sp s)" "page_map (sp s') = page_map (sp s)"
    "uninitilized_span_bin (sp s') = uninitilized_span_bin (sp s)"
    "non_empty_bitmap (sp s') = non_empty_bitmap (sp s)" "data_arena (sp s') = data_arena (sp s)"
    "lock s' = lock s" "mem s' = mem s" "unlinked (span_at s' p) = unlinked (span_at s p)"
    "t \<noteq> tid \<or> d \<noteq> c \<Longrightarrow> thread_local_bin s' t d = thread_local_bin s t d"
  using assms unfolding bin_step_def by auto

lemma bin_push_step: "bin_push tid c x s = Inr s' \<Longrightarrow> bin_step tid (nat c) s s'"
proof -
  assume r: "bin_push tid c x s = Inr s'"
  then have "class_in_range c" "valid_ptr x" by (auto simp: bin_push_def split: if_splits)
  with r have "s' = set_local_bin (set_heap s (push_links (span_heap (sp s)) (thread_local_bin s tid (nat c)) x))
           tid (nat c) x" by (simp add: bin_push_eq)
  then show ?thesis
    unfolding bin_step_def
    by (intro exI [of _ "span_heap (sp s')"] exI [of _ "thread_local_bin s'"])
       (auto simp: unlinked_push_links set_local_bin_def set_heap_def)
qed

lemma bin_remove_step: "bin_remove tid c x s = Inr s' \<Longrightarrow> bin_step tid (nat c) s s'"
proof -
  assume r: "bin_remove tid c x s = Inr s'"
  then have "class_in_range c" "valid_ptr x" by (auto simp: bin_remove_def split: if_splits)
  with r have "s' = set_heap (if prev_in_size_class_bin (span_at s x) = NULL
                   then set_local_bin s tid (nat c) (next_in_size_class_bin (span_at s x)) else s)
           (remove_links (span_heap (sp s)) x)" by (simp add: bin_remove_eq)
  then show ?thesis
    unfolding bin_step_def
    by (intro exI [of _ "span_heap (sp s')"] exI [of _ "thread_local_bin s'"])
       (auto simp: unlinked_remove_links set_local_bin_def set_heap_def)
qed

text \<open>A change of the bitmap, seen without the bin links.\<close>

lemma same_descr_unlinked:
  assumes "unlinked a = unlinked b" "same_descr a d"
  obtains e where "same_descr b e" "unlinked d = unlinked e"
proof -
  let ?e = "b\<lparr>free_count := free_count d, nonfull_bitmap := nonfull_bitmap d,
              block_bitmap := block_bitmap d\<rparr>"
  have "unlinked d = unlinked (a\<lparr>free_count := free_count d, nonfull_bitmap := nonfull_bitmap d,
      block_bitmap := block_bitmap d\<rparr>)"
    by (rule arg_cong [where f = unlinked], rule assms(2) [unfolded same_descr_def])
  also have "\<dots> = (unlinked a)\<lparr>free_count := free_count d, nonfull_bitmap := nonfull_bitmap d,
      block_bitmap := block_bitmap d\<rparr>"
    by (simp add: unlinked_def)
  also have "\<dots> = unlinked ?e" unfolding assms(1) by (simp add: unlinked_def)
  finally show thesis by (intro that [of ?e]) (simp add: same_descr_def)
qed

section \<open>Taking and giving a block of a span in the heap\<close>

lemma set_span_reads [simp]:
  "span_heap (sp (set_span s p f)) = (span_heap (sp s))(p := f (span_at s p))"
  "thread_local_bin (set_span s p f) = thread_local_bin s" "lock (set_span s p f) = lock s"
  "mem (set_span s p f) = mem s" "rt (sp (set_span s p f)) = rt (sp s)"
  "meta (sp (set_span s p f)) = meta (sp s)" "page_map (sp (set_span s p f)) = page_map (sp s)"
  "uninitilized_span_bin (sp (set_span s p f)) = uninitilized_span_bin (sp s)"
  "non_empty_bitmap (sp (set_span s p f)) = non_empty_bitmap (sp s)"
  by (simp_all add: set_span_def upd_span_def)

lemma local_bin_set_span:
  assumes "same_descr (span_at s x) d"
  shows "local_bin (set_span s x (\<lambda>_. d)) t c xs \<longleftrightarrow> local_bin s t c xs"
  unfolding local_bin_def using same_descr_fields(10,11) [OF assms]
  by (auto intro!: dlist_cong)

lemma take_block_law:
  assumes "valid_ptr x" "span_ok (span_at s x)" "free_set (span_at s x) \<noteq> {}"
  obtains d where "take_block x s =
      Inr (block_addr (span_at s x) (Min (free_set (span_at s x))), set_span s x (\<lambda>_. d))"
    "same_descr (span_at s x) d" "span_ok d"
    "free_set d = free_set (span_at s x) - {Min (free_set (span_at s x))}"
proof -
  from assms(2) have ok: "blocks_ok (span_at s x)" "span_geometry (span_at s x)"
    by (simp_all add: span_ok_def)
  obtain d where d: "allocate_block (span_at s x) =
      Inr (block_addr (span_at s x) (Min (free_set (span_at s x))), d)"
    "free_set d = free_set (span_at s x) - {Min (free_set (span_at s x))}" "blocks_ok d"
    "same_descr (span_at s x) d"
    using allocate_block_takes_lowest [OF ok(1) assms(3)] .
  then have "span_ok d" using same_descr_geometry [OF d(4)] ok(2) by (simp add: span_ok_def)
  with d assms(1) show thesis by (intro that [of d]) (simp_all add: take_block_def)
qed

text \<open>The address \<open>p\<close> lies in block \<open>k\<close> of the span.\<close>

definition in_block :: "span_t \<Rightarrow> nat \<Rightarrow> ptr \<Rightarrow> bool" where
  "in_block d k p \<longleftrightarrow> k < unat (block_count d) \<and> unat (block_addr d k) \<le> unat p \<and>
     unat p < unat (block_addr d k) + unat (block_size d)"

lemma in_block_unlinked: "unlinked d' = unlinked d \<Longrightarrow> in_block d' k p = in_block d k p"
  using unlinked_same [of d' d] unlinked_blocks [of d' d] by (simp add: in_block_def)

lemma give_block_law:
  assumes "valid_ptr x" "span_ok (span_at s x)" "in_block (span_at s x) k p"
    and "k \<notin> free_set (span_at s x)"
  obtains d where "give_block p x s = Inr (set_span s x (\<lambda>_. d))"
    "same_descr (span_at s x) d" "span_ok d" "free_set d = insert k (free_set (span_at s x))"
proof -
  from assms(2) have ok: "blocks_ok (span_at s x)" "span_geometry (span_at s x)"
    by (simp_all add: span_ok_def)
  obtain d where d: "free_block p (span_at s x) = Inr d"
    "free_set d = insert k (free_set (span_at s x))" "blocks_ok d" "same_descr (span_at s x) d"
    using free_block_returns [OF ok _ _ _ assms(4), of p] assms(3) by (auto simp: in_block_def)
  then have "span_ok d" using same_descr_geometry [OF d(4)] ok(2) by (simp add: span_ok_def)
  with d assms(1) show thesis by (intro that [of d]) (simp_all add: give_block_def)
qed

end
