(* ===== verification/SpanInv.thy ===== *)
theory SpanInv
  imports MetaApi Spans
begin

text \<open>
  The invariant of the span layer, over bookkeeping the code does not store: the set \<open>E\<close> of
  metadata blocks and data mappings the layer holds, the free-span bins as lists \<open>K\<close>, and the
  set \<open>U\<close> of descriptors in use. Every span is a page range inside a data mapping, the ranges
  are disjoint, and the page map sends the pages of each span, and no other pages, to its
  descriptor.
\<close>

section \<open>Data mappings\<close>

text \<open>
  A mapping made for data is kept in the books of the metadata layer as one more block, so that
  its disjointness from every descriptor and trie node comes with the metadata invariant.
\<close>

lemma meta_inv_data_mapping:
  assumes os: "os_ok os" and I: "meta_inv A F m" and mm: "sys_mmap os m len = (a, m')"
    and a: "a \<noteq> MAP_FAILED" and len: "4194304 < unat len"
  shows "meta_inv (insert (a, len) A) F m'" "look m' = look m" "free_list_map m' = free_list_map m"
    "\<forall>b \<in> A. block_bytes (a, len) \<inter> block_bytes b = {}"
    "roots (insert (a, len) A) = roots A"
proof -
  have am: "mmap os (mappings m) len = a" and m': "m' = m\<lparr>mappings := (a, len) # mappings m\<rparr>"
    using mm a by (auto simp: sys_mmap_def Let_def split: if_splits)
  have l0: "0 < unat len" using len by simp
  note ok = os_ok_mmap [OF os l0 am a]
  have al: "16 dvd unat a"
    using ok(2) page_size_multiple [of os] os unfolding os_ok_def by (meson dvd_trans)
  have r: "room m' = room m" "cur_of m' = cur_of m" "end_of m' = end_of m"
    by (simp_all add: m' room_def cur_of_def end_of_def)
  have ms: "set (mappings m') = insert (a, len) (set (mappings m))" "meta_arena m' = meta_arena m"
    by (simp_all add: m')
  have lk: "look m' = look m" by (simp add: m' look_def heap_simps fun_eq_iff)
  have rd: "l1_at m' = l1_at m" "l2_at m' = l2_at m" "l3_at m' = l3_at m"
    "l2_count_at m' = l2_count_at m" "l3_count_at m' = l3_count_at m" "free_list_map m' = free_list_map m"
    "link_heap m' = link_heap m"
    by (simp_all add: m' heap_simps fun_eq_iff)
  have sz: "len \<noteq> sizeof_l1_node" "len \<noteq> sizeof_l2_node" "len \<noteq> sizeof_l3_node"
    using len by auto
  have rts: "roots (insert (a, len) A) = roots A" using sz by (auto simp: roots_def)
  have md: "mid (insert (a, len) A) m' = mid A m"
    by (simp add: mid_def rts rd fun_eq_iff)
  have lf: "leaf (insert (a, len) A) m' = leaf A m"
    by (simp add: leaf_def md rd fun_eq_iff)
  have room: "block_bytes (a, len) \<inter> room m = {}"
  proof (cases "meta_arena m = NULL")
    case False
    then obtain d where "d \<in> set (mappings m)" "room m \<subseteq> block_bytes d"
      using meta_invD(1) [OF I] by (auto simp: arena_inv_def)
    with ok(4) [of d] show ?thesis by blast
  qed (simp add: room_def)
  have dis: "block_bytes (a, len) \<inter> block_bytes b = {}" if "b \<in> A \<union> free_blocks F" for b
  proof -
    have "block_ok m b" using meta_invD(2) [OF I] that by (auto simp: blocks_inv_def)
    then obtain d where "d \<in> set (mappings m)" "block_bytes b \<subseteq> block_bytes d"
      by (auto simp: block_ok_def)
    with ok(4) [of d] show ?thesis by blast
  qed
  then show "\<forall>b \<in> A. block_bytes (a, len) \<inter> block_bytes b = {}" by blast
  have "arena_inv m'" using meta_invD(1) [OF I] by (auto simp: arena_inv_def r ms)
  moreover have bi: "blocks_inv (insert (a, len) (A \<union> free_blocks F)) m'"
    unfolding blocks_inv_def
  proof (intro conjI ballI impI)
    fix b assume b: "b \<in> insert (a, len) (A \<union> free_blocks F)"
    show "block_ok m' b"
    proof (cases "b = (a, len)")
      case True
      then show ?thesis using ok al l0 room by (simp add: block_ok_def r ms)
    next
      case False
      then have "block_ok m b" using b meta_invD(2) [OF I] by (auto simp: blocks_inv_def)
      then show ?thesis by (auto simp: block_ok_def r ms)
    qed
    fix c assume c: "c \<in> insert (a, len) (A \<union> free_blocks F)" and ne: "b \<noteq> c"
    consider "b = (a, len)" "c \<in> A \<union> free_blocks F" | "c = (a, len)" "b \<in> A \<union> free_blocks F"
      | "b \<in> A \<union> free_blocks F" "c \<in> A \<union> free_blocks F"
      using b c ne by blast
    then show "block_bytes b \<inter> block_bytes c = {}"
    proof cases
      case 2
      then show ?thesis using dis [of b] by (simp add: inf_commute)
    next
      case 3
      then show ?thesis using ne meta_invD(2) [OF I] unfolding blocks_inv_def by blast
    qed (use dis in simp)
  qed
  moreover have "(a, len) \<notin> free_blocks F"
    using dis [of "(a, len)"] l0 by (auto simp: block_bytes_def bytes_def)
  then have "insert (a, len) A \<inter> free_blocks F = {}" using meta_invD(3) [OF I] by simp
  moreover have "trie_inv (insert (a, len) A) m'"
    using meta_invD(4) [OF I] unfolding trie_inv_def md lf rts rd
    by (elim conjE, intro conjI) (blast, blast, assumption+)
  moreover have "counts_inv (insert (a, len) A) m'"
    using meta_invD(5) [OF I] unfolding counts_inv_def rts rd .
  moreover have "lists_inv (insert (a, len) A) F m'"
    using meta_invD(6) [OF I] unfolding lists_inv_def rts lk rd .
  ultimately show "meta_inv (insert (a, len) A) F m'" by (simp add: meta_inv_def)
  show "look m' = look m" by (rule lk)
  show "free_list_map m' = free_list_map m" by (simp add: m')
  show "roots (insert (a, len) A) = roots A" by (rule rts)
qed

lemma page_inv_data_mapping:
  assumes I: "page_inv os E r m" and mm: "sys_mmap os m len = (a, m')"
    and a: "a \<noteq> MAP_FAILED" and len: "4194304 < unat len"
  shows "page_inv os (insert (a, len) E) r m'" "look m' r = look m r"
    "\<forall>b \<in> E. block_bytes (a, len) \<inter> block_bytes b = {}"
    "unat a + unat len \<le> 2 ^ 47" "unat (sysconf_pagesize os) dvd unat a"
proof -
  obtain A F where J: "os_ok os" "meta_inv A F m" "client A = E" "r \<in> roots A" "r \<noteq> free_list_map m"
    using I unfolding page_inv_def by blast
  note d = meta_inv_data_mapping [OF J(1,2) mm a len]
  have "client (insert (a, len) A) = insert (a, len) E"
    using len J(3) by (auto simp: client_def node_size_def)
  moreover have "r \<in> roots (insert (a, len) A)" "r \<noteq> free_list_map m'" using J d(3,5) by simp_all
  ultimately show "page_inv os (insert (a, len) E) r m'"
    using d(1) J(1) unfolding page_inv_def by blast
  show "look m' r = look m r" by (simp add: d(2))
  show "\<forall>b \<in> E. block_bytes (a, len) \<inter> block_bytes b = {}"
    using d(4) J(3) unfolding client_def by blast
  have "mmap os (mappings m) len = a" "0 < unat len"
    using mm a len by (auto simp: sys_mmap_def Let_def split: if_splits)
  then show "unat a + unat len \<le> 2 ^ 47" "unat (sysconf_pagesize os) dvd unat a"
    using os_ok_mmap [OF J(1) _ _ a] by blast+
qed

text \<open>What the books say about two blocks.\<close>

lemma page_inv_block:
  assumes "page_inv os E r m" "b \<in> E"
  shows "valid_ptr (fst b)" "unat (fst b) + unat (snd b) \<le> 2 ^ 47" "0 < unat (snd b)"
    "c \<in> E \<Longrightarrow> b \<noteq> c \<Longrightarrow> block_bytes b \<inter> block_bytes c = {}"
proof -
  obtain A F where J: "meta_inv A F m" "client A = E"
    using assms(1) unfolding page_inv_def by blast
  have bi: "blocks_inv (A \<union> free_blocks F) m" by (rule meta_invD(2) [OF J(1)])
  have b: "b \<in> A" using assms(2) J(2) by (auto simp: client_def)
  then have "block_ok m b" using bi by (auto simp: blocks_inv_def)
  then show "unat (fst b) + unat (snd b) \<le> 2 ^ 47" "0 < unat (snd b)"
    by (simp_all add: block_ok_def)
  show "valid_ptr (fst b)" using blocks_inv_valid [OF bi, of "fst b" "snd b"] b by simp
  show "block_bytes b \<inter> block_bytes c = {}" if "c \<in> E" "b \<noteq> c"
    using that b J(2) bi unfolding blocks_inv_def client_def by blast
qed

section \<open>Page ranges\<close>

definition span_pages :: "runtime \<Rightarrow> span_t \<Rightarrow> nat set" where
  "span_pages r d =
     {unat (span_base d) div 2 ^ cmalloc_page_shift r ..<
      unat (span_base d) div 2 ^ cmalloc_page_shift r + unat (page_count d)}"

definition span_bytes :: "runtime \<Rightarrow> span_t \<Rightarrow> nat set" where
  "span_bytes r d = bytes (span_base d) (unat (page_count d) * 2 ^ cmalloc_page_shift r)"

text \<open>A span lies page-aligned inside a data mapping.\<close>

definition data_block :: "block \<Rightarrow> bool" where
  "data_block b \<longleftrightarrow> unat DATA_CHUNK_SIZE \<le> unat (snd b)"

definition placed :: "runtime \<Rightarrow> block set \<Rightarrow> span_t \<Rightarrow> bool" where
  "placed r E d \<longleftrightarrow> 0 < unat (page_count d) \<and> 2 ^ cmalloc_page_shift r dvd unat (span_base d) \<and>
     (\<exists>b \<in> E. data_block b \<and> span_bytes r d \<subseteq> block_bytes b)"

lemma page_of_byte:
  fixes k b :: nat
  assumes "2 ^ k dvd b"
  shows "a \<in> {b ..< b + n * 2 ^ k} \<longleftrightarrow> a div 2 ^ k \<in> {b div 2 ^ k ..< b div 2 ^ k + n}"
proof -
  from assms obtain c where c: "b = c * 2 ^ k" by (metis dvd_div_mult_self)
  have "c * 2 ^ k \<le> a \<longleftrightarrow> c \<le> a div 2 ^ k" by (simp add: less_eq_div_iff_mult_less_eq)
  moreover have "a < (c + n) * 2 ^ k \<longleftrightarrow> a div 2 ^ k < c + n" by (simp add: div_less_iff_less_mult)
  ultimately show ?thesis by (simp add: c add_mult_distrib)
qed

lemma span_bytes_page:
  assumes "2 ^ cmalloc_page_shift r dvd unat (span_base d)"
  shows "a \<in> span_bytes r d \<longleftrightarrow> a div 2 ^ cmalloc_page_shift r \<in> span_pages r d"
  using page_of_byte [OF assms, of a "unat (page_count d)"]
  by (simp only: span_bytes_def span_pages_def bytes_def)

text \<open>Disjoint pages are disjoint bytes.\<close>

lemma pages_disjoint_bytes:
  assumes "2 ^ cmalloc_page_shift r dvd unat (span_base d)"
    and "2 ^ cmalloc_page_shift r dvd unat (span_base e)"
    and "span_pages r d \<inter> span_pages r e = {}"
  shows "span_bytes r d \<inter> span_bytes r e = {}"
  using span_bytes_page [OF assms(1)] span_bytes_page [OF assms(2)] assms(3) by blast

lemma placed_bounds:
  assumes "page_inv os E pm m" "placed r E d" "runtime_ok r"
  shows "unat (span_base d) + unat (page_count d) * 2 ^ cmalloc_page_shift r \<le> 2 ^ 47"
    and "unat (span_base d) div 2 ^ cmalloc_page_shift r + unat (page_count d) \<le> 2 ^ 35"
    and "span_base d \<noteq> NULL"
proof -
  let ?k = "cmalloc_page_shift r" and ?b = "unat (span_base d)" and ?n = "unat (page_count d)"
  obtain b where b: "b \<in> E" "span_bytes r d \<subseteq> block_bytes b" "0 < ?n" "2 ^ ?k dvd ?b"
    using assms(2) by (auto simp: placed_def)
  note bb = page_inv_block [OF assms(1) b(1)]
  have n1: "0 < ?n * 2 ^ ?k" using b(3) by simp
  have sub: "{?b ..< ?b + ?n * 2 ^ ?k} \<subseteq> block_bytes b"
    using b(2) by (simp add: span_bytes_def bytes_def)
  have "?b \<in> block_bytes b" by (rule subsetD [OF sub]) (use n1 in simp)
  moreover have "?b + ?n * 2 ^ ?k - 1 \<in> block_bytes b"
    by (rule subsetD [OF sub]) (use n1 in \<open>unfold atLeastLessThan_iff, linarith\<close>)
  ultimately have in_b: "unat (fst b) \<le> ?b" "?b + ?n * 2 ^ ?k \<le> unat (fst b) + unat (snd b)"
    using n1 unfolding block_bytes_def by auto
  with bb(2) show le: "?b + ?n * 2 ^ ?k \<le> 2 ^ 47" by simp
  obtain c where c: "?b = c * 2 ^ ?k" using b(4) by (metis dvd_div_mult_self)
  have "12 \<le> ?k" using page_shift_bounds [OF assms(3)] by simp
  then have "(2 :: nat) ^ 12 \<le> 2 ^ ?k" by (intro power_increasing) simp_all
  then have "(c + ?n) * 2 ^ 12 \<le> (c + ?n) * 2 ^ ?k" by (rule mult_le_mono2)
  also have "\<dots> \<le> 2 ^ 35 * 2 ^ 12" using le by (simp add: c add_mult_distrib)
  finally have "c + ?n \<le> 2 ^ 35" by simp
  then show "?b div 2 ^ ?k + ?n \<le> 2 ^ 35" by (simp add: c)
  have "fst b \<noteq> NULL" using bb(1) by auto
  then have "0 < unat (fst b)" by (simp add: unat_gt_0)
  with in_b(1) show "span_base d \<noteq> NULL" by auto
qed

lemma placed_mono: "placed r E d \<Longrightarrow> E \<subseteq> E' \<Longrightarrow> placed r E' d"
  unfolding placed_def by blast

lemma span_pages_word:
  "unat (round_down_page_index r p) = unat p div 2 ^ cmalloc_page_shift r"
  by (simp add: round_down_page_index_def unat_drop_bit)

text \<open>Only the base and the page count matter.\<close>

definition same_area :: "span_t \<Rightarrow> span_t \<Rightarrow> bool" where
  "same_area d e \<longleftrightarrow> span_base e = span_base d \<and> page_count e = page_count d"

lemma same_area_reads:
  assumes "same_area d e"
  shows "span_pages r e = span_pages r d" "span_bytes r e = span_bytes r d" "placed r E e = placed r E d"
  using assms by (simp_all add: same_area_def span_pages_def span_bytes_def placed_def)

section \<open>The page index of the spans\<close>

definition index_inv :: "platform \<Rightarrow> block set \<Rightarrow> ptr set \<Rightarrow> span_state \<Rightarrow> bool" where
  "index_inv os E S s \<longleftrightarrow>
     page_inv os E (page_map s) (meta s) \<and>
     (\<forall>x \<in> S. (x, sizeof_span) \<in> E \<and> placed (rt s) E (span_heap s x)) \<and>
     (\<forall>x \<in> S. \<forall>y \<in> S. x \<noteq> y \<longrightarrow>
        span_pages (rt s) (span_heap s x) \<inter> span_pages (rt s) (span_heap s y) = {}) \<and>
     (\<forall>x \<in> S. \<forall>j. unat j \<in> span_pages (rt s) (span_heap s x) \<longrightarrow> look (meta s) (page_map s) j = x) \<and>
     (\<forall>j. unat j < 2 ^ 35 \<longrightarrow> look (meta s) (page_map s) j \<noteq> NULL \<longrightarrow>
        look (meta s) (page_map s) j \<in> S \<and>
        unat j \<in> span_pages (rt s) (span_heap s (look (meta s) (page_map s) j)))"

lemma index_invD:
  assumes "index_inv os E S s"
  shows "page_inv os E (page_map s) (meta s)"
    and "x \<in> S \<Longrightarrow> (x, sizeof_span) \<in> E" "x \<in> S \<Longrightarrow> placed (rt s) E (span_heap s x)"
    and "x \<in> S \<Longrightarrow> y \<in> S \<Longrightarrow> x \<noteq> y \<Longrightarrow>
      span_pages (rt s) (span_heap s x) \<inter> span_pages (rt s) (span_heap s y) = {}"
    and "x \<in> S \<Longrightarrow> unat j \<in> span_pages (rt s) (span_heap s x) \<Longrightarrow> look (meta s) (page_map s) j = x"
    and "unat j < 2 ^ 35 \<Longrightarrow> look (meta s) (page_map s) j \<noteq> NULL \<Longrightarrow>
      look (meta s) (page_map s) j \<in> S"
    and "unat j < 2 ^ 35 \<Longrightarrow> look (meta s) (page_map s) j \<noteq> NULL \<Longrightarrow>
      unat j \<in> span_pages (rt s) (span_heap s (look (meta s) (page_map s) j))"
  using assms unfolding index_inv_def by blast+

lemma index_inv_cong:
  assumes I: "index_inv os E S s"
    and "meta s' = meta s" "page_map s' = page_map s" "rt s' = rt s"
    and h: "\<And>x. x \<in> S \<Longrightarrow> same_area (span_heap s x) (span_heap s' x)"
  shows "index_inv os E S s'"
proof -
  note a = same_area_reads [OF h]
  show ?thesis
    unfolding index_inv_def assms(2-4)
    using index_invD [OF I] a by (intro conjI ballI allI impI) simp_all
qed

end
