(* ===== verification/SpanIndex.thy ===== *)
theory SpanIndex
  imports SpanInv
begin

text \<open>
  What the calls of \<open>span.c\<close> into the metadata layer do to the page index: a new descriptor, a
  new data mapping, and the pages of a span entered in the page map. \<open>index_inv_add\<close> is the one
  step behind every way a span comes into being, from fresh pages or cut from another span.
\<close>

lemma alloc_meta_law:
  assumes I: "page_inv os E (page_map s) (meta s)"
    and sz: "size_ok sz" "\<not> node_size sz" "sz \<noteq> sizeof_l1_node"
    and run: "alloc_meta os s sz = Inr (p, s')"
  obtains m where "s' = s\<lparr>meta := m\<rparr>" "valid_ptr p" "page_inv os (insert (p, sz) E) (page_map s) m"
    "look m (page_map s) = look (meta s) (page_map s)" "\<forall>z. (p, z) \<notin> E"
proof -
  obtain m where m: "cmalloc_alloc_metadata os (meta s) sz = Inr (p, m)" "s' = s\<lparr>meta := m\<rparr>" "valid_ptr p"
    using run by (auto simp: alloc_meta_def elim!: bindr_InrE split: if_splits)
  have "p \<noteq> NULL" using m(3) by auto
  with page_inv_alloc [OF I sz m(1)] m show thesis by (intro that [of m]) blast+
qed

lemma descriptor_size: "size_ok sizeof_span" "\<not> node_size sizeof_span" "sizeof_span \<noteq> sizeof_l1_node"
  using client_size by (simp_all add: sizeof_span_def)

lemma chunk_record_size:
  "size_ok sizeof_data_chunk" "\<not> node_size sizeof_data_chunk" "sizeof_data_chunk \<noteq> sizeof_l1_node"
  by (simp_all add: sizeof_data_chunk_def size_ok_def node_size_def sizeof_nodes)

lemma in_range_pages:
  assumes "unat (span_base d) div 2 ^ cmalloc_page_shift r + unat (page_count d) \<le> 2 ^ 35"
  defines "i \<equiv> round_down_page_index r (span_base d)"
  shows "in_range i (i + page_count d) k \<longleftrightarrow> unat k \<in> span_pages r d"
    and "in_range i (i + page_count d) k \<Longrightarrow> unat k < 2 ^ 35"
    and "unat (i + page_count d) - unat i = unat (page_count d)"
proof -
  have i: "unat i = unat (span_base d) div 2 ^ cmalloc_page_shift r"
    by (simp add: i_def span_pages_word)
  then have n: "unat (i + page_count d) = unat i + unat (page_count d)"
    using assms(1) by (simp add: unat_plus_if')
  then show "in_range i (i + page_count d) k \<longleftrightarrow> unat k \<in> span_pages r d"
    by (simp add: in_range_def word_less_nat_alt word_le_nat_alt i span_pages_def)
  show "unat k < 2 ^ 35" if "in_range i (i + page_count d) k"
    using that assms(1) unfolding in_range_def word_less_nat_alt n i by linarith
  show "unat (i + page_count d) - unat i = unat (page_count d)" using n by simp
qed

lemma range_pages:
  assumes "unat (span_base d) div 2 ^ cmalloc_page_shift r + unat (page_count d) \<le> 2 ^ 35"
    and "unat j < 2 ^ 35"
  defines "i \<equiv> round_down_page_index r (span_base d)"
  shows "(\<exists>k. in_range i (i + page_count d) k \<and> same_slot j k) \<longleftrightarrow> unat j \<in> span_pages r d"
proof -
  note p = in_range_pages [OF assms(1), folded i_def]
  have "same_slot j k \<longleftrightarrow> j = k" if "in_range i (i + page_count d) k" for k
    using same_slot_small [OF assms(2) p(2) [OF that]] .
  then show ?thesis using p(1) by (auto intro: exI [of _ j] simp: same_slot_def)
qed

lemma map_span_pages_law:
  assumes I: "page_inv os E (page_map s) (meta s)" and x: "x \<noteq> NULL"
    and le: "unat (span_base (span_heap s x)) div 2 ^ cmalloc_page_shift (rt s)
               + unat (page_count (span_heap s x)) \<le> 2 ^ 35"
    and run: "map_span_pages os s x = Inr s'"
  obtains m where "s' = s\<lparr>meta := m\<rparr>" "page_inv os E (page_map s) m"
    "\<And>j. unat j < 2 ^ 35 \<Longrightarrow> look m (page_map s) j =
       (if unat j \<in> span_pages (rt s) (span_heap s x) then x else look (meta s) (page_map s) j)"
proof -
  let ?i = "round_down_page_index (rt s) (span_base (span_heap s x))"
  obtain m where m: "cmalloc_map_range os (meta s) (page_map s) x ?i
      (?i + page_count (span_heap s x)) = Inr m" "s' = s\<lparr>meta := m\<rparr>"
    using run by (auto simp: map_span_pages_def Let_def elim!: bindr_InrE)
  note p = page_index.put_range_law [OF I x m(1)]
  show thesis
  proof (rule that [OF m(2)])
    show "page_inv os E (page_map s) m" using p by blast
    show "look m (page_map s) j =
       (if unat j \<in> span_pages (rt s) (span_heap s x) then x else look (meta s) (page_map s) j)"
      if "unat j < 2 ^ 35" for j
      using p range_pages [OF le that] by simp
  qed
qed

text \<open>
  A descriptor \<open>x\<close> joins the index. The other spans may lose pages, but only to \<open>x\<close>.
\<close>

lemma index_inv_add:
  assumes I: "index_inv os E S s" and R: "runtime_ok (rt s)"
    and s': "page_map s' = page_map s" "rt s' = rt s"
    and P: "page_inv os E' (page_map s) (meta s')" "E \<subseteq> E'" "(x, sizeof_span) \<in> E'" "x \<notin> S"
    and plx: "placed (rt s) E' (span_heap s' x)"
    and pl: "\<And>y. y \<in> S \<Longrightarrow> placed (rt s) E' (span_heap s' y)"
    and less: "\<And>y. y \<in> S \<Longrightarrow> span_pages (rt s) (span_heap s' y) \<subseteq> span_pages (rt s) (span_heap s y)"
    and dis: "\<And>y. y \<in> S \<Longrightarrow>
      span_pages (rt s) (span_heap s' x) \<inter> span_pages (rt s) (span_heap s' y) = {}"
    and cover: "\<And>y. y \<in> S \<Longrightarrow> span_pages (rt s) (span_heap s y) \<subseteq>
      span_pages (rt s) (span_heap s' y) \<union> span_pages (rt s) (span_heap s' x)"
    and lk: "\<And>j. unat j < 2 ^ 35 \<Longrightarrow> look (meta s') (page_map s) j =
       (if unat j \<in> span_pages (rt s) (span_heap s' x) then x else look (meta s) (page_map s) j)"
  shows "index_inv os E' (insert x S) s'"
proof -
  note D = index_invD [OF I]
  have small: "unat j < 2 ^ 35" if "placed (rt s) E' d" "unat j \<in> span_pages (rt s) d" for d j
    using placed_bounds(2) [OF P(1) that(1) R] that(2) by (simp add: span_pages_def)
  have "(y, sizeof_span) \<in> E' \<and> placed (rt s') E' (span_heap s' y)" if "y \<in> insert x S" for y
    using that D(2) P(2,3) plx pl s'(2) by auto
  moreover have "span_pages (rt s') (span_heap s' y) \<inter> span_pages (rt s') (span_heap s' z) = {}"
    if yz: "y \<in> insert x S" "z \<in> insert x S" "y \<noteq> z" for y z
  proof -
    consider "y = x" "z \<in> S" | "z = x" "y \<in> S" | "y \<in> S" "z \<in> S"
      using yz by (metis insertE)
    then show ?thesis
    proof cases
      case 1
      then show ?thesis using dis s'(2) by simp
    next
      case 2
      then show ?thesis using dis [of y] s'(2) by (simp add: inf_commute)
    next
      case 3
      then show ?thesis using D(4) [OF 3 yz(3)] less [OF 3(1)] less [OF 3(2)] s'(2) by auto
    qed
  qed
  moreover have "look (meta s') (page_map s') j = y"
    if "y \<in> insert x S" "unat j \<in> span_pages (rt s') (span_heap s' y)" for y j
  proof (cases "y = x")
    case True
    then show ?thesis using that(2) lk [OF small [OF plx]] s' by simp
  next
    case False
    then have y: "y \<in> S" using that(1) by simp
    have "unat j \<notin> span_pages (rt s) (span_heap s' x)" using dis [OF y] that(2) s'(2) by auto
    moreover have "look (meta s) (page_map s) j = y"
      using D(5) [OF y, of j] less [OF y] that(2) s'(2) by auto
    moreover have "unat j < 2 ^ 35" using small [OF pl [OF y]] that(2) s'(2) by simp
    ultimately show ?thesis using lk s'(1) by simp
  qed
  moreover have "look (meta s') (page_map s') j \<in> insert x S \<and>
      unat j \<in> span_pages (rt s') (span_heap s' (look (meta s') (page_map s') j))"
    if "unat j < 2 ^ 35" "look (meta s') (page_map s') j \<noteq> NULL" for j
  proof (cases "unat j \<in> span_pages (rt s) (span_heap s' x)")
    case True
    then show ?thesis using lk [OF that(1)] s' by simp
  next
    case False
    let ?y = "look (meta s) (page_map s) j"
    have e: "look (meta s') (page_map s') j = ?y" using lk [OF that(1)] False s'(1) by simp
    then have "?y \<in> S" "unat j \<in> span_pages (rt s) (span_heap s ?y)"
      using D(6,7) [OF that(1)] that(2) by simp_all
    then show ?thesis using cover [of ?y] False e s'(2) by auto
  qed
  ultimately show ?thesis using P(1) s'(1) unfolding index_inv_def by simp
qed

end
