(* ===== verification/SpanLayer.thy ===== *)
theory SpanLayer
  imports SpanIndex
begin

text \<open>
  The free-span bins as lists, the invariant \<open>span_inv\<close> of the whole span layer, and the paths
  of \<open>alloc_span\<close> that serve a request from a bin: the exact fit and the split of the best fit.
\<close>

section \<open>The bins\<close>

definition cached_spans :: "(nat \<Rightarrow> ptr list) \<Rightarrow> ptr set" where
  "cached_spans K = (\<Union>p. set (K p))"

definition bins_inv :: "(nat \<Rightarrow> ptr list) \<Rightarrow> span_state \<Rightarrow> bool" where
  "bins_inv K s \<longleftrightarrow>
     (\<forall>p. chain (\<lambda>x. next_in_uninitialized_bin (span_heap s x)) (uninitilized_span_bin s p) (K p)) \<and>
     (\<forall>p. \<forall>x \<in> set (K p). unat (page_count (span_heap s x)) = p) \<and>
     bin_bits (non_empty_bitmap s) = {p. K p \<noteq> []} \<and>
     (\<forall>p. K p \<noteq> [] \<longrightarrow> p < unat MAX_BINNED_PAGES)"

lemma bins_invD:
  assumes "bins_inv K s"
  shows "chain (\<lambda>x. next_in_uninitialized_bin (span_heap s x)) (uninitilized_span_bin s p) (K p)"
    and "x \<in> set (K p) \<Longrightarrow> unat (page_count (span_heap s x)) = p"
    and "bin_bits (non_empty_bitmap s) = {p. K p \<noteq> []}"
    and "K p \<noteq> [] \<Longrightarrow> p < unat MAX_BINNED_PAGES"
  using assms unfolding bins_inv_def by blast+

lemma cached_in: "x \<in> set (K p) \<Longrightarrow> x \<in> cached_spans K"
  by (auto simp: cached_spans_def)

lemma cached_push: "cached_spans (K(p := x # K p)) = insert x (cached_spans K)"
  by (auto simp: cached_spans_def split: if_splits)

lemma cached_pop:
  assumes "bins_inv K s" "K p = x # xs"
  shows "cached_spans (K(p := xs)) = cached_spans K - {x}"
proof -
  have "distinct (K p)" using bins_invD(1) [OF assms(1)] by (rule chain_distinct)
  then have x: "x \<notin> set xs" using assms(2) by simp
  have "x \<notin> set (K q)" if "q \<noteq> p" for q
    using bins_invD(2) [OF assms(1), of x q] bins_invD(2) [OF assms(1), of x p] assms(2) that by auto
  then have "y \<in> set ((K(p := xs)) q) \<longleftrightarrow> y \<in> set (K q) \<and> y \<noteq> x" for y q
    using x assms(2) by (cases "q = p") auto
  then show ?thesis unfolding cached_spans_def by blast
qed

lemma bins_inv_cong:
  assumes B: "bins_inv K s"
    and "uninitilized_span_bin s' = uninitilized_span_bin s" "non_empty_bitmap s' = non_empty_bitmap s"
    and h: "\<And>x. x \<in> cached_spans K \<Longrightarrow>
      next_in_uninitialized_bin (span_heap s' x) = next_in_uninitialized_bin (span_heap s x) \<and>
      page_count (span_heap s' x) = page_count (span_heap s x)"
  shows "bins_inv K s'"
proof -
  have "chain (\<lambda>x. next_in_uninitialized_bin (span_heap s' x)) (uninitilized_span_bin s p) (K p)" for p
    using bins_invD(1) [OF B, of p] h
    by (subst chain_cong [where g = "\<lambda>x. next_in_uninitialized_bin (span_heap s x)"])
       (auto simp: cached_in)
  moreover have "unat (page_count (span_heap s' x)) = p" if "x \<in> set (K p)" for x p
    using bins_invD(2) [OF B that] h [OF cached_in [where K = K, OF that]] by simp
  ultimately show ?thesis using B unfolding bins_inv_def assms(2,3) by blast
qed

lemma bins_inv_push:
  assumes B: "bins_inv K s" and x: "x \<notin> cached_spans K" "x \<noteq> NULL" and p: "p < unat MAX_BINNED_PAGES"
    and s': "uninitilized_span_bin s' = (uninitilized_span_bin s)(p := x)"
      "bin_bits (non_empty_bitmap s') = insert p (bin_bits (non_empty_bitmap s))"
    and hx: "next_in_uninitialized_bin (span_heap s' x) = uninitilized_span_bin s p"
      "unat (page_count (span_heap s' x)) = p"
    and h: "\<And>y. y \<in> cached_spans K \<Longrightarrow>
      next_in_uninitialized_bin (span_heap s' y) = next_in_uninitialized_bin (span_heap s y) \<and>
      page_count (span_heap s' y) = page_count (span_heap s y)"
  shows "bins_inv (K(p := x # K p)) s'"
proof -
  have c: "chain (\<lambda>x. next_in_uninitialized_bin (span_heap s' x)) (uninitilized_span_bin s q) (K q)" for q
    using bins_invD(1) [OF B, of q] h
    by (subst chain_cong [where g = "\<lambda>x. next_in_uninitialized_bin (span_heap s x)"])
       (auto simp: cached_in)
  have pc: "unat (page_count (span_heap s' y)) = q" if "y \<in> set (K q)" for y q
    using bins_invD(2) [OF B that] h [OF cached_in [where K = K, OF that]] by simp
  show ?thesis
    unfolding bins_inv_def s' bins_invD(3) [OF B]
  proof (intro conjI allI ballI impI)
    fix q
    show "chain (\<lambda>x. next_in_uninitialized_bin (span_heap s' x)) (((uninitilized_span_bin s)(p := x)) q)
        ((K(p := x # K p)) q)"
      using c x hx(1) by simp
    fix y assume "y \<in> set ((K(p := x # K p)) q)"
    then show "unat (page_count (span_heap s' y)) = q" using pc hx(2) by (auto split: if_splits)
  next
    fix q assume "(K(p := x # K p)) q \<noteq> []"
    then show "q < unat MAX_BINNED_PAGES" using p bins_invD(4) [OF B] by (auto split: if_splits)
  qed auto
qed

lemma bins_inv_pop:
  assumes B: "bins_inv K s" and K: "K p = x # xs"
    and s': "uninitilized_span_bin s' =
        (uninitilized_span_bin s)(p := next_in_uninitialized_bin (span_heap s x))"
      "bin_bits (non_empty_bitmap s') =
        (if next_in_uninitialized_bin (span_heap s x) = NULL then bin_bits (non_empty_bitmap s) - {p}
         else bin_bits (non_empty_bitmap s))"
    and h: "\<And>y. y \<in> cached_spans K \<Longrightarrow> y \<noteq> x \<Longrightarrow>
      next_in_uninitialized_bin (span_heap s' y) = next_in_uninitialized_bin (span_heap s y) \<and>
      page_count (span_heap s' y) = page_count (span_heap s y)"
  shows "bins_inv (K(p := xs)) s'"
proof -
  let ?nx = "next_in_uninitialized_bin (span_heap s x)"
  have c0: "chain (\<lambda>x. next_in_uninitialized_bin (span_heap s x)) ?nx xs"
    using bins_invD(1) [OF B, of p] K by simp
  have nx: "?nx = NULL \<longleftrightarrow> xs = []" using c0 by (cases xs) auto
  have ys: "y \<in> cached_spans K \<and> y \<noteq> x" if "y \<in> set ((K(p := xs)) q)" for y q
    using cached_in [where K = "K(p := xs)", OF that] cached_pop [OF B K] by simp
  have s0: "chain (\<lambda>x. next_in_uninitialized_bin (span_heap s x))
      (((uninitilized_span_bin s)(p := ?nx)) q) ((K(p := xs)) q)" for q
    using c0 bins_invD(1) [OF B, of q] by simp
  show ?thesis
    unfolding bins_inv_def s' bins_invD(3) [OF B]
  proof (intro conjI allI ballI impI)
    fix q
    show "chain (\<lambda>x. next_in_uninitialized_bin (span_heap s' x))
        (((uninitilized_span_bin s)(p := ?nx)) q) ((K(p := xs)) q)"
      using s0 [of q] h ys
      by (subst chain_cong [where g = "\<lambda>x. next_in_uninitialized_bin (span_heap s x)"]) auto
    fix y assume y: "y \<in> set ((K(p := xs)) q)"
    then have "y \<in> set (K q)" using K by (auto split: if_splits)
    then show "unat (page_count (span_heap s' y)) = q"
      using bins_invD(2) [OF B] h [of y] ys [OF y] by simp
  next
    fix q assume "(K(p := xs)) q \<noteq> []"
    then show "q < unat MAX_BINNED_PAGES" using K bins_invD(4) [OF B] by (auto split: if_splits)
  qed (use nx K in auto)
qed

section \<open>The invariant of the span layer\<close>

text \<open>A span of \<open>MAX_BINNED_PAGES\<close> pages or more is a whole mapping.\<close>

definition whole_mappings :: "block set \<Rightarrow> ptr set \<Rightarrow> span_state \<Rightarrow> bool" where
  "whole_mappings E U s \<longleftrightarrow> (\<forall>x \<in> U. MAX_BINNED_PAGES \<le> page_count (span_heap s x) \<longrightarrow>
     (span_base (span_heap s x),
      push_bit (cmalloc_page_shift (rt s)) (page_count (span_heap s x))) \<in> E)"

lemma whole_mappings_cong:
  assumes "whole_mappings E U s" "E \<subseteq> E'" "rt s' = rt s"
    and "\<And>x. x \<in> U \<Longrightarrow> same_area (span_heap s x) (span_heap s' x)"
  shows "whole_mappings E' U s'"
  using assms unfolding whole_mappings_def same_area_def by (simp add: subset_iff)

lemma whole_mappings_insert:
  assumes "whole_mappings E U s" "page_count (span_heap s x) < MAX_BINNED_PAGES"
  shows "whole_mappings E (insert x U) s"
  using assms unfolding whole_mappings_def by auto

definition span_inv :: "platform \<Rightarrow> block set \<Rightarrow> (nat \<Rightarrow> ptr list) \<Rightarrow> ptr set \<Rightarrow> span_state \<Rightarrow> bool" where
  "span_inv os E K U s \<longleftrightarrow>
     runtime_ok (rt s) \<and> cmalloc_page_size (rt s) = sysconf_pagesize os \<and>
     index_inv os E (U \<union> cached_spans K) s \<and> bins_inv K s \<and> U \<inter> cached_spans K = {} \<and>
     whole_mappings E U s"

lemma span_invD:
  assumes "span_inv os E K U s"
  shows "runtime_ok (rt s)" "cmalloc_page_size (rt s) = sysconf_pagesize os"
    "index_inv os E (U \<union> cached_spans K) s" "bins_inv K s" "U \<inter> cached_spans K = {}"
    "whole_mappings E U s"
  using assms by (simp_all add: span_inv_def)

text \<open>What a descriptor in use keeps when other spans come and go: all but its neighbours.\<close>

definition same_user :: "span_t \<Rightarrow> span_t \<Rightarrow> bool" where
  "same_user d e \<longleftrightarrow> e = d\<lparr>phys_next := phys_next e, phys_prev := phys_prev e\<rparr>"

lemma same_user_refl [simp]: "same_user d d"
  by (simp add: same_user_def)

lemma same_user_phys [simp]:
  "same_user d (d\<lparr>phys_next := p\<rparr>)" "same_user d (d\<lparr>phys_prev := p\<rparr>)"
  "same_user d (d\<lparr>phys_prev := p, phys_next := q\<rparr>)"
  by (simp_all add: same_user_def)

lemma same_user_trans: "same_user d e \<Longrightarrow> same_user e f \<Longrightarrow> same_user d f"
  unfolding same_user_def by (metis span_t.surjective span_t.update_convs(1,2))

lemma same_user_reads:
  assumes "same_user d e"
  shows "span_base e = span_base d" "page_count e = page_count d"
    "next_in_uninitialized_bin e = next_in_uninitialized_bin d"
    "is_initialized e = is_initialized d" "size_class_index e = size_class_index d"
    "block_size e = block_size d" "block_count e = block_count d" "free_count e = free_count d"
    "nonfull_bitmap e = nonfull_bitmap d" "block_bitmap e = block_bitmap d"
    "next_in_size_class_bin e = next_in_size_class_bin d"
    "prev_in_size_class_bin e = prev_in_size_class_bin d"
  by (subst assms [unfolded same_user_def], simp)+

lemma same_user_area: "same_user d e \<Longrightarrow> same_area d e"
  by (simp add: same_area_def same_user_reads)

text \<open>The head of a bin leaves it and goes into use.\<close>

definition pop_bin :: "span_state \<Rightarrow> u64 \<Rightarrow> ptr \<Rightarrow> span_state" where
  "pop_bin s pages x =
     (let s = set_bin s pages (next_in_uninitialized_bin (span_heap s x))
      in if uninitilized_span_bin s (unat pages) = NULL then mark_empty s pages else s)"

lemma pop_bin_reads:
  "uninitilized_span_bin (pop_bin s pages x) =
     (uninitilized_span_bin s)(unat pages := next_in_uninitialized_bin (span_heap s x))"
  "bin_bits (non_empty_bitmap (pop_bin s pages x)) =
     (if next_in_uninitialized_bin (span_heap s x) = NULL
      then bin_bits (non_empty_bitmap s) - {unat pages} else bin_bits (non_empty_bitmap s))"
  "span_heap (pop_bin s pages x) = span_heap s" "meta (pop_bin s pages x) = meta s"
  "page_map (pop_bin s pages x) = page_map s" "rt (pop_bin s pages x) = rt s"
  "data_arena (pop_bin s pages x) = data_arena s"
  by (simp_all add: pop_bin_def set_bin_def mark_empty_def bin_bits_unmark Let_def)

lemma pop_bin_inv:
  assumes I: "span_inv os E K U s" and K: "K (unat pages) = x # xs"
  shows "span_inv os E (K(unat pages := xs)) (insert x U) (pop_bin s pages x)"
    and "x \<notin> U" "x \<in> cached_spans K" "uninitilized_span_bin s (unat pages) = x" "valid_ptr x"
    and "page_count (span_heap s x) = pages"
proof -
  note D = span_invD [OF I]
  have x: "x \<in> set (K (unat pages))" using K by simp
  then show xc: "x \<in> cached_spans K" by (rule cached_in)
  with D(5) show xu: "x \<notin> U" by blast
  have c: "cached_spans (K(unat pages := xs)) = cached_spans K - {x}" by (rule cached_pop [OF D(4) K])
  have "bins_inv (K(unat pages := xs)) (pop_bin s pages x)"
    by (rule bins_inv_pop [OF D(4) K]) (simp_all add: pop_bin_reads)
  moreover have "index_inv os E (insert x U \<union> (cached_spans K - {x})) (pop_bin s pages x)"
  proof -
    have e: "insert x U \<union> (cached_spans K - {x}) = U \<union> cached_spans K" using xc by blast
    show ?thesis unfolding e
      by (rule index_inv_cong [OF D(3)]) (simp_all add: pop_bin_reads same_area_def)
  qed
  moreover have "insert x U \<inter> (cached_spans K - {x}) = {}" using D(5) by blast
  moreover have "whole_mappings E (insert x U) (pop_bin s pages x)"
  proof -
    have "unat (page_count (span_heap s x)) < unat MAX_BINNED_PAGES"
      using bins_invD(2) [OF D(4) x] bins_invD(4) [OF D(4), of "unat pages"] K by simp
    then have "whole_mappings E (insert x U) s"
      by (intro whole_mappings_insert [OF D(6)]) (simp add: word_less_nat_alt)
    then show ?thesis
      by (rule whole_mappings_cong) (simp_all add: pop_bin_reads same_area_def)
  qed
  ultimately show "span_inv os E (K(unat pages := xs)) (insert x U) (pop_bin s pages x)"
    using D(1,2) by (simp add: span_inv_def pop_bin_reads c)
  show "uninitilized_span_bin s (unat pages) = x"
    using bins_invD(1) [OF D(4), of "unat pages"] K by simp
  have "(x, sizeof_span) \<in> E" using index_invD(2) [OF D(3)] xc by blast
  from page_inv_block(1) [OF index_invD(1) [OF D(3)] this] show "valid_ptr x" by simp
  show "page_count (span_heap s x) = pages"
    using bins_invD(2) [OF D(4) x] by (simp add: word_unat_eq_iff)
qed

lemma alloc_span_exact_law:
  assumes I: "span_inv os E K U s" and K: "K (unat pages) = x # xs"
  shows "alloc_span_exact s pages = Inr (x, pop_bin s pages x)"
  using pop_bin_inv(4,5) [OF I K] by (simp add: alloc_span_exact_def pop_bin_def Let_def)

section \<open>Caching a span\<close>

text \<open>A span of fewer than \<open>MAX_BINNED_PAGES\<close> pages goes to the front of its bin.\<close>

definition cached :: "ptr \<Rightarrow> span_state \<Rightarrow> span_state" where
  "cached x s =
     (let s = upd_span s x (\<lambda>d. d\<lparr>is_initialized := False,
                next_in_uninitialized_bin := uninitilized_span_bin s (unat (page_count d))\<rparr>);
          s = set_bin s (page_count (span_heap s x)) x
      in mark_non_empty s (page_count (span_heap s x)))"

lemma cache_small_span:
  assumes "valid_ptr x" "page_count (span_heap s x) < MAX_BINNED_PAGES"
  shows "cmalloc_cache_span os s x = Inr (cached x s)"
proof -
  have "\<not> page_count (span_heap s x) \<ge> MAX_BINNED_PAGES" using assms(2) by simp
  with assms(1) show ?thesis
    unfolding cmalloc_cache_span_def cached_def Let_def by (simp only: if_False not_not simp_thms) (simp add: upd_span_def set_bin_def)
qed

lemma cached_reads:
  "uninitilized_span_bin (cached x s) = (uninitilized_span_bin s)(unat (page_count (span_heap s x)) := x)"
  "page_count (span_heap s x) < MAX_BINNED_PAGES \<Longrightarrow>
     bin_bits (non_empty_bitmap (cached x s)) =
       insert (unat (page_count (span_heap s x))) (bin_bits (non_empty_bitmap s))"
  "span_heap (cached x s) = (span_heap s)(x := (span_heap s x)\<lparr>is_initialized := False,
      next_in_uninitialized_bin := uninitilized_span_bin s (unat (page_count (span_heap s x)))\<rparr>)"
  "meta (cached x s) = meta s" "rt (cached x s) = rt s" "page_map (cached x s) = page_map s"
  "data_arena (cached x s) = data_arena s"
  by (simp_all add: cached_def upd_span_def set_bin_def mark_non_empty_def Let_def bin_bits_mark)

end
