(* ===== verification/CmallocPaths.thy ===== *)
theory CmallocPaths
  imports ThreadCache SpanTheorems SpanLayer
begin

text \<open>
  The paths of \<open>cmalloc\<close> and \<open>cfree\<close> on spans of a size class, as updates of the bin
  lists and of the sets of free blocks.
\<close>

section \<open>\<open>cmalloc\<close> from a thread's bin\<close>

lemma class_of_nat: "i < SIZE_CLASS_COUNT \<Longrightarrow> class_in_range (int i)" "nat (int i) = i"
  by (simp_all add: class_in_range_def)

lemma cmalloc_bin_path:
  assumes cls: "get_size_class_index (rt (sp s)) sz = int i" "i < SIZE_CLASS_COUNT"
    and bin: "local_bin s tid i (x # xs)"
    and ok: "span_ok (span_at s x)" "free_set (span_at s x) \<noteq> {}"
  obtains s' where "cmalloc os tid sz s =
      Inr (block_addr (span_at s x) (Min (free_set (span_at s x))), s')"
    "local_bin s' tid i (if card (free_set (span_at s x)) = 1 then xs else x # xs)"
    "span_ok (span_at s' x)"
    "free_set (span_at s' x) = free_set (span_at s x) - {Min (free_set (span_at s x))}"
    "\<forall>y. y \<noteq> x \<longrightarrow> unlinked (span_at s' y) = unlinked (span_at s y)"
    "lock s' = lock s" "mem s' = mem s" "meta (sp s') = meta (sp s)"
    "page_map (sp s') = page_map (sp s)" "rt (sp s') = rt (sp s)"
    "\<exists>d. same_descr (span_at s x) d \<and> unlinked (span_at s' x) = unlinked d"
proof -
  let ?F = "free_set (span_at s x)"
  have hd: "thread_local_bin s tid i = x" and v: "valid_ptr x"
    using dlist_head dlist_valid bin unfolding local_bin_def by fastforce+
  have cnt: "free_count (span_at s x) = 1 \<longleftrightarrow> card ?F = 1"
    using ok(1) by (auto simp: span_ok_def blocks_ok_def word_unat_eq_iff)
  let ?step = "if free_count (span_at s x) = 1 then bin_remove tid (int i) x s else Inr s"
  let ?ys = "if card ?F = 1 then xs else x # xs"
  obtain s1 where s1: "?step = Inr s1" "local_bin s1 tid i ?ys" "bin_step tid i s s1"
  proof (cases "card ?F = 1")
    case True
    obtain s1 where r: "bin_remove tid (int i) x s = Inr s1" "local_bin s1 tid i (remove1 x (x # xs))"
      using thread_bin.remove_law [of "int i" s tid "x # xs" x] bin class_of_nat(1) [OF cls(2)] by auto
    with bin_remove_step [OF r(1)] True cnt show thesis by (intro that [of s1]) auto
  next
    case False
    with bin cnt show thesis by (intro that [of s]) (auto intro: bin_step_refl)
  qed
  note f = bin_step_frame [OF s1(3)]
  note u = unlinked_blocks [OF f(9) [of x]]
  obtain d where d: "take_block x s1 =
      Inr (block_addr (span_at s1 x) (Min (free_set (span_at s1 x))), set_span s1 x (\<lambda>_. d))"
    "same_descr (span_at s1 x) d" "span_ok d"
    "free_set d = free_set (span_at s1 x) - {Min (free_set (span_at s1 x))}"
    using take_block_law [OF v, of s1] ok u by metis
  have "cmalloc os tid sz s = Inr (block_addr (span_at s x) (Min ?F), set_span s1 x (\<lambda>_. d))"
    using cls class_index_nat [OF cls(2)] hd v s1(1) d(1) u
    by (auto simp: cmalloc_def Let_def valid_ptr_def)
  moreover obtain e where "same_descr (span_at s x) e" "unlinked d = unlinked e"
    by (rule same_descr_unlinked [OF f(9) [of x] d(2)])
  ultimately show thesis
    using s1(2) d f u local_bin_set_span [OF d(2)]
    by (intro that [of "set_span s1 x (\<lambda>_. d)"]) auto
qed

section \<open>\<open>cfree\<close> of a small block\<close>

text \<open>The span's record after a block came back, before the test whether the span is unused.\<close>

lemma cfree_give:
  assumes v: "valid_ptr x" and cls: "size_class_index (span_at s x) = int i" "i < SIZE_CLASS_COUNT"
    and bin: "local_bin s tid i xs" "x \<in> set xs \<longleftrightarrow> free_set (span_at s x) \<noteq> {}"
    and ok: "span_ok (span_at s x)" "in_block (span_at s x) k p" "k \<notin> free_set (span_at s x)"
  obtains s1 where "bindr (if free_count (span_at s x) = 0 then bin_push tid (int i) x s else Inr s)
        (\<lambda>s. give_block p x s) = Inr s1"
    "local_bin s1 tid i (if free_set (span_at s x) = {} then x # xs else xs)"
    "span_ok (span_at s1 x)" "free_set (span_at s1 x) = insert k (free_set (span_at s x))"
    "block_count (span_at s1 x) = block_count (span_at s x)"
    "page_count (span_at s1 x) = page_count (span_at s x)"
    "\<forall>y. y \<noteq> x \<longrightarrow> unlinked (span_at s1 y) = unlinked (span_at s y)"
    "lock s1 = lock s" "mem s1 = mem s" "rt (sp s1) = rt (sp s)" "meta (sp s1) = meta (sp s)"
    "page_map (sp s1) = page_map (sp s)"
    "uninitilized_span_bin (sp s1) = uninitilized_span_bin (sp s)"
    "\<exists>e. same_descr (span_at s x) e \<and> unlinked (span_at s1 x) = unlinked e"
proof -
  let ?F = "free_set (span_at s x)"
  have cnt: "free_count (span_at s x) = 0 \<longleftrightarrow> ?F = {}"
    using ok(1) by (auto simp: span_ok_def blocks_ok_def word_unat_eq_iff)
  let ?step = "if free_count (span_at s x) = 0 then bin_push tid (int i) x s else Inr s"
  let ?ys = "if ?F = {} then x # xs else xs"
  obtain s0 where s0: "?step = Inr s0" "local_bin s0 tid i ?ys" "bin_step tid i s s0"
  proof (cases "?F = {}")
    case True
    then obtain s0 where r: "bin_push tid (int i) x s = Inr s0" "local_bin s0 tid i (x # xs)"
      using thread_bin.push_law [of "int i" s tid xs x] bin v class_of_nat(1) [OF cls(2)] by auto
    with bin_push_step [OF r(1)] True cnt show thesis by (intro that [of s0]) auto
  next
    case False
    with bin cnt show thesis by (intro that [of s]) (auto intro: bin_step_refl)
  qed
  note f = bin_step_frame [OF s0(3)]
  note u = unlinked_blocks [OF f(9) [of x]]
  note us = unlinked_same [OF f(9) [of x]]
  have "span_ok (span_at s0 x)" "in_block (span_at s0 x) k p" "k \<notin> free_set (span_at s0 x)"
    using ok u in_block_unlinked [OF f(9) [of x]] by simp_all
  then obtain d where d: "give_block p x s0 = Inr (set_span s0 x (\<lambda>_. d))"
    "same_descr (span_at s0 x) d" "span_ok d" "free_set d = insert k (free_set (span_at s0 x))"
    using give_block_law [OF v, of s0 k p] by blast
  obtain e where "same_descr (span_at s x) e" "unlinked d = unlinked e"
    by (rule same_descr_unlinked [OF f(9) [of x] d(2)])
  then show thesis
    using s0 d f u us local_bin_set_span [OF d(2)] same_descr_fields [OF d(2)]
    by (intro that [of "set_span s0 x (\<lambda>_. d)"]) auto
qed

text \<open>Both endings of \<open>cfree\<close> for a small block.\<close>

lemma cfree_steps:
  assumes "p \<noteq> NULL" "cmalloc_get_span (sp s) p = Inr x" "valid_ptr x"
    and "size_class_index (span_at s x) = int i" "i < SIZE_CLASS_COUNT"
  shows "cfree os tid p s =
    bindr (bindr (if free_count (span_at s x) = 0 then bin_push tid (int i) x s else Inr s)
             (\<lambda>s. give_block p x s))
      (\<lambda>s. if free_count (span_at s x) = block_count (span_at s x)
            then bindr (bin_remove tid (int i) x s) (locked_cache_span os tid x) else Inr s)"
proof -
  have b: "bindr (bindr m f) g = bindr m (\<lambda>a. bindr (f a) g)" for m :: "fault + cm_state" and f g
    by (cases m) simp_all
  show ?thesis
    using assms class_index_nat [OF assms(5)] by (simp add: cfree_def b Let_def)
qed

lemma cfree_keeps_span:
  assumes get: "p \<noteq> NULL" "cmalloc_get_span (sp s) p = Inr x"
    and v: "valid_ptr x" and cls: "size_class_index (span_at s x) = int i" "i < SIZE_CLASS_COUNT"
    and bin: "local_bin s tid i xs" "x \<in> set xs \<longleftrightarrow> free_set (span_at s x) \<noteq> {}"
    and ok: "span_ok (span_at s x)" "in_block (span_at s x) k p" "k \<notin> free_set (span_at s x)"
    and some: "Suc (card (free_set (span_at s x))) < unat (block_count (span_at s x))"
  obtains s' where "cfree os tid p s = Inr s'"
    "local_bin s' tid i (if free_set (span_at s x) = {} then x # xs else xs)"
    "span_ok (span_at s' x)" "free_set (span_at s' x) = insert k (free_set (span_at s x))"
    "\<forall>y. y \<noteq> x \<longrightarrow> unlinked (span_at s' y) = unlinked (span_at s y)"
    "lock s' = lock s" "mem s' = mem s" "meta (sp s') = meta (sp s)"
proof -
  obtain s1 where s1: "bindr (if free_count (span_at s x) = 0 then bin_push tid (int i) x s else Inr s)
        (\<lambda>s. give_block p x s) = Inr s1"
    "local_bin s1 tid i (if free_set (span_at s x) = {} then x # xs else xs)"
    "span_ok (span_at s1 x)" "free_set (span_at s1 x) = insert k (free_set (span_at s x))"
    "block_count (span_at s1 x) = block_count (span_at s x)"
    "\<forall>y. y \<noteq> x \<longrightarrow> unlinked (span_at s1 y) = unlinked (span_at s y)"
    "lock s1 = lock s" "mem s1 = mem s" "meta (sp s1) = meta (sp s)"
    by (rule cfree_give [OF v cls bin ok]) blast
  have "unat (free_count (span_at s1 x)) = Suc (card (free_set (span_at s x)))"
    using s1(3,4) ok(3) by (simp add: span_ok_def blocks_ok_def)
  then have "free_count (span_at s1 x) \<noteq> block_count (span_at s1 x)"
    using some s1(5) by auto
  then have "cfree os tid p s = Inr s1"
    using cfree_steps [OF get v cls] s1(1) by simp
  then show thesis using s1 by (intro that [of s1]) blast+
qed

lemma locked_cache_small:
  assumes "valid_ptr x" "page_count (span_at s x) < MAX_BINNED_PAGES" "lock s = None"
  shows "locked_cache_span os tid x s = Inr (s\<lparr>sp := cached x (sp s)\<rparr>)"
  using cache_small_span [OF assms(1), of "sp s" os] assms
  by (simp add: locked_cache_span_def pthread_mutex_lock_def pthread_mutex_unlock_def)

lemma cfree_last_block:
  assumes get: "p \<noteq> NULL" "cmalloc_get_span (sp s) p = Inr x"
    and v: "valid_ptr x" and cls: "size_class_index (span_at s x) = int i" "i < SIZE_CLASS_COUNT"
    and bin: "local_bin s tid i xs" "x \<in> set xs \<longleftrightarrow> free_set (span_at s x) \<noteq> {}"
    and ok: "span_ok (span_at s x)" "in_block (span_at s x) k p" "k \<notin> free_set (span_at s x)"
    and last: "Suc (card (free_set (span_at s x))) = unat (block_count (span_at s x))"
    and pages: "page_count (span_at s x) < MAX_BINNED_PAGES" and lk: "lock s = None"
  obtains s' where "cfree os tid p s = Inr s'" "local_bin s' tid i (remove1 x xs)"
    "uninitilized_span_bin (sp s') =
       (uninitilized_span_bin (sp s))(unat (page_count (span_at s x)) := x)"
    "next_in_uninitialized_bin (span_at s' x) = uninitilized_span_bin (sp s) (unat (page_count (span_at s x)))"
    "\<not> is_initialized (span_at s' x)" "free_set (span_at s' x) = span_blocks (span_at s x)"
    "unat (page_count (span_at s x)) \<in> bin_bits (non_empty_bitmap (sp s'))"
    "\<forall>y. y \<noteq> x \<longrightarrow> unlinked (span_at s' y) = unlinked (span_at s y)"
    "lock s' = None" "mem s' = mem s" "meta (sp s') = meta (sp s)"
proof -
  let ?xs = "if free_set (span_at s x) = {} then x # xs else xs"
  obtain s1 where s1: "bindr (if free_count (span_at s x) = 0 then bin_push tid (int i) x s else Inr s)
        (\<lambda>s. give_block p x s) = Inr s1"
    "local_bin s1 tid i ?xs" "span_ok (span_at s1 x)"
    "free_set (span_at s1 x) = insert k (free_set (span_at s x))"
    "block_count (span_at s1 x) = block_count (span_at s x)"
    "page_count (span_at s1 x) = page_count (span_at s x)"
    "\<forall>y. y \<noteq> x \<longrightarrow> unlinked (span_at s1 y) = unlinked (span_at s y)"
    "lock s1 = lock s" "mem s1 = mem s" "meta (sp s1) = meta (sp s)"
    "uninitilized_span_bin (sp s1) = uninitilized_span_bin (sp s)"
    by (rule cfree_give [OF v cls bin ok]) blast
  have c: "unat (free_count (span_at s1 x)) = Suc (card (free_set (span_at s x)))"
    using s1(3,4) ok(3) by (simp add: span_ok_def blocks_ok_def)
  then have full: "free_count (span_at s1 x) = block_count (span_at s1 x)"
    using last s1(5) by (simp add: word_unat_eq_iff)
  have all: "free_set (span_at s1 x) = span_blocks (span_at s x)"
  proof (rule card_subset_eq)
    show "free_set (span_at s1 x) \<subseteq> span_blocks (span_at s x)"
      using s1(3,5) by (simp add: span_ok_def blocks_ok_def span_blocks_def)
    show "card (free_set (span_at s1 x)) = card (span_blocks (span_at s x))"
      using s1(3) c last by (simp add: span_ok_def blocks_ok_def span_blocks_def)
  qed (simp add: span_blocks_def)
  have x: "x \<in> set ?xs" and r1: "remove1 x ?xs = remove1 x xs"
    using bin(2) by (auto simp: remove1_idem)
  obtain s2 where s2: "bin_remove tid (int i) x s1 = Inr s2" "local_bin s2 tid i (remove1 x ?xs)"
    using thread_bin.remove_law [of "int i" s1 tid ?xs x] s1(2) x class_of_nat(1) [OF cls(2)] by auto
  note f = bin_step_frame [OF bin_remove_step [OF s2(1)], unfolded nat_int]
  note us = unlinked_same [OF f(9) [of x]] and ub = unlinked_blocks [OF f(9) [of x]]
  have pg: "page_count (span_at s2 x) = page_count (span_at s x)" using us s1(6) by simp
  have "locked_cache_span os tid x s2 = Inr (s2\<lparr>sp := cached x (sp s2)\<rparr>)"
    using v pages f(7) s1(8) lk pg by (intro locked_cache_small) simp_all
  then have run: "cfree os tid p s = Inr (s2\<lparr>sp := cached x (sp s2)\<rparr>)"
    using cfree_steps [OF get v cls] s1(1) full s2(1) by simp
  have bin': "local_bin (s2\<lparr>sp := cached x (sp s2)\<rparr>) tid i (remove1 x xs)"
  proof -
    have "dlist (span_heap (cached x (sp s2))) h ys = dlist (span_heap (sp s2)) h ys" for h ys
      by (rule dlist_cong) (simp add: cached_reads)
    then show ?thesis using s2(2) unfolding local_bin_def r1 by simp
  qed
  have fs: "free_set (span_heap (cached x (sp s2)) x) = free_set (span_at s2 x)"
    by (simp add: cached_reads free_set_def)
  have un: "unlinked (span_at s2 y) = unlinked (span_at s y)" if "y \<noteq> x" for y
    using f(9) [of y] s1(7) that by metis
  show thesis
  proof (rule that [OF run bin'])
    show "unat (page_count (span_at s x)) \<in>
        bin_bits (non_empty_bitmap (sp (s2\<lparr>sp := cached x (sp s2)\<rparr>)))"
      using pages pg by (simp add: cached_reads)
    show "uninitilized_span_bin (sp (s2\<lparr>sp := cached x (sp s2)\<rparr>)) =
       (uninitilized_span_bin (sp s))(unat (page_count (span_at s x)) := x)"
      using f(4) s1(11) pg by (simp add: cached_reads)
    show "\<forall>y. y \<noteq> x \<longrightarrow>
        unlinked (span_at (s2\<lparr>sp := cached x (sp s2)\<rparr>) y) = unlinked (span_at s y)"
      using un by (simp add: cached_reads)
    show "free_set (span_at (s2\<lparr>sp := cached x (sp s2)\<rparr>) x) = span_blocks (span_at s x)"
      using fs ub(1) all by simp
  qed (use f s1 pg lk in \<open>simp_all add: cached_reads\<close>)
qed

end
