(* ===== verification/CmallocTheorems.thy ===== *)
theory CmallocTheorems
  imports CmallocPaths
begin

text \<open>
  The properties of the public entry points \<open>cmalloc\<close>, \<open>cfree\<close>, \<open>ccalloc\<close> and
  \<open>crealloc\<close>.
\<close>

section \<open>A sample state\<close>

text \<open>
  One thread whose bin of the 32 KiB class holds one fresh span at 1 MiB; the descriptor lies at
  address 4096 and the page of the first two blocks is mapped to it.
\<close>

definition sample_cm :: "span_t \<Rightarrow> meta_state \<Rightarrow> cm_state" where
  "sample_cm span m =
     \<lparr>sp = (span_state_zero sample_rt)\<lparr>meta := m, page_map := sample_root,
              span_heap := (\<lambda>_. zero_span)(4096 := span)\<rparr>,
      thread_local_bin = (\<lambda>_ _. NULL)(0 := (\<lambda>_. NULL)(47 := 4096)), lock = None, mem = (\<lambda>_. 0)\<rparr>"

lemma sample_class: "get_size_class_index sample_rt 32768 = int 47"
proof -
  have "first_fit 32768 = 47"
    by (simp add: first_fit_def SIZE_CLASSES_def)
  then show ?thesis
    using get_size_class_index_value [OF sample_rt_ok, of 32768] by (simp add: MAX_SIZE_CLASS_def)
qed

lemma sample_state:
  obtains s where "get_size_class_index (rt (sp s)) 32768 = int 47" "local_bin s 0 47 [4096]"
    "span_ok (span_at s 4096)" "free_set (span_at s 4096) = {..<32}"
    "block_count (span_at s 4096) = 32" "block_size (span_at s 4096) = 32768"
    "span_base (span_at s 4096) = 1048576" "size_class_index (span_at s 4096) = int 47"
    "page_count (span_at s 4096) = 256" "lock s = None"
    "\<forall>p. drop_bit 12 p = 256 \<or> drop_bit 12 p = 264 \<longrightarrow> cmalloc_get_span (sp s) p = Inr 4096"
    "is_initialized (span_at s 4096)"
proof -
  have b: "unat (span_base sample_span) + unat (SIZE_CLASS_SPAN_SIZE ! 47) < 2 ^ 64"
    "47 < SIZE_CLASS_COUNT"
    by (simp_all add: sample_span_def SIZE_CLASS_SPAN_SIZE_def SIZE_CLASS_COUNT_def)
  obtain span where s: "span_ok span" "free_set span = {..<unat (SIZE_CLASS_BLOCK_COUNT ! 47)}"
    "block_count span = SIZE_CLASS_BLOCK_COUNT ! 47" "block_size span = SIZE_CLASSES ! 47"
    "span_base span = span_base sample_span" "same_descr (describe_span (int 47) 32768 sample_span) span"
    by (rule fresh_class_span [OF b(2,1), of 32768])
  note f = same_descr_fields [OF s(6)]
  have d: "size_class_index span = int 47" "page_count span = 256" "is_initialized span"
    "prev_in_size_class_bin span = NULL" "next_in_size_class_bin span = NULL"
    using class_index_nat [OF b(2)]
    by (simp_all add: f describe_span_def Let_def sample_span_def zero_span_def)
  obtain m where m: "page_inv sample_os {} sample_root m"
    "\<forall>j. 256 \<le> j \<and> j < 512 \<longrightarrow> cmalloc_get m sample_root j = Inr 4096"
  proof -
    have r: "reserve sample_os (mappings sample_meta) (0 + 2 * (unat (512 :: u64) - unat (256 :: u64)))"
      by (rule sample_reserve_meta) simp
    obtain m where run: "cmalloc_map_range sample_os sample_meta sample_root 4096 256 512 = Inr m"
      using page_index.put_range_returns [OF sample_page_inv _ r, of 4096] by auto
    have l: "page_inv sample_os {} sample_root m"
      "\<And>j. look m sample_root j =
         (if \<exists>k. in_range 256 512 k \<and> same_slot j k then 4096 else look sample_meta sample_root j)"
      using page_index.put_range_law [OF sample_page_inv _ run] by simp_all
    have "cmalloc_get m sample_root j = Inr 4096" if "256 \<le> j \<and> j < 512" for j
      using that l(2) [of j] page_inv_get [OF l(1), of j] by (auto simp: in_range_def same_slot_def)
    with l(1) show thesis by (intro that) auto
  qed
  have tab: "SIZE_CLASS_BLOCK_COUNT ! 47 = 32" "SIZE_CLASSES ! 47 = 32768" "span_base sample_span = 1048576"
    by (simp_all add: SIZE_CLASS_BLOCK_COUNT_def SIZE_CLASSES_def sample_span_def)
  show thesis
  proof (rule that [of "sample_cm span m"])
    show "local_bin (sample_cm span m) 0 47 [4096]"
      using d by (auto simp: local_bin_def dlist_def sample_cm_def valid_ptr_def)
    show "\<forall>p. drop_bit 12 p = 256 \<or> drop_bit 12 p = 264 \<longrightarrow>
        cmalloc_get_span (sp (sample_cm span m)) p = Inr 4096"
      using m(2) [rule_format, of 256] m(2) [rule_format, of 264]
      by (simp add: sample_cm_def cmalloc_get_span_def span_state_zero_def round_down_page_index_def
          sample_rt_pages)
  qed (use s d tab sample_class sample_rt_pages in
      \<open>simp_all add: sample_cm_def span_state_zero_def\<close>)
qed

section \<open>The fast paths\<close>

text \<open>A request of a size class is served from the first span of the thread's bin: it gets
  the span's lowest free block; the span leaves the bin exactly when this was its last free
  block; no other span changes, and the lock is not touched.\<close>

theorem cmalloc_serves_from_bin:
  assumes "get_size_class_index (rt (sp s)) sz = int i" "i < SIZE_CLASS_COUNT"
    and "local_bin s tid i (x # xs)" "span_ok (span_at s x)" "free_set (span_at s x) \<noteq> {}"
  shows "\<exists>s'. cmalloc os tid sz s =
      Inr (block_addr (span_at s x) (Min (free_set (span_at s x))), s') \<and>
    local_bin s' tid i (if card (free_set (span_at s x)) = 1 then xs else x # xs) \<and>
    span_ok (span_at s' x) \<and>
    free_set (span_at s' x) = free_set (span_at s x) - {Min (free_set (span_at s x))} \<and>
    (\<forall>y. y \<noteq> x \<longrightarrow> unlinked (span_at s' y) = unlinked (span_at s y)) \<and> lock s' = lock s"
  by (rule cmalloc_bin_path [OF assms]) blast

theorem cmalloc_serves_from_bin_witness:
  "\<exists>s s'. cmalloc sample_os 0 32768 s = Inr (1048576, s') \<and> local_bin s' 0 47 [4096] \<and>
     free_set (span_at s' 4096) = {1..<32}"
proof -
  obtain s where s: "get_size_class_index (rt (sp s)) 32768 = int 47" "local_bin s 0 47 [4096]"
    "span_ok (span_at s 4096)" "free_set (span_at s 4096) = {..<32}"
    "span_base (span_at s 4096) = 1048576" by (rule sample_state)
  have m: "Min (free_set (span_at s 4096)) = 0" "free_set (span_at s 4096) \<noteq> {}"
    "{..<32} - {0} = {1..<32 :: nat}"
    unfolding s(4) by (auto intro!: Min_eqI simp: lessThan_empty_iff)
  have "47 < SIZE_CLASS_COUNT" by (simp add: SIZE_CLASS_COUNT_def)
  from cmalloc_serves_from_bin [OF s(1) this s(2,3) m(2), of sample_os] show ?thesis
    using m s(4,5) by (auto simp: block_addr_def)
qed

text \<open>Freeing a block of a span that keeps other blocks in use marks exactly that block
  free, from any address inside it; a span that was full goes back to the front of the thread's
  bin.\<close>

theorem cfree_returns_block:
  assumes "p \<noteq> NULL" "cmalloc_get_span (sp s) p = Inr x" "valid_ptr x"
    and "size_class_index (span_at s x) = int i" "i < SIZE_CLASS_COUNT"
    and "local_bin s tid i xs" "x \<in> set xs \<longleftrightarrow> free_set (span_at s x) \<noteq> {}"
    and "span_ok (span_at s x)" "in_block (span_at s x) k p" "k \<notin> free_set (span_at s x)"
    and "Suc (card (free_set (span_at s x))) < unat (block_count (span_at s x))"
  shows "\<exists>s'. cfree os tid p s = Inr s' \<and>
    local_bin s' tid i (if free_set (span_at s x) = {} then x # xs else xs) \<and>
    span_ok (span_at s' x) \<and> free_set (span_at s' x) = insert k (free_set (span_at s x)) \<and>
    (\<forall>y. y \<noteq> x \<longrightarrow> unlinked (span_at s' y) = unlinked (span_at s y)) \<and> lock s' = lock s"
  by (rule cfree_keeps_span [OF assms]) blast

lemma in_first_block:
  "in_block d 0 p \<longleftrightarrow> 0 < unat (block_count d) \<and> unat (span_base d) \<le> unat p \<and>
     unat p < unat (span_base d) + unat (block_size d)"
  by (simp add: in_block_def block_addr_def)

text \<open>States of the sample with the first block, and with the first two blocks, taken.\<close>

lemma sample_one_taken:
  obtains s where "local_bin s 0 47 [4096]" "span_ok (span_at s 4096)"
    "free_set (span_at s 4096) = {1..<32}" "block_count (span_at s 4096) = 32"
    "block_size (span_at s 4096) = 32768" "span_base (span_at s 4096) = 1048576"
    "size_class_index (span_at s 4096) = int 47" "lock s = None"
    "cmalloc_get_span (sp s) 1048576 = Inr 4096" "page_count (span_at s 4096) = 256"
    "get_size_class_index (rt (sp s)) 32768 = int 47" "cmalloc_get_span (sp s) 1081344 = Inr 4096"
    "cmalloc_get_span (sp s) 1048676 = Inr 4096" "is_initialized (span_at s 4096)"
proof -
  obtain s where s: "local_bin s 0 47 [4096]"
    "span_ok (span_at s 4096)" "free_set (span_at s 4096) = {..<32}"
    "block_count (span_at s 4096) = 32" "block_size (span_at s 4096) = 32768"
    "span_base (span_at s 4096) = 1048576" "size_class_index (span_at s 4096) = int 47"
    "page_count (span_at s 4096) = 256" "lock s = None"
    "\<forall>p. drop_bit 12 p = 256 \<or> drop_bit 12 p = 264 \<longrightarrow> cmalloc_get_span (sp s) p = Inr 4096"
    "get_size_class_index (rt (sp s)) 32768 = int 47" "is_initialized (span_at s 4096)"
    by (rule sample_state) blast
  have v: "valid_ptr 4096" by (simp add: valid_ptr_def)
  have m: "Min {..<32 :: nat} = 0" "{..<32 :: nat} \<noteq> {}" "{..<32 :: nat} - {0} = {1..<32}"
    by (auto intro!: Min_eqI simp: lessThan_empty_iff)
  obtain d where d: "same_descr (span_at s 4096) d" "span_ok d" "free_set d = {1..<32}"
    using take_block_law [OF v s(2)] s(3) m by metis
  have g: "cmalloc_get_span (sp (set_span s 4096 (\<lambda>_. d))) p = cmalloc_get_span (sp s) p" for p
    by (simp add: cmalloc_get_span_def)
  have "cmalloc_get_span (sp s) 1048576 = Inr 4096" "cmalloc_get_span (sp s) 1081344 = Inr 4096"
    "cmalloc_get_span (sp s) 1048676 = Inr 4096"
    using s(10) by simp_all
  with s d g local_bin_set_span [OF d(1)] same_descr_fields [OF d(1)] show thesis
    by (intro that [of "set_span s 4096 (\<lambda>_. d)"]) simp_all
qed

lemma sample_two_taken:
  obtains s where "local_bin s 0 47 [4096]" "span_ok (span_at s 4096)"
    "free_set (span_at s 4096) = {2..<32}" "block_count (span_at s 4096) = 32"
    "block_size (span_at s 4096) = 32768" "span_base (span_at s 4096) = 1048576"
    "size_class_index (span_at s 4096) = int 47"
    "cmalloc_get_span (sp s) 1048576 = Inr 4096" "get_size_class_index (rt (sp s)) 32768 = int 47"
proof -
  obtain s where s: "local_bin s 0 47 [4096]" "span_ok (span_at s 4096)"
    "free_set (span_at s 4096) = {1..<32}" "block_count (span_at s 4096) = 32"
    "block_size (span_at s 4096) = 32768" "span_base (span_at s 4096) = 1048576"
    "size_class_index (span_at s 4096) = int 47"
    "cmalloc_get_span (sp s) 1048576 = Inr 4096" "get_size_class_index (rt (sp s)) 32768 = int 47"
    by (rule sample_one_taken) blast
  have v: "valid_ptr 4096" by (simp add: valid_ptr_def)
  have m: "Min {1..<32 :: nat} = 1" "{1..<32 :: nat} \<noteq> {}" "{1..<32 :: nat} - {1} = {2..<32}"
    by (auto intro!: Min_eqI)
  obtain d where d: "same_descr (span_at s 4096) d" "span_ok d" "free_set d = {2..<32}"
    using take_block_law [OF v s(2)] s(3) m by metis
  have "cmalloc_get_span (sp (set_span s 4096 (\<lambda>_. d))) p = cmalloc_get_span (sp s) p" for p
    by (simp add: cmalloc_get_span_def)
  with s d local_bin_set_span [OF d(1)] same_descr_fields [OF d(1)] show thesis
    by (intro that [of "set_span s 4096 (\<lambda>_. d)"]) simp_all
qed

theorem cfree_returns_block_witness:
  "\<exists>s s'. cfree sample_os 0 1048576 s = Inr s' \<and> local_bin s' 0 47 [4096] \<and>
     free_set (span_at s 4096) = {2..<32} \<and> free_set (span_at s' 4096) = insert 0 {2..<32}"
proof -
  obtain s where s: "local_bin s 0 47 [4096]" "span_ok (span_at s 4096)"
    "free_set (span_at s 4096) = {2..<32}" "block_count (span_at s 4096) = 32"
    "block_size (span_at s 4096) = 32768" "span_base (span_at s 4096) = 1048576"
    "size_class_index (span_at s 4096) = int 47"
    "cmalloc_get_span (sp s) 1048576 = Inr 4096" by (rule sample_two_taken) blast
  have "47 < SIZE_CLASS_COUNT" "valid_ptr 4096" by (simp_all add: SIZE_CLASS_COUNT_def valid_ptr_def)
  moreover have "in_block (span_at s 4096) 0 1048576" by (simp add: in_first_block s)
  ultimately show ?thesis
    using cfree_returns_block [OF _ s(8) _ s(7) _ s(1) _ s(2), of 0 sample_os] s(3,4) by auto
qed

text \<open>C29: when the last block in use of a span comes back, the span leaves the thread's bin and
  becomes the head of the free-span bin of its page count, where the best-fit index marks it.\<close>

theorem cfree_caches_unused_span:
  assumes "p \<noteq> NULL" "cmalloc_get_span (sp s) p = Inr x" "valid_ptr x"
    and "size_class_index (span_at s x) = int i" "i < SIZE_CLASS_COUNT"
    and "local_bin s tid i xs" "x \<in> set xs \<longleftrightarrow> free_set (span_at s x) \<noteq> {}"
    and "span_ok (span_at s x)" "in_block (span_at s x) k p" "k \<notin> free_set (span_at s x)"
    and "Suc (card (free_set (span_at s x))) = unat (block_count (span_at s x))"
    and "page_count (span_at s x) < MAX_BINNED_PAGES" "lock s = None"
  shows "\<exists>s'. cfree os tid p s = Inr s' \<and> local_bin s' tid i (remove1 x xs) \<and>
    uninitilized_span_bin (sp s') (unat (page_count (span_at s x))) = x \<and>
    next_in_uninitialized_bin (span_at s' x) =
      uninitilized_span_bin (sp s) (unat (page_count (span_at s x))) \<and>
    unat (page_count (span_at s x)) \<in> bin_bits (non_empty_bitmap (sp s')) \<and>
    \<not> is_initialized (span_at s' x) \<and> lock s' = None"
  by (rule cfree_last_block [OF assms, where os = os]) (auto intro: exI)

theorem cfree_caches_unused_span_witness:
  "\<exists>s s'. cfree sample_os 0 1048576 s = Inr s' \<and> local_bin s' 0 47 [] \<and>
     uninitilized_span_bin (sp s') 256 = 4096"
proof -
  obtain s where s: "local_bin s 0 47 [4096]" "span_ok (span_at s 4096)"
    "free_set (span_at s 4096) = {1..<32}" "block_count (span_at s 4096) = 32"
    "block_size (span_at s 4096) = 32768" "span_base (span_at s 4096) = 1048576"
    "size_class_index (span_at s 4096) = int 47" "lock s = None"
    "cmalloc_get_span (sp s) 1048576 = Inr 4096" "page_count (span_at s 4096) = 256"
    by (rule sample_one_taken) blast
  have c: "47 < SIZE_CLASS_COUNT" "valid_ptr 4096" by (simp_all add: SIZE_CLASS_COUNT_def valid_ptr_def)
  have b: "in_block (span_at s 4096) 0 1048576" by (simp add: in_first_block s)
  show ?thesis
    using cfree_caches_unused_span [OF _ s(9) c(2) s(7) c(1) s(1) _ s(2) b, of sample_os]
      s(3,4,8,10) by (auto simp: MAX_BINNED_PAGES_def)
qed

text \<open>Allocating from the bin and freeing the result restores the span's free blocks and
  leaves the span at the front of the bin, as long as another block of it is in use.\<close>

theorem cmalloc_cfree_roundtrip:
  assumes cls: "get_size_class_index (rt (sp s)) sz = int i" "i < SIZE_CLASS_COUNT"
    and bin: "local_bin s tid i (x # xs)"
    and ok: "span_ok (span_at s x)" "free_set (span_at s x) \<noteq> {}"
    and used: "card (free_set (span_at s x)) < unat (block_count (span_at s x))"
    and desc: "size_class_index (span_at s x) = int i" "span_base (span_at s x) \<noteq> NULL"
    and get: "cmalloc_get_span (sp s) (block_addr (span_at s x) (Min (free_set (span_at s x)))) = Inr x"
  shows "\<exists>p s1 s2. cmalloc os tid sz s = Inr (p, s1) \<and> cfree os tid p s1 = Inr s2 \<and>
    free_set (span_at s2 x) = free_set (span_at s x) \<and> local_bin s2 tid i (x # xs) \<and>
    span_ok (span_at s2 x)"
proof -
  let ?F = "free_set (span_at s x)" let ?k = "Min ?F"
  let ?p = "block_addr (span_at s x) ?k"
  obtain s1 where s1: "cmalloc os tid sz s = Inr (?p, s1)"
    "local_bin s1 tid i (if card ?F = 1 then xs else x # xs)" "span_ok (span_at s1 x)"
    "free_set (span_at s1 x) = ?F - {?k}"
    "meta (sp s1) = meta (sp s)" "page_map (sp s1) = page_map (sp s)" "rt (sp s1) = rt (sp s)"
    "\<exists>d. same_descr (span_at s x) d \<and> unlinked (span_at s1 x) = unlinked d"
    by (rule cmalloc_bin_path [OF cls bin ok]) blast
  then obtain d where d: "same_descr (span_at s x) d" "unlinked (span_at s1 x) = unlinked d" by blast
  note f = same_descr_fields [OF d(1)] unlinked_same [OF d(2)]
  have mem: "?k \<in> ?F" using ok(2) by simp
  have kc: "?k < unat (block_count (span_at s x))" and g: "span_geometry (span_at s x)"
    using ok(1) mem by (auto simp: span_ok_def blocks_ok_def)
  have "unat ?p = unat (span_base (span_at s x)) + ?k * unat (block_size (span_at s x))"
    by (rule unat_block_addr [OF g kc])
  moreover have "unat (span_base (span_at s x)) \<noteq> 0"
    using desc(2) by (simp add: word_unat_eq_iff)
  ultimately have pn: "?p \<noteq> NULL" by auto
  have addr: "block_addr (span_at s1 x) = block_addr (span_at s x)"
    by (simp add: block_addr_def f fun_eq_iff)
  have inb: "in_block (span_at s1 x) ?k ?p"
    using kc block_size_positive [OF g] by (simp add: in_block_def addr f)
  have get1: "cmalloc_get_span (sp s1) ?p = Inr x"
    using get s1(5-7) by (simp add: cmalloc_get_span_def)
  have v: "valid_ptr x" using bin dlist_valid unfolding local_bin_def by fastforce
  have xin: "x \<in> set (if card ?F = 1 then xs else x # xs) \<longleftrightarrow> free_set (span_at s1 x) \<noteq> {}"
  proof (cases "card ?F = 1")
    case True
    then obtain a where a: "?F = {a}" by (auto simp: card_1_singleton_iff)
    moreover have "x \<notin> set xs" using bin by (auto simp: local_bin_def dlist_def)
    ultimately show ?thesis using s1(4) by simp
  next
    case False
    have "card (?F - {?k}) = card ?F - 1" using mem by simp
    moreover have "0 < card ?F" using ok(2) by (simp add: card_gt_0_iff)
    ultimately have "card (?F - {?k}) \<noteq> 0" using False by linarith
    then have "?F - {?k} \<noteq> {}" by (metis card.empty)
    with False s1(4) show ?thesis by simp
  qed
  have cls1: "size_class_index (span_at s1 x) = int i" using desc(1) by (simp add: f)
  have lt: "Suc (card (free_set (span_at s1 x))) < unat (block_count (span_at s1 x))"
  proof -
    have "Suc (card (?F - {?k})) = card ?F" using card_Suc_Diff1 [OF finite_free_set mem] .
    with used show ?thesis by (simp add: s1(4) f)
  qed
  have nf: "?k \<notin> free_set (span_at s1 x)" by (simp add: s1(4))
  obtain s2 where s2: "cfree os tid ?p s1 = Inr s2"
    "local_bin s2 tid i (if free_set (span_at s1 x) = {} then x # (if card ?F = 1 then xs else x # xs)
       else (if card ?F = 1 then xs else x # xs))"
    "span_ok (span_at s2 x)" "free_set (span_at s2 x) = insert ?k (free_set (span_at s1 x))"
    by (rule cfree_keeps_span [OF pn get1 v cls1 cls(2) s1(2) xin s1(3) inb nf lt]) blast
  have "free_set (span_at s2 x) = ?F" using s2(4) s1(4) mem by auto
  moreover have "local_bin s2 tid i (x # xs)"
    using s2(2) xin bin by (auto simp: local_bin_def dlist_def split: if_splits)
  ultimately show ?thesis using s1(1) s2(1,3) by blast
qed

theorem cmalloc_cfree_roundtrip_witness:
  "\<exists>s p s1 s2. cmalloc sample_os 0 32768 s = Inr (p, s1) \<and> cfree sample_os 0 p s1 = Inr s2 \<and>
     free_set (span_at s2 4096) = {1..<32}"
proof -
  obtain s where s: "local_bin s 0 47 [4096]" "span_ok (span_at s 4096)"
    "free_set (span_at s 4096) = {1..<32}" "block_count (span_at s 4096) = 32"
    "block_size (span_at s 4096) = 32768" "span_base (span_at s 4096) = 1048576"
    "size_class_index (span_at s 4096) = int 47"
    "get_size_class_index (rt (sp s)) 32768 = int 47"
    "cmalloc_get_span (sp s) 1081344 = Inr 4096"
    by (rule sample_one_taken) blast
  have m: "Min (free_set (span_at s 4096)) = 1" "free_set (span_at s 4096) \<noteq> {}"
    unfolding s(3) by (auto intro!: Min_eqI)
  have a: "block_addr (span_at s 4096) 1 = 1081344" by (simp add: block_addr_def s)
  have c: "47 < SIZE_CLASS_COUNT" by (simp add: SIZE_CLASS_COUNT_def)
  have "cmalloc_get_span (sp s) (block_addr (span_at s 4096) (Min (free_set (span_at s 4096)))) = Inr 4096"
    by (simp only: m(1) a s(9))
  from cmalloc_cfree_roundtrip [OF s(8) c s(1,2) m(2) _ s(7) _ this, of sample_os] s(3,4,6)
  show ?thesis by auto
qed

section \<open>Freeing from another thread\<close>

text \<open>
  The last block in use of a span that has no neighbours in a bin, freed by any thread: whatever
  that thread has in its bin, the bin is empty afterwards.
\<close>

lemma lone_free_run:
  assumes "p \<noteq> NULL" "cmalloc_get_span (sp s) p = Inr x" "valid_ptr x"
    and cls: "size_class_index (span_at s x) = int i" "i < SIZE_CLASS_COUNT"
    and lx: "prev_in_size_class_bin (span_at s x) = NULL" "next_in_size_class_bin (span_at s x) = NULL"
    and ok: "span_ok (span_at s x)" "in_block (span_at s x) k p" "k \<notin> free_set (span_at s x)"
    and ne: "free_set (span_at s x) \<noteq> {}"
    and last: "Suc (card (free_set (span_at s x))) = unat (block_count (span_at s x))"
    and pages: "page_count (span_at s x) < MAX_BINNED_PAGES" and lk: "lock s = None"
  obtains s' d where "cfree os tid p s = Inr s'" "thread_local_bin s' tid i = NULL"
    "\<forall>t j. t \<noteq> tid \<longrightarrow> thread_local_bin s' t j = thread_local_bin s t j" "lock s' = None"
    "sp s' = cached x ((sp s)\<lparr>span_heap := remove_links ((span_heap (sp s))(x := d)) x\<rparr>)"
    "same_descr (span_at s x) d" "span_ok d" "free_set d = insert k (free_set (span_at s x))"
proof -
  have fc: "free_count (span_at s x) \<noteq> 0"
    using ok(1) ne by (auto simp: span_ok_def blocks_ok_def word_unat_eq_iff)
  obtain d where d: "give_block p x s = Inr (set_span s x (\<lambda>_. d))" "same_descr (span_at s x) d"
    "span_ok d" "free_set d = insert k (free_set (span_at s x))"
    using give_block_law [OF assms(3) ok] by blast
  let ?s1 = "set_span s x (\<lambda>_. d)"
  note f = same_descr_fields [OF d(2)]
  have "unat (free_count d) = unat (block_count d)"
    using d(3,4) ok(3) last f by (simp add: span_ok_def blocks_ok_def)
  then have full: "free_count (span_at ?s1 x) = block_count (span_at ?s1 x)"
    by (simp add: word_unat_eq_iff)
  let ?s2 = "set_heap (set_local_bin ?s1 tid i NULL) (remove_links (span_heap (sp ?s1)) x)"
  have rm: "bin_remove tid (int i) x ?s1 = Inr ?s2"
    using lx f class_of_nat(1) [OF cls(2)] assms(3) by (simp add: bin_remove_eq)
  have u: "unlinked (span_at ?s2 x) = unlinked d" by (simp add: unlinked_remove_links)
  have pg: "page_count (span_at ?s2 x) = page_count (span_at s x)"
    using unlinked_same(2) [OF u] f by simp
  have "locked_cache_span os tid x ?s2 = Inr (?s2\<lparr>sp := cached x (sp ?s2)\<rparr>)"
    using assms(3) pages pg lk by (intro locked_cache_small) simp_all
  then have run: "cfree os tid p s = Inr (?s2\<lparr>sp := cached x (sp ?s2)\<rparr>)"
    using cfree_steps [OF assms(1-3) cls] fc d(1) full rm by simp
  have "sp ?s2 = (sp s)\<lparr>span_heap := remove_links ((span_heap (sp s))(x := d)) x\<rparr>"
    by (simp add: set_span_def upd_span_def)
  then have e: "sp (?s2\<lparr>sp := cached x (sp ?s2)\<rparr>) =
      cached x ((sp s)\<lparr>span_heap := remove_links ((span_heap (sp s))(x := d)) x\<rparr>)"
    by simp
  show thesis by (rule that [OF run _ _ _ e d(2-4)]) (simp_all add: lk)
qed

lemma sole_links:
  assumes "local_bin s t i [x]"
  shows "prev_in_size_class_bin (span_at s x) = NULL" "next_in_size_class_bin (span_at s x) = NULL"
  using assms by (auto simp: local_bin_def dlist_def)

text \<open>A block freed by a thread that does not own the span, even with no two operations
  overlapping in time: when it was the last one in use, the span is cached for reuse while it is
  still the head of the owner's bin, the freeing thread loses its own bin, and the next request
  for that many pages is given the span the owner goes on allocating from.\<close>

theorem cross_thread_free_shares_span:
  assumes "p \<noteq> NULL" "cmalloc_get_span (sp s) p = Inr x" "valid_ptr x"
    and cls: "size_class_index (span_at s x) = int i" "i < SIZE_CLASS_COUNT"
    and owner: "local_bin s owner i [x]" and other: "tid \<noteq> owner"
    and ok: "span_ok (span_at s x)" "in_block (span_at s x) k p" "k \<notin> free_set (span_at s x)"
    and ne: "free_set (span_at s x) \<noteq> {}"
    and last: "Suc (card (free_set (span_at s x))) = unat (block_count (span_at s x))"
    and pages: "page_count (span_at s x) < MAX_BINNED_PAGES" and lk: "lock s = None"
  shows "\<exists>s'. cfree os tid p s = Inr s' \<and> thread_local_bin s' owner i = x \<and>
    thread_local_bin s' tid i = NULL \<and>
    (\<exists>sps. alloc_span_exact (sp s') (page_count (span_at s x)) = Inr (x, sps))"
proof -
  obtain s' d where s': "cfree os tid p s = Inr s'" "thread_local_bin s' tid i = NULL"
    "\<forall>t j. t \<noteq> tid \<longrightarrow> thread_local_bin s' t j = thread_local_bin s t j" "lock s' = None"
    "sp s' = cached x ((sp s)\<lparr>span_heap := remove_links ((span_heap (sp s))(x := d)) x\<rparr>)"
    "same_descr (span_at s x) d" "span_ok d" "free_set d = insert k (free_set (span_at s x))"
    by (rule lone_free_run [OF assms(1-5) sole_links [OF assms(6)] ok ne last pages lk, where os = os and tid = tid])
  let ?t = "(sp s)\<lparr>span_heap := remove_links ((span_heap (sp s))(x := d)) x\<rparr>"
  have u: "unlinked (span_heap ?t x) = unlinked d" by (simp add: unlinked_remove_links)
  have "page_count (span_heap ?t x) = page_count (span_at s x)"
    unfolding unlinked_same(2) [OF u] by (simp add: same_descr_fields [OF s'(6)])
  then have "uninitilized_span_bin (sp s') (unat (page_count (span_at s x))) = x"
    unfolding s'(5) by (simp add: cached_reads)
  then have "\<exists>sps. alloc_span_exact (sp s') (page_count (span_at s x)) = Inr (x, sps)"
    using assms(3) by (simp add: alloc_span_exact_def Let_def)
  moreover have "thread_local_bin s' owner i = x"
    using owner other s'(3) by (auto simp: local_bin_def dlist_def)
  ultimately show ?thesis using s'(1,2) by blast
qed

theorem cross_thread_free_shares_span_witness:
  "\<exists>s s' sps. cfree sample_os 1 1048576 s = Inr s' \<and> thread_local_bin s' 0 47 = 4096 \<and>
     alloc_span_exact (sp s') 256 = Inr (4096, sps)"
proof -
  obtain s where s: "local_bin s 0 47 [4096]" "span_ok (span_at s 4096)"
    "free_set (span_at s 4096) = {1..<32}" "block_count (span_at s 4096) = 32"
    "block_size (span_at s 4096) = 32768" "span_base (span_at s 4096) = 1048576"
    "size_class_index (span_at s 4096) = int 47" "lock s = None"
    "cmalloc_get_span (sp s) 1048576 = Inr 4096" "page_count (span_at s 4096) = 256"
    by (rule sample_one_taken) blast
  have c: "47 < SIZE_CLASS_COUNT" "valid_ptr 4096" by (simp_all add: SIZE_CLASS_COUNT_def valid_ptr_def)
  have b: "in_block (span_at s 4096) 0 1048576" by (simp add: in_first_block s)
  show ?thesis
    using cross_thread_free_shares_span [OF _ s(9) c(2) s(7) c(1) s(1) _ s(2) b, of 1 sample_os]
      s(3,4,8,10) by (auto simp: MAX_BINNED_PAGES_def)
qed

end
