(* ===== verification/Shim.thy ===== *)
theory Shim
  imports Cmalloc
begin

text \<open>
  The cmalloc backend of \<open>bench/shim/alloc_shim.c\<close>: usable size of a (possibly interior)
  pointer, over-aligned allocation without a header, and the entry points built on it. The
  error codes are those of \<open>errno.h\<close> on Linux.
\<close>

definition EINVAL :: int where
  "EINVAL = 22"

definition ENOMEM :: int where
  "ENOMEM = 12"

definition cm_usable :: "cm_state \<Rightarrow> ptr \<Rightarrow> fault + u64" where
  "cm_usable s p =
     (if p = NULL then Inr 0
      else
        bindr (cmalloc_get_span (sp s) p) (\<lambda>span.
          if span = NULL \<or> \<not> is_initialized (span_at s span) then Inr 0
          else
            let d = span_at s span;
                offset = p - span_base d
            in if block_size d = 0 then Inl Div_By_Zero
               else
                 let block_index = offset div block_size d;
                     block_start = span_base d + block_index * block_size d
                 in Inr (block_size d - (p - block_start))))"

definition shim_backend_name :: string where
  "shim_backend_name = ''cmalloc''"

definition shim_malloc :: "platform \<Rightarrow> nat \<Rightarrow> u64 \<Rightarrow> cm_state \<Rightarrow> fault + ptr \<times> cm_state" where
  "shim_malloc os tid sz s = cmalloc os tid sz s"

definition shim_free :: "platform \<Rightarrow> nat \<Rightarrow> ptr \<Rightarrow> cm_state \<Rightarrow> fault + cm_state" where
  "shim_free os tid p s = cfree os tid p s"

definition shim_calloc :: "platform \<Rightarrow> nat \<Rightarrow> u64 \<Rightarrow> u64 \<Rightarrow> cm_state \<Rightarrow> fault + ptr \<times> cm_state" where
  "shim_calloc os tid n sz s = ccalloc os tid n sz s"

definition shim_usable_size :: "cm_state \<Rightarrow> ptr \<Rightarrow> fault + u64" where
  "shim_usable_size s p = cm_usable s p"

definition shim_realloc :: "platform \<Rightarrow> nat \<Rightarrow> ptr \<Rightarrow> u64 \<Rightarrow> cm_state \<Rightarrow> fault + ptr \<times> cm_state" where
  "shim_realloc os tid p sz s = crealloc os tid p sz s"

text \<open>The address \<open>shim_memalign\<close> hands out for a raw block.\<close>

definition align_address :: "ptr \<Rightarrow> u64 \<Rightarrow> ptr" where
  "align_address raw alignment = (raw + alignment - 1) AND NOT (alignment - 1)"

definition shim_memalign :: "platform \<Rightarrow> nat \<Rightarrow> u64 \<Rightarrow> u64 \<Rightarrow> cm_state \<Rightarrow> fault + ptr \<times> cm_state" where
  "shim_memalign os tid alignment sz s =
     (if alignment \<le> 16 then cmalloc os tid sz s
      else if sz > SIZE_MAX - alignment then Inr (NULL, s)
      else
        bindr (cmalloc os tid (sz + alignment - 1) s) (\<lambda>(raw, s).
          if raw = NULL then Inr (NULL, s)
          else Inr (align_address raw alignment, s)))"

definition shim_aligned_alloc ::
  "platform \<Rightarrow> nat \<Rightarrow> u64 \<Rightarrow> u64 \<Rightarrow> cm_state \<Rightarrow> fault + ptr \<times> cm_state" where
  "shim_aligned_alloc os tid alignment sz s = shim_memalign os tid alignment sz s"

definition shim_valloc :: "platform \<Rightarrow> nat \<Rightarrow> u64 \<Rightarrow> cm_state \<Rightarrow> fault + ptr \<times> cm_state" where
  "shim_valloc os tid sz s = shim_memalign os tid 4096 sz s"

text \<open>
  \<open>out\<close> is \<open>None\<close> for a null result pointer; the new contents of \<open>*out\<close> come back with
  the return code, \<open>None\<close> when it is not written.
\<close>

definition shim_posix_memalign ::
  "platform \<Rightarrow> nat \<Rightarrow> bool \<Rightarrow> u64 \<Rightarrow> u64 \<Rightarrow> cm_state \<Rightarrow> fault + (int \<times> ptr option) \<times> cm_state" where
  "shim_posix_memalign os tid out_is_null alignment sz s =
     (if out_is_null then Inr ((EINVAL, None), s)
      else if alignment < 8 \<or> alignment AND (alignment - 1) \<noteq> 0 then Inr ((EINVAL, None), s)
      else
        bindr (shim_memalign os tid alignment sz s) (\<lambda>(p, s).
          if p = NULL then Inr ((ENOMEM, None), s)
          else Inr ((0, Some p), s)))"

text \<open>
  \<open>strlen\<close>: the length up to the first zero byte. \<open>None\<close> when there is no zero byte in memory, where
  the loop of the library function does not end.
\<close>

partial_function (option) strlen :: "(ptr \<Rightarrow> u8) \<Rightarrow> ptr \<Rightarrow> nat option" where
  "strlen bs p = (if bs p = 0 then Some 0 else Option.bind (strlen bs (p + 1)) (\<lambda>n. Some (Suc n)))"

definition shim_strdup ::
  "platform \<Rightarrow> nat \<Rightarrow> ptr \<Rightarrow> cm_state \<Rightarrow> (fault + ptr \<times> cm_state) option" where
  "shim_strdup os tid str s =
     (if str = NULL then Some (Inr (NULL, s))
      else
        Option.bind (strlen (mem s) str) (\<lambda>n.
          let len = word_of_nat n + 1
          in Some (bindr (shim_malloc os tid len s) (\<lambda>(copy, s).
               if copy = NULL then Inr (NULL, s)
               else if \<not> valid_ptr copy then Inl Bad_Deref
               else Inr (copy, s\<lparr>mem := memcpy (mem s) copy str len\<rparr>)))))"

text \<open>
  \<open>strnlen\<close>: the length up to the first zero byte, at most \<open>n\<close>; and \<open>shim_strndup\<close>,
  which copies that many bytes and a terminator.
\<close>

fun strnlen :: "(ptr \<Rightarrow> u8) \<Rightarrow> ptr \<Rightarrow> nat \<Rightarrow> nat" where
  "strnlen bs p 0 = 0"
| "strnlen bs p (Suc n) = (if bs p = 0 then 0 else Suc (strnlen bs (p + 1) n))"

definition shim_strndup :: "platform \<Rightarrow> nat \<Rightarrow> ptr \<Rightarrow> u64 \<Rightarrow> cm_state \<Rightarrow> fault + ptr \<times> cm_state" where
  "shim_strndup os tid str n s =
     (if str = NULL then Inr (NULL, s)
      else
        let len = word_of_nat (strnlen (mem s) str (unat n))
        in bindr (shim_malloc os tid (len + 1) s) (\<lambda>(copy, s).
             if copy = NULL then Inr (NULL, s)
             else if \<not> valid_ptr copy then Inl Bad_Deref
             else Inr (copy, s\<lparr>mem := (memcpy (mem s) copy str len)(copy + len := 0)\<rparr>)))"

end
