(* ===== verification/EntryTheorems.thy ===== *)
theory EntryTheorems
  imports CmallocTheorems Shim
begin

text \<open>
  The properties of the entry points as functions of the whole state: the lock, the user memory,
  \<open>ccalloc\<close> and \<open>crealloc\<close>, and the shim built on them.
\<close>

section \<open>The lock and the user memory\<close>

lemma bin_push_frame: "bin_push tid c x s = Inr s' \<Longrightarrow> lock s' = lock s \<and> mem s' = mem s"
  using bin_step_frame(7,8) [OF bin_push_step] by blast

lemma bin_remove_frame: "bin_remove tid c x s = Inr s' \<Longrightarrow> lock s' = lock s \<and> mem s' = mem s"
  using bin_step_frame(7,8) [OF bin_remove_step] by blast

lemma take_block_frame: "take_block x s = Inr (p, s') \<Longrightarrow> lock s' = lock s \<and> mem s' = mem s"
  by (auto simp: take_block_def bindr_eq_Inr split: if_splits)

lemma give_block_frame: "give_block p x s = Inr s' \<Longrightarrow> lock s' = lock s \<and> mem s' = mem s"
  by (auto simp: give_block_def bindr_eq_Inr split: if_splits)

lemma locked_initialize_frame:
  "locked_initialize_span os tid c sz s = Inr (p, s') \<Longrightarrow> lock s = None \<and> lock s' = None \<and> mem s' = mem s"
  by (auto simp: locked_initialize_span_def pthread_mutex_lock_def pthread_mutex_unlock_def
      bindr_eq_Inr split: if_splits)

lemma locked_cache_frame:
  "locked_cache_span os tid x s = Inr s' \<Longrightarrow> lock s = None \<and> lock s' = None \<and> mem s' = mem s"
  by (auto simp: locked_cache_span_def pthread_mutex_lock_def pthread_mutex_unlock_def
      bindr_eq_Inr split: if_splits)

lemmas op_frames = bin_push_frame bin_remove_frame take_block_frame give_block_frame
  locked_initialize_frame locked_cache_frame

lemma cmalloc_frame:
  assumes "cmalloc os tid sz s = Inr (p, s')"
  shows "lock s' = lock s \<and> mem s' = mem s"
proof -
  let ?c = "get_size_class_index (rt (sp s)) sz"
  let ?x = "thread_local_bin s tid (nat ?c)"
  consider "?c \<noteq> LARGE_CLASS_SIZE_INDEX" "?x \<noteq> NULL" | "?c \<noteq> LARGE_CLASS_SIZE_INDEX" "?x = NULL"
    | "?c = LARGE_CLASS_SIZE_INDEX" by blast
  then show ?thesis
  proof cases
    case 1
    with assms obtain s1 where
      "(if free_count (span_at s ?x) = 1 then bin_remove tid ?c ?x s else Inr s) = Inr s1"
      "take_block ?x s1 = Inr (p, s')"
      by (auto simp: cmalloc_def Let_def elim!: bindr_InrE)
    then show ?thesis using op_frames(3) bin_remove_frame by (force split: if_splits)
  next
    case 2
    with assms obtain x s1 s2 where "locked_initialize_span os tid ?c sz s = Inr (x, s1)"
      "bin_push tid ?c x s1 = Inr s2" "take_block x s2 = Inr (p, s')"
      by (auto simp: cmalloc_def Let_def elim!: bindr_InrE)
    from op_frames(5) [OF this(1)] op_frames(1) [OF this(2)] op_frames(3) [OF this(3)]
    show ?thesis by simp
  next
    case 3
    with assms obtain x s1 where "locked_initialize_span os tid ?c sz s = Inr (x, s1)"
      "take_block x s1 = Inr (p, s')"
      by (auto simp: cmalloc_def Let_def elim!: bindr_InrE)
    from op_frames(5) [OF this(1)] op_frames(3) [OF this(2)] show ?thesis by simp
  qed
qed

lemma cfree_frame:
  assumes "cfree os tid p s = Inr s'"
  shows "lock s' = lock s \<and> mem s' = mem s"
proof (cases "p = NULL")
  case True
  with assms show ?thesis by (simp add: cfree_def)
next
  case False
  with assms obtain x where "valid_ptr x" and run:
    "(let class_index = size_class_index (span_at s x)
      in if class_index = LARGE_CLASS_SIZE_INDEX then locked_cache_span os tid x s
         else bindr (if free_count (span_at s x) = 0 then bin_push tid class_index x s else Inr s) (\<lambda>s.
              bindr (give_block p x s) (\<lambda>s.
                if free_count (span_at s x) = block_count (span_at s x) then
                  bindr (bin_remove tid class_index x s) (\<lambda>s. locked_cache_span os tid x s)
                else Inr s))) = Inr s'"
    by (auto simp: cfree_def elim!: bindr_InrE split: if_splits)
  let ?c = "size_class_index (span_at s x)"
  show ?thesis
  proof (cases "?c = LARGE_CLASS_SIZE_INDEX")
    case True
    with run have "locked_cache_span os tid x s = Inr s'" by simp
    from op_frames(6) [OF this] show ?thesis by simp
  next
    case False
    with run obtain s1 s2 where
      1: "(if free_count (span_at s x) = 0 then bin_push tid ?c x s else Inr s) = Inr s1" and
      2: "give_block p x s1 = Inr s2" and
      3: "(if free_count (span_at s2 x) = block_count (span_at s2 x) then
             bindr (bin_remove tid ?c x s2) (\<lambda>s. locked_cache_span os tid x s) else Inr s2) = Inr s'"
      by (auto simp: Let_def elim!: bindr_InrE)
    have f1: "lock s1 = lock s \<and> mem s1 = mem s"
      using 1 op_frames(1) [of tid ?c x s s1] by (auto split: if_splits)
    have f2: "lock s2 = lock s1 \<and> mem s2 = mem s1" by (rule op_frames(4) [OF 2])
    show ?thesis
    proof (cases "free_count (span_at s2 x) = block_count (span_at s2 x)")
      case True
      with 3 obtain s3 where "bin_remove tid ?c x s2 = Inr s3" "locked_cache_span os tid x s3 = Inr s'"
        by (auto elim!: bindr_InrE)
      from op_frames(2) [OF this(1)] op_frames(6) [OF this(2)] f1 f2 show ?thesis by simp
    next
      case False
      with 3 f1 f2 show ?thesis by simp
    qed
  qed
qed

text \<open>Every entry point that returns leaves the lock as it found it, and none but
  \<open>ccalloc\<close> and \<open>crealloc\<close> writes user memory.\<close>

theorem lock_released:
  assumes "cmalloc os tid sz s = Inr (p, s1)" "cfree os tid q s = Inr s2"
    and "ccalloc os tid n sz s = Inr (p', s3)" "crealloc os tid q sz s = Inr (p'', s4)"
  shows "lock s1 = lock s \<and> lock s2 = lock s \<and> lock s3 = lock s \<and> lock s4 = lock s \<and>
    mem s1 = mem s \<and> mem s2 = mem s"
proof -
  have "lock s3 = lock s"
    using assms(3)
    by (auto simp: ccalloc_def Let_def elim!: bindr_InrE split: if_splits dest!: cmalloc_frame)
  moreover have "lock s4 = lock s"
    using assms(4)
    by (auto simp: crealloc_def Let_def elim!: bindr_InrE split: if_splits dest!: cmalloc_frame cfree_frame)
  ultimately show ?thesis using cmalloc_frame [OF assms(1)] cfree_frame [OF assms(2)] by simp
qed

theorem lock_released_witness:
  "\<exists>s p s1 s2 s3 s4. cmalloc sample_os 0 32768 s = Inr (p, s1) \<and> cfree sample_os 0 NULL s = Inr s2 \<and>
     ccalloc sample_os 0 (2 ^ 63) 32768 s = Inr (NULL, s3) \<and>
     crealloc sample_os 0 NULL 32768 s = Inr (p, s4) \<and> lock s1 = None \<and> lock s4 = None"
proof -
  obtain s where s: "local_bin s 0 47 [4096]" "span_ok (span_at s 4096)"
    "free_set (span_at s 4096) = {1..<32}" "lock s = None"
    "get_size_class_index (rt (sp s)) 32768 = int 47" by (rule sample_one_taken) blast
  have c: "47 < SIZE_CLASS_COUNT" "free_set (span_at s 4096) \<noteq> {}"
    using s(3) by (simp_all add: SIZE_CLASS_COUNT_def)
  obtain p s1 where m: "cmalloc sample_os 0 32768 s = Inr (p, s1)"
    by (rule cmalloc_bin_path [OF s(5) c(1) s(1,2) c(2)]) blast
  have f: "cfree sample_os 0 NULL s = Inr s" by (simp add: cfree_def)
  have cc: "ccalloc sample_os 0 (2 ^ 63) 32768 s = Inr (NULL, s)"
    by (simp add: ccalloc_def SIZE_MAX_def)
  have r: "crealloc sample_os 0 NULL 32768 s = Inr (p, s1)" using m by (simp add: crealloc_def)
  show ?thesis using m f cc r lock_released [OF m f cc r] s(4) by auto
qed

text \<open>Freeing or resizing a non-null pointer before the first allocation dereferences the
  null page map; freeing \<open>NULL\<close> is always harmless.\<close>

theorem cfree_before_first_allocation:
  "cfree os tid NULL s = Inr s \<and>
   (p \<noteq> NULL \<and> page_map (sp s) = NULL \<longrightarrow> cfree os tid p s = Inl Bad_Deref \<and>
     (sz \<noteq> 0 \<longrightarrow> crealloc os tid p sz s = Inl Bad_Deref) \<and> cm_usable s p = Inl Bad_Deref)"
  by (simp add: cfree_def crealloc_def cm_usable_def cmalloc_get_span_def cmalloc_get_def)

theorem cfree_before_first_allocation_witness:
  "cfree sample_os 0 4096 (cmalloc_constructor sample_os (cm_zero (\<lambda>_. 0))) = Inl Bad_Deref"
  using cfree_before_first_allocation [of sample_os 0 "cmalloc_constructor sample_os (cm_zero (\<lambda>_. 0))" 4096 1]
  by (simp add: cmalloc_constructor_def cm_zero_def span_state_zero_def Let_def)

section \<open>\<open>ccalloc\<close>\<close>

text \<open>The guard of \<open>ccalloc\<close> is exactly the overflow of the product.\<close>

lemma calloc_guard:
  fixes num sz :: u64
  shows "num \<noteq> 0 \<and> sz > SIZE_MAX div num \<longleftrightarrow> \<not> unat num * unat sz < 2 ^ 64"
proof (cases "num = 0")
  case True
  then show ?thesis by simp
next
  case False
  then have n: "0 < unat num" by (simp add: word_unat_eq_iff)
  have "sz > SIZE_MAX div num \<longleftrightarrow> (2 ^ 64 - 1) div unat num < unat sz"
    by (simp add: word_less_nat_alt unat_div SIZE_MAX_def)
  also have "\<dots> \<longleftrightarrow> 2 ^ 64 - 1 < unat sz * unat num"
    using n by (rule div_less_iff_less_mult)
  finally show ?thesis using False by (auto simp: mult.commute)
qed

text \<open>C39: \<open>ccalloc\<close> returns \<open>NULL\<close> and changes nothing when the product of its arguments
  does not fit in 64 bits; otherwise it requests exactly the product from \<open>cmalloc\<close> and every
  byte of a block it returns is zero.\<close>

theorem ccalloc_correct:
  "(\<not> unat num * unat sz < 2 ^ 64 \<longrightarrow> ccalloc os tid num sz s = Inr (NULL, s)) \<and>
   (unat num * unat sz < 2 ^ 64 \<and> ccalloc os tid num sz s = Inr (p, s') \<and> p \<noteq> NULL \<longrightarrow>
      unat (num * sz) = unat num * unat sz \<and>
      (\<exists>s1. cmalloc os tid (num * sz) s = Inr (p, s1)) \<and>
      (\<forall>k < unat num * unat sz. mem s' (p + word_of_nat k) = 0))"
proof (rule conjI)
  show "\<not> unat num * unat sz < 2 ^ 64 \<longrightarrow> ccalloc os tid num sz s = Inr (NULL, s)"
    using calloc_guard [of num sz] by (simp add: ccalloc_def)
  show "unat num * unat sz < 2 ^ 64 \<and> ccalloc os tid num sz s = Inr (p, s') \<and> p \<noteq> NULL \<longrightarrow>
      unat (num * sz) = unat num * unat sz \<and>
      (\<exists>s1. cmalloc os tid (num * sz) s = Inr (p, s1)) \<and>
      (\<forall>k < unat num * unat sz. mem s' (p + word_of_nat k) = 0)"
  proof (intro impI, elim conjE)
    assume fit: "unat num * unat sz < 2 ^ 64" and run: "ccalloc os tid num sz s = Inr (p, s')"
      and p: "p \<noteq> NULL"
    have tot: "unat (num * sz) = unat num * unat sz"
      using fit by (intro unat_mult_lem [THEN iffD1]) simp
    have g: "\<not> (num \<noteq> 0 \<and> sz > SIZE_MAX div num)" using fit calloc_guard by blast
    then obtain s1 where m: "cmalloc os tid (num * sz) s = Inr (p, s1)"
      and s': "num * sz \<noteq> 0 \<Longrightarrow> mem s' = memset_zero (mem s1) p (num * sz)"
      using run p by (auto simp: ccalloc_def Let_def bindr_eq_Inr split: if_splits)
    have "mem s' (p + word_of_nat k) = 0" if k: "k < unat num * unat sz" for k
    proof -
      have "unat (word_of_nat k :: u64) = k" using k fit by (intro unat_word_of_nat64) simp
      then have "(word_of_nat k :: u64) < num * sz" using k tot by (simp add: word_less_nat_alt)
      moreover from this have "num * sz \<noteq> 0" by auto
      ultimately show ?thesis using s' by (simp add: memset_zero_def)
    qed
    with tot m show "unat (num * sz) = unat num * unat sz \<and>
      (\<exists>s1. cmalloc os tid (num * sz) s = Inr (p, s1)) \<and>
      (\<forall>k < unat num * unat sz. mem s' (p + word_of_nat k) = 0)" by blast
  qed
qed

theorem ccalloc_correct_witness:
  "\<exists>s p s'. ccalloc sample_os 0 1024 32 s = Inr (p, s') \<and> p \<noteq> NULL \<and> mem s' (p + word_of_nat 5) = 0"
proof -
  obtain s where s: "local_bin s 0 47 [4096]" "span_ok (span_at s 4096)"
    "free_set (span_at s 4096) = {1..<32}" "block_size (span_at s 4096) = 32768"
    "span_base (span_at s 4096) = 1048576"
    "get_size_class_index (rt (sp s)) 32768 = int 47" by (rule sample_one_taken) blast
  have c: "47 < SIZE_CLASS_COUNT" "free_set (span_at s 4096) \<noteq> {}"
    using s(3) by (simp_all add: SIZE_CLASS_COUNT_def)
  obtain s1 where m: "cmalloc sample_os 0 32768 s =
      Inr (block_addr (span_at s 4096) (Min (free_set (span_at s 4096))), s1)"
    by (rule cmalloc_bin_path [OF s(6) c(1) s(1,2) c(2)]) blast
  have "Min (free_set (span_at s 4096)) = 1" unfolding s(3) by (intro Min_eqI) auto
  then have m1: "cmalloc sample_os 0 32768 s = Inr (1081344, s1)"
    using m by (simp add: block_addr_def s)
  have v: "valid_ptr 1081344" by (simp add: valid_ptr_def)
  obtain s' where r: "ccalloc sample_os 0 1024 32 s = Inr (1081344, s')"
    using m1 v by (simp add: ccalloc_def SIZE_MAX_def)
  have "(5 :: nat) < unat (1024 :: u64) * unat (32 :: u64)" "unat (1024 :: u64) * unat (32 :: u64) < 2 ^ 64"
    by simp_all
  with r have "\<forall>k < unat (1024 :: u64) * unat (32 :: u64). mem s' (1081344 + word_of_nat k) = 0"
    using conjunct2 [OF ccalloc_correct [of 1024 32 sample_os 0 s 1081344 s']] by simp
  then have "mem s' (1081344 + word_of_nat 5) = 0" by (rule allE [where x = 5]) simp
  with r show ?thesis by (intro exI [of _ s] exI [of _ 1081344] exI [of _ s']) simp
qed

section \<open>Interior pointers\<close>

lemma block_of_word:
  assumes g: "span_geometry d" and b: "in_block d k p"
  shows "(p - span_base d) div block_size d = word_of_nat k"
    and "unat (block_size d - (p - block_addr d k)) = unat (block_addr d k) + unat (block_size d) - unat p"
proof -
  have k: "k < unat (block_count d)" and r: "unat (block_addr d k) \<le> unat p"
    "unat p < unat (block_addr d k) + unat (block_size d)"
    using b by (simp_all add: in_block_def)
  have "unat ((p - span_base d) div block_size d) = k"
    by (rule block_index_of_addr [OF g k r])
  then show "(p - span_base d) div block_size d = word_of_nat k"
    by (metis of_nat_unat ucast_id)
  have "unat (p - block_addr d k) = unat p - unat (block_addr d k)"
    using r(1) by (intro unat_sub) (simp add: word_le_nat_alt)
  then have "unat (block_size d - (p - block_addr d k)) =
      unat (block_size d) - (unat p - unat (block_addr d k))"
    using r by (subst unat_sub) (simp_all add: word_le_nat_alt)
  then show "unat (block_size d - (p - block_addr d k)) =
      unat (block_addr d k) + unat (block_size d) - unat p"
    using r by simp
qed

text \<open>The usable size the shim reports for a pointer into a block is the number of bytes
  from the pointer to the end of the block.\<close>

theorem usable_size_to_block_end:
  assumes "p \<noteq> NULL" "cmalloc_get_span (sp s) p = Inr x" "x \<noteq> NULL"
    and "is_initialized (span_at s x)" "span_geometry (span_at s x)" "in_block (span_at s x) k p"
  shows "\<exists>u. shim_usable_size s p = Inr u \<and>
    unat u = unat (block_addr (span_at s x) k) + unat (block_size (span_at s x)) - unat p"
proof -
  have "block_size (span_at s x) \<noteq> 0" using block_size_positive [OF assms(5)] by auto
  then have "shim_usable_size s p =
      Inr (block_size (span_at s x) - (p - block_addr (span_at s x) k))"
    using assms(1-4) block_of_word(1) [OF assms(5,6)]
    by (simp add: shim_usable_size_def cm_usable_def block_addr_def Let_def)
  then show ?thesis using block_of_word(2) [OF assms(5,6)] by blast
qed

theorem usable_size_to_block_end_witness:
  "\<exists>s u. shim_usable_size s 1048676 = Inr u \<and> unat u = 32768 - 100"
proof -
  obtain s where s: "span_ok (span_at s 4096)" "block_count (span_at s 4096) = 32"
    "block_size (span_at s 4096) = 32768" "span_base (span_at s 4096) = 1048576"
    "cmalloc_get_span (sp s) 1048676 = Inr 4096" "is_initialized (span_at s 4096)"
    by (rule sample_one_taken) blast
  have b: "in_block (span_at s 4096) 0 1048676" by (simp add: in_first_block s)
  have g: "span_geometry (span_at s 4096)" using s(1) by (simp add: span_ok_def)
  have "block_addr (span_at s 4096) 0 = 1048576" by (simp add: block_addr_def s)
  with usable_size_to_block_end [OF _ s(5) _ s(6) g b] s(3) show ?thesis by auto
qed

text \<open>C40: \<open>crealloc\<close> compares the request with the size of the whole block, also for a pointer
  into the middle of it: it then returns the pointer unchanged although fewer bytes than requested
  are left, as the usable size shows.\<close>

theorem realloc_interior_overruns:
  assumes "p \<noteq> NULL" "cmalloc_get_span (sp s) p = Inr x" "valid_ptr x"
    and "is_initialized (span_at s x)" "span_geometry (span_at s x)" "in_block (span_at s x) k p"
    and "sz \<noteq> 0" "sz \<le> block_size (span_at s x)"
    and "unat (block_addr (span_at s x) k) + unat (block_size (span_at s x)) < unat p + unat sz"
  shows "shim_realloc os tid p sz s = Inr (p, s) \<and>
    (\<exists>u. shim_usable_size s p = Inr u \<and> u < sz)"
proof -
  have "\<exists>u. shim_usable_size s p = Inr u \<and>
    unat u = unat (block_addr (span_at s x) k) + unat (block_size (span_at s x)) - unat p"
  proof -
    have "block_size (span_at s x) \<noteq> 0" using block_size_positive [OF assms(5)] by auto
    then have "shim_usable_size s p =
        Inr (block_size (span_at s x) - (p - block_addr (span_at s x) k))"
      using assms(1-4) block_of_word(1) [OF assms(5,6)]
      by (auto simp: shim_usable_size_def cm_usable_def block_addr_def Let_def)
    then show ?thesis using block_of_word(2) [OF assms(5,6)] by blast
  qed
  moreover have "unat (block_addr (span_at s x) k) + unat (block_size (span_at s x)) - unat p < unat sz"
    using assms(6,9) unfolding in_block_def by linarith
  ultimately have "\<exists>u. shim_usable_size s p = Inr u \<and> u < sz"
    by (auto simp: word_less_nat_alt)
  moreover have "shim_realloc os tid p sz s = Inr (p, s)"
    using assms(1-3,7,8) by (simp add: shim_realloc_def crealloc_def)
  ultimately show ?thesis by blast
qed

theorem realloc_interior_overruns_witness:
  "\<exists>s u. shim_realloc sample_os 0 1048676 32768 s = Inr (1048676, s) \<and>
     shim_usable_size s 1048676 = Inr u \<and> u < 32768"
proof -
  obtain s where s: "span_ok (span_at s 4096)" "block_count (span_at s 4096) = 32"
    "block_size (span_at s 4096) = 32768" "span_base (span_at s 4096) = 1048576"
    "cmalloc_get_span (sp s) 1048676 = Inr 4096" "is_initialized (span_at s 4096)"
    by (rule sample_one_taken) blast
  have b: "in_block (span_at s 4096) 0 1048676" by (simp add: in_first_block s)
  have g: "span_geometry (span_at s 4096)" using s(1) by (simp add: span_ok_def)
  have v: "valid_ptr 4096" by (simp add: valid_ptr_def)
  have a: "block_addr (span_at s 4096) 0 = 1048576" by (simp add: block_addr_def s)
  have "shim_realloc sample_os 0 1048676 32768 s = Inr (1048676, s) \<and>
    (\<exists>u. shim_usable_size s 1048676 = Inr u \<and> u < 32768)"
    by (rule realloc_interior_overruns [OF _ s(5) v s(6) g b]) (simp_all add: a s(3))
  then show ?thesis by blast
qed

section \<open>Over-aligned allocation\<close>

lemma align_address_value:
  assumes k: "k < 64" and fit: "unat raw + (2 ^ k - 1) < 2 ^ 64"
  shows "unat (align_address raw (2 ^ k)) = (unat raw + (2 ^ k - 1)) div 2 ^ k * 2 ^ k"
proof -
  have "raw + 2 ^ k - 1 = raw + mask k" by (simp add: mask_eq_exp_minus_1)
  then have "align_address raw (2 ^ k) = (raw + mask k) AND NOT (mask k)"
    unfolding align_address_def by (simp only: mask_eq_exp_minus_1)
  then show ?thesis using unat_round_up_mask [OF k, of raw] fit by simp
qed

text \<open>A successful \<open>shim_memalign\<close> with a power of two above 16 took a block of \<open>sz + 2 ^ k - 1\<close>
  bytes and rounded its address up.\<close>

lemma memalign_run:
  assumes "4 < k" "k < 64" "shim_memalign os tid (2 ^ k) sz s = Inr (q, s')" "q \<noteq> NULL"
  obtains raw n where "cmalloc os tid n s = Inr (raw, s')" "raw \<noteq> NULL" "n = sz + 2 ^ k - 1"
    "unat n = unat sz + 2 ^ k - 1" "q = align_address raw (2 ^ k)"
    "unat raw + unat n < 2 ^ 64 \<longrightarrow> 2 ^ k dvd unat q \<and> unat raw \<le> unat q \<and> unat q < unat raw + 2 ^ k \<and>
       unat q + unat sz \<le> unat raw + unat n"
proof -
  have u: "unat (2 ^ k :: u64) = 2 ^ k" using assms(2) by (rule unat_exp64)
  have big: "\<not> (2 ^ k :: u64) \<le> 16"
  proof -
    have "(2 :: nat) ^ 5 \<le> 2 ^ k" using assms(1) by (intro power_increasing) simp_all
    then show ?thesis by (simp add: word_le_nat_alt u)
  qed
  have room: "\<not> sz > SIZE_MAX - 2 ^ k"
    using assms(3,4) big by (auto simp: shim_memalign_def)
  have "unat (SIZE_MAX - 2 ^ k :: u64) = 2 ^ 64 - 1 - 2 ^ k"
    using u unat_less64 [of "2 ^ k"] by (subst unat_sub) (simp_all add: SIZE_MAX_def word_le_nat_alt)
  with room have r: "unat sz + 2 ^ k < 2 ^ 64"
    using unat_less64 [of "2 ^ k"] by (simp add: word_less_nat_alt u)
  let ?n = "sz + 2 ^ k - 1"
  obtain raw where m: "cmalloc os tid ?n s = Inr (raw, s')" "raw \<noteq> NULL"
    and q: "q = align_address raw (2 ^ k)"
    using assms(3,4) big room by (auto simp: shim_memalign_def elim!: bindr_InrE split: if_splits)
  have p1: "(1 :: nat) \<le> 2 ^ k" by simp
  have s1: "unat (sz + 2 ^ k) = unat sz + 2 ^ k" using r u by (simp add: unat_plus_if')
  have n: "unat ?n = unat sz + 2 ^ k - 1"
  proof -
    have "1 \<le> unat (sz + 2 ^ k)" using s1 p1 by linarith
    then have "1 \<le> sz + 2 ^ k" by (simp add: word_le_nat_alt)
    then show ?thesis using s1 by (simp add: unat_sub)
  qed
  have "2 ^ k dvd unat q \<and> unat raw \<le> unat q \<and> unat q < unat raw + 2 ^ k \<and>
      unat q + unat sz \<le> unat raw + unat ?n"
    if fit: "unat raw + unat ?n < 2 ^ 64"
  proof -
    have v: "unat q = (unat raw + (2 ^ k - 1)) div 2 ^ k * 2 ^ k"
      unfolding q using assms(2) fit n p1 by (intro align_address_value) simp_all
    have m: "(unat raw + (2 ^ k - 1)) mod 2 ^ k < 2 ^ k" by simp
    have "(unat raw + (2 ^ k - 1)) div 2 ^ k * 2 ^ k + (unat raw + (2 ^ k - 1)) mod 2 ^ k =
        unat raw + (2 ^ k - 1)" by (rule div_mult_mod_eq)
    then have b: "unat raw \<le> unat q" "unat q \<le> unat raw + (2 ^ k - 1)"
      using m p1 unfolding v by linarith+
    then have "unat q + unat sz \<le> unat raw + unat ?n" using p1 unfolding n by linarith
    moreover have "2 ^ k dvd unat q" unfolding v by simp
    moreover have "unat q < unat raw + 2 ^ k" using b(2) p1 by linarith
    ultimately show ?thesis using b(1) by blast
  qed
  with m n q show thesis by (intro that) blast+
qed

text \<open>\<open>shim_memalign\<close> with a power of two above 16 returns an aligned address with the
  requested bytes inside the block it took from \<open>cmalloc\<close>, provided that block does not reach
  the end of the address space; a request whose slack would overflow is refused.\<close>

theorem memalign_aligned:
  assumes "4 < k" "k < 64" "shim_memalign os tid (2 ^ k) sz s = Inr (q, s')" "q \<noteq> NULL"
  shows "\<exists>raw n. cmalloc os tid n s = Inr (raw, s') \<and> raw \<noteq> NULL \<and>
    unat n = unat sz + 2 ^ k - 1 \<and>
    (unat raw + unat n < 2 ^ 64 \<longrightarrow>
       2 ^ k dvd unat q \<and> unat raw \<le> unat q \<and> unat q + unat sz \<le> unat raw + unat n)"
proof -
  obtain raw n where "cmalloc os tid n s = Inr (raw, s')" "raw \<noteq> NULL" "n = sz + 2 ^ k - 1"
    "unat n = unat sz + 2 ^ k - 1" "q = align_address raw (2 ^ k)"
    "unat raw + unat n < 2 ^ 64 \<longrightarrow> 2 ^ k dvd unat q \<and> unat raw \<le> unat q \<and> unat q < unat raw + 2 ^ k \<and>
       unat q + unat sz \<le> unat raw + unat n"
    by (rule memalign_run [OF assms])
  then show ?thesis by blast
qed

theorem memalign_aligned_witness:
  "\<exists>s q s'. shim_memalign sample_os 0 (2 ^ 6) 32705 s = Inr (q, s') \<and> 2 ^ 6 dvd unat q"
proof -
  obtain s where s: "local_bin s 0 47 [4096]" "span_ok (span_at s 4096)"
    "free_set (span_at s 4096) = {1..<32}" "block_size (span_at s 4096) = 32768"
    "span_base (span_at s 4096) = 1048576"
    "get_size_class_index (rt (sp s)) 32768 = int 47" by (rule sample_one_taken) blast
  have c: "47 < SIZE_CLASS_COUNT" "free_set (span_at s 4096) \<noteq> {}"
    using s(3) by (simp_all add: SIZE_CLASS_COUNT_def)
  obtain s1 where m: "cmalloc sample_os 0 32768 s =
      Inr (block_addr (span_at s 4096) (Min (free_set (span_at s 4096))), s1)"
    by (rule cmalloc_bin_path [OF s(6) c(1) s(1,2) c(2)]) blast
  have "Min (free_set (span_at s 4096)) = 1" unfolding s(3) by (intro Min_eqI) auto
  then have m1: "cmalloc sample_os 0 32768 s = Inr (1081344, s1)"
    using m by (simp add: block_addr_def s)
  have r: "shim_memalign sample_os 0 (2 ^ 6) 32705 s = Inr (1081344, s1)"
    using m1 by (simp add: shim_memalign_def SIZE_MAX_def align_address_def)
  obtain raw n where "cmalloc sample_os 0 n s = Inr (raw, s1)" "unat n = unat (32705 :: u64) + 2 ^ 6 - 1"
    "unat raw + unat n < 2 ^ 64 \<longrightarrow> 2 ^ 6 dvd unat (1081344 :: u64)"
    using memalign_aligned [OF _ _ r] by auto
  moreover from this(2) have "n = 32768" by (simp add: word_unat_eq_iff)
  ultimately have "2 ^ 6 dvd unat (1081344 :: u64)" using m1 by simp
  with r show ?thesis by (intro exI [of _ s] exI [of _ 1081344] exI [of _ s1]) simp
qed

end
