(* ===== verification/Reachable.thy ===== *)
theory Reachable
  imports EntryTheorems
begin

text \<open>
  The allocator as a transition system: threads call the entry points one at a time, in any
  order, and write to user memory in between. Its invariants are proved by rule induction.
\<close>

section \<open>Steps\<close>

inductive step :: "platform \<Rightarrow> cm_state \<Rightarrow> cm_state \<Rightarrow> bool" for os where
  malloc: "cmalloc os tid sz s = Inr (p, s') \<Longrightarrow> step os s s'"
| free: "cfree os tid p s = Inr s' \<Longrightarrow> step os s s'"
| calloc: "ccalloc os tid n sz s = Inr (p, s') \<Longrightarrow> step os s s'"
| realloc: "crealloc os tid q sz s = Inr (p, s') \<Longrightarrow> step os s s'"
| user_write: "step os s (s\<lparr>mem := bs\<rparr>)"

inductive reachable :: "platform \<Rightarrow> (ptr \<Rightarrow> u8) \<Rightarrow> cm_state \<Rightarrow> bool" for os bytes0 where
  start: "reachable os bytes0 (cmalloc_constructor os (cm_zero bytes0))"
| trans: "reachable os bytes0 s \<Longrightarrow> step os s s' \<Longrightarrow> reachable os bytes0 s'"

inductive_cases stepE: "step os s s'"

section \<open>The runtime globals are written at start-up only\<close>

lemma span_updates_rt [simp]:
  "rt (upd_span s p f) = rt s" "rt (set_bin s n p) = rt s" "rt (mark_non_empty s n) = rt s"
  "rt (mark_empty s n) = rt s"
  by (simp_all add: upd_span_def set_bin_def mark_non_empty_def mark_empty_def)

lemma alloc_meta_rt: "alloc_meta os s sz = Inr (p, s') \<Longrightarrow> rt s' = rt s"
  by (auto simp: alloc_meta_def elim!: bindr_InrE split: if_splits)

lemma map_span_pages_rt: "map_span_pages os s x = Inr s' \<Longrightarrow> rt s' = rt s"
  by (auto simp: map_span_pages_def Let_def elim!: bindr_InrE)

lemma mmap_pages_rt: "mmap_pages os s n = (a, s') \<Longrightarrow> rt s' = rt s"
  by (auto simp: mmap_pages_def split: prod.splits)

lemma alloc_span_large_rt: "alloc_span_large os s n = Inr (p, s') \<Longrightarrow> rt s' = rt s"
  by (auto simp: alloc_span_large_def Let_def elim!: bindr_InrE split: prod.splits
      dest!: alloc_meta_rt map_span_pages_rt mmap_pages_rt)

lemma alloc_span_exact_rt: "alloc_span_exact s n = Inr (p, s') \<Longrightarrow> rt s' = rt s"
  by (auto simp: alloc_span_exact_def Let_def split: if_splits)

lemma alloc_span_split_rt:
  assumes "alloc_span_split os s n b = Inr (p, s')"
  shows "rt s' = rt s"
proof -
  let ?x = "uninitilized_span_bin s (unat b)"
  define s1 where "s1 = set_bin s b (next_in_uninitialized_bin (span_heap s ?x))"
  define s2 where "s2 = (if uninitilized_span_bin s1 (unat b) = NULL then mark_empty s1 b else s1)"
  have r2: "rt s2 = rt s" by (simp add: s1_def s2_def)
  from assms obtain y s3 s4 s5 where
    m: "alloc_meta os (upd_span s2 ?x (\<lambda>d. d\<lparr>page_count := n\<rparr>)) sizeof_span = Inr (y, s3)" and
    "map_span_pages os s4 y = Inr s5" "rt s4 = rt s3" "rt s' = rt s5"
    unfolding alloc_span_split_def Let_def s1_def [symmetric] s2_def [symmetric]
    by (auto elim!: bindr_InrE split: if_splits)
  then show ?thesis using alloc_meta_rt [OF m] map_span_pages_rt r2 by simp
qed

lemma alloc_span_chunk_rt:
  assumes "alloc_span_chunk os s n = Inr (p, s')"
  shows "rt s' = rt s"
  using assms
  by (auto simp: alloc_span_chunk_def Let_def elim!: bindr_InrE split: prod.splits if_splits
      dest!: alloc_meta_rt map_span_pages_rt mmap_pages_rt)

lemma alloc_span_rt: "alloc_span os s sz = Inr (p, s') \<Longrightarrow> rt s' = rt s"
  by (auto simp: alloc_span_def Let_def elim!: bindr_InrE split: if_splits
      dest!: alloc_span_large_rt alloc_span_exact_rt alloc_span_split_rt alloc_span_chunk_rt)

lemma initialize_span_rt: "cmalloc_initialize_span os s c sz = Inr (p, s') \<Longrightarrow> rt s' = rt s"
  by (auto simp: cmalloc_initialize_span_def elim!: bindr_InrE split: if_splits dest!: alloc_span_rt)

lemma cache_span_rt: "cmalloc_cache_span os s x = Inr s' \<Longrightarrow> rt s' = rt s"
  by (auto simp: cmalloc_cache_span_def Let_def elim!: bindr_InrE split: if_splits)

lemma bin_push_rt: "bin_push tid c x s = Inr s' \<Longrightarrow> rt (sp s') = rt (sp s)"
  using bin_step_frame(1) [OF bin_push_step] by blast

lemma bin_remove_rt: "bin_remove tid c x s = Inr s' \<Longrightarrow> rt (sp s') = rt (sp s)"
  using bin_step_frame(1) [OF bin_remove_step] by blast

lemma take_block_rt: "take_block x s = Inr (p, s') \<Longrightarrow> rt (sp s') = rt (sp s)"
  by (auto simp: take_block_def elim!: bindr_InrE split: if_splits)

lemma give_block_rt: "give_block p x s = Inr s' \<Longrightarrow> rt (sp s') = rt (sp s)"
  by (auto simp: give_block_def elim!: bindr_InrE split: if_splits)

lemma locked_initialize_rt: "locked_initialize_span os tid c sz s = Inr (p, s') \<Longrightarrow> rt (sp s') = rt (sp s)"
  by (auto simp: locked_initialize_span_def pthread_mutex_lock_def pthread_mutex_unlock_def
      elim!: bindr_InrE split: if_splits dest!: initialize_span_rt)

lemma locked_cache_rt: "locked_cache_span os tid x s = Inr s' \<Longrightarrow> rt (sp s') = rt (sp s)"
  by (auto simp: locked_cache_span_def pthread_mutex_lock_def pthread_mutex_unlock_def
      elim!: bindr_InrE split: if_splits dest!: cache_span_rt)

lemma cmalloc_rt:
  assumes "cmalloc os tid sz s = Inr (p, s')"
  shows "rt (sp s') = rt (sp s)"
proof -
  let ?c = "get_size_class_index (rt (sp s)) sz"
  let ?x = "thread_local_bin s tid (nat ?c)"
  consider "?c \<noteq> LARGE_CLASS_SIZE_INDEX" "?x \<noteq> NULL" | "?c \<noteq> LARGE_CLASS_SIZE_INDEX" "?x = NULL"
    | "?c = LARGE_CLASS_SIZE_INDEX" by blast
  then show ?thesis
  proof cases
    case 1
    with assms obtain s1 where
      1: "(if free_count (span_at s ?x) = 1 then bin_remove tid ?c ?x s else Inr s) = Inr s1" and
      2: "take_block ?x s1 = Inr (p, s')"
      by (auto simp: cmalloc_def Let_def elim!: bindr_InrE)
    have "rt (sp s1) = rt (sp s)" using 1 bin_remove_rt [of tid ?c ?x s s1] by (auto split: if_splits)
    with take_block_rt [OF 2] show ?thesis by simp
  next
    case 2
    with assms obtain x s1 s2 where "locked_initialize_span os tid ?c sz s = Inr (x, s1)"
      "bin_push tid ?c x s1 = Inr s2" "take_block x s2 = Inr (p, s')"
      by (auto simp: cmalloc_def Let_def elim!: bindr_InrE)
    from locked_initialize_rt [OF this(1)] bin_push_rt [OF this(2)] take_block_rt [OF this(3)]
    show ?thesis by simp
  next
    case 3
    with assms obtain x s1 where "locked_initialize_span os tid ?c sz s = Inr (x, s1)"
      "take_block x s1 = Inr (p, s')"
      by (auto simp: cmalloc_def Let_def elim!: bindr_InrE)
    from locked_initialize_rt [OF this(1)] take_block_rt [OF this(2)] show ?thesis by simp
  qed
qed

text \<open>The successful runs of \<open>cfree\<close>, step by step.\<close>

lemma cfree_runE:
  assumes "cfree os tid p s = Inr s'" "p \<noteq> NULL"
  obtains (large) x where "locked_cache_span os tid x s = Inr s'"
  | (keep) x c s1 where "s1 = s \<or> bin_push tid c x s = Inr s1" "give_block p x s1 = Inr s'"
  | (cache) x c s1 s2 s3 where "s1 = s \<or> bin_push tid c x s = Inr s1" "give_block p x s1 = Inr s2"
      "bin_remove tid c x s2 = Inr s3" "locked_cache_span os tid x s3 = Inr s'"
proof -
  from assms obtain x where run:
    "(let class_index = size_class_index (span_at s x)
      in if class_index = LARGE_CLASS_SIZE_INDEX then locked_cache_span os tid x s
         else bindr (if free_count (span_at s x) = 0 then bin_push tid class_index x s else Inr s) (\<lambda>s.
              bindr (give_block p x s) (\<lambda>s.
                if free_count (span_at s x) = block_count (span_at s x) then
                  bindr (bin_remove tid class_index x s) (\<lambda>s. locked_cache_span os tid x s)
                else Inr s))) = Inr s'"
    by (auto simp: cfree_def elim!: bindr_InrE split: if_splits)
  let ?c = "size_class_index (span_at s x)"
  show thesis
  proof (cases "?c = LARGE_CLASS_SIZE_INDEX")
    case True
    with run show thesis by (intro large) simp
  next
    case False
    with run obtain s1 s2 where
      1: "(if free_count (span_at s x) = 0 then bin_push tid ?c x s else Inr s) = Inr s1" and
      2: "give_block p x s1 = Inr s2" and
      3: "(if free_count (span_at s2 x) = block_count (span_at s2 x) then
             bindr (bin_remove tid ?c x s2) (\<lambda>s. locked_cache_span os tid x s) else Inr s2) = Inr s'"
      by (auto simp: Let_def elim!: bindr_InrE)
    have 4: "s1 = s \<or> bin_push tid ?c x s = Inr s1" using 1 by (auto split: if_splits)
    show thesis
    proof (cases "free_count (span_at s2 x) = block_count (span_at s2 x)")
      case True
      with 3 obtain s3 where "bin_remove tid ?c x s2 = Inr s3" "locked_cache_span os tid x s3 = Inr s'"
        by (auto elim!: bindr_InrE)
      with 2 4 show thesis by (intro cache)
    next
      case False
      with 2 3 4 show thesis by (intro keep) auto
    qed
  qed
qed

lemma cfree_rt:
  assumes "cfree os tid p s = Inr s'"
  shows "rt (sp s') = rt (sp s)"
proof (cases "p = NULL")
  case True
  with assms show ?thesis by (simp add: cfree_def)
next
  case False
  from assms False show ?thesis
  proof (cases rule: cfree_runE)
    case (large x)
    then show ?thesis by (rule locked_cache_rt)
  next
    case (keep x c s1)
    then show ?thesis using bin_push_rt [of tid c x s s1] give_block_rt [of p x s1 s'] by auto
  next
    case (cache x c s1 s2 s3)
    then show ?thesis
      using bin_push_rt [of tid c x s s1] give_block_rt [of p x s1 s2] bin_remove_rt [of tid c x s2 s3]
        locked_cache_rt [of os tid x s3 s'] by auto
  qed
qed

lemma cmalloc_keeps: "cmalloc os tid sz s = Inr (p, s') \<Longrightarrow> rt (sp s') = rt (sp s) \<and> lock s' = lock s"
  using cmalloc_rt cmalloc_frame by blast

lemma cfree_keeps: "cfree os tid p s = Inr s' \<Longrightarrow> rt (sp s') = rt (sp s) \<and> lock s' = lock s"
  using cfree_rt cfree_frame by blast

lemma ccalloc_keeps: "ccalloc os tid n sz s = Inr (p, s') \<Longrightarrow> rt (sp s') = rt (sp s) \<and> lock s' = lock s"
  by (auto simp: ccalloc_def Let_def elim!: bindr_InrE split: if_splits dest!: cmalloc_keeps)

lemma crealloc_keeps: "crealloc os tid q sz s = Inr (p, s') \<Longrightarrow> rt (sp s') = rt (sp s) \<and> lock s' = lock s"
  by (auto simp: crealloc_def Let_def elim!: bindr_InrE split: if_splits
      dest!: cmalloc_keeps cfree_keeps)

section \<open>The invariant\<close>

lemma step_keeps:
  assumes "step os s s'"
  shows "rt (sp s') = rt (sp s) \<and> lock s' = lock s"
  using assms
  by (cases rule: stepE)
     (auto dest: cmalloc_keeps cfree_keeps ccalloc_keeps crealloc_keeps)

lemma reachable_invariant:
  assumes "reachable os bytes0 s" "page_size_ok os"
  shows "runtime_ok (rt (sp s)) \<and> lock s = None"
  using assms(1)
proof (induction rule: reachable.induct)
  case start
  have "runtime_ok (cmalloc_runtime_init os runtime_zero)"
    using assms(2) by (rule runtime_init_ok) (simp add: runtime_zero_def)
  then show ?case by (simp add: cmalloc_constructor_def cm_zero_def span_state_zero_def Let_def)
next
  case (trans s s')
  then show ?case using step_keeps [OF trans.hyps(2)] by simp
qed

text \<open>In every state that a sequence of calls by any threads reaches from start-up, the lock
  is free and the class lookup is the first fit of \<open>SIZE_CLASSES\<close>.\<close>

theorem reachable_states_ok:
  assumes "reachable os bytes0 s" "page_size_ok os"
  shows "lock s = None \<and>
    get_size_class_index (rt (sp s)) sz =
      (if sz > MAX_SIZE_CLASS then LARGE_CLASS_SIZE_INDEX else int (first_fit sz))"
  using reachable_invariant [OF assms] get_size_class_index_value by blast

theorem reachable_states_ok_witness:
  "lock (cmalloc_constructor sample_os (cm_zero (\<lambda>_. 0))) = None \<and>
   get_size_class_index (rt (sp (cmalloc_constructor sample_os (cm_zero (\<lambda>_. 0))))) 40000 =
     LARGE_CLASS_SIZE_INDEX"
proof -
  have "page_size_ok sample_os" using sample_os_ok by (simp add: os_ok_def)
  from reachable_states_ok [OF reachable.start this, of "\<lambda>_. 0" 40000] show ?thesis
    by (simp add: MAX_SIZE_CLASS_def)
qed

end
