(* ===== verification/LargeSpans.thy ===== *)
theory LargeSpans
  imports Reachable
begin

text \<open>
  Requests of \<open>MAX_BINNED_PAGES\<close> pages or more: the span gets a mapping of its own, all of its
  pages are entered in the page map, and \<open>cmalloc\<close> returns its base. The same path does not
  look at the result of \<open>mmap\<close>.
\<close>

section \<open>The metadata state with one more mapping\<close>

lemma meta_inv_more_mappings:
  assumes "meta_inv A F m"
  shows "meta_inv A F (m\<lparr>mappings := d # mappings m\<rparr>)"
proof -
  let ?m = "m\<lparr>mappings := d # mappings m\<rparr>"
  have r: "room ?m = room m" "cur_of ?m = cur_of m" "end_of ?m = end_of m"
    by (simp_all add: room_def cur_of_def end_of_def)
  have "arena_inv ?m" using meta_invD(1) [OF assms] by (auto simp: arena_inv_def r)
  moreover have "blocks_inv (A \<union> free_blocks F) ?m"
    using meta_invD(2) [OF assms] by (fastforce simp: blocks_inv_def block_ok_def r)
  moreover have "trie_inv A ?m"
    using meta_invD(4) [OF assms] by (rule trie_inv_cong) (simp_all add: heap_simps)
  moreover have "counts_inv A ?m"
    using meta_invD(5) [OF assms] by (simp add: counts_inv_def heap_simps)
  moreover have "look ?m = look m" by (simp add: look_def heap_simps fun_eq_iff)
  then have "lists_inv A F ?m" using meta_invD(6) [OF assms] by (simp add: lists_inv_def)
  ultimately show ?thesis using meta_invD(3) [OF assms] by (simp add: meta_inv_def)
qed

lemma page_inv_more_mappings:
  "page_inv os E r m \<Longrightarrow> page_inv os E r (m\<lparr>mappings := d # mappings m\<rparr>)"
  unfolding page_inv_def using meta_inv_more_mappings by fastforce

lemma look_more_mappings: "look (m\<lparr>mappings := d\<rparr>) = look m"
  by (simp add: look_def heap_simps fun_eq_iff)

text \<open>The mapping lists an allocation of metadata may leave behind.\<close>

definition next_mappings :: "platform \<Rightarrow> mapping_list \<Rightarrow> mapping_list set" where
  "next_mappings os maps = {maps, (mmap os maps META_CHUNK_SIZE, META_CHUNK_SIZE) # maps}"

lemma alloc_mappings:
  assumes "meta_inv A F m" "size_ok sz" "cmalloc_alloc_metadata os m sz = Inr (p, m')"
  shows "mappings m' \<in> next_mappings os (mappings m)"
proof (cases "F sz")
  case Nil
  then have "cmalloc_alloc_metadata os m sz = bump_alloc os m sz"
    using free_head_hd [OF assms(1,2)] by (intro alloc_from_chunk free_list_map_ok [OF assms(1)]) simp
  with assms(3) show ?thesis using bump_alloc_mappings [of os m sz p m'] by (auto simp: next_mappings_def)
next
  case (Cons q qs)
  with alloc_pop(1) [OF assms(1,2) Cons, of os] alloc_pop(5) [OF assms(1,2) Cons] assms(3)
  show ?thesis by (simp add: next_mappings_def)
qed

text \<open>A descriptor for a new span.\<close>

lemma alloc_descriptor:
  assumes I: "page_inv os E r m" and rs: "reserve os (mappings m) (Suc k)"
  obtains x m' where "cmalloc_alloc_metadata os m sizeof_span = Inr (x, m')" "valid_ptr x"
    "page_inv os (insert (x, sizeof_span) E) r m'" "look m' r = look m r"
    "mappings m' \<in> next_mappings os (mappings m)" "reserve os (mappings m') k"
    "\<forall>z. (x, z) \<notin> E"
proof -
  obtain A F where J: "os_ok os" "meta_inv A F m" using I unfolding page_inv_def by blast
  have sz: "size_ok sizeof_span" "\<not> node_size sizeof_span" "sizeof_span \<noteq> sizeof_l1_node"
    using client_size by (simp_all add: sizeof_span_def)
  obtain x m' where x: "cmalloc_alloc_metadata os m sizeof_span = Inr (x, m')" "valid_ptr x"
    "reserve os (mappings m') k"
    using alloc_returns [OF J sz(1) rs] .
  have "x \<noteq> NULL" using x(2) by auto
  note p = page_inv_alloc [OF I sz x(1) this]
  show thesis by (rule that [OF x(1,2) p(1,2) alloc_mappings [OF J(2) sz(1) x(1)] x(3) p(3)])
qed

section \<open>The page count of a request\<close>

lemma round_up_pages:
  assumes "runtime_ok r"
  shows "push_bit (cmalloc_page_shift r) (drop_bit (cmalloc_page_shift r) (round_up_page r n)) =
    round_up_page r n"
proof -
  let ?k = "cmalloc_page_shift r"
  have "round_up_page r n = round_up_page r n AND NOT (mask ?k)"
    unfolding round_up_page_def page_size_minus_1 [OF assms]
    by (rule bit_word_eqI) (auto simp: bit_simps)
  moreover have "push_bit ?k (drop_bit ?k w) = w AND NOT (mask ?k)" for w :: u64
    by (rule bit_word_eqI) (auto simp: bit_simps)
  ultimately show ?thesis by simp
qed

section \<open>One mapping per large span\<close>

lemma sys_mmap_ok:
  "mmap os (mappings m) len = a \<Longrightarrow> a \<noteq> MAP_FAILED \<Longrightarrow>
     sys_mmap os m len = (a, m\<lparr>mappings := (a, len) # mappings m\<rparr>)"
  by (auto simp: sys_mmap_def Let_def)

lemma sys_mmap_failed: "mmap os (mappings m) len = MAP_FAILED \<Longrightarrow> sys_mmap os m len = (MAP_FAILED, m)"
  by (simp add: sys_mmap_def)

text \<open>\<open>alloc_span_large\<close> after its \<open>mmap\<close>, whatever that returned.\<close>

lemma large_after_mmap:
  assumes I: "page_inv os E (page_map s) (meta s)" and v: "x \<noteq> NULL"
    and rs: "reserve_with os Q (mappings (meta s)) (2 * unat pages)"
    and b: "span_base (span_heap s x) = a" "page_count (span_heap s x) = pages"
  defines "i \<equiv> round_down_page_index (rt s) a"
  assumes nowrap: "unat i + unat pages < 2 ^ 64"
  obtains m where "map_span_pages os s x = Inr (s\<lparr>meta := m\<rparr>)" "page_inv os E (page_map s) m"
    "\<forall>j. look m (page_map s) j =
       (if \<exists>k. in_range i (i + pages) k \<and> same_slot j k then x else look (meta s) (page_map s) j)"
    "Q (mappings m)"
proof -
  have "unat (i + pages) - unat i = unat pages"
    using nowrap by (simp add: unat_plus_if')
  then have "reserve_with os Q (mappings (meta s)) (0 + 2 * (unat (i + pages) - unat i))" using rs by simp
  then obtain m where m: "cmalloc_map_range os (meta s) (page_map s) x i (i + pages) = Inr m"
    "reserve_with os Q (mappings m) 0"
    using page_index.put_range_returns [OF I v] by blast
  have "map_span_pages os s x = Inr (s\<lparr>meta := m\<rparr>)"
    using m(1) b by (simp add: map_span_pages_def i_def Let_def)
  moreover note page_index.put_range_law [OF I v m(1)]
  ultimately show thesis using m(2) by (intro that) auto
qed

text \<open>A fresh large span has one block, at its base.\<close>

lemma init_large_span:
  assumes "sz \<noteq> 0"
  obtains d where "init_blocks (describe_span LARGE_CLASS_SIZE_INDEX sz e) = Inr d"
    "same_descr (describe_span LARGE_CLASS_SIZE_INDEX sz e) d" "blocks_ok d" "free_set d = {0}"
proof -
  let ?e = "describe_span LARGE_CLASS_SIZE_INDEX sz e"
  have c: "block_count ?e = 1" "free_count ?e = 1" by (simp_all add: describe_span_def Let_def)
  obtain d where "init_blocks ?e = Inr d" "same_descr ?e d" "free_set d = {..<unat (block_count ?e)}"
    "blocks_ok d"
    by (rule init_blocks_all_free [of ?e]) (simp_all add: c MAX_SPAN_BLOCK_COUNT_def)
  with c show thesis by (intro that [of d]) auto
qed

lemma describe_large_fields:
  "span_base (describe_span LARGE_CLASS_SIZE_INDEX sz e) = span_base e"
  "page_count (describe_span LARGE_CLASS_SIZE_INDEX sz e) = page_count e"
  "block_size (describe_span LARGE_CLASS_SIZE_INDEX sz e) = sz"
  "size_class_index (describe_span LARGE_CLASS_SIZE_INDEX sz e) = LARGE_CLASS_SIZE_INDEX"
  by (simp_all add: describe_span_def Let_def)

text \<open>
  The whole path, for either outcome \<open>a\<close> of \<open>mmap\<close>.
\<close>

lemma cmalloc_large_path:
  assumes cls: "sz > MAX_SIZE_CLASS" and lk: "lock s = None"
    and I: "page_inv os E (page_map (sp s)) (meta (sp s))"
    and pages: "pages = drop_bit (cmalloc_page_shift (rt (sp s))) (round_up_page (rt (sp s)) sz)"
      "MAX_BINNED_PAGES \<le> pages"
    and x: "cmalloc_alloc_metadata os (meta (sp s)) sizeof_span = Inr (x, m1)" "valid_ptr x"
      "page_inv os E1 (page_map (sp s)) m1"
    and mm: "sys_mmap os m1 (push_bit (cmalloc_page_shift (rt (sp s))) pages) = (a, m2)"
      "page_inv os E1 (page_map (sp s)) m2"
    and rs: "reserve_with os Q (mappings m2) (2 * unat pages)"
  defines "i \<equiv> round_down_page_index (rt (sp s)) a"
  assumes nowrap: "unat i + unat pages < 2 ^ 64"
  obtains s' where "cmalloc os tid sz s = Inr (a, s')"
    "span_base (span_at s' x) = a" "block_size (span_at s' x) = sz" "page_count (span_at s' x) = pages"
    "size_class_index (span_at s' x) = LARGE_CLASS_SIZE_INDEX"
    "page_map (sp s') = page_map (sp s)" "rt (sp s') = rt (sp s)"
    "page_inv os E1 (page_map (sp s)) (meta (sp s'))"
    "\<forall>j. look (meta (sp s')) (page_map (sp s)) j =
       (if \<exists>k. in_range i (i + pages) k \<and> same_slot j k then x else look m2 (page_map (sp s)) j)"
    "Q (mappings (meta (sp s')))"
proof -
  let ?t = "upd_span ((sp s)\<lparr>meta := m2\<rparr>) x
      (\<lambda>d. d\<lparr>span_base := a, page_count := pages, is_initialized := False\<rparr>)"
  have xn: "x \<noteq> NULL" using x(2) by auto
  have pm: "page_map (sp s) \<noteq> NULL" using page_inv_valid [OF I] by auto
  have t: "page_map ?t = page_map (sp s)" "meta ?t = m2" "rt ?t = rt (sp s)"
    "span_base (span_heap ?t x) = a" "page_count (span_heap ?t x) = pages"
    by (simp_all add: upd_span_def)
  obtain m3 where m3: "map_span_pages os ?t x = Inr (?t\<lparr>meta := m3\<rparr>)"
    "page_inv os E1 (page_map (sp s)) m3"
    "\<forall>j. look m3 (page_map (sp s)) j =
       (if \<exists>k. in_range i (i + pages) k \<and> same_slot j k then x else look m2 (page_map (sp s)) j)"
    "Q (mappings m3)"
  proof -
    have p: "page_inv os E1 (page_map ?t) (meta ?t)" "reserve_with os Q (mappings (meta ?t)) (2 * unat pages)"
      "unat (round_down_page_index (rt ?t) a) + unat pages < 2 ^ 64"
      using mm(2) rs nowrap by (simp_all add: t i_def)
    show thesis
      by (rule large_after_mmap [OF p(1) xn p(2) t(4,5) p(3)]) (unfold t, rule that, unfold i_def, assumption+)
  qed
  have "alloc_span_large os (sp s) pages = Inr (x, ?t\<lparr>meta := m3\<rparr>)"
    using x(1,2) mm(1) m3(1) by (simp add: alloc_span_large_def alloc_meta_def mmap_pages_def Let_def)
  then have al: "alloc_span os (sp s) sz = Inr (x, ?t\<lparr>meta := m3\<rparr>)"
    using pm pages by (simp add: alloc_span_def Let_def)
  have "sz \<noteq> 0" using cls by auto
  then obtain d where d: "init_blocks (describe_span LARGE_CLASS_SIZE_INDEX sz (span_heap (?t\<lparr>meta := m3\<rparr>) x)) = Inr d"
    "same_descr (describe_span LARGE_CLASS_SIZE_INDEX sz (span_heap (?t\<lparr>meta := m3\<rparr>) x)) d"
    "blocks_ok d" "free_set d = {0}"
    by (rule init_large_span)
  let ?u = "upd_span (?t\<lparr>meta := m3\<rparr>) x (\<lambda>_. d)"
  have ini: "cmalloc_initialize_span os (sp s) LARGE_CLASS_SIZE_INDEX sz = Inr (x, ?u)"
    using al d(1) xn by (simp add: cmalloc_initialize_span_def)
  have df: "span_base d = a" "block_size d = sz" "page_count d = pages" "size_class_index d = LARGE_CLASS_SIZE_INDEX"
    using same_descr_fields [OF d(2)] by (simp_all add: describe_large_fields t)
  obtain d' where d': "allocate_block d = Inr (block_addr d 0, d')" "same_descr d d'"
  proof -
    have "free_set d \<noteq> {}" "Min (free_set d) = 0" using d(4) by simp_all
    then show thesis using allocate_block_takes_lowest [OF d(3)] that by metis
  qed
  note df' = same_descr_fields [OF d'(2)]
  have ad: "block_addr d 0 = a" by (simp add: block_addr_def df)
  let ?v = "set_span (s\<lparr>lock := None, sp := ?u\<rparr>) x (\<lambda>_. d')"
  have cl: "get_size_class_index (rt (sp s)) sz = LARGE_CLASS_SIZE_INDEX"
    using cls by (simp add: get_size_class_index_def)
  have "locked_initialize_span os tid LARGE_CLASS_SIZE_INDEX sz s = Inr (x, s\<lparr>lock := None, sp := ?u\<rparr>)"
    using lk ini by (simp add: locked_initialize_span_def pthread_mutex_lock_def pthread_mutex_unlock_def)
  moreover have "take_block x (s\<lparr>lock := None, sp := ?u\<rparr>) = Inr (a, ?v)"
    using x(2) d'(1) ad by (simp add: take_block_def upd_span_def)
  ultimately have "cmalloc os tid sz s = Inr (a, ?v)" using cl by (simp add: cmalloc_def)
  moreover have "meta (sp ?v) = m3" "page_map (sp ?v) = page_map (sp s)" "rt (sp ?v) = rt (sp s)"
    "span_at ?v x = d'"
    by (simp_all add: upd_span_def set_span_def)
  ultimately show thesis using m3 df df' by (intro that [of ?v]) simp_all
qed

end
