(* ===== verification/SpanFresh.thy ===== *)
theory SpanFresh
  imports SpanLayer
begin

text \<open>
  The steps by which \<open>alloc_span\<close> makes spans from new pages: a block of metadata, a data mapping,
  and a descriptor for a page range of that mapping. Each step keeps the page index.
\<close>

section \<open>Metadata and mappings\<close>

lemma index_inv_alloc_meta:
  assumes I: "index_inv os E S s" and sz: "size_ok sz" "\<not> node_size sz" "sz \<noteq> sizeof_l1_node"
    and run: "alloc_meta os s sz = Inr (p, s1)"
  obtains m where "s1 = s\<lparr>meta := m\<rparr>" "index_inv os (insert (p, sz) E) S s1" "p \<notin> S" "valid_ptr p"
    "\<forall>z. (p, z) \<notin> E"
proof -
  note D = index_invD [OF I]
  obtain m where m: "s1 = s\<lparr>meta := m\<rparr>" "valid_ptr p" "page_inv os (insert (p, sz) E) (page_map s) m"
    "look m (page_map s) = look (meta s) (page_map s)" "\<forall>z. (p, z) \<notin> E"
    by (rule alloc_meta_law [OF D(1) sz run])
  have "placed (rt s) (insert (p, sz) E) (span_heap s x)" if "x \<in> S" for x
    using D(3) [OF that] by (rule placed_mono) blast
  then have "index_inv os (insert (p, sz) E) S s1"
    using I m(3) unfolding index_inv_def by (simp add: m(1,4))
  moreover have "p \<notin> S" using m(5) D(2) by blast
  ultimately show thesis using m by (intro that) blast+
qed

text \<open>The pages of a range of a mapping that no span has.\<close>

definition unused_pages :: "ptr set \<Rightarrow> span_state \<Rightarrow> nat set \<Rightarrow> bool" where
  "unused_pages S s J \<longleftrightarrow> (\<forall>y \<in> S. span_pages (rt s) (span_heap s y) \<inter> J = {})"

lemma index_inv_mmap:
  assumes I: "index_inv os E S s" and R: "runtime_ok (rt s)" "cmalloc_page_size (rt s) = sysconf_pagesize os"
    and run: "mmap_pages os s n = (a, s1)" and a: "a \<noteq> MAP_FAILED"
    and n: "unat n * 2 ^ cmalloc_page_shift (rt s) < 2 ^ 64"
      "unat DATA_CHUNK_SIZE \<le> unat n * 2 ^ cmalloc_page_shift (rt s)"
  defines "len \<equiv> push_bit (cmalloc_page_shift (rt s)) n"
  obtains m where "s1 = s\<lparr>meta := m\<rparr>" "index_inv os (insert (a, len) E) S s1"
    "unat len = unat n * 2 ^ cmalloc_page_shift (rt s)" "data_block (a, len)"
    "2 ^ cmalloc_page_shift (rt s) dvd unat a" "unat a + unat len \<le> 2 ^ 47"
    "unused_pages S s1 {unat a div 2 ^ cmalloc_page_shift (rt s) ..<
       unat a div 2 ^ cmalloc_page_shift (rt s) + unat n}"
    "\<forall>b \<in> E. block_bytes (a, len) \<inter> block_bytes b = {}"
proof -
  let ?k = "cmalloc_page_shift (rt s)"
  note D = index_invD [OF I]
  obtain m where m: "sys_mmap os (meta s) len = (a, m)" "s1 = s\<lparr>meta := m\<rparr>"
    using run by (auto simp: mmap_pages_def len_def Let_def split: prod.splits)
  have l: "unat len = unat n * 2 ^ ?k"
    unfolding len_def unsigned_push_bit_eq using n(1)
    by (simp add: push_bit_eq_mult take_bit_nat_eq_self_iff)
  then have l2: "unat DATA_CHUNK_SIZE \<le> unat len" using n(2) by simp
  then have big: "4194304 < unat len" by (simp add: DATA_CHUNK_SIZE_def)
  note pd = page_inv_data_mapping [OF D(1) m(1) a big]
  have al: "2 ^ ?k dvd unat a" using pd(5) R(2) unat_page_size [OF R(1)] by simp
  have "placed (rt s) (insert (a, len) E) (span_heap s x)" if "x \<in> S" for x
    using D(3) [OF that] by (rule placed_mono) blast
  then have I1: "index_inv os (insert (a, len) E) S s1"
    using I pd(1,2) unfolding index_inv_def by (simp add: m(2))
  have "span_pages (rt s) (span_heap s y) \<inter> {unat a div 2 ^ ?k ..< unat a div 2 ^ ?k + unat n} = {}"
    if y: "y \<in> S" for y
  proof -
    obtain b where b: "b \<in> E" "span_bytes (rt s) (span_heap s y) \<subseteq> block_bytes b"
      "2 ^ ?k dvd unat (span_base (span_heap s y))"
      using D(3) [OF y] by (auto simp: placed_def)
    have f: False if j: "j \<in> span_pages (rt s) (span_heap s y)"
      "j \<in> {unat a div 2 ^ ?k ..< unat a div 2 ^ ?k + unat n}" for j
    proof -
      have "j * 2 ^ ?k \<in> span_bytes (rt s) (span_heap s y)"
        using span_bytes_page [OF b(3)] j(1) by simp
      moreover have "j * 2 ^ ?k \<in> block_bytes (a, len)"
        using page_of_byte [OF al, of "j * 2 ^ ?k" "unat n"] j(2)
        by (simp add: block_bytes_def bytes_def l)
      ultimately show False using pd(3) b(1,2) by blast
    qed
    then show ?thesis by blast
  qed
  then have "unused_pages S s1 {unat a div 2 ^ ?k ..< unat a div 2 ^ ?k + unat n}"
    by (simp add: unused_pages_def m(2))
  then show thesis
    using m(2) I1 l l2 al pd(3,4) by (intro that) (auto simp: data_block_def)
qed

section \<open>Entering a span\<close>

lemma enter_span_law:
  assumes I: "index_inv os E S s" and R: "runtime_ok (rt s)"
    and x: "(x, sizeof_span) \<in> E" "x \<notin> S"
    and pl: "placed (rt s) E (f (span_heap s x))"
    and un: "unused_pages S s (span_pages (rt s) (f (span_heap s x)))"
    and run: "map_span_pages os (upd_span s x f) x = Inr s1"
  obtains m where "s1 = (upd_span s x f)\<lparr>meta := m\<rparr>" "index_inv os E (insert x S) s1"
proof -
  note D = index_invD [OF I]
  let ?s = "upd_span s x f"
  have u: "page_map ?s = page_map s" "meta ?s = meta s" "rt ?s = rt s"
    "span_heap ?s x = f (span_heap s x)" "y \<noteq> x \<Longrightarrow> span_heap ?s y = span_heap s y" for y
    by (simp_all add: upd_span_def)
  have xn: "x \<noteq> NULL" using page_inv_block(1) [OF D(1) x(1)] by auto
  have P: "page_inv os E (page_map ?s) (meta ?s)" using D(1) by (simp add: u)
  have le: "unat (span_base (span_heap ?s x)) div 2 ^ cmalloc_page_shift (rt ?s)
      + unat (page_count (span_heap ?s x)) \<le> 2 ^ 35"
    using placed_bounds(2) [OF D(1) pl R] by (simp add: u)
  obtain m where m: "s1 = ?s\<lparr>meta := m\<rparr>" "page_inv os E (page_map ?s) m"
    "\<And>j. unat j < 2 ^ 35 \<Longrightarrow> look m (page_map ?s) j =
       (if unat j \<in> span_pages (rt ?s) (span_heap ?s x) then x else look (meta ?s) (page_map ?s) j)"
    using map_span_pages_law [OF P xn le run] by blast
  have h: "span_heap s1 y = (if y = x then f (span_heap s x) else span_heap s y)" for y
    by (simp add: m(1) u)
  have hy: "span_heap s1 y = span_heap s y" if "y \<in> S" for y
    using that x(2) by (auto simp: h)
  have "index_inv os E (insert x S) s1"
  proof (rule index_inv_add [OF I R])
    show "page_map s1 = page_map s" "rt s1 = rt s" by (simp_all add: m(1) u)
    show "page_inv os E (page_map s) (meta s1)" using m(2) by (simp add: m(1) u)
    show "placed (rt s) E (span_heap s1 x)" using pl by (simp add: h)
    fix y assume y: "y \<in> S"
    show "placed (rt s) E (span_heap s1 y)" using D(3) [OF y] by (simp add: hy [OF y])
    show "span_pages (rt s) (span_heap s1 x) \<inter> span_pages (rt s) (span_heap s1 y) = {}"
      using un y x(2) by (auto simp: unused_pages_def h)
  next
    fix j :: u64 assume "unat j < 2 ^ 35"
    from m(3) [OF this] show "look (meta s1) (page_map s) j =
        (if unat j \<in> span_pages (rt s) (span_heap s1 x) then x else look (meta s) (page_map s) j)"
      by (simp add: m(1) u)
  qed (use x hy in auto)
  with m(1) show thesis by (intro that)
qed

lemma unused_pages_cong:
  assumes "unused_pages S s J" "rt s' = rt s" "\<And>y. y \<in> S \<Longrightarrow> same_area (span_heap s y) (span_heap s' y)"
  shows "unused_pages S s' J"
  using assms(1) same_area_reads(1) [OF assms(3)] by (simp add: unused_pages_def assms(2))

lemma unused_pages_mono: "unused_pages S s J \<Longrightarrow> J' \<subseteq> J \<Longrightarrow> unused_pages S s J'"
  unfolding unused_pages_def by blast

end
