(* ===== verification/SpanSplit.thy ===== *)
theory SpanSplit
  imports SpanLayer
begin

text \<open>
  \<open>alloc_span\<close> cutting the best fit: the first pages go to the caller, a new descriptor takes the
  rest, and the two ranges together are the pages of the span that was cut.
\<close>

section \<open>The state before and after the pages are entered\<close>

definition split_linked :: "span_state \<Rightarrow> ptr \<Rightarrow> ptr \<Rightarrow> u64 \<Rightarrow> u64 \<Rightarrow> span_state" where
  "split_linked s b x pages rest =
     set_bin
       (upd_span s x (\<lambda>d. d\<lparr>
          span_base := span_base (span_heap s b) + push_bit (cmalloc_page_shift (rt s)) pages,
          page_count := rest, is_initialized := False, phys_next := phys_next (span_heap s b),
          phys_prev := b, next_in_uninitialized_bin := uninitilized_span_bin s (unat rest)\<rparr>))
       rest x"

definition split_done :: "span_state \<Rightarrow> ptr \<Rightarrow> ptr \<Rightarrow> u64 \<Rightarrow> span_state" where
  "split_done s b x rest =
     (let s = mark_non_empty s rest;
          nxt = phys_next (span_heap s b);
          s = (if nxt \<noteq> NULL then upd_span s nxt (\<lambda>d. d\<lparr>phys_prev := x\<rparr>) else s)
      in upd_span s b (\<lambda>d. d\<lparr>phys_next := x\<rparr>))"

lemma alloc_span_split_run:
  assumes "alloc_span_split os s pages best = Inr (r, s')"
    and "uninitilized_span_bin s (unat best) = b"
  obtains x s2 s5 where
    "alloc_meta os (upd_span (pop_bin s best b) b (\<lambda>d. d\<lparr>page_count := pages\<rparr>)) sizeof_span = Inr (x, s2)"
    "map_span_pages os (split_linked s2 b x pages (best - pages)) x = Inr s5"
    "r = b" "s' = split_done s5 b x (best - pages)"
  using assms
  by (auto simp: alloc_span_split_def pop_bin_def split_linked_def split_done_def Let_def
      elim!: bindr_InrE split: if_splits)

lemma split_linked_reads:
  "uninitilized_span_bin (split_linked s b x pages rest) = (uninitilized_span_bin s)(unat rest := x)"
  "non_empty_bitmap (split_linked s b x pages rest) = non_empty_bitmap s"
  "meta (split_linked s b x pages rest) = meta s" "rt (split_linked s b x pages rest) = rt s"
  "page_map (split_linked s b x pages rest) = page_map s"
  "data_arena (split_linked s b x pages rest) = data_arena s"
  "y \<noteq> x \<Longrightarrow> span_heap (split_linked s b x pages rest) y = span_heap s y"
  "span_base (span_heap (split_linked s b x pages rest) x) =
     span_base (span_heap s b) + push_bit (cmalloc_page_shift (rt s)) pages"
  "page_count (span_heap (split_linked s b x pages rest) x) = rest"
  "next_in_uninitialized_bin (span_heap (split_linked s b x pages rest) x) =
     uninitilized_span_bin s (unat rest)"
  by (simp_all add: split_linked_def set_bin_def upd_span_def)

lemma split_done_reads:
  "uninitilized_span_bin (split_done s b x rest) = uninitilized_span_bin s"
  "rest < MAX_BINNED_PAGES \<Longrightarrow>
     bin_bits (non_empty_bitmap (split_done s b x rest)) = insert (unat rest) (bin_bits (non_empty_bitmap s))"
  "meta (split_done s b x rest) = meta s" "rt (split_done s b x rest) = rt s"
  "page_map (split_done s b x rest) = page_map s" "data_arena (split_done s b x rest) = data_arena s"
  "same_user (span_heap s y) (span_heap (split_done s b x rest) y)"
  by (auto simp: split_done_def mark_non_empty_def upd_span_def bin_bits_mark Let_def
      intro: same_user_trans)

section \<open>The two parts\<close>

lemma split_base:
  fixes b :: ptr and best pages :: u64
  assumes "2 ^ k dvd unat b" "unat b + unat best * 2 ^ k \<le> 2 ^ 47" "pages < best"
  shows "unat (b + push_bit k pages) = unat b + unat pages * 2 ^ k"
    "unat (b + push_bit k pages) div 2 ^ k = unat b div 2 ^ k + unat pages"
    "2 ^ k dvd unat (b + push_bit k pages)" "unat (best - pages) = unat best - unat pages"
proof -
  have p: "unat pages < unat best" using assms(3) by (simp add: word_less_nat_alt)
  then have le: "unat pages * 2 ^ k \<le> unat best * 2 ^ k" by simp
  have "unat b + unat pages * 2 ^ k \<le> unat b + unat best * 2 ^ k" using le by (rule add_left_mono)
  also note assms(2)
  also have "(2 :: nat) ^ 47 < 2 ^ 64" by simp
  finally have small: "unat b + unat pages * 2 ^ k < 2 ^ 64" .
  have "unat (push_bit k pages) = unat pages * 2 ^ k"
    unfolding unsigned_push_bit_eq using small
    by (simp add: push_bit_eq_mult take_bit_nat_eq_self_iff)
  then show u: "unat (b + push_bit k pages) = unat b + unat pages * 2 ^ k"
    using small by (simp add: unat_plus_if')
  show "unat (b + push_bit k pages) div 2 ^ k = unat b div 2 ^ k + unat pages"
    unfolding u by simp
  show "2 ^ k dvd unat (b + push_bit k pages)" unfolding u using assms(1) by simp
  show "unat (best - pages) = unat best - unat pages"
    using p by (simp add: unat_sub_if_size)
qed

lemma split_areas:
  assumes P: "placed r E d" "page_inv os E pm m" "runtime_ok r" and lt: "0 < pages" "pages < page_count d"
    and b: "span_base b = span_base d" "page_count b = pages"
    and x: "span_base x = span_base d + push_bit (cmalloc_page_shift r) pages"
      "page_count x = page_count d - pages"
  shows "placed r E b" "placed r E x" "span_pages r b \<inter> span_pages r x = {}"
    "span_pages r b \<union> span_pages r x = span_pages r d"
proof -
  let ?k = "cmalloc_page_shift r"
  have al: "2 ^ ?k dvd unat (span_base d)" using P(1) by (simp add: placed_def)
  note sb = split_base [OF al placed_bounds(1) [OF P(2,1,3)] lt(2)]
  have n: "unat pages < unat (page_count d)" "0 < unat pages"
    using lt by (simp_all add: word_less_nat_alt)
  show u: "span_pages r b \<union> span_pages r x = span_pages r d"
    using n by (auto simp: span_pages_def b x sb(2,4))
  show "span_pages r b \<inter> span_pages r x = {}"
    using n by (auto simp: span_pages_def b x sb(2))
  have al': "2 ^ ?k dvd unat (span_base b)" "2 ^ ?k dvd unat (span_base x)"
    using al sb(3) by (simp_all add: b x)
  have "span_bytes r b \<subseteq> span_bytes r d" "span_bytes r x \<subseteq> span_bytes r d"
    using span_bytes_page [OF al] span_bytes_page [OF al'(1)] span_bytes_page [OF al'(2)] u by blast+
  then show "placed r E b" "placed r E x"
    using P(1) al' n sb(4) unfolding placed_def by (auto simp: b x)
qed

section \<open>The path\<close>

lemma alloc_span_split_law:
  assumes I: "span_inv os E K U s" and K: "K (unat best) = b # xs"
    and lt: "0 < pages" "pages < best" and run: "alloc_span_split os s pages best = Inr (r, s')"
  obtains E' K' where "r = b" "span_inv os E' K' (insert b U) s'" "E \<subseteq> E'" "b \<notin> U"
    "page_count (span_heap s' b) = pages" "rt s' = rt s" "page_map s' = page_map s"
    "\<And>y. y \<in> U \<Longrightarrow> same_user (span_heap s y) (span_heap s' y)"
proof -
  note D = span_invD [OF I]
  note pb = pop_bin_inv [OF I K]
  let ?rest = "best - pages" and ?xs = "K(unat best := xs)"
  let ?s1 = "upd_span (pop_bin s best b) b (\<lambda>d. d\<lparr>page_count := pages\<rparr>)"
  obtain x s2 s5 where run2: "alloc_meta os ?s1 sizeof_span = Inr (x, s2)"
    "map_span_pages os (split_linked s2 b x pages ?rest) x = Inr s5"
    "r = b" "s' = split_done s5 b x ?rest"
    by (rule alloc_span_split_run [OF run pb(4)])
  have s1: "meta ?s1 = meta s" "page_map ?s1 = page_map s" "rt ?s1 = rt s"
    by (simp_all add: upd_span_def pop_bin_reads)
  note P = index_invD(1) [OF D(3)]
  obtain m2 where m2: "s2 = ?s1\<lparr>meta := m2\<rparr>" "valid_ptr x"
    "page_inv os (insert (x, sizeof_span) E) (page_map s) m2"
    "look m2 (page_map s) = look (meta s) (page_map s)" "\<forall>z. (x, z) \<notin> E"
    using alloc_meta_law [OF _ descriptor_size run2(1), unfolded s1, OF P] by blast
  let ?s4 = "split_linked s2 b x pages ?rest" and ?E = "insert (x, sizeof_span) E"
  let ?S = "U \<union> cached_spans K"
  have xS: "x \<notin> ?S" using m2(5) index_invD(2) [OF D(3)] by blast
  have bS: "b \<in> ?S" using pb(3) by blast
  then have bx: "b \<noteq> x" using xS by blast
  have h2: "span_heap s2 y = (if y = b then (span_heap s b)\<lparr>page_count := pages\<rparr> else span_heap s y)" for y
    by (simp add: m2(1) upd_span_def pop_bin_reads)
  have rt2: "rt s2 = rt s" "page_map s2 = page_map s"
    by (simp_all add: m2(1) upd_span_def pop_bin_reads)
  have s4: "rt ?s4 = rt s" "page_map ?s4 = page_map s" "meta ?s4 = m2"
    by (simp_all add: split_linked_reads rt2) (simp add: m2(1))
  have pcb: "page_count (span_heap s b) = best" by (rule pb(6))
  have plb: "placed (rt s) ?E (span_heap s b)"
    using index_invD(3) [OF D(3) bS] by (rule placed_mono) blast
  have h4: "span_base (span_heap ?s4 b) = span_base (span_heap s b)" "page_count (span_heap ?s4 b) = pages"
    "span_base (span_heap ?s4 x) = span_base (span_heap s b) + push_bit (cmalloc_page_shift (rt s)) pages"
    "page_count (span_heap ?s4 x) = page_count (span_heap s b) - pages"
    using bx by (simp_all add: split_linked_reads h2 rt2 pcb)
  note sa = split_areas [OF plb m2(3) D(1) lt(1) lt(2) [folded pcb] h4]
  have le: "unat (span_base (span_heap ?s4 x)) div 2 ^ cmalloc_page_shift (rt ?s4)
      + unat (page_count (span_heap ?s4 x)) \<le> 2 ^ 35"
    using placed_bounds(2) [OF m2(3) sa(2) D(1)] by (simp add: split_linked_reads rt2)
  have P4: "page_inv os ?E (page_map ?s4) (meta ?s4)"
    using m2(3) by (simp add: s4)
  have xn: "x \<noteq> NULL" using m2(2) by auto
  obtain m5 where m5: "s5 = ?s4\<lparr>meta := m5\<rparr>" "page_inv os ?E (page_map ?s4) m5"
    "\<And>j. unat j < 2 ^ 35 \<Longrightarrow> look m5 (page_map ?s4) j =
       (if unat j \<in> span_pages (rt ?s4) (span_heap ?s4 x) then x else look (meta ?s4) (page_map ?s4) j)"
    using map_span_pages_law [OF P4 xn le run2(2)] by blast
  have h': "same_user (span_heap ?s4 y) (span_heap s' y)" for y
    using split_done_reads(7) [of s5 y b x ?rest] by (simp add: run2(4) m5(1))
  note ar = same_area_reads [OF same_user_area [OF h']]
  have hy: "span_heap ?s4 y = span_heap s y" if "y \<in> ?S" "y \<noteq> b" for y
    using that xS by (cases "y = x") (simp_all add: split_linked_reads h2)
  have s': "rt s' = rt s" "page_map s' = page_map s" "meta s' = m5"
    by (simp_all add: run2(4) split_done_reads m5(1) split_linked_reads rt2)
  have index: "index_inv os ?E (insert x ?S) s'"
  proof (rule index_inv_add [OF D(3,1) s'(2,1)])
    show "page_inv os ?E (page_map s) (meta s')" using m5(2) by (simp add: s' split_linked_reads rt2)
    show "placed (rt s) ?E (span_heap s' x)" using sa(2) by (simp add: ar)
    fix y assume y: "y \<in> ?S"
    note yx = index_invD(4) [OF D(3) y bS]
    show "placed (rt s) ?E (span_heap s' y)"
      using index_invD(3) [OF D(3) y] sa(1) hy [OF y] by (cases "y = b") (auto simp: ar intro: placed_mono)
    show "span_pages (rt s) (span_heap s' y) \<subseteq> span_pages (rt s) (span_heap s y)"
      using sa(4) hy [OF y] by (cases "y = b") (auto simp: ar)
    show "span_pages (rt s) (span_heap s' x) \<inter> span_pages (rt s) (span_heap s' y) = {}"
      using sa(3,4) hy [OF y] yx by (cases "y = b") (auto simp: ar)
    show "span_pages (rt s) (span_heap s y) \<subseteq>
        span_pages (rt s) (span_heap s' y) \<union> span_pages (rt s) (span_heap s' x)"
      using sa(4) hy [OF y] by (cases "y = b") (auto simp: ar)
  next
    fix j :: u64 assume "unat j < 2 ^ 35"
    from m5(3) [OF this] show "look (meta s') (page_map s) j =
        (if unat j \<in> span_pages (rt s) (span_heap s' x) then x else look (meta s) (page_map s) j)"
      by (simp only: s' ar s4 m2(4))
  qed (use xS in auto)
  have unb: "unat best < unat MAX_BINNED_PAGES" using bins_invD(4) [OF D(4)] K by simp
  have n: "unat pages < unat best" "0 < unat pages" using lt by (simp_all add: word_less_nat_alt)
  have ur: "unat ?rest = unat best - unat pages"
    using n(1) by (simp add: unat_sub_if_size)
  have rlt: "unat ?rest < unat MAX_BINNED_PAGES" "unat ?rest \<noteq> unat best" using unb n ur by auto
  have rw: "?rest < MAX_BINNED_PAGES" using rlt(1) by (simp add: word_less_nat_alt)
  have c: "cached_spans ?xs = cached_spans K - {b}" by (rule cached_pop [OF D(4) K])
  have B2: "bins_inv ?xs s2"
    by (rule bins_inv_pop [OF D(4) K])
       (simp_all add: h2, simp_all add: m2(1) upd_span_def pop_bin_reads)
  have B': "bins_inv (?xs(unat ?rest := x # ?xs (unat ?rest))) s'"
  proof (rule bins_inv_push [OF B2 _ xn rlt(1)])
    show "x \<notin> cached_spans ?xs" using xS c by blast
    show "uninitilized_span_bin s' = (uninitilized_span_bin s2)(unat ?rest := x)"
      by (simp add: run2(4) split_done_reads m5(1) split_linked_reads)
    show "bin_bits (non_empty_bitmap s') = insert (unat ?rest) (bin_bits (non_empty_bitmap s2))"
      using split_done_reads(2) [OF rw] by (simp add: run2(4) m5(1) split_linked_reads)
    show "next_in_uninitialized_bin (span_heap s' x) = uninitilized_span_bin s2 (unat ?rest)"
      "unat (page_count (span_heap s' x)) = unat ?rest"
      using same_user_reads(2,3) [OF h'] by (simp_all add: split_linked_reads)
    fix y assume "y \<in> cached_spans ?xs"
    then have "y \<noteq> x" using c xS by blast
    then show "next_in_uninitialized_bin (span_heap s' y) = next_in_uninitialized_bin (span_heap s2 y) \<and>
        page_count (span_heap s' y) = page_count (span_heap s2 y)"
      using same_user_reads(2,3) [OF h', of y] by (simp add: split_linked_reads)
  qed
  have c': "cached_spans (?xs(unat ?rest := x # ?xs (unat ?rest))) = insert x (cached_spans K - {b})"
    unfolding cached_push c ..
  have e: "insert b U \<union> insert x (cached_spans K - {b}) = insert x ?S" using bS by blast
  have "insert b U \<inter> insert x (cached_spans K - {b}) = {}" using D(5) xS bx by blast
  moreover have user: "same_user (span_heap s y) (span_heap s' y)" if "y \<in> U" for y
  proof -
    have "y \<noteq> b" using that pb(2) by blast
    then show ?thesis using h' [of y] hy [of y] that by simp
  qed
  moreover have pb': "page_count (span_heap s' b) = pages"
    using same_user_reads(2) [OF h', of b] h4(2) by simp
  moreover have "whole_mappings ?E (insert b U) s'"
  proof (rule whole_mappings_insert)
    show "whole_mappings ?E U s'"
      by (rule whole_mappings_cong [OF D(6)]) (auto simp: s' intro: same_user_area user)
    show "page_count (span_heap s' b) < MAX_BINNED_PAGES"
      using n(1) unb by (simp add: pb' word_less_nat_alt)
  qed
  ultimately have "span_inv os ?E (?xs(unat ?rest := x # ?xs (unat ?rest))) (insert b U) s'"
    using D(1,2) index B' unfolding span_inv_def c' e s' by simp
  then show thesis using run2(3) s'(1,2) pb(2) pb' user by (intro that) auto
qed

end
