(* ===== verification/SpanChunk.thy ===== *)
theory SpanChunk
  imports SpanFresh SpanSplit
begin

text \<open>
  \<open>alloc_span\<close> from a new chunk: one descriptor for the pages handed out and, when the chunk is
  larger than the request, one for the rest, which goes into its bin.
\<close>

section \<open>The path in steps\<close>

definition chunk_page_count :: "runtime \<Rightarrow> u64 \<Rightarrow> u64" where
  "chunk_page_count r pages =
     (let c = DATA_CHUNK_PAGE_COUNT r in if pages > c then pages else c)"

definition fit_area :: "ptr \<Rightarrow> u64 \<Rightarrow> span_t \<Rightarrow> span_t" where
  "fit_area a pages d = d\<lparr>span_base := a, next_in_uninitialized_bin := NULL,
     page_count := pages, is_initialized := False\<rparr>"

definition rest_area :: "runtime \<Rightarrow> ptr \<Rightarrow> u64 \<Rightarrow> u64 \<Rightarrow> span_t \<Rightarrow> span_t" where
  "rest_area r a pages rest d = d\<lparr>span_base := a + push_bit (cmalloc_page_shift r) pages,
     page_count := rest, is_initialized := False\<rparr>"

definition fit_unlinked :: "span_state \<Rightarrow> ptr \<Rightarrow> span_state" where
  "fit_unlinked s fit = upd_span s fit (\<lambda>d. d\<lparr>phys_prev := NULL, phys_next := NULL\<rparr>)"

definition rest_binned :: "span_state \<Rightarrow> ptr \<Rightarrow> ptr \<Rightarrow> u64 \<Rightarrow> span_state" where
  "rest_binned s fit x rest =
     (let s = upd_span s fit (\<lambda>d. d\<lparr>phys_next := x\<rparr>);
          s = upd_span s x (\<lambda>d. d\<lparr>phys_prev := fit, phys_next := NULL,
                next_in_uninitialized_bin := uninitilized_span_bin s (unat rest)\<rparr>);
          s = set_bin s rest x
      in mark_non_empty s rest)"

lemma area_updates:
  "fit_area a pages = (\<lambda>d. d\<lparr>span_base := a, next_in_uninitialized_bin := NULL,
     page_count := pages, is_initialized := False\<rparr>)"
  "rest_area r a pages rest = (\<lambda>d. d\<lparr>span_base := a + push_bit (cmalloc_page_shift r) pages,
     page_count := rest, is_initialized := False\<rparr>)"
  by (simp_all add: fit_area_def rest_area_def fun_eq_iff)

lemma alloc_span_chunk_run:
  assumes "alloc_span_chunk os s pages = Inr (r, s')" "r \<noteq> NULL"
  obtains arena s1 a s2 fit s4 s6 where
    "alloc_meta os s sizeof_data_chunk = Inr (arena, s1)"
    "mmap_pages os (s1\<lparr>data_arena := arena\<rparr>) (chunk_page_count (rt s) pages) = (a, s2)"
    "a \<noteq> MAP_FAILED"
    "alloc_meta os (s2\<lparr>data_chunk_heap := (data_chunk_heap s2)(arena :=
        \<lparr>chunk_base = a, data_prev = data_arena s\<rparr>)\<rparr>) sizeof_span = Inr (fit, s4)"
    "map_span_pages os (upd_span s4 fit (fit_area a pages)) fit = Inr s6"
    "r = fit"
    "if 0 < chunk_page_count (rt s) pages - pages \<and>
        chunk_page_count (rt s) pages - pages < MAX_BINNED_PAGES
     then \<exists>x s8 s9. alloc_meta os (fit_unlinked s6 fit) sizeof_span = Inr (x, s8) \<and>
       map_span_pages os
         (upd_span s8 x (rest_area (rt s8) a pages (chunk_page_count (rt s) pages - pages))) x = Inr s9 \<and>
       s' = rest_binned s9 fit x (chunk_page_count (rt s) pages - pages)
     else s' = fit_unlinked s6 fit"
  using assms
  by (auto simp: alloc_span_chunk_def chunk_page_count_def area_updates
      fit_unlinked_def rest_binned_def Let_def elim!: bindr_InrE split: if_splits prod.splits)

section \<open>Its page counts\<close>

lemma chunk_pages_bounds:
  assumes "runtime_ok r" "pages < MAX_BINNED_PAGES"
  shows "unat pages \<le> unat (chunk_page_count r pages)" "unat (chunk_page_count r pages) \<le> 8192"
    "unat DATA_CHUNK_SIZE \<le> unat (chunk_page_count r pages) * 2 ^ cmalloc_page_shift r"
    "unat (chunk_page_count r pages) * 2 ^ cmalloc_page_shift r < 2 ^ 64"
proof -
  let ?k = "cmalloc_page_shift r" and ?c = "chunk_page_count r pages" and ?d = "DATA_CHUNK_PAGE_COUNT r"
  have k: "12 \<le> ?k" "?k \<le> 16" using page_shift_bounds [OF assms(1)] by simp_all
  have e: "(2 :: nat) ^ 25 = 2 ^ (25 - ?k) * 2 ^ ?k" using k by (simp flip: power_add)
  have "unat ?d = 2 ^ 25 div 2 ^ ?k"
    by (simp add: DATA_CHUNK_PAGE_COUNT_def unat_drop_bit DATA_CHUNK_SIZE_def)
  also have "\<dots> = 2 ^ (25 - ?k)" unfolding e by simp
  finally have d: "unat ?d = 2 ^ (25 - ?k)" .
  have d2: "unat ?d * 2 ^ ?k = unat DATA_CHUNK_SIZE"
    using k unfolding d by (simp add: DATA_CHUNK_SIZE_def flip: power_add)
  have "(2 :: nat) ^ (25 - ?k) \<le> 2 ^ 13" using k by (intro power_increasing) simp_all
  then have d3: "unat ?d \<le> 8192" by (simp add: d)
  have p: "unat pages \<le> 8192" using assms(2) by (simp add: word_less_nat_alt MAX_BINNED_PAGES_def)
  have c: "unat ?c = max (unat pages) (unat ?d)"
    by (auto simp: chunk_page_count_def Let_def word_less_nat_alt)
  show "unat pages \<le> unat ?c" by (simp add: c)
  show le: "unat ?c \<le> 8192" using p d3 by (simp add: c)
  have "unat ?d * 2 ^ ?k \<le> unat ?c * 2 ^ ?k" by (rule mult_le_mono1) (simp add: c)
  then show "unat DATA_CHUNK_SIZE \<le> unat ?c * 2 ^ ?k" using d2 by simp
  have "unat ?c * 2 ^ ?k \<le> 8192 * 2 ^ 16"
    using le k by (intro mult_le_mono power_increasing) simp_all
  then show "unat ?c * 2 ^ ?k < 2 ^ 64" by simp
qed

lemma mapping_placed:
  assumes al: "2 ^ cmalloc_page_shift r dvd unat (span_base d)"
    and n: "0 < unat (page_count d)"
    and b: "(a, len) \<in> E" "data_block (a, len)" "unat a \<le> unat (span_base d)"
      "unat (span_base d) + unat (page_count d) * 2 ^ cmalloc_page_shift r \<le> unat a + unat len"
  shows "placed r E d"
proof -
  have "span_bytes r d \<subseteq> block_bytes (a, len)"
    unfolding span_bytes_def block_bytes_def fst_conv snd_conv using b(3,4) by (rule bytes_subset)
  with al n b(1,2) show ?thesis unfolding placed_def by blast
qed

section \<open>The invariant\<close>

text \<open>The state after the pages of the first descriptor are entered.\<close>

lemma chunk_fit:
  assumes I: "index_inv os E S s" and R: "runtime_ok (rt s)" "cmalloc_page_size (rt s) = sysconf_pagesize os"
    and pages: "0 < pages" "pages < MAX_BINNED_PAGES"
    and r1: "alloc_meta os s sizeof_data_chunk = Inr (arena, s1)"
    and r2: "mmap_pages os (s1\<lparr>data_arena := arena\<rparr>) (chunk_page_count (rt s) pages) = (a, s2)"
    and a: "a \<noteq> MAP_FAILED"
    and r4: "alloc_meta os (s2\<lparr>data_chunk_heap := ch\<rparr>) sizeof_span = Inr (fit, s4)"
    and r6: "map_span_pages os (upd_span s4 fit (fit_area a pages)) fit = Inr s6"
  defines "c \<equiv> chunk_page_count (rt s) pages" and "k \<equiv> cmalloc_page_shift (rt s)"
  obtains E' len m where "index_inv os E' (insert fit S) s6" "E \<subseteq> E'" "fit \<notin> S"
    "s6 = (upd_span s fit (fit_area a pages))\<lparr>meta := m, data_arena := arena, data_chunk_heap := ch\<rparr>"
    "(a, len) \<in> E'" "data_block (a, len)" "unat len = unat c * 2 ^ k" "unat a + unat len \<le> 2 ^ 47"
    "2 ^ k dvd unat a" "unused_pages S s6 {unat a div 2 ^ k ..< unat a div 2 ^ k + unat c}"
proof -
  note cb = chunk_pages_bounds [OF R(1) pages(2), folded c_def k_def]
  obtain m1 where m1: "s1 = s\<lparr>meta := m1\<rparr>" "index_inv os (insert (arena, sizeof_data_chunk) E) S s1"
    by (rule index_inv_alloc_meta [OF I chunk_record_size r1])
  let ?s1 = "s1\<lparr>data_arena := arena\<rparr>"
  have I1: "index_inv os (insert (arena, sizeof_data_chunk) E) S ?s1"
    by (rule index_inv_cong [OF m1(2)]) (simp_all add: same_area_def)
  have rt1: "rt ?s1 = rt s" by (simp add: m1(1))
  let ?len = "push_bit k c"
  obtain m2 where m2: "s2 = ?s1\<lparr>meta := m2\<rparr>"
    "index_inv os (insert (a, ?len) (insert (arena, sizeof_data_chunk) E)) S s2"
    "unat ?len = unat c * 2 ^ k" "data_block (a, ?len)" "2 ^ k dvd unat a" "unat a + unat ?len \<le> 2 ^ 47"
    "unused_pages S s2 {unat a div 2 ^ k ..< unat a div 2 ^ k + unat c}"
    by (rule index_inv_mmap [OF I1, unfolded rt1, OF R r2 a cb(4) [unfolded c_def k_def]
          cb(3) [unfolded c_def k_def], folded c_def k_def])
  let ?s2 = "s2\<lparr>data_chunk_heap := ch\<rparr>" and ?E2 = "insert (a, ?len) (insert (arena, sizeof_data_chunk) E)"
  have I2: "index_inv os ?E2 S ?s2"
    by (rule index_inv_cong [OF m2(2)]) (simp_all add: same_area_def)
  obtain m4 where m4: "s4 = ?s2\<lparr>meta := m4\<rparr>" "index_inv os (insert (fit, sizeof_span) ?E2) S s4" "fit \<notin> S"
    by (rule index_inv_alloc_meta [OF I2 descriptor_size r4])
  have s4: "rt s4 = rt s" "span_heap s4 = span_heap s"
    by (simp_all add: m4(1) m2(1) m1(1))
  have f: "span_base (fit_area a pages d) = a" "page_count (fit_area a pages d) = pages" for d
    by (simp_all add: fit_area_def)
  have n: "0 < unat pages" using pages(1) by (simp add: word_less_nat_alt)
  have le: "unat pages * 2 ^ k \<le> unat c * 2 ^ k" using cb(1) by simp
  have pl: "placed (rt s4) (insert (fit, sizeof_span) ?E2) (fit_area a pages (span_heap s4 fit))"
    by (rule mapping_placed [where a = a and len = ?len])
       (use m2(3-5) n le in \<open>simp_all add: f s4(1) k_def [symmetric]\<close>)
  have un4: "unused_pages S s4 {unat a div 2 ^ k ..< unat a div 2 ^ k + unat c}"
    by (rule unused_pages_cong [OF m2(7)]) (simp_all add: m4(1) same_area_def)
  have "span_pages (rt s4) (fit_area a pages (span_heap s4 fit)) \<subseteq>
      {unat a div 2 ^ k ..< unat a div 2 ^ k + unat c}"
    using cb(1) by (auto simp: span_pages_def f s4(1) k_def)
  then have un: "unused_pages S s4 (span_pages (rt s4) (fit_area a pages (span_heap s4 fit)))"
    by (rule unused_pages_mono [OF un4])
  obtain m6 where m6: "s6 = (upd_span s4 fit (fit_area a pages))\<lparr>meta := m6\<rparr>"
    "index_inv os (insert (fit, sizeof_span) ?E2) (insert fit S) s6"
    by (rule enter_span_law [OF m4(2) _ _ m4(3) pl un r6]) (use R s4 in auto)
  show thesis
  proof (rule that [OF m6(2) _ m4(3) _ _ m2(4,3,6,5)])
    show "s6 = (upd_span s fit (fit_area a pages))\<lparr>meta := m6, data_arena := arena, data_chunk_heap := ch\<rparr>"
      by (simp add: m6(1) m4(1) m2(1) m1(1) upd_span_def)
    show "unused_pages S s6 {unat a div 2 ^ k ..< unat a div 2 ^ k + unat c}"
      by (rule unused_pages_cong [OF un4]) (use m4(3) in \<open>auto simp: m6(1) upd_span_def same_area_def\<close>)
  qed auto
qed

lemma fit_unlinked_reads:
  "meta (fit_unlinked s fit) = meta s" "rt (fit_unlinked s fit) = rt s"
  "page_map (fit_unlinked s fit) = page_map s"
  "uninitilized_span_bin (fit_unlinked s fit) = uninitilized_span_bin s"
  "non_empty_bitmap (fit_unlinked s fit) = non_empty_bitmap s"
  "same_user (span_heap s y) (span_heap (fit_unlinked s fit) y)"
  "y \<noteq> fit \<Longrightarrow> span_heap (fit_unlinked s fit) y = span_heap s y"
  by (simp_all add: fit_unlinked_def upd_span_def)

lemma rest_binned_reads:
  "meta (rest_binned s fit x rest) = meta s" "rt (rest_binned s fit x rest) = rt s"
  "page_map (rest_binned s fit x rest) = page_map s"
  "uninitilized_span_bin (rest_binned s fit x rest) = (uninitilized_span_bin s)(unat rest := x)"
  "rest < MAX_BINNED_PAGES \<Longrightarrow> bin_bits (non_empty_bitmap (rest_binned s fit x rest)) =
     insert (unat rest) (bin_bits (non_empty_bitmap s))"
  "same_area (span_heap s y) (span_heap (rest_binned s fit x rest) y)"
  "next_in_uninitialized_bin (span_heap (rest_binned s fit x rest) x) = uninitilized_span_bin s (unat rest)"
  "y \<noteq> fit \<Longrightarrow> y \<noteq> x \<Longrightarrow> span_heap (rest_binned s fit x rest) y = span_heap s y"
  by (simp_all add: rest_binned_def upd_span_def set_bin_def mark_non_empty_def bin_bits_mark
      same_area_def Let_def)

text \<open>The descriptor of the rest of the chunk.\<close>

lemma chunk_rest:
  assumes I: "index_inv os E S s" and R: "runtime_ok (rt s)" and S: "fit \<in> S"
    and fit: "span_base (span_heap s fit) = a" "page_count (span_heap s fit) = pages"
    and len: "(a, len) \<in> E" "data_block (a, len)" "unat len = unat c * 2 ^ cmalloc_page_shift (rt s)"
      "unat a + unat len \<le> 2 ^ 47" "2 ^ cmalloc_page_shift (rt s) dvd unat a"
    and un: "unused_pages (S - {fit}) s {unat a div 2 ^ cmalloc_page_shift (rt s) ..<
        unat a div 2 ^ cmalloc_page_shift (rt s) + unat c}"
    and lt: "pages < c"
    and r8: "alloc_meta os s sizeof_span = Inr (x, s8)"
    and r9: "map_span_pages os (upd_span s8 x (rest_area (rt s8) a pages (c - pages))) x = Inr s9"
  obtains E' m where "index_inv os E' (insert x S) s9" "E \<subseteq> E'" "x \<notin> S" "valid_ptr x"
    "s9 = (upd_span s x (rest_area (rt s) a pages (c - pages)))\<lparr>meta := m\<rparr>"
proof -
  let ?k = "cmalloc_page_shift (rt s)"
  let ?f = "rest_area (rt s) a pages (c - pages)"
  obtain m8 where m8: "s8 = s\<lparr>meta := m8\<rparr>" "index_inv os (insert (x, sizeof_span) E) S s8" "x \<notin> S"
    "valid_ptr x"
    by (rule index_inv_alloc_meta [OF I descriptor_size r8])
  have s8: "rt s8 = rt s" "span_heap s8 = span_heap s" by (simp_all add: m8(1))
  have le: "unat a + unat c * 2 ^ ?k \<le> 2 ^ 47" using len(3,4) by simp
  note sb = split_base [OF len(5) le lt]
  have n: "unat pages < unat c" using lt by (simp add: word_less_nat_alt)
  have f: "span_base (?f d) = a + push_bit ?k pages" "page_count (?f d) = c - pages" for d
    by (simp_all add: rest_area_def)
  have e: "unat (a + push_bit ?k pages) + unat (c - pages) * 2 ^ ?k = unat a + unat len"
    unfolding sb(1,4) len(3) using n by (simp add: diff_mult_distrib mult_le_mono1)
  have pl: "placed (rt s8) (insert (x, sizeof_span) E) (?f (span_heap s8 x))"
    by (rule mapping_placed [where a = a and len = len])
       (use len sb n e in \<open>simp_all add: f s8\<close>)
  have pg: "span_pages (rt s8) (?f (span_heap s8 x)) =
      {unat a div 2 ^ ?k + unat pages ..< unat a div 2 ^ ?k + unat c}"
    using n by (simp add: span_pages_def f s8 sb(2,4))
  have "span_pages (rt s8) (span_heap s8 y) \<inter> span_pages (rt s8) (?f (span_heap s8 x)) = {}"
    if y: "y \<in> S" for y
  proof (cases "y = fit")
    case True
    then show ?thesis unfolding pg by (auto simp: span_pages_def s8 fit)
  next
    case False
    then show ?thesis using un y unfolding pg by (force simp: unused_pages_def s8)
  qed
  then have un8: "unused_pages S s8 (span_pages (rt s8) (?f (span_heap s8 x)))"
    by (simp add: unused_pages_def)
  obtain m9 where m9: "s9 = (upd_span s8 x ?f)\<lparr>meta := m9\<rparr>"
    "index_inv os (insert (x, sizeof_span) E) (insert x S) s9"
    by (rule enter_span_law [OF m8(2) _ _ m8(3) pl un8 r9 [unfolded s8(1)]]) (use R s8 in auto)
  show thesis
    by (rule that [OF m9(2) _ m8(3,4)]) (auto simp: m9(1) m8(1) upd_span_def)
qed

lemma alloc_span_chunk_law:
  assumes I: "span_inv os E K U s" and lt: "0 < pages" "pages < MAX_BINNED_PAGES"
    and run: "alloc_span_chunk os s pages = Inr (r, s')" "r \<noteq> NULL"
  obtains E' K' where "span_inv os E' K' (insert r U) s'" "E \<subseteq> E'" "r \<notin> U"
    "page_count (span_heap s' r) = pages" "rt s' = rt s" "page_map s' = page_map s"
    "\<And>y. y \<in> U \<Longrightarrow> same_user (span_heap s y) (span_heap s' y)"
proof -
  note D = span_invD [OF I]
  let ?S = "U \<union> cached_spans K" and ?c = "chunk_page_count (rt s) pages"
  let ?k = "cmalloc_page_shift (rt s)"
  obtain arena s1 a s2 fit s4 s6 where run2:
    "alloc_meta os s sizeof_data_chunk = Inr (arena, s1)"
    "mmap_pages os (s1\<lparr>data_arena := arena\<rparr>) ?c = (a, s2)" "a \<noteq> MAP_FAILED"
    "alloc_meta os (s2\<lparr>data_chunk_heap := (data_chunk_heap s2)(arena :=
        \<lparr>chunk_base = a, data_prev = data_arena s\<rparr>)\<rparr>) sizeof_span = Inr (fit, s4)"
    "map_span_pages os (upd_span s4 fit (fit_area a pages)) fit = Inr s6" "r = fit"
    "if 0 < ?c - pages \<and> ?c - pages < MAX_BINNED_PAGES
     then \<exists>x s8 s9. alloc_meta os (fit_unlinked s6 fit) sizeof_span = Inr (x, s8) \<and>
       map_span_pages os (upd_span s8 x (rest_area (rt s8) a pages (?c - pages))) x = Inr s9 \<and>
       s' = rest_binned s9 fit x (?c - pages)
     else s' = fit_unlinked s6 fit"
    by (rule alloc_span_chunk_run [OF run])
  obtain E6 len m ch where c6: "index_inv os E6 (insert fit ?S) s6" "E \<subseteq> E6" "fit \<notin> ?S"
    "s6 = (upd_span s fit (fit_area a pages))\<lparr>meta := m, data_arena := arena, data_chunk_heap := ch\<rparr>"
    "(a, len) \<in> E6" "data_block (a, len)" "unat len = unat ?c * 2 ^ ?k" "unat a + unat len \<le> 2 ^ 47"
    "2 ^ ?k dvd unat a" "unused_pages ?S s6 {unat a div 2 ^ ?k ..< unat a div 2 ^ ?k + unat ?c}"
    by (rule chunk_fit [OF D(3,1,2) lt run2(1,2,3,4,5)])
  let ?s7 = "fit_unlinked s6 fit"
  have s7: "rt ?s7 = rt s" "page_map ?s7 = page_map s"
    "uninitilized_span_bin ?s7 = uninitilized_span_bin s" "non_empty_bitmap ?s7 = non_empty_bitmap s"
    "span_base (span_heap ?s7 fit) = a" "page_count (span_heap ?s7 fit) = pages"
    by (simp_all add: fit_unlinked_def c6(4) upd_span_def fit_area_def)
  have h7: "span_heap ?s7 y = span_heap s y" if "y \<in> ?S" for y
  proof -
    have "y \<noteq> fit" using that c6(3) by blast
    then show ?thesis by (simp add: fit_unlinked_def c6(4) upd_span_def)
  qed
  have I7: "index_inv os E6 (insert fit ?S) ?s7"
    by (rule index_inv_cong [OF c6(1)]) (simp_all add: fit_unlinked_reads same_user_area)
  have fU: "fit \<notin> U" using c6(3) by blast
  show thesis
  proof (cases "0 < ?c - pages \<and> ?c - pages < MAX_BINNED_PAGES")
    case False
    then have s': "s' = ?s7" using run2(7) by (simp only: if_False)
    have "bins_inv K ?s7"
      by (rule bins_inv_cong [OF D(4)]) (simp_all add: s7 h7)
    moreover have "insert fit U \<union> cached_spans K = insert fit ?S" by blast
    moreover have "insert fit U \<inter> cached_spans K = {}" using D(5) c6(3) by blast
    moreover have "whole_mappings E6 (insert fit U) ?s7"
    proof (rule whole_mappings_insert)
      show "whole_mappings E6 U ?s7"
        by (rule whole_mappings_cong [OF D(6) c6(2)]) (simp_all add: s7 h7 same_area_def)
    qed (simp add: s7 lt)
    ultimately have "span_inv os E6 K (insert fit U) s'"
      using I7 D(1,2) unfolding span_inv_def s' by (simp add: s7)
    then show thesis
      using fU h7 c6(2) by (intro that) (auto simp: s' run2(6) s7)
  next
    case True
    then obtain x s8 s9 where r8: "alloc_meta os ?s7 sizeof_span = Inr (x, s8)"
      "map_span_pages os (upd_span s8 x (rest_area (rt s8) a pages (?c - pages))) x = Inr s9"
      "s' = rest_binned s9 fit x (?c - pages)"
      using run2(7) by (simp only: if_True simp_thms) blast
    have lt': "pages < ?c"
    proof -
      have "pages \<le> ?c" using chunk_pages_bounds(1) [OF D(1) lt(2)] by (simp add: word_le_nat_alt)
      moreover have "pages \<noteq> ?c" using True by auto
      ultimately show ?thesis by simp
    qed
    have un7: "unused_pages (insert fit ?S - {fit}) ?s7
        {unat a div 2 ^ ?k ..< unat a div 2 ^ ?k + unat ?c}"
    proof -
      have "insert fit ?S - {fit} = ?S" using c6(3) by blast
      then show ?thesis
        using unused_pages_cong [OF c6(10), of ?s7] by (simp add: fit_unlinked_reads same_user_area)
    qed
    obtain E9 m9 where c9: "index_inv os E9 (insert x (insert fit ?S)) s9" "E6 \<subseteq> E9"
      "x \<notin> insert fit ?S" "valid_ptr x"
      "s9 = (upd_span ?s7 x (rest_area (rt s) a pages (?c - pages)))\<lparr>meta := m9\<rparr>"
      by (rule chunk_rest [OF I7 _ insertI1 s7(5,6) c6(5,6), unfolded s7(1),
            OF D(1) c6(7,8,9) un7 lt' r8(1,2)])
    let ?rest = "?c - pages" and ?K' = "K(unat (?c - pages) := x # K (unat (?c - pages)))"
    have xf: "x \<noteq> fit" "x \<notin> ?S" "x \<noteq> NULL" using c9(3,4) by auto
    have h9: "span_heap s9 y = span_heap s y" if "y \<in> ?S" for y
      using h7 [OF that] that xf(2) by (auto simp: c9(5) upd_span_def)
    have h': "span_heap s' y = span_heap s y" if "y \<in> ?S" for y
    proof -
      have "y \<noteq> fit" "y \<noteq> x" using that c6(3) xf(2) by blast+
      then show ?thesis using h9 [OF that] by (simp add: r8(3) rest_binned_reads)
    qed
    have s': "rt s' = rt s" "page_map s' = page_map s" "page_count (span_heap s' fit) = pages"
      "page_count (span_heap s' x) = ?rest"
      using rest_binned_reads(6) [of s9 fit fit x ?rest] rest_binned_reads(6) [of s9 x fit x ?rest] xf(1) s7
      by (simp_all add: r8(3) rest_binned_reads c9(5) upd_span_def same_area_def rest_area_def)
    have I': "index_inv os E9 (insert x (insert fit ?S)) s'"
      by (rule index_inv_cong [OF c9(1)]) (simp_all add: r8(3) rest_binned_reads)
    have "unat ?rest < unat MAX_BINNED_PAGES" using True by (simp add: word_less_nat_alt)
    moreover have "bin_bits (non_empty_bitmap s') = insert (unat ?rest) (bin_bits (non_empty_bitmap s))"
      using True by (simp add: r8(3) rest_binned_reads c9(5) upd_span_def s7)
    moreover have "uninitilized_span_bin s9 = uninitilized_span_bin s"
      by (simp add: c9(5) upd_span_def s7)
    ultimately have "bins_inv ?K' s'"
      using xf(2,3) h' s'(4) unfolding r8(3)
      by (intro bins_inv_push [OF D(4)]) (auto simp: rest_binned_reads)
    moreover have "insert fit U \<union> cached_spans ?K' = insert x (insert fit ?S)"
      unfolding cached_push by blast
    moreover have "insert fit U \<inter> cached_spans ?K' = {}"
      unfolding cached_push using D(5) c6(3) xf(1,2) by blast
    moreover have E9: "E \<subseteq> E9" using c6(2) c9(2) by blast
    moreover have "whole_mappings E9 (insert fit U) s'"
    proof (rule whole_mappings_insert)
      show "whole_mappings E9 U s'"
        by (rule whole_mappings_cong [OF D(6) E9]) (simp_all add: s' h' same_area_def)
    qed (simp add: s' lt)
    ultimately have "span_inv os E9 ?K' (insert fit U) s'"
      using I' D(1,2) unfolding span_inv_def by (simp add: s')
    then show thesis
      using fU h' s' E9 by (intro that) (auto simp: run2(6))
  qed
qed

end
