(* ===== verification/SpanAlloc.thy ===== *)
theory SpanAlloc
  imports SpanChunk MetaSample
begin

text \<open>
  \<open>alloc_span\<close> and \<open>cmalloc_cache_span\<close> as a whole keep the invariant of the span layer: a span
  goes into use, a span in use goes back to a bin, and a span with a mapping of its own comes and
  goes with the mapping.
\<close>

section \<open>Requests below \<open>MAX_BINNED_PAGES\<close> pages\<close>

lemma best_fit_found:
  assumes B: "bins_inv K s"
    and best: "best = find_best_fitting_uninitialized_span (non_empty_bitmap s) pages"
      "best \<noteq> NO_FITTING_PAGE_SEQUENCE" and p: "pages < MAX_BINNED_PAGES"
  obtains x xs where "K (unat best) = x # xs" "pages \<le> best" "best < MAX_BINNED_PAGES"
proof -
  let ?T = "{k \<in> {k. K k \<noteq> []}. unat pages \<le> k \<and> k < unat MAX_BINNED_PAGES}"
  have b: "best = best_fit_spec {k. K k \<noteq> []} (unat pages)"
    using best(1) find_best_fit_value [OF p] bins_invD(3) [OF B] by simp
  then have ex: "\<exists>k \<in> {k. K k \<noteq> []}. unat pages \<le> k \<and> k < unat MAX_BINNED_PAGES"
    using best(2) by (auto simp: best_fit_spec_def split: if_splits)
  have "finite ?T" by (rule finite_subset [of _ "{..<unat MAX_BINNED_PAGES}"]) auto
  then have m: "Min ?T \<in> ?T" using ex by (intro Min_in) auto
  have bv: "best = word_of_nat (Min ?T)" using b ex by (simp add: best_fit_spec_def)
  have "Min ?T < 2 ^ 64" using m by (simp add: MAX_BINNED_PAGES_def)
  then have u: "unat best = Min ?T" unfolding bv by (rule unat_word_of_nat64)
  have "K (unat best) \<noteq> []" "unat pages \<le> unat best" "unat best < unat MAX_BINNED_PAGES"
    unfolding u using m by auto
  then show thesis
    by (cases "K (unat best)") (auto intro: that simp: word_le_nat_alt word_less_nat_alt)
qed

lemma alloc_span_eq:
  fixes sz :: u64
  assumes "page_map s \<noteq> NULL"
  defines "pages \<equiv> drop_bit (cmalloc_page_shift (rt s)) (round_up_page (rt s) sz)"
  shows "alloc_span os s sz =
    (if MAX_BINNED_PAGES \<le> pages then alloc_span_large os s pages
     else if data_arena s \<noteq> NULL \<and>
       find_best_fitting_uninitialized_span (non_empty_bitmap s) pages \<noteq> NO_FITTING_PAGE_SEQUENCE
     then if pages = find_best_fitting_uninitialized_span (non_empty_bitmap s) pages
          then alloc_span_exact s pages
          else alloc_span_split os s pages (find_best_fitting_uninitialized_span (non_empty_bitmap s) pages)
     else alloc_span_chunk os s pages)"
  using assms(1) by (simp add: alloc_span_def pages_def Let_def)

lemma alloc_span_small_law:
  assumes I: "span_inv os E K U s"
    and pages: "pages = drop_bit (cmalloc_page_shift (rt s)) (round_up_page (rt s) sz)"
      "0 < pages" "pages < MAX_BINNED_PAGES"
    and run: "alloc_span os s sz = Inr (x, s')" "x \<noteq> NULL"
  obtains E' K' where "span_inv os E' K' (insert x U) s'" "E \<subseteq> E'" "x \<notin> U"
    "page_count (span_heap s' x) = pages" "rt s' = rt s" "page_map s' = page_map s"
    "\<And>y. y \<in> U \<Longrightarrow> same_user (span_heap s y) (span_heap s' y)"
proof -
  note D = span_invD [OF I]
  let ?best = "find_best_fitting_uninitialized_span (non_empty_bitmap s) pages"
  have pm: "page_map s \<noteq> NULL" using page_inv_valid [OF index_invD(1) [OF D(3)]] by auto
  have np: "\<not> MAX_BINNED_PAGES \<le> pages" using pages(3) by simp
  have "alloc_span os s sz =
      (if data_arena s \<noteq> NULL \<and> ?best \<noteq> NO_FITTING_PAGE_SEQUENCE
       then if pages = ?best then alloc_span_exact s pages else alloc_span_split os s pages ?best
       else alloc_span_chunk os s pages)"
    unfolding alloc_span_eq [OF pm, of os sz] pages(1) [symmetric] by (simp only: np if_False)
  then have run': "(if data_arena s \<noteq> NULL \<and> ?best \<noteq> NO_FITTING_PAGE_SEQUENCE
       then if pages = ?best then alloc_span_exact s pages else alloc_span_split os s pages ?best
       else alloc_span_chunk os s pages) = Inr (x, s')"
    using run(1) by simp
  show thesis
  proof (cases "data_arena s \<noteq> NULL \<and> ?best \<noteq> NO_FITTING_PAGE_SEQUENCE")
    case True
    then obtain b xs where b: "K (unat ?best) = b # xs" "pages \<le> ?best" "?best < MAX_BINNED_PAGES"
      using best_fit_found [OF D(4) refl _ pages(3)] by blast
    show thesis
    proof (cases "pages = ?best")
      case eq: True
      have K: "K (unat pages) = b # xs" using b(1) eq by metis
      note pb = pop_bin_inv [OF I K]
      have "x = b" "s' = pop_bin s pages b"
        using run' True eq alloc_span_exact_law [OF I K] by (auto split: if_splits)
      then show thesis using pb by (intro that [of E "K(unat pages := xs)"]) (auto simp: pop_bin_reads)
    next
      case False
      then have "alloc_span_split os s pages ?best = Inr (x, s')" "pages < ?best"
        using run' True b(2) by auto
      then show thesis using alloc_span_split_law [OF I b(1) pages(2)] that by metis
    qed
  next
    case False
    then have "alloc_span_chunk os s pages = Inr (x, s')" using run' by auto
    then show thesis using alloc_span_chunk_law [OF I pages(2,3) _ run(2)] that by metis
  qed
qed

section \<open>Requests with a mapping of their own\<close>

lemma alloc_span_large_run:
  assumes "alloc_span_large os s pages = Inr (x, s')"
  obtains s1 a s2 where "alloc_meta os s sizeof_span = Inr (x, s1)" "mmap_pages os s1 pages = (a, s2)"
    "map_span_pages os (upd_span s2 x
       (\<lambda>d. d\<lparr>span_base := a, page_count := pages, is_initialized := False\<rparr>)) x = Inr s'"
  using assms
  by (auto simp: alloc_span_large_def Let_def elim!: bindr_InrE split: prod.splits)

lemma large_pages_bytes:
  assumes R: "runtime_ok r" and p: "pages = drop_bit (cmalloc_page_shift r) w" "MAX_BINNED_PAGES \<le> pages"
  shows "unat pages * 2 ^ cmalloc_page_shift r < 2 ^ 64"
    "unat DATA_CHUNK_SIZE \<le> unat pages * 2 ^ cmalloc_page_shift r"
proof -
  let ?k = "cmalloc_page_shift r"
  have "unat pages * 2 ^ ?k \<le> unat w" unfolding p(1) unat_drop_bit by simp
  then show "unat pages * 2 ^ ?k < 2 ^ 64" using unat_less64 [of w] by (rule le_less_trans)
  have "8193 * 2 ^ 12 \<le> unat pages * (2 ^ ?k :: nat)"
    using p(2) page_shift_bounds [OF R]
    by (intro mult_le_mono power_increasing) (simp_all add: word_le_nat_alt MAX_BINNED_PAGES_def)
  then show "unat DATA_CHUNK_SIZE \<le> unat pages * 2 ^ ?k" by (simp add: DATA_CHUNK_SIZE_def)
qed

lemma alloc_span_large_law:
  assumes I: "span_inv os E K U s"
    and pages: "pages = drop_bit (cmalloc_page_shift (rt s)) w" "MAX_BINNED_PAGES \<le> pages"
    and run: "alloc_span_large os s pages = Inr (x, s')" and ok: "span_base (span_heap s' x) \<noteq> MAP_FAILED"
  obtains E' where "span_inv os E' K (insert x U) s'" "E \<subseteq> E'" "x \<notin> U"
    "page_count (span_heap s' x) = pages" "rt s' = rt s" "page_map s' = page_map s"
    "\<And>y. y \<in> U \<Longrightarrow> same_user (span_heap s y) (span_heap s' y)"
proof -
  note D = span_invD [OF I]
  let ?S = "U \<union> cached_spans K" and ?k = "cmalloc_page_shift (rt s)"
  let ?len = "push_bit ?k pages"
  obtain s1 a s2 where r: "alloc_meta os s sizeof_span = Inr (x, s1)" "mmap_pages os s1 pages = (a, s2)"
    "map_span_pages os (upd_span s2 x
       (\<lambda>d. d\<lparr>span_base := a, page_count := pages, is_initialized := False\<rparr>)) x = Inr s'"
    by (rule alloc_span_large_run [OF run])
  note lp = large_pages_bytes [OF D(1) pages]
  obtain m1 where m1: "s1 = s\<lparr>meta := m1\<rparr>" "index_inv os (insert (x, sizeof_span) E) ?S s1" "x \<notin> ?S"
    by (rule index_inv_alloc_meta [OF D(3) descriptor_size r(1)])
  have rt1: "rt s1 = rt s" by (simp add: m1(1))
  have "\<exists>m2. s2 = s1\<lparr>meta := m2\<rparr>"
    using r(2) by (auto simp: mmap_pages_def Let_def split: prod.splits)
  then have s2: "rt s2 = rt s" "span_heap s2 = span_heap s" "page_map s2 = page_map s"
    "uninitilized_span_bin s2 = uninitilized_span_bin s" "non_empty_bitmap s2 = non_empty_bitmap s"
    by (auto simp: m1(1))
  let ?f = "\<lambda>d. d\<lparr>span_base := a, page_count := pages, is_initialized := False\<rparr>"
  have sm: "\<exists>m. s' = (upd_span s2 x ?f)\<lparr>meta := m\<rparr>"
    using r(3) by (auto simp: map_span_pages_def Let_def elim!: bindr_InrE)
  then have s': "rt s' = rt s" "page_map s' = page_map s"
    "uninitilized_span_bin s' = uninitilized_span_bin s" "non_empty_bitmap s' = non_empty_bitmap s"
    "span_base (span_heap s' x) = a" "page_count (span_heap s' x) = pages"
    and hy: "y \<noteq> x \<Longrightarrow> span_heap s' y = span_heap s y" for y
    by (auto simp: upd_span_def s2)
  have hS: "span_heap s' y = span_heap s y" if "y \<in> ?S" for y
  proof -
    have "y \<noteq> x" using that m1(3) by blast
    then show ?thesis by (rule hy)
  qed
  have a: "a \<noteq> MAP_FAILED" using ok by (simp add: s')
  let ?E = "insert (a, ?len) (insert (x, sizeof_span) E)"
  obtain m2 where m2: "index_inv os ?E ?S s2" "unat ?len = unat pages * 2 ^ ?k" "data_block (a, ?len)"
    "2 ^ ?k dvd unat a" "unused_pages ?S s2 {unat a div 2 ^ ?k ..< unat a div 2 ^ ?k + unat pages}"
    by (rule index_inv_mmap [OF m1(2), unfolded rt1, OF D(1,2) r(2) a lp])
  have p0: "0 < unat pages" using pages(2) by (simp add: word_le_nat_alt MAX_BINNED_PAGES_def)
  have pl: "placed (rt s2) ?E (?f (span_heap s2 x))"
    by (rule mapping_placed [where a = a and len = ?len]) (use m2 p0 in \<open>simp_all add: s2\<close>)
  have un: "unused_pages ?S s2 (span_pages (rt s2) (?f (span_heap s2 x)))"
    using m2(5) by (simp add: span_pages_def s2)
  obtain m3 where "index_inv os ?E (insert x ?S) s'"
    by (rule enter_span_law [OF m2(1) _ _ m1(3) pl un r(3)]) (use D(1) s2 in auto)
  moreover have "bins_inv K s'"
    by (rule bins_inv_cong [OF D(4)]) (simp_all add: hS s')
  moreover have "insert x U \<inter> cached_spans K = {}" using D(5) m1(3) by blast
  moreover have u: "same_user (span_heap s y) (span_heap s' y)" if "y \<in> U" for y
    using hS [of y] that by simp
  moreover have "whole_mappings ?E (insert x U) s'"
  proof -
    have "whole_mappings ?E U s'"
      by (rule whole_mappings_cong [OF D(6)]) (auto simp: s' intro: same_user_area u)
    then show ?thesis unfolding whole_mappings_def by (auto simp: s')
  qed
  ultimately have "span_inv os ?E K (insert x U) s'"
    using D(1,2) by (simp add: span_inv_def s')
  then show thesis using m1(3) s' u by (intro that [of ?E]) auto
qed

section \<open>Spans going back\<close>

lemma cached_law:
  assumes I: "span_inv os E K U s" and x: "x \<in> U" "page_count (span_heap s x) < MAX_BINNED_PAGES"
  defines "p \<equiv> unat (page_count (span_heap s x))"
  shows "span_inv os E (K(p := x # K p)) (U - {x}) (cached x s)"
proof -
  note D = span_invD [OF I]
  have xc: "x \<notin> cached_spans K" using D(5) x(1) by blast
  have "(x, sizeof_span) \<in> E" using index_invD(2) [OF D(3)] x(1) by blast
  then have xn: "x \<noteq> NULL" using page_inv_block(1) [OF index_invD(1) [OF D(3)]] by fastforce
  have "p < unat MAX_BINNED_PAGES" using x(2) by (simp add: p_def word_less_nat_alt)
  then have "bins_inv (K(p := x # K p)) (cached x s)"
    using xc xn by (intro bins_inv_push [OF D(4)]) (auto simp: cached_reads x(2) p_def)
  moreover have "index_inv os E (U \<union> cached_spans K) (cached x s)"
    by (rule index_inv_cong [OF D(3)]) (simp_all add: cached_reads same_area_def)
  moreover have "U - {x} \<union> cached_spans (K(p := x # K p)) = U \<union> cached_spans K"
    unfolding cached_push using x(1) by blast
  moreover have "(U - {x}) \<inter> cached_spans (K(p := x # K p)) = {}"
    unfolding cached_push using D(5) by blast
  moreover have "whole_mappings E (U - {x}) (cached x s)"
    using D(6) unfolding whole_mappings_def by (simp add: cached_reads)
  ultimately show ?thesis using D(1,2) by (simp add: span_inv_def cached_reads)
qed

section \<open>From the first call on\<close>

lemma span_inv_cong:
  assumes I: "span_inv os E K U s"
    and "meta s' = meta s" "page_map s' = page_map s" "rt s' = rt s"
      "uninitilized_span_bin s' = uninitilized_span_bin s" "non_empty_bitmap s' = non_empty_bitmap s"
    and a: "\<And>x. x \<in> U \<union> cached_spans K \<Longrightarrow> same_area (span_heap s x) (span_heap s' x)"
    and k: "\<And>x. x \<in> cached_spans K \<Longrightarrow>
      next_in_uninitialized_bin (span_heap s' x) = next_in_uninitialized_bin (span_heap s x)"
  shows "span_inv os E K U s'"
proof -
  note D = span_invD [OF I]
  have "index_inv os E (U \<union> cached_spans K) s'"
    by (rule index_inv_cong [OF D(3)]) (use assms in auto)
  moreover have "bins_inv K s'"
    by (rule bins_inv_cong [OF D(4)]) (use assms(5,6) k a in \<open>auto simp: same_area_def\<close>)
  moreover have "whole_mappings E U s'"
    by (rule whole_mappings_cong [OF D(6)]) (use assms in auto)
  ultimately show ?thesis using D(1,2,5) assms(4) by (simp add: span_inv_def)
qed

text \<open>The globals before the first allocation: \<open>page_map\<close> is \<open>NULL\<close> and nothing is mapped.\<close>

definition span_fresh :: "platform \<Rightarrow> span_state \<Rightarrow> bool" where
  "span_fresh os s \<longleftrightarrow> os_ok os \<and> runtime_ok (rt s) \<and> cmalloc_page_size (rt s) = sysconf_pagesize os \<and>
     page_map s = NULL \<and> meta s = meta_zero \<and> data_arena s = NULL \<and>
     uninitilized_span_bin s = (\<lambda>_. NULL) \<and> bin_bits (non_empty_bitmap s) = {}"

definition layer_inv :: "platform \<Rightarrow> block set \<Rightarrow> (nat \<Rightarrow> ptr list) \<Rightarrow> ptr set \<Rightarrow> span_state \<Rightarrow> bool" where
  "layer_inv os E K U s \<longleftrightarrow> span_inv os E K U s \<or>
     span_fresh os s \<and> E = {} \<and> K = (\<lambda>_. []) \<and> U = {}"

lemma layer_inv_rt:
  "layer_inv os E K U s \<Longrightarrow> runtime_ok (rt s)"
  "layer_inv os E K U s \<Longrightarrow> cmalloc_page_size (rt s) = sysconf_pagesize os"
  by (auto simp: layer_inv_def span_fresh_def span_inv_def)

lemma new_page_map_inv:
  assumes F: "span_fresh os s" and run: "cmalloc_initialize_range_map os (meta s) = Inr (p, m)"
    and p: "p \<noteq> NULL"
  shows "span_inv os {} (\<lambda>_. []) {} (s\<lparr>page_map := p, meta := m\<rparr>)"
proof -
  have f: "os_ok os" "runtime_ok (rt s)" "cmalloc_page_size (rt s) = sysconf_pagesize os"
    "uninitilized_span_bin s = (\<lambda>_. NULL)" "bin_bits (non_empty_bitmap s) = {}"
    "cmalloc_initialize_range_map os meta_zero = Inr (p, m)"
    using F run by (simp_all add: span_fresh_def)
  note n = new_page_map [OF f(1) meta_zero_inv f(6) p]
  have "page_inv os {} p m" using n(1) by (simp add: client_def)
  then show ?thesis
    using n(2) f by (simp add: span_inv_def index_inv_def bins_inv_def cached_spans_def whole_mappings_def)
qed

lemma alloc_meta_failed: "meta_arena (meta s) = MAP_FAILED \<Longrightarrow> free_list_map (meta s) = NULL \<Longrightarrow>
    alloc_meta os s sz = Inl Bad_Deref"
  by (simp add: alloc_meta_def cmalloc_alloc_metadata.simps bump_alloc_def)

lemma alloc_span_first:
  assumes F: "span_fresh os s" and run: "alloc_span os s sz = Inr (x, s')"
  obtains p m where "cmalloc_initialize_range_map os (meta s) = Inr (p, m)" "p \<noteq> NULL"
    "alloc_span os (s\<lparr>page_map := p, meta := m\<rparr>) sz = Inr (x, s')"
proof -
  have f: "page_map s = NULL" "meta s = meta_zero" "data_arena s = NULL"
    using F by (simp_all add: span_fresh_def)
  obtain p m where i: "cmalloc_initialize_range_map os (meta s) = Inr (p, m)"
    using run by (auto simp: alloc_span_def f(1) elim!: bindr_InrE)
  let ?s = "s\<lparr>page_map := p, meta := m\<rparr>"
  show thesis
  proof (cases "p = NULL")
    case False
    then have "alloc_span os ?s sz = Inr (x, s')"
      using run i f(1) by (simp add: alloc_span_def Let_def)
    with i False show thesis by (intro that)
  next
    case True
    have "mmap os [] META_CHUNK_SIZE = MAP_FAILED"
    proof (rule ccontr)
      assume a: "mmap os [] META_CHUNK_SIZE \<noteq> MAP_FAILED"
      have "os_ok os" using F by (simp add: span_fresh_def)
      then obtain q m' where q: "bump_alloc os meta_zero sizeof_l1_node = Inr (q, m')" "q \<noteq> NULL"
        using bump_alloc_returns [of os meta_zero sizeof_l1_node] a meta_zero_inv
        by (auto simp: chunk_available_def meta_zero_def meta_inv_def)
      have "cmalloc_alloc_metadata os meta_zero sizeof_l1_node = bump_alloc os meta_zero sizeof_l1_node"
        by (simp add: cmalloc_alloc_metadata.simps meta_zero_def)
      with q i True show False by (simp add: cmalloc_initialize_range_map_def f(2))
    qed
    then have m: "m = meta_zero\<lparr>meta_arena := MAP_FAILED\<rparr>"
      using i True by (auto simp: f(2) cmalloc_initialize_range_map_def cmalloc_alloc_metadata.simps
          bump_alloc_def meta_zero_def sys_mmap_def Let_def)
    then have af: "alloc_meta os ?s z = Inl Bad_Deref" for z
      by (intro alloc_meta_failed) (simp_all add: meta_zero_def)
    have "alloc_span os s sz = Inl Bad_Deref"
      using i f af by (simp add: alloc_span_def alloc_span_large_def alloc_span_chunk_def Let_def)
    with run show thesis by simp
  qed
qed

text \<open>\<open>alloc_span\<close>, every path.\<close>

lemma alloc_span_law:
  assumes I: "layer_inv os E K U s"
    and pages: "pages = drop_bit (cmalloc_page_shift (rt s)) (round_up_page (rt s) sz)" "0 < pages"
    and run: "alloc_span os s sz = Inr (x, s')" "x \<noteq> NULL"
    and ok: "MAX_BINNED_PAGES \<le> pages \<Longrightarrow> span_base (span_heap s' x) \<noteq> MAP_FAILED"
  obtains E' K' where "span_inv os E' K' (insert x U) s'" "E \<subseteq> E'" "x \<notin> U"
    "page_count (span_heap s' x) = pages" "rt s' = rt s"
    "\<And>y. y \<in> U \<Longrightarrow> same_user (span_heap s y) (span_heap s' y)"
proof -
  note result = that
  have proper: thesis if J: "span_inv os E K U s0" and rt0: "rt s0 = rt s" "span_heap s0 = span_heap s"
    and run0: "alloc_span os s0 sz = Inr (x, s')" for s0
  proof (cases "MAX_BINNED_PAGES \<le> pages")
    case False
    then have lt: "pages < MAX_BINNED_PAGES" by simp
    show thesis
      using alloc_span_small_law [OF J pages(1) [folded rt0(1)] pages(2) lt run0 run(2)] rt0 result by metis
  next
    case True
    have pm: "page_map s0 \<noteq> NULL"
      using page_inv_valid [OF index_invD(1) [OF span_invD(3) [OF J]]] by auto
    have "alloc_span_large os s0 pages = Inr (x, s')"
      using run0 True unfolding alloc_span_eq [OF pm] rt0 pages(1) [symmetric] by simp
    then show thesis
      using alloc_span_large_law [OF J pages(1) [folded rt0(1)] True _ ok [OF True]] rt0 result by metis
  qed
  show thesis
  proof (cases "span_inv os E K U s")
    case True
    then show thesis by (rule proper) (simp_all add: run(1))
  next
    case False
    then have F: "span_fresh os s" "E = {}" "K = (\<lambda>_. [])" "U = {}" using I by (simp_all add: layer_inv_def)
    obtain p m where p: "cmalloc_initialize_range_map os (meta s) = Inr (p, m)" "p \<noteq> NULL"
      "alloc_span os (s\<lparr>page_map := p, meta := m\<rparr>) sz = Inr (x, s')"
      by (rule alloc_span_first [OF F(1) run(1)])
    show thesis
      by (rule proper [OF new_page_map_inv [OF F(1) p(1,2), folded F(2-4)] _ _ p(3)]) simp_all
  qed
qed

end
