(* ===== verification/HeapInv.thy ===== *)
theory HeapInv
  imports SpanAlloc CmallocPaths
begin

text \<open>
  The invariant of the whole allocator and the heap its clients see. Each span in use is owned by
  one thread; the thread's bin of a class holds exactly its spans of the class that have a free
  block. The client's heap is the set of the blocks handed out.
\<close>

section \<open>Spans in use\<close>

definition class_area :: "runtime \<Rightarrow> span_t \<Rightarrow> nat \<Rightarrow> bool" where
  "class_area r d i \<longleftrightarrow> i < SIZE_CLASS_COUNT \<and> size_class_index d = int i \<and>
     block_size d = SIZE_CLASSES ! i \<and> block_count d = SIZE_CLASS_BLOCK_COUNT ! i \<and>
     unat (page_count d) * 2 ^ cmalloc_page_shift r = unat (SIZE_CLASS_SPAN_SIZE ! i)"

definition large_area :: "runtime \<Rightarrow> span_t \<Rightarrow> bool" where
  "large_area r d \<longleftrightarrow> size_class_index d = LARGE_CLASS_SIZE_INDEX \<and> block_count d = 1 \<and>
     MAX_SIZE_CLASS < block_size d \<and>
     unat (block_size d) \<le> unat (page_count d) * 2 ^ cmalloc_page_shift r"

definition used_span :: "runtime \<Rightarrow> span_t \<Rightarrow> bool" where
  "used_span r d \<longleftrightarrow> span_ok d \<and> is_initialized d \<and>
     (large_area r d \<and> free_set d = {} \<or> (\<exists>i. class_area r d i))"

text \<open>A span of a size class has 256 pages at most.\<close>

lemma class_pages_bound:
  assumes "runtime_ok r" "i < SIZE_CLASS_COUNT"
    and e: "unat pages * 2 ^ cmalloc_page_shift r = unat (SIZE_CLASS_SPAN_SIZE ! i)"
  shows "unat (pages :: u64) \<le> 256"
proof -
  let ?k = "cmalloc_page_shift r"
  have "unat pages * 4096 \<le> unat pages * 2 ^ ?k"
    using page_shift_bounds [OF assms(1)] power_increasing [of 12 ?k "2 :: nat"]
    by (intro mult_le_mono2) simp
  also have "\<dots> \<le> 1048576" unfolding e using class_row [OF assms(2)] by (simp add: class_row_ok_def)
  finally show ?thesis by simp
qed

lemma class_area_index:
  assumes "class_area r d i"
  shows "size_class_index d = int i" "size_class_index d \<noteq> LARGE_CLASS_SIZE_INDEX" "i < SIZE_CLASS_COUNT"
  using assms class_index_nat by (auto simp: class_area_def)

lemma unlinked_used:
  assumes "unlinked e = unlinked d"
  shows "used_span r e = used_span r d" "same_area d e" "size_class_index e = size_class_index d"
    "free_set e = free_set d"
  using unlinked_same [OF assms] unlinked_blocks [OF assms]
  by (simp_all add: used_span_def large_area_def class_area_def same_area_def)

text \<open>The blocks of a span in use lie inside its pages.\<close>

lemma used_span_fits:
  assumes "used_span r d"
  shows "unat (block_count d) * unat (block_size d) \<le> unat (page_count d) * 2 ^ cmalloc_page_shift r"
proof -
  consider "large_area r d" | i where "class_area r d i"
    using assms by (auto simp: used_span_def)
  then show ?thesis
  proof cases
    case (2 i)
    then have "i < SIZE_CLASS_COUNT" by (simp add: class_area_def)
    from class_row [OF this] 2 show ?thesis by (simp add: class_area_def class_row_ok_def)
  qed (simp add: large_area_def)
qed

definition block_range :: "span_t \<Rightarrow> nat \<Rightarrow> nat set" where
  "block_range d k = bytes (block_addr d k) (unat (block_size d))"

lemma block_address:
  assumes "span_ok d" "k < unat (block_count d)"
  shows "unat (block_addr d k) = unat (span_base d) + k * unat (block_size d)"
  using assms unat_block_addr by (auto simp: span_ok_def)

lemma block_in_span:
  assumes "used_span r d" "k < unat (block_count d)"
  shows "block_range d k \<subseteq> span_bytes r d"
proof -
  have ok: "span_ok d" using assms(1) by (simp add: used_span_def)
  have "(k + 1) * unat (block_size d) \<le> unat (block_count d) * unat (block_size d)"
    using assms(2) by (intro mult_le_mono1) simp
  also note used_span_fits [OF assms(1)]
  finally show ?thesis
    unfolding block_range_def span_bytes_def
    by (intro bytes_subset) (simp_all add: block_address [OF ok assms(2)])
qed

lemma block_ranges_disjoint:
  assumes "span_ok d" "j < unat (block_count d)" "k < unat (block_count d)" "j \<noteq> k"
  shows "block_range d j \<inter> block_range d k = {}"
proof -
  have "j < k \<or> k < j" using assms(4) by linarith
  then have "j * unat (block_size d) + unat (block_size d) \<le> k * unat (block_size d) \<or>
      k * unat (block_size d) + unat (block_size d) \<le> j * unat (block_size d)"
    using mult_le_mono1 [of "Suc j" k "unat (block_size d)"] mult_le_mono1 [of "Suc k" j "unat (block_size d)"]
    by auto
  then show ?thesis
    by (auto simp: block_range_def bytes_def block_address [OF assms(1,2)] block_address [OF assms(1,3)])
qed

section \<open>The client's heap\<close>

definition live_blocks :: "span_t \<Rightarrow> (ptr \<times> nat) set" where
  "live_blocks d = {(block_addr d k, unat (block_size d)) | k. k < unat (block_count d) \<and> k \<notin> free_set d}"

definition live :: "ptr set \<Rightarrow> cm_state \<Rightarrow> (ptr \<times> nat) set" where
  "live U s = (\<Union>x \<in> U. live_blocks (span_at s x))"

lemma live_blocks_cong:
  assumes "unlinked e = unlinked d"
  shows "live_blocks e = live_blocks d"
  using unlinked_blocks [OF assms] unlinked_same [OF assms] by (simp add: live_blocks_def)

lemma block_addr_inj:
  assumes "span_ok d" "j < unat (block_count d)" "k < unat (block_count d)"
  shows "block_addr d j = block_addr d k \<longleftrightarrow> j = k"
proof -
  have "0 < unat (block_size d)" using assms(1) by (simp add: span_ok_def span_geometry_def)
  then show ?thesis
    using block_address [OF assms(1,2)] block_address [OF assms(1,3)]
    by (metis add_left_cancel mult_cancel2 less_not_refl)
qed

lemma live_blocks_take:
  assumes ok: "span_ok d" and e: "same_descr d e" and k: "k \<in> free_set d" "free_set e = free_set d - {k}"
  shows "live_blocks e = insert (block_addr d k, unat (block_size d)) (live_blocks d)"
    "(block_addr d k, unat (block_size d)) \<notin> live_blocks d"
proof -
  have kc: "k < unat (block_count d)" using ok k(1) by (auto simp: span_ok_def blocks_ok_def)
  note f = same_descr_fields [OF e] and a = same_descr_addr [OF e]
  show "live_blocks e = insert (block_addr d k, unat (block_size d)) (live_blocks d)"
    using kc k by (auto simp: live_blocks_def f a)
  show "(block_addr d k, unat (block_size d)) \<notin> live_blocks d"
    using k(1) kc block_addr_inj [OF ok kc] by (auto simp: live_blocks_def)
qed

lemma live_blocks_give:
  assumes ok: "span_ok d" and e: "same_descr d e"
    and k: "k \<notin> free_set d" "k < unat (block_count d)" "free_set e = insert k (free_set d)"
  shows "live_blocks e = live_blocks d - {(block_addr d k, unat (block_size d))}"
proof -
  note f = same_descr_fields [OF e] and a = same_descr_addr [OF e]
  show ?thesis
    using k block_addr_inj [OF ok _ k(2)] by (auto simp: live_blocks_def f a)
qed

section \<open>The invariant\<close>

definition bins_owned :: "ptr set \<Rightarrow> (ptr \<Rightarrow> nat) \<Rightarrow> cm_state \<Rightarrow> bool" where
  "bins_owned U own s \<longleftrightarrow> (\<forall>t i. i < SIZE_CLASS_COUNT \<longrightarrow>
     (\<exists>xs. local_bin s t i xs \<and>
        set xs = {x \<in> U. own x = t \<and> size_class_index (span_at s x) = int i \<and> free_set (span_at s x) \<noteq> {}}))"

definition heap_inv ::
  "platform \<Rightarrow> block set \<Rightarrow> (nat \<Rightarrow> ptr list) \<Rightarrow> ptr set \<Rightarrow> (ptr \<Rightarrow> nat) \<Rightarrow> cm_state \<Rightarrow> bool" where
  "heap_inv os E K U own s \<longleftrightarrow>
     lock s = None \<and> layer_inv os E K U (sp s) \<and>
     (\<forall>x \<in> U. used_span (rt (sp s)) (span_at s x)) \<and> bins_owned U own s"

lemma heap_invD:
  assumes "heap_inv os E K U own s"
  shows "lock s = None" "layer_inv os E K U (sp s)" "bins_owned U own s"
    and "x \<in> U \<Longrightarrow> used_span (rt (sp s)) (span_at s x)"
  using assms unfolding heap_inv_def by blast+

lemma bins_ownedD:
  assumes "bins_owned U own s" "i < SIZE_CLASS_COUNT"
  obtains xs where "local_bin s t i xs"
    "set xs = {x \<in> U. own x = t \<and> size_class_index (span_at s x) = int i \<and> free_set (span_at s x) \<noteq> {}}"
  using assms unfolding bins_owned_def by blast

text \<open>With a span in use, the page map exists.\<close>

lemma heap_inv_span:
  assumes "heap_inv os E K U own s" "x \<in> U"
  shows "span_inv os E K U (sp s)"
  using heap_invD(2) [OF assms(1)] assms(2) by (auto simp: layer_inv_def)

lemma used_placed:
  assumes "heap_inv os E K U own s" "x \<in> U"
  shows "placed (rt (sp s)) E (span_at s x)" "(x, sizeof_span) \<in> E"
    "page_inv os E (page_map (sp s)) (meta (sp s))" "valid_ptr x"
proof -
  note J = index_invD [OF span_invD(3) [OF heap_inv_span [OF assms]]]
  show "placed (rt (sp s)) E (span_at s x)" "(x, sizeof_span) \<in> E"
    "page_inv os E (page_map (sp s)) (meta (sp s))"
    using J(1-3) assms(2) by blast+
  from page_inv_block(1) [OF this(3,2)] show "valid_ptr x" by simp
qed

text \<open>The blocks of the client's heap do not overlap.\<close>

lemma live_disjoint:
  assumes I: "heap_inv os E K U own s" and b: "(p, m) \<in> live U s" "(q, n) \<in> live U s" "(p, m) \<noteq> (q, n)"
  shows "bytes p m \<inter> bytes q n = {}"
proof -
  obtain x j where x: "x \<in> U" "p = block_addr (span_at s x) j" "m = unat (block_size (span_at s x))"
    "j < unat (block_count (span_at s x))"
    using b(1) by (auto simp: live_def live_blocks_def)
  obtain y k where y: "y \<in> U" "q = block_addr (span_at s y) k" "n = unat (block_size (span_at s y))"
    "k < unat (block_count (span_at s y))"
    using b(2) by (auto simp: live_def live_blocks_def)
  note ux = heap_invD(4) [OF I x(1)] and uy = heap_invD(4) [OF I y(1)]
  have rx: "bytes p m = block_range (span_at s x) j" and ry: "bytes q n = block_range (span_at s y) k"
    by (simp_all add: block_range_def x y)
  show ?thesis
  proof (cases "x = y")
    case True
    then have "j \<noteq> k" using b(3) x y by auto
    moreover have "span_ok (span_at s x)" using ux by (simp add: used_span_def)
    ultimately show ?thesis
      unfolding rx ry using block_ranges_disjoint x(4) y(4) True by blast
  next
    case False
    note J = span_invD(3) [OF heap_inv_span [OF I x(1)]]
    have "span_pages (rt (sp s)) (span_at s x) \<inter> span_pages (rt (sp s)) (span_at s y) = {}"
      using index_invD(4) [OF J _ _ False] x(1) y(1) by blast
    moreover have "2 ^ cmalloc_page_shift (rt (sp s)) dvd unat (span_base (span_at s x))"
      "2 ^ cmalloc_page_shift (rt (sp s)) dvd unat (span_base (span_at s y))"
      using used_placed(1) [OF I x(1)] used_placed(1) [OF I y(1)] by (simp_all add: placed_def)
    ultimately have "span_bytes (rt (sp s)) (span_at s x) \<inter> span_bytes (rt (sp s)) (span_at s y) = {}"
      by (intro pages_disjoint_bytes)
    then show ?thesis
      unfolding rx ry using block_in_span [OF ux x(4)] block_in_span [OF uy y(4)] by blast
  qed
qed

text \<open>A block belongs to one span.\<close>

lemma same_block_same_span:
  assumes I: "heap_inv os E K U own s" and x: "x \<in> U" "(p, n) \<in> live_blocks (span_at s x)"
    and y: "y \<in> U" "(p, m) \<in> live_blocks (span_at s y)"
  shows "x = y"
proof (rule ccontr)
  assume ne: "x \<noteq> y"
  note J = span_invD(3) [OF heap_inv_span [OF I x(1)]]
  have "span_pages (rt (sp s)) (span_at s x) \<inter> span_pages (rt (sp s)) (span_at s y) = {}"
    using index_invD(4) [OF J _ _ ne] x(1) y(1) by blast
  then have dj: "span_bytes (rt (sp s)) (span_at s x) \<inter> span_bytes (rt (sp s)) (span_at s y) = {}"
    using used_placed(1) [OF I x(1)] used_placed(1) [OF I y(1)]
    by (intro pages_disjoint_bytes) (simp_all add: placed_def)
  have inb: "unat p \<in> span_bytes (rt (sp s)) (span_at s z)"
    if z: "z \<in> U" "(p, k) \<in> live_blocks (span_at s z)" for z k
  proof -
    note u = heap_invD(4) [OF I z(1)]
    obtain j where j: "j < unat (block_count (span_at s z))" "p = block_addr (span_at s z) j"
      using z(2) by (auto simp: live_blocks_def)
    have "0 < unat (block_size (span_at s z))" using u by (simp add: used_span_def span_ok_def span_geometry_def)
    then have "unat p \<in> block_range (span_at s z) j" by (simp add: j(2) block_range_def bytes_def)
    then show ?thesis using block_in_span [OF u j(1)] by blast
  qed
  show False using dj inb [OF x] inb [OF y] by blast
qed

text \<open>Nor do they overlap the allocator's own data.\<close>

lemma live_not_metadata:
  assumes I: "heap_inv os E K U own s" and b: "(p, m) \<in> live U s" and e: "e \<in> E" "\<not> data_block e"
  shows "bytes p m \<inter> block_bytes e = {}"
proof -
  obtain x j where x: "x \<in> U" "p = block_addr (span_at s x) j" "m = unat (block_size (span_at s x))"
    "j < unat (block_count (span_at s x))"
    using b by (auto simp: live_def live_blocks_def)
  obtain c where c: "c \<in> E" "data_block c" "span_bytes (rt (sp s)) (span_at s x) \<subseteq> block_bytes c"
    using used_placed(1) [OF I x(1)] by (auto simp: placed_def)
  have "bytes p m = block_range (span_at s x) j" by (simp add: block_range_def x)
  moreover have "block_bytes c \<inter> block_bytes e = {}"
    using page_inv_block(4) [OF used_placed(3) [OF I x(1)] c(1) e(1)] c(2) e(2) by blast
  ultimately show ?thesis using block_in_span [OF heap_invD(4) [OF I x(1)] x(4)] c(3) by blast
qed

text \<open>They are aligned, below \<open>2 ^ 47\<close> and not null.\<close>

lemma live_address:
  assumes I: "heap_inv os E K U own s" and b: "(p, m) \<in> live U s"
  shows "16 dvd unat p" "p \<noteq> NULL" "unat p + m \<le> 2 ^ 47" "0 < m"
proof -
  obtain x j where x: "x \<in> U" "p = block_addr (span_at s x) j" "m = unat (block_size (span_at s x))"
    "j < unat (block_count (span_at s x))"
    using b by (auto simp: live_def live_blocks_def)
  let ?d = "span_at s x" and ?k = "cmalloc_page_shift (rt (sp s))"
  note u = heap_invD(4) [OF I x(1)]
  have ok: "span_ok ?d" using u by (simp add: used_span_def)
  note R = layer_inv_rt(1) [OF heap_invD(2) [OF I]]
  note pl = used_placed(1) [OF I x(1)]
  note pb = placed_bounds [OF used_placed(3) [OF I x(1)] pl R]
  have a: "unat p = unat (span_base ?d) + j * m" using block_address [OF ok x(4)] x(2,3) by simp
  have "(2 :: nat) ^ 4 dvd 2 ^ ?k"
    using page_shift_bounds [OF R] by (intro le_imp_power_dvd) simp
  then have b16: "16 dvd unat (span_base ?d)" using pl by (auto simp: placed_def intro: dvd_trans)
  have "16 dvd j * m"
  proof -
    consider "large_area (rt (sp s)) ?d" | i where "class_area (rt (sp s)) ?d i"
      using u by (auto simp: used_span_def)
    then show ?thesis
    proof cases
      case 1
      then have "j = 0" using x(4) by (simp add: large_area_def)
      then show ?thesis by simp
    next
      case (2 i)
      then show ?thesis using size_class_multiple [of i] by (simp add: class_area_def x(3))
    qed
  qed
  then show "16 dvd unat p" unfolding a using b16 by simp
  have "0 < unat (span_base ?d)" using pb(3) by (simp add: unat_gt_0)
  then have "0 < unat p" unfolding a by simp
  then show "p \<noteq> NULL" by auto
  show "0 < m" using ok by (simp add: x(3) span_ok_def span_geometry_def)
  have "j * m + m \<le> unat (block_count ?d) * m"
    using mult_le_mono1 [of "Suc j" "unat (block_count ?d)" m] x(4) by simp
  then show "unat p + m \<le> 2 ^ 47"
    unfolding a using used_span_fits [OF u] pb(1) by (simp add: x(3))
qed

end
