(* ===== verification/HeapSteps.thy ===== *)
theory HeapSteps
  imports HeapInv
begin

text \<open>
  What an operation of one thread on one of its bins leaves alone, and why that keeps the
  invariant of the heap: the other bins, the other spans but for bin links, and the span layer.
\<close>

section \<open>Steps inside one bin\<close>

text \<open>
  \<open>local_step tid c Z x s s'\<close>: only the bin of class \<open>c\<close> of thread \<open>tid\<close>, the bin links of the
  spans in \<open>Z\<close> and the descriptor of \<open>x\<close> change.
\<close>

definition local_step :: "nat \<Rightarrow> nat \<Rightarrow> ptr set \<Rightarrow> ptr \<Rightarrow> cm_state \<Rightarrow> cm_state \<Rightarrow> bool" where
  "local_step tid c Z x s s' \<longleftrightarrow>
     (\<exists>h g. s' = s\<lparr>sp := (sp s)\<lparr>span_heap := h\<rparr>, thread_local_bin := g\<rparr> \<and>
        (\<forall>y. y \<notin> Z \<longrightarrow> h y = span_at s y) \<and>
        (\<forall>y. y \<noteq> x \<longrightarrow> unlinked (h y) = unlinked (span_at s y)) \<and>
        (\<forall>t d. t \<noteq> tid \<or> d \<noteq> c \<longrightarrow> g t d = thread_local_bin s t d))"

lemma local_step_refl: "local_step tid c Z x s s"
  unfolding local_step_def
  by (intro exI [of _ "span_heap (sp s)"] exI [of _ "thread_local_bin s"]) simp

lemma local_step_frame:
  assumes "local_step tid c Z x s s'"
  shows "sp s' = (sp s)\<lparr>span_heap := span_heap (sp s')\<rparr>" "lock s' = lock s" "mem s' = mem s"
    and "y \<notin> Z \<Longrightarrow> span_at s' y = span_at s y" "y \<noteq> x \<Longrightarrow> unlinked (span_at s' y) = unlinked (span_at s y)"
    and "t \<noteq> tid \<or> d \<noteq> c \<Longrightarrow> thread_local_bin s' t d = thread_local_bin s t d"
    and "meta (sp s') = meta (sp s)" "rt (sp s') = rt (sp s)" "page_map (sp s') = page_map (sp s)"
    "uninitilized_span_bin (sp s') = uninitilized_span_bin (sp s)"
    "non_empty_bitmap (sp s') = non_empty_bitmap (sp s)" "data_arena (sp s') = data_arena (sp s)"
  using assms unfolding local_step_def by auto

lemma local_step_mono: "local_step tid c Z x s s' \<Longrightarrow> Z \<subseteq> Z' \<Longrightarrow> local_step tid c Z' x s s'"
  unfolding local_step_def by blast

lemma local_step_trans:
  assumes "local_step tid c Z x s s1" "local_step tid c Z x s1 s2"
  shows "local_step tid c Z x s s2"
proof -
  obtain h g where 1: "s1 = s\<lparr>sp := (sp s)\<lparr>span_heap := h\<rparr>, thread_local_bin := g\<rparr>"
    "\<forall>y. y \<notin> Z \<longrightarrow> h y = span_at s y" "\<forall>y. y \<noteq> x \<longrightarrow> unlinked (h y) = unlinked (span_at s y)"
    "\<forall>t d. t \<noteq> tid \<or> d \<noteq> c \<longrightarrow> g t d = thread_local_bin s t d"
    using assms(1) unfolding local_step_def by blast
  obtain h' g' where 2: "s2 = s1\<lparr>sp := (sp s1)\<lparr>span_heap := h'\<rparr>, thread_local_bin := g'\<rparr>"
    "\<forall>y. y \<notin> Z \<longrightarrow> h' y = span_at s1 y" "\<forall>y. y \<noteq> x \<longrightarrow> unlinked (h' y) = unlinked (span_at s1 y)"
    "\<forall>t d. t \<noteq> tid \<or> d \<noteq> c \<longrightarrow> g' t d = thread_local_bin s1 t d"
    using assms(2) unfolding local_step_def by blast
  show ?thesis
    unfolding local_step_def using 1 2 by (intro exI [of _ h'] exI [of _ g']) simp
qed

lemma local_step_set_span: "x \<in> Z \<Longrightarrow> local_step tid c Z x s (set_span s x f)"
  unfolding local_step_def
  by (intro exI [of _ "span_heap (sp (set_span s x f))"] exI [of _ "thread_local_bin s"])
     (auto simp: set_span_def upd_span_def)

lemma push_links_skip:
  assumes "y \<noteq> x" "y \<noteq> head"
  shows "push_links h head x y = h y"
  using assms by (simp add: push_links_def Let_def)

lemma remove_links_skip:
  assumes "dlist h head xs" "x \<in> set xs" "y \<notin> set xs"
  shows "remove_links h x y = h y"
proof -
  obtain us vs where xs: "xs = us @ x # vs" using assms(2) by (auto simp: in_set_conv_decomp)
  obtain l where d: "distinct xs" "dseg h NULL head xs l NULL" using assms(1) by (auto simp: dlist_def)
  let ?pv = "prev_in_size_class_bin (h x)" and ?nx = "next_in_size_class_bin (h x)"
  from d(2) have s: "dseg h NULL head us ?pv x" "dseg h x ?nx vs l NULL"
    by (auto simp: xs dseg_append)
  have "?pv = NULL \<or> ?pv \<in> set us"
    using dseg_last [OF s(1)] s(1) by (cases "us = []") auto
  moreover have "?nx = NULL \<or> ?nx \<in> set vs" using dseg_first [OF s(2)] by (cases vs) auto
  ultimately have y: "y \<noteq> x" "?pv \<noteq> NULL \<Longrightarrow> y \<noteq> ?pv" "?nx \<noteq> NULL \<Longrightarrow> y \<noteq> ?nx"
    using assms(3) by (auto simp: xs)
  show ?thesis
    by (cases "?pv = NULL"; cases "?nx = NULL") (simp_all add: remove_links_def Let_def y)
qed

lemma bin_push_local:
  assumes "bin_push tid (int i) x s = Inr s'" "local_bin s tid i xs"
  shows "local_step tid i (insert x (set xs)) x s s'"
proof -
  have ok: "class_in_range (int i)" "valid_ptr x" using assms(1) by (auto simp: bin_push_def split: if_splits)
  let ?hd = "thread_local_bin s tid i"
  have hd: "?hd = NULL \<or> ?hd \<in> set xs"
    using dlist_head [OF assms(2) [unfolded local_bin_def]] by (cases xs) auto
  have s': "s' = set_local_bin (set_heap s (push_links (span_heap (sp s)) ?hd x)) tid i x"
    using assms(1) bin_push_eq [OF ok, of tid s] by simp
  have "push_links (span_heap (sp s)) ?hd x y = span_at s y" if "y \<notin> insert x (set xs)" for y
  proof (cases "?hd = NULL")
    case True
    then show ?thesis using that by (simp add: push_links_def Let_def)
  next
    case False
    then show ?thesis using that hd by (intro push_links_skip) auto
  qed
  then show ?thesis
    unfolding local_step_def s'
    by (intro exI [of _ "push_links (span_heap (sp s)) ?hd x"]
        exI [of _ "thread_local_bin (set_local_bin s tid i x)"])
       (auto simp: unlinked_push_links set_local_bin_def set_heap_def)
qed

lemma bin_remove_local:
  assumes "bin_remove tid (int i) x s = Inr s'" "local_bin s tid i xs" "x \<in> set xs"
  shows "local_step tid i (set xs) x s s'"
proof -
  have ok: "class_in_range (int i)" "valid_ptr x" using assms(1) by (auto simp: bin_remove_def split: if_splits)
  have s': "s' = set_heap (if prev_in_size_class_bin (span_at s x) = NULL
                   then set_local_bin s tid i (next_in_size_class_bin (span_at s x)) else s)
           (remove_links (span_heap (sp s)) x)"
    using assms(1) unfolding bin_remove_eq [OF ok] nat_int by simp
  note sk = remove_links_skip [OF assms(2) [unfolded local_bin_def] assms(3)]
  show ?thesis
    unfolding local_step_def s'
    by (intro exI [of _ "remove_links (span_heap (sp s)) x"]
        exI [of _ "thread_local_bin (if prev_in_size_class_bin (span_at s x) = NULL
                   then set_local_bin s tid i (next_in_size_class_bin (span_at s x)) else s)"])
       (auto simp: unlinked_remove_links set_local_bin_def set_heap_def sk)
qed

lemma local_step_other_bin:
  assumes "local_step tid c Z x s s'" "t \<noteq> tid \<or> d \<noteq> c" "set zs \<inter> Z = {}" "local_bin s t d zs"
  shows "local_bin s' t d zs"
proof -
  note f = local_step_frame [OF assms(1)]
  have "dlist (span_heap (sp s')) h zs = dlist (span_heap (sp s)) h zs" for h
    using f(4) assms(3) by (intro dlist_cong) (metis disjoint_iff)
  then show ?thesis using assms(4) f(6) [OF assms(2)] by (simp add: local_bin_def)
qed

section \<open>They keep the invariant\<close>

lemma used_span_update:
  assumes u: "used_span r d" "size_class_index d \<noteq> LARGE_CLASS_SIZE_INDEX"
    and e: "same_descr d e" "unlinked d' = unlinked e" "span_ok e"
  shows "used_span r d'" "same_area d d'" "size_class_index d' = size_class_index d"
proof -
  note f = same_descr_fields [OF e(1)] and g = unlinked_same [OF e(2)] and b = unlinked_blocks [OF e(2)]
  show "same_area d d'" by (simp add: same_area_def f g)
  show "size_class_index d' = size_class_index d" by (simp add: f g)
  show "used_span r d'"
    using u e(3) by (auto simp: used_span_def large_area_def class_area_def f g b)
qed

lemma heap_inv_local_step:
  assumes I: "heap_inv os E K U own s" and st: "local_step tid i Z x s s'" and i: "i < SIZE_CLASS_COUNT"
    and Z: "Z \<subseteq> {y \<in> U. own y = tid \<and> size_class_index (span_at s y) = int i}" "x \<in> Z"
    and x: "used_span (rt (sp s)) (span_at s' x)" "same_area (span_at s x) (span_at s' x)"
      "size_class_index (span_at s' x) = int i"
    and bin: "local_bin s' tid i xs"
      "set xs = {y \<in> U. own y = tid \<and> size_class_index (span_at s y) = int i \<and> free_set (span_at s' y) \<noteq> {}}"
  shows "heap_inv os E K U own s'"
proof -
  note f = local_step_frame [OF st]
  have xU: "x \<in> U" using Z by blast
  note J = heap_inv_span [OF I xU]
  have un: "unlinked (span_at s' y) = unlinked (span_at s y)" if "y \<noteq> x" for y using f(5) that by blast
  have ar: "same_area (span_at s y) (span_at s' y)" for y
    using x(2) unlinked_same [OF un, of y] by (cases "y = x") (auto simp: same_area_def)
  have nK: "span_at s' y = span_at s y" if "y \<in> cached_spans K" for y
    using f(4) [of y] Z that span_invD(5) [OF J] by blast
  have "span_inv os E K U (sp s')"
    by (rule span_inv_cong [OF J]) (simp_all add: f(7-12) ar nK)
  then have "layer_inv os E K U (sp s')" by (simp add: layer_inv_def)
  moreover have "used_span (rt (sp s')) (span_at s' y)" if "y \<in> U" for y
  proof (cases "y = x")
    case False
    note g = unlinked_same [OF un [OF False]] unlinked_blocks [OF un [OF False]]
    show ?thesis
      using heap_invD(4) [OF I that] f(8)
      by (simp add: used_span_def large_area_def class_area_def g)
  qed (use x(1) f(8) in simp)
  moreover have cl: "size_class_index (span_at s' y) = size_class_index (span_at s y)" if "y \<in> U" for y
    using x(3) Z(1,2) unlinked_same(4) [OF un, of y] by (cases "y = x") auto
  have "bins_owned U own s'"
    unfolding bins_owned_def
  proof (intro allI impI)
    fix t j assume j: "j < SIZE_CLASS_COUNT"
    obtain zs where zs: "local_bin s t j zs"
      "set zs = {y \<in> U. own y = t \<and> size_class_index (span_at s y) = int j \<and> free_set (span_at s y) \<noteq> {}}"
      by (rule bins_ownedD [OF heap_invD(3) [OF I] j])
    show "\<exists>xs. local_bin s' t j xs \<and>
        set xs = {y \<in> U. own y = t \<and> size_class_index (span_at s' y) = int j \<and> free_set (span_at s' y) \<noteq> {}}"
    proof (cases "t = tid \<and> j = i")
      case True
      have "set xs = {y \<in> U. own y = t \<and> size_class_index (span_at s' y) = int j \<and> free_set (span_at s' y) \<noteq> {}}"
        unfolding bin(2) using True cl by auto
      with bin(1) True show ?thesis by blast
    next
      case False
      then have "set zs \<inter> Z = {}" using zs(2) Z(1) by auto
      then have "local_bin s' t j zs" using local_step_other_bin [OF st _ _ zs(1)] False by blast
      moreover have "set zs = {y \<in> U. own y = t \<and> size_class_index (span_at s' y) = int j \<and>
          free_set (span_at s' y) \<noteq> {}}"
      proof -
        have "own y = t \<and> size_class_index (span_at s y) = int j \<and> free_set (span_at s y) \<noteq> {} \<longleftrightarrow>
            own y = t \<and> size_class_index (span_at s' y) = int j \<and> free_set (span_at s' y) \<noteq> {}"
          if "y \<in> U" for y
        proof (cases "y = x")
          case True
          then have "own y = tid" "size_class_index (span_at s y) = int i" using Z by auto
          then show ?thesis using False cl [OF that] by auto
        next
          case ne: False
          show ?thesis using unlinked_blocks(1) [OF un [OF ne]] cl [OF that] by simp
        qed
        then show ?thesis unfolding zs(2) by blast
      qed
      ultimately show ?thesis by blast
    qed
  qed
  ultimately show ?thesis using heap_invD(1) [OF I] f(2) by (simp add: heap_inv_def)
qed

text \<open>The blocks of the clients' heap with the thread that owns each.\<close>

definition tagged :: "nat \<Rightarrow> (ptr \<times> nat) set \<Rightarrow> (ptr \<times> nat \<times> nat) set" where
  "tagged t B = (\<lambda>(p, n). (p, n, t)) ` B"

definition owned :: "ptr set \<Rightarrow> (ptr \<Rightarrow> nat) \<Rightarrow> cm_state \<Rightarrow> (ptr \<times> nat \<times> nat) set" where
  "owned U own s = (\<Union>x \<in> U. tagged (own x) (live_blocks (span_at s x)))"

lemma tagged_simps [simp]:
  "tagged t {} = {}" "tagged t (insert (p, n) B) = insert (p, n, t) (tagged t B)"
  "(p, n, u) \<in> tagged t B \<longleftrightarrow> u = t \<and> (p, n) \<in> B" "tagged t (B \<union> C) = tagged t B \<union> tagged t C"
  by (auto simp: tagged_def)

lemma owned_iff: "(p, n, t) \<in> owned U own s \<longleftrightarrow> (\<exists>x \<in> U. own x = t \<and> (p, n) \<in> live_blocks (span_at s x))"
  by (auto simp: owned_def)

lemma live_iff_owned: "(p, n) \<in> live U s \<longleftrightarrow> (\<exists>t. (p, n, t) \<in> owned U own s)"
  by (auto simp: live_def owned_iff)

lemma owned_local_step:
  assumes st: "local_step tid i Z x s s'" and x: "x \<in> U"
  shows "owned U own s' = (\<Union>y \<in> U - {x}. tagged (own y) (live_blocks (span_at s y))) \<union>
      tagged (own x) (live_blocks (span_at s' x))"
    "owned U own s = (\<Union>y \<in> U - {x}. tagged (own y) (live_blocks (span_at s y))) \<union>
      tagged (own x) (live_blocks (span_at s x))"
proof -
  have same: "live_blocks (span_at s' y) = live_blocks (span_at s y)" if "y \<noteq> x" for y
    by (rule live_blocks_cong) (rule local_step_frame(5) [OF st that])
  have "owned U own s' = (\<Union>y \<in> U - {x}. tagged (own y) (live_blocks (span_at s' y))) \<union>
      tagged (own x) (live_blocks (span_at s' x))"
    using x unfolding owned_def by blast
  also have "(\<Union>y \<in> U - {x}. tagged (own y) (live_blocks (span_at s' y))) =
      (\<Union>y \<in> U - {x}. tagged (own y) (live_blocks (span_at s y)))"
    using same by (intro SUP_cong) auto
  finally show "owned U own s' = (\<Union>y \<in> U - {x}. tagged (own y) (live_blocks (span_at s y))) \<union>
      tagged (own x) (live_blocks (span_at s' x))" .
  show "owned U own s = (\<Union>y \<in> U - {x}. tagged (own y) (live_blocks (span_at s y))) \<union>
      tagged (own x) (live_blocks (span_at s x))"
    using x unfolding owned_def by blast
qed

end
