(* ===== verification/HeapAlloc.thy ===== *)
theory HeapAlloc
  imports HeapSteps LargeSpans
begin

text \<open>
  \<open>cmalloc\<close> on every path - from the thread's bin, from a new span of the class, from a large
  span - keeps the invariant of the heap and adds one block to the client's heap.
\<close>

section \<open>New spans\<close>

lemma class_span_pages:
  assumes R: "runtime_ok r" and i: "i < SIZE_CLASS_COUNT"
  defines "pages \<equiv> drop_bit (cmalloc_page_shift r) (round_up_page r (SIZE_CLASS_SPAN_SIZE ! i))"
  shows "unat pages * 2 ^ cmalloc_page_shift r = unat (SIZE_CLASS_SPAN_SIZE ! i)"
    "0 < pages" "pages < MAX_BINNED_PAGES"
proof -
  let ?k = "cmalloc_page_shift r" and ?S = "unat (SIZE_CLASS_SPAN_SIZE ! i)"
  have k: "12 \<le> ?k" "?k \<le> 16" using page_shift_bounds [OF R] by simp_all
  have row: "65536 dvd ?S" "0 < ?S" "?S \<le> 1048576"
    using class_row [OF i] by (auto simp: class_row_ok_def)
  have "(2 :: nat) ^ ?k dvd 2 ^ 16" using k(2) by (rule le_imp_power_dvd)
  then have d: "2 ^ ?k dvd ?S" using row(1) by (auto intro: dvd_trans)
  then obtain c where c: "?S = c * 2 ^ ?k" by (metis dvd_div_mult_self)
  have ps: "unat (cmalloc_page_size r) = 2 ^ ?k" by (rule unat_page_size [OF R])
  have p16: "(2 :: nat) ^ ?k \<le> 2 ^ 16" using k(2) by (intro power_increasing) simp_all
  then have "?S + (2 ^ ?k - 1) < 2 ^ 64" using row(3) by simp
  then have "unat (round_up_page r (SIZE_CLASS_SPAN_SIZE ! i)) = (?S + (2 ^ ?k - 1)) div 2 ^ ?k * 2 ^ ?k"
    using round_up_page_value [OF R] by (simp add: ps Let_def)
  also have "(?S + (2 ^ ?k - 1)) div 2 ^ ?k = c"
  proof -
    have "(c * 2 ^ ?k + (2 ^ ?k - 1)) div 2 ^ ?k = c + (2 ^ ?k - 1) div (2 ^ ?k :: nat)"
      by (rule div_mult_self3) simp
    moreover have "(2 ^ ?k - 1) div (2 ^ ?k :: nat) = 0" by simp
    ultimately show ?thesis unfolding c by linarith
  qed
  finally have r: "unat (round_up_page r (SIZE_CLASS_SPAN_SIZE ! i)) = ?S" using c by simp
  then have u: "unat pages = c" unfolding pages_def unat_drop_bit using c by simp
  then show "unat pages * 2 ^ ?k = ?S" using c by simp
  have "0 < c" using c row(2) by (metis mult_0 gr0I less_not_refl)
  then show "0 < pages" using u by (simp add: word_less_nat_alt)
  have "unat pages \<le> 256" using u c by (intro class_pages_bound [OF R i]) simp
  then show "pages < MAX_BINNED_PAGES" by (simp add: word_less_nat_alt MAX_BINNED_PAGES_def)
qed

lemma describe_area:
  "span_base (describe_span c sz d) = span_base d" "page_count (describe_span c sz d) = page_count d"
  "next_in_uninitialized_bin (describe_span c sz d) = next_in_uninitialized_bin d"
  "is_initialized (describe_span c sz d)" "size_class_index (describe_span c sz d) = c"
  by (simp_all add: describe_span_def Let_def)

lemma span_inv_describe:
  assumes I: "span_inv os E K (insert x U) s" and d: "same_area (span_heap s x) d"
  shows "span_inv os E K (insert x U) (upd_span s x (\<lambda>_. d))"
proof -
  have "x \<notin> cached_spans K" using span_invD(5) [OF I] by blast
  then show ?thesis
    using d by (intro span_inv_cong [OF I]) (auto simp: upd_span_def same_area_def)
qed

lemma initialize_span_run:
  assumes "cmalloc_initialize_span os s c sz = Inr (x, s')"
  obtains s1 d where
    "alloc_span os s (if c = LARGE_CLASS_SIZE_INDEX then sz else SIZE_CLASS_SPAN_SIZE ! nat c) = Inr (x, s1)"
    "x \<noteq> NULL" "init_blocks (describe_span c sz (span_heap s1 x)) = Inr d" "s' = upd_span s1 x (\<lambda>_. d)"
  using assms by (auto simp: cmalloc_initialize_span_def elim!: bindr_InrE split: if_splits)

lemma initialize_class_law:
  assumes I: "layer_inv os E K U s" and i: "i < SIZE_CLASS_COUNT"
    and run: "cmalloc_initialize_span os s (int i) sz = Inr (x, s')"
  obtains E' K' where "span_inv os E' K' (insert x U) s'" "E \<subseteq> E'" "x \<notin> U" "rt s' = rt s"
    "\<And>y. y \<in> U \<Longrightarrow> same_user (span_heap s y) (span_heap s' y)"
    "span_ok (span_heap s' x)" "class_area (rt s) (span_heap s' x) i" "is_initialized (span_heap s' x)"
    "free_set (span_heap s' x) = {..<unat (SIZE_CLASS_BLOCK_COUNT ! i)}"
proof -
  note R = layer_inv_rt(1) [OF I]
  obtain s1 d where r0: "alloc_span os s (if int i = LARGE_CLASS_SIZE_INDEX then sz
        else SIZE_CLASS_SPAN_SIZE ! nat (int i)) = Inr (x, s1)" and x0: "x \<noteq> NULL"
    and r: "init_blocks (describe_span (int i) sz (span_heap s1 x)) = Inr d" "s' = upd_span s1 x (\<lambda>_. d)"
    by (rule initialize_span_run [OF run])
  have al: "alloc_span os s (SIZE_CLASS_SPAN_SIZE ! i) = Inr (x, s1)"
    using r0 class_index_nat [OF i] by simp
  note cp = class_span_pages [OF R i]
  let ?pages = "drop_bit (cmalloc_page_shift (rt s)) (round_up_page (rt s) (SIZE_CLASS_SPAN_SIZE ! i))"
  have nb: "MAX_BINNED_PAGES \<le> ?pages \<Longrightarrow> span_base (span_heap s1 x) \<noteq> MAP_FAILED" using cp(3) by simp
  obtain E' K' where J: "span_inv os E' K' (insert x U) s1" "E \<subseteq> E'" "x \<notin> U"
    "page_count (span_heap s1 x) = ?pages" "rt s1 = rt s"
    "\<And>y. y \<in> U \<Longrightarrow> same_user (span_heap s y) (span_heap s1 y)"
    using alloc_span_law [OF I refl cp(2) al x0 nb] by metis
  note D = index_invD [OF span_invD(3) [OF J(1)]]
  have "placed (rt s1) E' (span_heap s1 x)" using D(3) by blast
  note pb = placed_bounds(1) [OF D(1) this span_invD(1) [OF J(1)], unfolded J(4,5) cp(1)]
  then have "unat (span_base (span_heap s1 x)) + unat (SIZE_CLASS_SPAN_SIZE ! i) < 2 ^ 64" by simp
  from fresh_class_span [OF i this, of sz] r(1)
  have d: "span_ok d" "free_set d = {..<unat (SIZE_CLASS_BLOCK_COUNT ! i)}"
    "block_count d = SIZE_CLASS_BLOCK_COUNT ! i" "block_size d = SIZE_CLASSES ! i"
    "same_descr (describe_span (int i) sz (span_heap s1 x)) d"
    unfolding fresh_span_def by auto
  note f = same_descr_fields [OF d(5)]
  have "same_area (span_heap s1 x) d" by (simp add: same_area_def f describe_area)
  then have K: "span_inv os E' K' (insert x U) s'" unfolding r(2) by (rule span_inv_describe [OF J(1)])
  have s': "span_heap s' x = d" "rt s' = rt s" "y \<noteq> x \<Longrightarrow> span_heap s' y = span_heap s1 y" for y
    by (simp_all add: r(2) upd_span_def J(5))
  have ca: "class_area (rt s) d i"
    using i d cp(1) by (simp add: class_area_def f describe_area J(4))
  show thesis
  proof (rule that [OF K J(2,3)])
    show "same_user (span_heap s y) (span_heap s' y)" if "y \<in> U" for y
    proof -
      have "y \<noteq> x" using that J(3) by blast
      then show ?thesis using J(6) [OF that] by (simp add: s'(3))
    qed
  qed (use d s' ca f in \<open>simp_all add: describe_area\<close>)
qed


text \<open>A large span: a request within a page of \<open>2 ^ 64\<close> would wrap in \<open>round_up_page\<close>.\<close>

lemma large_span_pages:
  assumes R: "runtime_ok r" and sz: "unat sz + unat (cmalloc_page_size r) \<le> 2 ^ 64" "sz \<noteq> 0"
  defines "pages \<equiv> drop_bit (cmalloc_page_shift r) (round_up_page r sz)"
  shows "unat sz \<le> unat pages * 2 ^ cmalloc_page_shift r" "0 < pages"
proof -
  let ?ps = "2 ^ cmalloc_page_shift r :: nat"
  have ps: "unat (cmalloc_page_size r) = ?ps" "1 \<le> ?ps" using unat_page_size [OF R] by simp_all
  then have "unat sz + (?ps - 1) < 2 ^ 64" using sz(1) by linarith
  then have u: "unat (round_up_page r sz) = (unat sz + (?ps - 1)) div ?ps * ?ps"
    using round_up_page_value [OF R] by (simp add: ps(1) Let_def)
  have p: "unat pages = (unat sz + (?ps - 1)) div ?ps"
    unfolding pages_def unat_drop_bit u by simp
  have m: "(unat sz + (?ps - 1)) mod ?ps < ?ps" using ps(2) by (intro mod_less_divisor) linarith
  have "(unat sz + (?ps - 1)) div ?ps * ?ps + (unat sz + (?ps - 1)) mod ?ps = unat sz + (?ps - 1)"
    by (rule div_mult_mod_eq)
  with m ps(2) show le: "unat sz \<le> unat pages * ?ps" unfolding p by linarith
  have "0 < unat sz" using sz(2) by (simp add: unat_gt_0)
  with le have "unat pages \<noteq> 0" by (metis less_le_trans mult_0 not_less_zero)
  then show "0 < pages" by (simp add: word_less_nat_alt)
qed

lemma initialize_large_law:
  assumes I: "layer_inv os E K U s"
    and sz: "MAX_SIZE_CLASS < sz" "unat sz + unat (cmalloc_page_size (rt s)) \<le> 2 ^ 64"
    and run: "cmalloc_initialize_span os s LARGE_CLASS_SIZE_INDEX sz = Inr (x, s')"
    and ok: "span_base (span_heap s' x) \<noteq> MAP_FAILED"
  obtains E' K' where "span_inv os E' K' (insert x U) s'" "E \<subseteq> E'" "x \<notin> U" "rt s' = rt s"
    "\<And>y. y \<in> U \<Longrightarrow> same_user (span_heap s y) (span_heap s' y)"
    "span_ok (span_heap s' x)" "large_area (rt s) (span_heap s' x)" "is_initialized (span_heap s' x)"
    "free_set (span_heap s' x) = {0}" "block_size (span_heap s' x) = sz"
proof -
  note R = layer_inv_rt(1) [OF I]
  let ?pages = "drop_bit (cmalloc_page_shift (rt s)) (round_up_page (rt s) sz)"
  have s0: "sz \<noteq> 0" using sz(1) by auto
  note lp = large_span_pages [OF R sz(2) s0]
  obtain s1 d where r0: "alloc_span os s sz = Inr (x, s1)" and x0: "x \<noteq> NULL"
    and r: "init_blocks (describe_span LARGE_CLASS_SIZE_INDEX sz (span_heap s1 x)) = Inr d"
      "s' = upd_span s1 x (\<lambda>_. d)"
    by (rule initialize_span_run [OF run]) simp
  obtain d' where "init_blocks (describe_span LARGE_CLASS_SIZE_INDEX sz (span_heap s1 x)) = Inr d'"
    "same_descr (describe_span LARGE_CLASS_SIZE_INDEX sz (span_heap s1 x)) d'" "blocks_ok d'"
    "free_set d' = {0}" by (rule init_large_span [OF s0])
  with r(1) have d: "same_descr (describe_span LARGE_CLASS_SIZE_INDEX sz (span_heap s1 x)) d"
    "blocks_ok d" "free_set d = {0}" by simp_all
  note f = same_descr_fields [OF d(1)] describe_area describe_large_fields
  have c1: "block_count d = 1" by (simp add: f) (simp add: describe_span_def Let_def)
  have s': "span_heap s' x = d" "y \<noteq> x \<Longrightarrow> span_heap s' y = span_heap s1 y" for y
    by (simp_all add: r(2) upd_span_def)
  have nb: "span_base (span_heap s1 x) \<noteq> MAP_FAILED" using ok by (simp add: s' f)
  obtain E' K' where J: "span_inv os E' K' (insert x U) s1" "E \<subseteq> E'" "x \<notin> U"
    "page_count (span_heap s1 x) = ?pages" "rt s1 = rt s"
    "\<And>y. y \<in> U \<Longrightarrow> same_user (span_heap s y) (span_heap s1 y)"
    using alloc_span_law [OF I refl lp(2) r0 x0 nb] by metis
  have rt': "rt s' = rt s" by (simp add: r(2) upd_span_def J(5))
  note D = index_invD [OF span_invD(3) [OF J(1)]]
  have "placed (rt s1) E' (span_heap s1 x)" using D(3) by blast
  note pb = placed_bounds(1) [OF D(1) this span_invD(1) [OF J(1)], unfolded J(4,5)]
  have "span_geometry d"
    using pb lp(1) s0 by (simp add: span_geometry_def c1 f MAX_SPAN_BLOCK_COUNT_def unat_gt_0)
  then have ok': "span_ok d" using d(2) by (simp add: span_ok_def)
  have "same_area (span_heap s1 x) d" by (simp add: same_area_def f)
  then have K: "span_inv os E' K' (insert x U) s'" unfolding r(2) by (rule span_inv_describe [OF J(1)])
  have la: "large_area (rt s) d" using lp(1) sz(1) by (simp add: large_area_def c1 f J(4))
  show thesis
  proof (rule that [OF K J(2,3) rt'])
    show "same_user (span_heap s y) (span_heap s' y)" if "y \<in> U" for y
    proof -
      have "y \<noteq> x" using that J(3) by blast
      then show ?thesis using J(6) [OF that] by (simp add: s'(2))
    qed
  qed (use d ok' s' la in \<open>simp_all add: f\<close>)
qed

end
