(* ===== verification/HeapMalloc.thy ===== *)
theory HeapMalloc
  imports HeapAlloc
begin

text \<open>
  \<open>cmalloc\<close> on every path - from the thread's bin, from a new span of the class, from a large
  span - keeps the invariant of the heap and adds one block to the client's heap.
\<close>

section \<open>A block of a span in the thread's bin\<close>

lemma cmalloc_bin_local:
  assumes cls: "get_size_class_index (rt (sp s)) sz = int i" "i < SIZE_CLASS_COUNT"
    and bin: "local_bin s tid i (x # xs)" and run: "cmalloc os tid sz s = Inr (p, s')"
  shows "local_step tid i (set (x # xs)) x s s'"
proof -
  have hd: "thread_local_bin s tid i = x" "x \<noteq> NULL"
    using dlist_head [OF bin [unfolded local_bin_def]] dlist_valid [OF bin [unfolded local_bin_def]]
    by auto
  let ?step = "if free_count (span_at s x) = 1 then bin_remove tid (int i) x s else Inr s"
  have "cmalloc os tid sz s = bindr ?step (take_block x)"
    using cls class_index_nat [OF cls(2)] hd by (simp add: cmalloc_def Let_def)
  with run have "bindr ?step (take_block x) = Inr (p, s')" by simp
  then obtain s1 where s1: "?step = Inr s1" "take_block x s1 = Inr (p, s')" by (rule bindr_InrE)
  have "local_step tid i (set (x # xs)) x s s1"
  proof (cases "free_count (span_at s x) = 1")
    case True
    then have "bin_remove tid (int i) x s = Inr s1" using s1(1) by simp
    from bin_remove_local [OF this bin] show ?thesis by simp
  next
    case False
    then show ?thesis using s1(1) by (simp add: local_step_refl)
  qed
  moreover have "local_step tid i (set (x # xs)) x s1 s'"
  proof -
    obtain d where "s' = set_span s1 x (\<lambda>_. d)"
      using s1(2) by (auto simp: take_block_def elim!: bindr_InrE split: if_splits)
    then show ?thesis using local_step_set_span [of x "set (x # xs)" tid i s1] by simp
  qed
  ultimately show ?thesis by (rule local_step_trans)
qed

lemma local_bin_cases:
  assumes "local_bin s tid i xs"
  obtains (empty) "xs = []" "thread_local_bin s tid i = NULL"
    | (span) x ys where "xs = x # ys" "thread_local_bin s tid i = x" "x \<noteq> NULL" "x \<notin> set ys"
proof (cases xs)
  case Nil
  then show thesis using dlist_head [OF assms [unfolded local_bin_def]] by (intro empty) simp_all
next
  case (Cons x ys)
  have "thread_local_bin s tid i = x" using dlist_head [OF assms [unfolded local_bin_def]] Cons by simp
  moreover have "x \<noteq> NULL" using dlist_valid [OF assms [unfolded local_bin_def]] Cons by auto
  moreover have "x \<notin> set ys" using assms Cons by (simp add: local_bin_def dlist_def)
  ultimately show thesis using Cons by (intro span)
qed

lemma cmalloc_bin_law:
  assumes I: "heap_inv os E K U own s"
    and cls: "get_size_class_index (rt (sp s)) sz = int i" "i < SIZE_CLASS_COUNT"
    and ne: "thread_local_bin s tid i \<noteq> NULL"
  obtains p s' where "cmalloc os tid sz s = Inr (p, s')" "heap_inv os E K U own s'"
    "owned U own s' = insert (p, unat (SIZE_CLASSES ! i), tid) (owned U own s)"
    "(p, unat (SIZE_CLASSES ! i)) \<notin> live U s" "mem s' = mem s"
    "\<forall>y. block_size (span_at s' y) = block_size (span_at s y)"
proof -
  obtain zs where zs: "local_bin s tid i zs"
    "set zs = {x \<in> U. own x = tid \<and> size_class_index (span_at s x) = int i \<and> free_set (span_at s x) \<noteq> {}}"
    by (rule bins_ownedD [OF heap_invD(3) [OF I] cls(2)])
  from zs(1) obtain x xs where x: "zs = x # xs" "x \<notin> set xs"
    by (cases rule: local_bin_cases) (use ne in auto)
  have bin: "local_bin s tid i (x # xs)" using zs(1) x(1) by simp
  have xU: "x \<in> U" "own x = tid" "size_class_index (span_at s x) = int i" "free_set (span_at s x) \<noteq> {}"
    using zs(2) x(1) by auto
  note u = heap_invD(4) [OF I xU(1)]
  then have ok: "span_ok (span_at s x)" by (simp add: used_span_def)
  let ?F = "free_set (span_at s x)" and ?n = "unat (SIZE_CLASSES ! i)"
  let ?p = "block_addr (span_at s x) (Min ?F)"
  obtain s' e where s': "cmalloc os tid sz s = Inr (?p, s')"
    "local_bin s' tid i (if card ?F = 1 then xs else x # xs)" "span_ok (span_at s' x)"
    "free_set (span_at s' x) = ?F - {Min ?F}" "mem s' = mem s"
    "same_descr (span_at s x) e" "unlinked (span_at s' x) = unlinked e"
    by (rule cmalloc_bin_path [OF cls bin ok xU(4), of os]) blast
  note st = cmalloc_bin_local [OF cls bin s'(1)]
  have nl: "size_class_index (span_at s x) \<noteq> LARGE_CLASS_SIZE_INDEX"
    using xU(3) class_index_nat [OF cls(2)] by simp
  note ub = unlinked_blocks [OF s'(7)]
  have e: "span_ok e" "free_set e = ?F - {Min ?F}" using s'(3,4) ub by simp_all
  note us = used_span_update [OF u nl s'(6,7) e(1)]
  have finF: "finite ?F" using ok by (auto simp: span_ok_def blocks_ok_def intro: finite_subset)
  have one: "?F - {Min ?F} = {} \<longleftrightarrow> card ?F = 1"
    using xU(4) Min_in [OF finF xU(4)] finF by (auto simp: card_1_singleton_iff)
  let ?ys = "if card ?F = 1 then xs else x # xs"
  have sets: "set ?ys = {y \<in> U. own y = tid \<and> size_class_index (span_at s y) = int i \<and>
      free_set (span_at s' y) \<noteq> {}}" (is "_ = ?R")
  proof (rule set_eqI)
    fix y
    show "y \<in> set ?ys \<longleftrightarrow> y \<in> ?R"
    proof (cases "y = x")
      case True
      then show ?thesis using x(2) one s'(4) xU(1-3) by auto
    next
      case False
      then have "y \<in> set ?ys \<longleftrightarrow> y \<in> set zs" using x(1) by auto
      moreover have "free_set (span_at s' y) = free_set (span_at s y)"
        using unlinked_blocks(1) [OF local_step_frame(5) [OF st False]] by simp
      ultimately show ?thesis unfolding zs(2) by simp
    qed
  qed
  have I': "heap_inv os E K U own s'"
    by (rule heap_inv_local_step [OF I st cls(2) _ _ us(1,2) _ s'(2) sets])
       (use zs(2) x(1) us(3) xU(3) in auto)
  have bs: "unat (block_size (span_at s x)) = ?n"
    using u xU(3) nl by (auto simp: used_span_def large_area_def class_area_def)
  note lb = live_blocks_take [OF ok s'(6) Min_in [OF finF xU(4)] e(2), unfolded bs]
  have lc: "live_blocks (span_at s' x) = live_blocks e" by (rule live_blocks_cong) (rule s'(7))
  note ow = owned_local_step [OF st xU(1), of own, unfolded xU(2) lc lb(1)]
  have new: "(?p, ?n) \<notin> live_blocks (span_at s y)" if y: "y \<in> U - {x}" for y
  proof
    assume "(?p, ?n) \<in> live_blocks (span_at s y)"
    moreover have "live_blocks (span_at s' y) = live_blocks (span_at s y)"
      using y by (intro live_blocks_cong local_step_frame(5) [OF st]) blast
    moreover have "(?p, ?n) \<in> live_blocks (span_at s' x)" using lb(1) lc by simp
    ultimately show False using same_block_same_span [OF I', of x _ _ y] xU(1) y by auto
  qed
  have "owned U own s' = insert (?p, ?n, tid) (owned U own s)"
    unfolding ow(1) by (subst ow(2)) auto
  moreover have "(?p, ?n) \<notin> live U s" using lb(2) new unfolding live_def by blast
  moreover have "block_size (span_at s' y) = block_size (span_at s y)" for y
    using unlinked_same(5) [OF local_step_frame(5) [OF st]] unlinked_same(5) [OF s'(7)]
      same_descr_fields [OF s'(6)] by (cases "y = x") simp_all
  ultimately show thesis by (intro that [OF s'(1) I' _ _ s'(5)]) blast+
qed


section \<open>A new span\<close>

lemma same_user_used:
  assumes "same_user d e"
  shows "used_span r e = used_span r d" "live_blocks e = live_blocks d" "free_set e = free_set d"
proof -
  note f = same_user_reads [OF assms]
  show fs: "free_set e = free_set d" by (simp add: free_set_def f)
  have "block_addr e = block_addr d" by (simp add: block_addr_def f fun_eq_iff)
  then show "live_blocks e = live_blocks d" by (simp add: live_blocks_def f fs)
  have "span_ok e = span_ok d" by (simp add: span_ok_def blocks_ok_def span_geometry_def f fs)
  then show "used_span r e = used_span r d"
    by (simp add: used_span_def large_area_def class_area_def f fs)
qed

lemma heap_inv_new_span:
  assumes I: "heap_inv os E K U own s"
    and J: "span_inv os E' K' (insert x U) (sp s')" "x \<notin> U" "rt (sp s') = rt (sp s)" "lock s' = None"
    and users: "\<And>y. y \<in> U \<Longrightarrow> same_user (span_at s y) (span_at s' y)"
    and new: "used_span (rt (sp s)) (span_at s' x)"
    and bins: "\<And>t j zs. j < SIZE_CLASS_COUNT \<Longrightarrow> local_bin s t j zs \<Longrightarrow> set zs \<subseteq> U \<Longrightarrow>
      \<exists>ys. local_bin s' t j ys \<and> set ys = set zs \<union>
        {y. y = x \<and> t = tid \<and> size_class_index (span_at s' x) = int j \<and> free_set (span_at s' x) \<noteq> {}}"
  shows "heap_inv os E' K' (insert x U) (own(x := tid)) s'"
    "owned (insert x U) (own(x := tid)) s' = owned U own s \<union> tagged tid (live_blocks (span_at s' x))"
proof -
  have ow: "(own(x := tid)) y = own y" if "y \<in> U" for y using that J(2) by auto
  have "layer_inv os E' K' (insert x U) (sp s')" using J(1) by (simp add: layer_inv_def)
  moreover have "used_span (rt (sp s')) (span_at s' y)" if "y \<in> insert x U" for y
    using that new heap_invD(4) [OF I] same_user_used(1) [OF users] by (auto simp: J(3))
  moreover have "bins_owned (insert x U) (own(x := tid)) s'"
    unfolding bins_owned_def
  proof (intro allI impI)
    fix t j assume j: "j < SIZE_CLASS_COUNT"
    obtain zs where zs: "local_bin s t j zs"
      "set zs = {y \<in> U. own y = t \<and> size_class_index (span_at s y) = int j \<and> free_set (span_at s y) \<noteq> {}}"
      by (rule bins_ownedD [OF heap_invD(3) [OF I] j])
    then have "set zs \<subseteq> U" by blast
    from bins [OF j zs(1) this] obtain ys where ys: "local_bin s' t j ys" "set ys = set zs \<union>
        {y. y = x \<and> t = tid \<and> size_class_index (span_at s' x) = int j \<and> free_set (span_at s' x) \<noteq> {}}"
      by blast
    have "y \<in> set ys \<longleftrightarrow> y \<in> insert x U \<and> (own(x := tid)) y = t \<and>
        size_class_index (span_at s' y) = int j \<and> free_set (span_at s' y) \<noteq> {}" for y
    proof (cases "y \<in> U")
      case True
      then have "y \<noteq> x" using J(2) by blast
      with True show ?thesis
        using same_user_reads(5) [OF users [OF True]] same_user_used(3) [OF users [OF True]]
        by (simp add: ys(2) zs(2))
    next
      case False
      then show ?thesis by (auto simp: ys(2) zs(2))
    qed
    with ys(1) show "\<exists>xs. local_bin s' t j xs \<and> set xs = {y \<in> insert x U. (own(x := tid)) y = t \<and>
        size_class_index (span_at s' y) = int j \<and> free_set (span_at s' y) \<noteq> {}}"
      by (intro exI [of _ ys]) blast
  qed
  ultimately show "heap_inv os E' K' (insert x U) (own(x := tid)) s'"
    using J(4) by (simp add: heap_inv_def)
  have "(\<Union>y \<in> U. tagged ((own(x := tid)) y) (live_blocks (span_at s' y))) = owned U own s"
    unfolding owned_def using ow same_user_used(2) [OF users] by (intro SUP_cong) auto
  then show "owned (insert x U) (own(x := tid)) s' = owned U own s \<union> tagged tid (live_blocks (span_at s' x))"
    unfolding owned_def by (simp add: Un_commute)
qed

text \<open>The thread's bins after the new span's descriptor is written.\<close>

lemma local_bin_new_span:
  assumes "local_bin s t j zs" "set zs \<subseteq> U" "thread_local_bin s' t j = thread_local_bin s t j"
    and "\<And>y. y \<in> U \<Longrightarrow> same_user (span_at s y) (span_at s' y)"
  shows "local_bin s' t j zs"
proof -
  have "dlist (span_heap (sp s')) h zs = dlist (span_heap (sp s)) h zs" for h
    using same_user_reads(11,12) [OF assms(4)] assms(2) by (intro dlist_cong) blast
  then show ?thesis using assms(1,3) by (simp add: local_bin_def)
qed

lemma locked_initialize_run:
  assumes "locked_initialize_span os tid c sz s = Inr (x, s')"
  obtains t where "lock s = None" "cmalloc_initialize_span os (sp s) c sz = Inr (x, t)"
    "s' = s\<lparr>lock := None, sp := t\<rparr>"
  using assms
  by (auto simp: locked_initialize_span_def pthread_mutex_lock_def pthread_mutex_unlock_def
      elim!: bindr_InrE split: if_splits)


lemma class_area_used:
  assumes "span_ok d" "is_initialized d" "class_area r d i"
  shows "used_span r d" "size_class_index d = int i"
  using assms by (auto simp: used_span_def class_area_def)

lemma class_span_enters:
  assumes I: "heap_inv os E K U own s"
    and cls: "get_size_class_index (rt (sp s)) sz = int i" "i < SIZE_CLASS_COUNT"
    and emp: "thread_local_bin s tid i = NULL" and run: "cmalloc os tid sz s = Inr r"
  obtains E' K' x s2 where "heap_inv os E' K' (insert x U) (own(x := tid)) s2" "E \<subseteq> E'" "x \<notin> U"
    "owned (insert x U) (own(x := tid)) s2 = owned U own s" "cmalloc os tid sz s2 = Inr r"
    "thread_local_bin s2 tid i \<noteq> NULL" "rt (sp s2) = rt (sp s)" "mem s2 = mem s"
    "\<forall>y \<in> U. block_size (span_at s2 y) = block_size (span_at s y)"
proof -
  have "bindr (locked_initialize_span os tid (int i) sz s) (\<lambda>(span, s).
      bindr (bin_push tid (int i) span s) (take_block span)) = Inr r"
    using run cls class_index_nat [OF cls(2)] emp by (simp add: cmalloc_def Let_def)
  then obtain x s1 s2 where r: "locked_initialize_span os tid (int i) sz s = Inr (x, s1)"
    "bin_push tid (int i) x s1 = Inr s2" "take_block x s2 = Inr r"
    by (auto elim!: bindr_InrE)
  obtain t where t: "lock s = None" "cmalloc_initialize_span os (sp s) (int i) sz = Inr (x, t)"
    "s1 = s\<lparr>lock := None, sp := t\<rparr>"
    by (rule locked_initialize_run [OF r(1)])
  obtain E' K' where J: "span_inv os E' K' (insert x U) t" "E \<subseteq> E'" "x \<notin> U" "rt t = rt (sp s)"
    "\<And>y. y \<in> U \<Longrightarrow> same_user (span_at s y) (span_heap t y)"
    "span_ok (span_heap t x)" "class_area (rt (sp s)) (span_heap t x) i" "is_initialized (span_heap t x)"
    "free_set (span_heap t x) = {..<unat (SIZE_CLASS_BLOCK_COUNT ! i)}"
    using initialize_class_law [OF heap_invD(2) [OF I] cls(2) t(2)] by metis
  have s1: "sp s1 = t" "thread_local_bin s1 = thread_local_bin s" "lock s1 = None" "mem s1 = mem s"
    by (simp_all add: t(3))
  have nul: "local_bin s1 tid i []" by (simp add: local_bin_def dlist_def s1 emp)
  note st = bin_push_local [OF r(2) nul]
  then have st: "local_step tid i {x} x s1 s2" by simp
  note f = local_step_frame [OF st]
  have vx: "valid_ptr x" using r(2) by (auto simp: bin_push_def split: if_splits)
  obtain s2' where "bin_push tid (int i) x s1 = Inr s2'" "local_bin s2' tid i [x]"
    using thread_bin.push_law [of "int i" s1 tid "[]" x] nul class_of_nat(1) [OF cls(2)] vx by auto
  with r(2) have bx: "local_bin s2 tid i [x]" by simp
  have ux: "unlinked (span_at s2 x) = unlinked (span_at s1 x)"
    by (rule bin_step_frame(9) [OF bin_push_step [OF r(2)]])
  have us: "same_user (span_at s y) (span_at s2 y)" if "y \<in> U" for y
  proof -
    have "y \<noteq> x" using that J(3) by blast
    then show ?thesis using J(5) [OF that] f(4) [of y] by (simp add: s1)
  qed
  have ar: "same_area (span_heap t y) (span_at s2 y)" for y
    using unlinked_used(2) [OF ux] f(4) [of y] by (cases "y = x") (auto simp: s1 same_area_def)
  have nK: "span_at s2 y = span_heap t y" if "y \<in> cached_spans K'" for y
    using f(4) [of y] that span_invD(5) [OF J(1)] by (auto simp: s1)
  have K2: "span_inv os E' K' (insert x U) (sp s2)"
    by (rule span_inv_cong [OF J(1)]) (simp_all add: f(7-12) ar nK s1)
  note cu = class_area_used [OF J(6,8,7)]
  have x2: "used_span (rt (sp s)) (span_at s2 x)" "size_class_index (span_at s2 x) = int i"
    "free_set (span_at s2 x) = {..<unat (SIZE_CLASS_BLOCK_COUNT ! i)}"
    using cu J(9) unlinked_used [OF ux] by (simp_all add: s1)
  have n32: "32 \<le> unat (SIZE_CLASS_BLOCK_COUNT ! i)" using class_row [OF cls(2)] by (simp add: class_row_ok_def)
  have bins: "\<exists>ys. local_bin s2 u j ys \<and> set ys = set zs \<union>
        {y. y = x \<and> u = tid \<and> size_class_index (span_at s2 x) = int j \<and> free_set (span_at s2 x) \<noteq> {}}"
    if j: "j < SIZE_CLASS_COUNT" and zs: "local_bin s u j zs" "set zs \<subseteq> U" for u j zs
  proof (cases "u = tid \<and> j = i")
    case True
    from zs(1) have "zs = []" by (cases rule: local_bin_cases) (use True emp in auto)
    moreover have "free_set (span_at s2 x) \<noteq> {}" using x2(3) n32 by (auto simp: lessThan_empty_iff)
    ultimately show ?thesis using True bx x2 by (intro exI [of _ "[x]"]) auto
  next
    case False
    have "local_bin s1 u j zs"
      by (rule local_bin_new_span [OF zs]) (simp_all add: s1 J(5))
    moreover have "set zs \<inter> {x} = {}" using zs(2) J(3) by blast
    ultimately have "local_bin s2 u j zs" using local_step_other_bin [OF st] False by blast
    moreover have "\<not> (u = tid \<and> size_class_index (span_at s2 x) = int j)" using False x2(2) by auto
    ultimately show ?thesis by (intro exI [of _ zs]) auto
  qed
  note H = heap_inv_new_span [OF I K2 J(3) _ _ us x2(1) bins]
  have rt2: "rt (sp s2) = rt (sp s)" "lock s2 = None" using f J(4) s1 by simp_all
  have bc: "block_count (span_at s2 x) = SIZE_CLASS_BLOCK_COUNT ! i"
    using J(7) unlinked_same [OF ux] by (simp add: class_area_def s1)
  have "live_blocks (span_at s2 x) = {}" by (auto simp: live_blocks_def x2(3) bc)
  then have ow: "owned (insert x U) (own(x := tid)) s2 = owned U own s" using H(2) [OF rt2] by simp
  have hd: "thread_local_bin s2 tid i = x" using dlist_head [OF bx [unfolded local_bin_def]] by simp
  have "unat (free_count (span_at s2 x)) = unat (SIZE_CLASS_BLOCK_COUNT ! i)"
    using x2(1,3) by (simp add: used_span_def span_ok_def blocks_ok_def)
  then have "free_count (span_at s2 x) \<noteq> 1" using n32 by auto
  moreover have "x \<noteq> NULL" using vx by auto
  ultimately have "cmalloc os tid sz s2 = Inr r"
    using r(3) cls class_index_nat [OF cls(2)] hd rt2 by (simp add: cmalloc_def Let_def)
  moreover have "thread_local_bin s2 tid i \<noteq> NULL" using hd vx by auto
  moreover have "mem s2 = mem s" using f(3) s1(4) by simp
  moreover have "\<forall>y \<in> U. block_size (span_at s2 y) = block_size (span_at s y)"
    using same_user_reads(6) [OF us] by blast
  ultimately show thesis by (intro that [OF H(1) [OF rt2] J(2,3) ow _ _ rt2(1)])
qed


text \<open>\<open>cmalloc\<close> for a size class, with or without a span in the bin.\<close>

lemma cmalloc_class_law:
  assumes I: "heap_inv os E K U own s"
    and cls: "get_size_class_index (rt (sp s)) sz = int i" "i < SIZE_CLASS_COUNT"
    and run: "cmalloc os tid sz s = Inr (p, s')"
  obtains E' K' U' own' where "heap_inv os E' K' U' own' s'" "E \<subseteq> E'"
    "owned U' own' s' = insert (p, unat (SIZE_CLASSES ! i), tid) (owned U own s)"
    "\<And>t. (p, unat (SIZE_CLASSES ! i), t) \<notin> owned U own s" "rt (sp s') = rt (sp s)" "mem s' = mem s"
    "\<forall>y \<in> U. block_size (span_at s' y) = block_size (span_at s y)"
proof -
  note result = that
  have fast: thesis
    if J: "heap_inv os E' K' U' own' s2" "E \<subseteq> E'" "owned U' own' s2 = owned U own s"
      "cmalloc os tid sz s2 = Inr (p, s')" "thread_local_bin s2 tid i \<noteq> NULL"
      "rt (sp s2) = rt (sp s)" "mem s2 = mem s"
      "\<forall>y \<in> U. block_size (span_at s2 y) = block_size (span_at s y)" for E' K' U' own' s2
  proof -
    note cls2 = cls [folded J(6)]
    obtain xs where xs: "local_bin s2 tid i xs"
      by (rule bins_ownedD [OF heap_invD(3) [OF J(1)] cls(2)])
    then obtain x ys where "xs = x # ys" by (cases rule: local_bin_cases) (use J(5) in auto)
    then have "local_step tid i (set (x # ys)) x s2 s'"
      using cmalloc_bin_local [OF cls2 _ J(4)] xs by blast
    then have rt': "rt (sp s') = rt (sp s)" using local_step_frame(8) J(6) by metis
    obtain q t where q: "cmalloc os tid sz s2 = Inr (q, t)" "heap_inv os E' K' U' own' t"
      "owned U' own' t = insert (q, unat (SIZE_CLASSES ! i), tid) (owned U' own' s2)"
      "(q, unat (SIZE_CLASSES ! i)) \<notin> live U' s2" "mem t = mem s2"
      "\<forall>y. block_size (span_at t y) = block_size (span_at s2 y)"
      by (rule cmalloc_bin_law [OF J(1) cls2 J(5)])
    then have e: "q = p" "t = s'" using J(4) by simp_all
    have "(p, unat (SIZE_CLASSES ! i), u) \<notin> owned U own s" for u
      using q(4) unfolding live_iff_owned [where own = own'] J(3) e by blast
    then show thesis
      using q J rt' unfolding e by (intro result [of E' K' U' own']) simp_all
  qed
  show thesis
  proof (cases "thread_local_bin s tid i = NULL")
    case False
    then show thesis by (intro fast [OF I _ _ run]) simp_all
  next
    case True
    show thesis by (rule class_span_enters [OF I cls True run]) (rule fast)
  qed
qed

section \<open>A large block\<close>

lemma cmalloc_large_law:
  assumes I: "heap_inv os E K U own s"
    and sz: "MAX_SIZE_CLASS < sz" "unat sz + unat (cmalloc_page_size (rt (sp s))) \<le> 2 ^ 64"
    and run: "cmalloc os tid sz s = Inr (p, s')" and p: "p \<noteq> MAP_FAILED"
  obtains E' K' U' own' where "heap_inv os E' K' U' own' s'" "E \<subseteq> E'"
    "owned U' own' s' = insert (p, unat sz, tid) (owned U own s)"
    "\<And>t. (p, unat sz, t) \<notin> owned U own s" "rt (sp s') = rt (sp s)" "mem s' = mem s"
    "\<forall>y \<in> U. block_size (span_at s' y) = block_size (span_at s y)"
proof -
  have cl: "get_size_class_index (rt (sp s)) sz = LARGE_CLASS_SIZE_INDEX"
    using sz(1) by (simp add: get_size_class_index_def)
  obtain x s1 where r: "locked_initialize_span os tid LARGE_CLASS_SIZE_INDEX sz s = Inr (x, s1)"
    "take_block x s1 = Inr (p, s')"
    using run cl by (auto simp: cmalloc_def Let_def elim!: bindr_InrE)
  obtain t where t: "lock s = None" "cmalloc_initialize_span os (sp s) LARGE_CLASS_SIZE_INDEX sz = Inr (x, t)"
    "s1 = s\<lparr>lock := None, sp := t\<rparr>"
    by (rule locked_initialize_run [OF r(1)])
  have x1: "span_at s1 x = span_heap t x" by (simp add: t(3))
  have vx: "valid_ptr x" using r(2) by (auto simp: take_block_def split: if_splits)
  obtain d0 where d0: "allocate_block (span_heap t x) = Inr (p, d0)" "s' = set_span s1 x (\<lambda>_. d0)"
    using r(2) by (auto simp: take_block_def x1 elim!: bindr_InrE split: if_splits)
  have t_ini: "\<exists>e. init_blocks (describe_span LARGE_CLASS_SIZE_INDEX sz e) = Inr (span_heap t x)"
    by (rule initialize_span_run [OF t(2)]) (auto simp: upd_span_def)
  have s0: "sz \<noteq> 0" using sz(1) by auto
  obtain e where e: "init_blocks (describe_span LARGE_CLASS_SIZE_INDEX sz e) = Inr (span_heap t x)"
    using t_ini by blast
  obtain d where "init_blocks (describe_span LARGE_CLASS_SIZE_INDEX sz e) = Inr d"
    "blocks_ok d" "free_set d = {0}" by (rule init_large_span [OF s0])
  with e have bo: "blocks_ok (span_heap t x)" "free_set (span_heap t x) = {0}" by simp_all
  obtain d1 where d1: "allocate_block (span_heap t x) = Inr (block_addr (span_heap t x) 0, d1)"
    "free_set d1 = {}" "blocks_ok d1" "same_descr (span_heap t x) d1"
  proof -
    have "free_set (span_heap t x) \<noteq> {}" "Min (free_set (span_heap t x)) = 0" using bo(2) by simp_all
    then show thesis using allocate_block_takes_lowest [OF bo(1)] bo(2) that by (metis Diff_cancel)
  qed
  then have e1: "d0 = d1" "p = span_base (span_heap t x)" using d0 by (simp_all add: block_addr_def)
  obtain E' K' where J: "span_inv os E' K' (insert x U) t" "E \<subseteq> E'" "x \<notin> U" "rt t = rt (sp s)"
    "\<And>y. y \<in> U \<Longrightarrow> same_user (span_at s y) (span_heap t y)"
    "span_ok (span_heap t x)" "large_area (rt (sp s)) (span_heap t x)" "is_initialized (span_heap t x)"
    "block_size (span_heap t x) = sz"
    using initialize_large_law [OF heap_invD(2) [OF I] sz t(2) p [unfolded e1(2)]] by metis
  note f = same_descr_fields [OF d1(4)]
  have s': "sp s' = upd_span t x (\<lambda>_. d1)" "span_at s' x = d1" "rt (sp s') = rt (sp s)" "lock s' = None"
    "mem s' = mem s" "thread_local_bin s' = thread_local_bin s"
    by (simp_all add: d0(2) e1(1) set_span_def upd_span_def t(3) J(4))
  have K2: "span_inv os E' K' (insert x U) (sp s')"
    unfolding s'(1) by (rule span_inv_describe [OF J(1)]) (simp add: same_area_def f)
  have "span_ok d1" using J(6) d1(3) same_descr_geometry [OF d1(4)] by (simp add: span_ok_def)
  moreover have "large_area (rt (sp s)) d1" using J(7) by (simp add: large_area_def f)
  ultimately have u1: "used_span (rt (sp s)) (span_at s' x)"
    using J(8) d1(2) by (simp add: used_span_def f s'(2))
  have us: "same_user (span_at s y) (span_at s' y)" if "y \<in> U" for y
  proof -
    have "y \<noteq> x" using that J(3) by blast
    then show ?thesis using J(5) [OF that] by (simp add: s'(1) upd_span_def)
  qed
  have bins: "\<exists>ys. local_bin s' u j ys \<and> set ys = set zs \<union>
        {y. y = x \<and> u = tid \<and> size_class_index (span_at s' x) = int j \<and> free_set (span_at s' x) \<noteq> {}}"
    if "j < SIZE_CLASS_COUNT" "local_bin s u j zs" "set zs \<subseteq> U" for u j zs
  proof -
    have "local_bin s' u j zs" by (rule local_bin_new_span [OF that(2,3)]) (simp_all add: s'(6) us)
    then show ?thesis using d1(2) by (intro exI [of _ zs]) (simp add: s'(2))
  qed
  note H = heap_inv_new_span [OF I K2 J(3) s'(3,4) us u1 bins]
  have bc: "block_count d1 = 1" "block_size d1 = sz" using J(7,9) by (simp_all add: large_area_def f)
  have "live_blocks d1 = {(p, unat sz)}"
    using d1(2) bc by (auto simp: live_blocks_def block_addr_def f e1(2))
  then have ow: "owned (insert x U) (own(x := tid)) s' = insert (p, unat sz, tid) (owned U own s)"
    using H(2) s'(2) by simp
  have new: "(p, unat sz, u) \<notin> owned U own s" for u
  proof
    assume "(p, unat sz, u) \<in> owned U own s"
    then obtain y where y: "y \<in> U" "(p, unat sz) \<in> live_blocks (span_at s y)" by (auto simp: owned_iff)
    have "(p, unat sz) \<in> live_blocks (span_at s' y)" "(p, unat sz) \<in> live_blocks (span_at s' x)"
      using y same_user_used(2) [OF us] \<open>live_blocks d1 = _\<close> s'(2) by auto
    then show False using same_block_same_span [OF H(1)] y(1) J(3) by blast
  qed
  have "\<forall>y \<in> U. block_size (span_at s' y) = block_size (span_at s y)"
    using same_user_reads(6) [OF us] by blast
  from that [OF H(1) J(2) ow new s'(3,5) this] show thesis .
qed

end
