(* ===== verification/SpanRelease.thy ===== *)
theory SpanRelease
  imports SpanAlloc
begin

text \<open>
  \<open>cmalloc_cache_span\<close> for a span of \<open>MAX_BINNED_PAGES\<close> pages or more: its pages leave the page
  map, its mapping goes back to the system and its descriptor to the metadata free list. The
  invariant of the span layer survives, with one span, one mapping and one block less.
\<close>

section \<open>Unmapping a data mapping\<close>

lemma block_in_other_mapping:
  assumes "block_ok m b" "block_bytes (a, len) \<inter> block_bytes b = {}"
  obtains d where "d \<in> set (mappings m)" "d \<noteq> (a, len)" "block_bytes b \<subseteq> block_bytes d"
proof -
  obtain d where d: "d \<in> set (mappings m)" "block_bytes b \<subseteq> block_bytes d" "0 < unat (snd b)"
    using assms(1) by (auto simp: block_ok_def)
  have "unat (fst b) \<in> block_bytes b" using d(3) by (simp add: block_bytes_def bytes_def)
  with d(2) assms(2) have "d \<noteq> (a, len)" by blast
  with d show thesis by (intro that)
qed

lemma meta_inv_munmap:
  assumes I: "meta_inv A F m" and b: "(a, len) \<in> A" "4194304 < unat len" and r: "roots A \<noteq> {}"
  shows "meta_inv (A - {(a, len)}) F (sys_munmap m a len)"
    "look (sys_munmap m a len) = look m" "free_list_map (sys_munmap m a len) = free_list_map m"
    "roots (A - {(a, len)}) = roots A"
proof -
  let ?m = "sys_munmap m a len" and ?A = "A - {(a, len)}"
  have rm: "room ?m = room m" "cur_of ?m = cur_of m" "end_of ?m = end_of m" "meta_arena ?m = meta_arena m"
    by (simp_all add: sys_munmap_def room_def cur_of_def end_of_def)
  have ms: "set (mappings ?m) = set (mappings m) - {(a, len)}" by (auto simp: sys_munmap_def)
  have lk: "look ?m = look m" by (simp add: sys_munmap_def look_def heap_simps fun_eq_iff)
  have rd: "l1_at ?m = l1_at m" "l2_at ?m = l2_at m" "l3_at ?m = l3_at m"
    "l2_count_at ?m = l2_count_at m" "l3_count_at ?m = l3_count_at m" "free_list_map ?m = free_list_map m"
    "link_heap ?m = link_heap m"
    by (simp_all add: sys_munmap_def heap_simps fun_eq_iff)
  have sz: "len \<noteq> sizeof_l1_node" "len \<noteq> sizeof_l2_node" "len \<noteq> sizeof_l3_node"
    using b(2) by auto
  have rts: "roots ?A = roots A" using sz by (auto simp: roots_def)
  have md: "mid ?A ?m = mid A m" by (simp add: mid_def rts rd fun_eq_iff)
  have lf: "leaf ?A ?m = leaf A m" by (simp add: leaf_def md rd fun_eq_iff)
  have nodes: "(q, sizeof_l2_node) \<in> ?A \<longleftrightarrow> (q, sizeof_l2_node) \<in> A"
    "(q, sizeof_l3_node) \<in> ?A \<longleftrightarrow> (q, sizeof_l3_node) \<in> A" for q
    using sz by auto
  note bi = meta_invD(2) [OF I]
  have okb: "block_ok m c" if "c \<in> A \<union> free_blocks F" for c using bi that by (simp add: blocks_inv_def)
  have dis: "block_bytes (a, len) \<inter> block_bytes c = {}"
    if "c \<in> A \<union> free_blocks F" "c \<noteq> (a, len)" for c
    using bi b(1) that unfolding blocks_inv_def by blast
  have "arena_inv ?m"
  proof (cases "meta_arena m = NULL")
    case True
    then show ?thesis using meta_invD(1) [OF I] by (simp add: arena_inv_def rm)
  next
    case False
    then obtain d where d: "d \<in> set (mappings m)" "room m \<subseteq> block_bytes d"
      using meta_invD(1) [OF I] by (auto simp: arena_inv_def)
    have "\<exists>d \<in> set (mappings ?m). room m \<subseteq> block_bytes d"
    proof (cases "d = (a, len)")
      case True
      have "block_bytes (a, len) \<inter> room m = {}" using okb b(1) by (simp add: block_ok_def)
      then have "room m = {}" using d(2) True by blast
      moreover obtain r where "(r, sizeof_l1_node) \<in> A" using r by (auto simp: roots_def)
      then obtain c where "c \<in> set (mappings m)" "c \<noteq> (a, len)"
        using block_in_other_mapping [OF okb dis] sz(1) by blast
      ultimately show ?thesis unfolding ms by blast
    qed (use d ms in blast)
    with meta_invD(1) [OF I] False show ?thesis by (simp add: arena_inv_def rm)
  qed
  moreover have "blocks_inv (?A \<union> free_blocks F) ?m"
    unfolding blocks_inv_def
  proof (intro conjI ballI impI)
    fix c assume c: "c \<in> ?A \<union> free_blocks F"
    have nf: "(a, len) \<notin> free_blocks F" using meta_invD(3) [OF I] b(1) by blast
    with c have c': "c \<in> A \<union> free_blocks F" "c \<noteq> (a, len)" by auto
    obtain d where "d \<in> set (mappings m)" "d \<noteq> (a, len)" "block_bytes c \<subseteq> block_bytes d"
      by (rule block_in_other_mapping [OF okb [OF c'(1)] dis [OF c']])
    then show "block_ok ?m c" using okb [OF c'(1)] unfolding block_ok_def rm ms by blast
    fix e assume "e \<in> ?A \<union> free_blocks F" "c \<noteq> e"
    then show "block_bytes c \<inter> block_bytes e = {}" using bi c'(1) unfolding blocks_inv_def by blast
  qed
  moreover have "?A \<inter> free_blocks F = {}" using meta_invD(3) [OF I] by blast
  moreover have "trie_inv ?A ?m"
    using meta_invD(4) [OF I] unfolding trie_inv_def md lf rts rd nodes .
  moreover have "counts_inv ?A ?m"
    using meta_invD(5) [OF I] unfolding counts_inv_def rts rd .
  moreover have "lists_inv ?A F ?m"
    using meta_invD(6) [OF I] unfolding lists_inv_def rts lk rd .
  ultimately show "meta_inv ?A F ?m" by (simp add: meta_inv_def)
  show "look ?m = look m" by (rule lk)
  show "free_list_map ?m = free_list_map m" by (rule rd(6))
  show "roots ?A = roots A" by (rule rts)
qed

lemma page_inv_munmap:
  assumes P: "page_inv os E r m" and b: "(a, len) \<in> E" "4194304 < unat len"
  shows "page_inv os (E - {(a, len)}) r (sys_munmap m a len)" "look (sys_munmap m a len) r = look m r"
proof -
  obtain A F where J: "os_ok os" "meta_inv A F m" "client A = E" "r \<in> roots A" "r \<noteq> free_list_map m"
    using P unfolding page_inv_def by blast
  have bA: "(a, len) \<in> A" "roots A \<noteq> {}" using b(1) J(3,4) by (auto simp: client_def)
  note u = meta_inv_munmap [OF J(2) bA(1) b(2) bA(2)]
  have "client (A - {(a, len)}) = E - {(a, len)}" using J(3) by (auto simp: client_def)
  then show "page_inv os (E - {(a, len)}) r (sys_munmap m a len)"
    using u J unfolding page_inv_def by metis
  show "look (sys_munmap m a len) r = look m r" by (simp add: u(2))
qed

lemma page_inv_free:
  assumes P: "page_inv os E r m" and p: "(p, sz) \<in> E" "size_ok sz"
    and run: "cmalloc_free_metadata os m p sz = Inr m1"
  shows "page_inv os (E - {(p, sz)}) r m1" "look m1 r = look m r"
proof -
  obtain A F where J: "os_ok os" "meta_inv A F m" "client A = E" "r \<in> roots A" "r \<noteq> free_list_map m"
    using P unfolding page_inv_def by blast
  have "(p, sz) \<in> client A" using J(3) p(1) by simp
  then obtain A' F' where S: "meta_inv A' F' m1" "client A' = client A - {(p, sz)}" "index_kept A m A' m1"
    using free_client_spec [OF J(1,2) _ p(2) run] by metis
  then have "r \<in> roots A'" "r \<noteq> free_list_map m1" and lk: "look m1 r = look m r"
    using J(4,5) unfolding index_kept_def by blast+
  with S J show "page_inv os (E - {(p, sz)}) r m1"
    unfolding page_inv_def by metis
  show "look m1 r = look m r" by (rule lk)
qed


section \<open>A large span goes\<close>

lemma cache_large_run:
  assumes "cmalloc_cache_span os s x = Inr s'" "MAX_BINNED_PAGES \<le> page_count (span_heap s x)"
  obtains m1 m2 where
    "cmalloc_unmap_range os (meta s) (page_map s) (round_down_page_index (rt s) (span_base (span_heap s x)))
       (round_down_page_index (rt s) (span_base (span_heap s x)) + page_count (span_heap s x)) = Inr m1"
    "cmalloc_free_metadata os (sys_munmap m1 (span_base (span_heap s x))
       (push_bit (cmalloc_page_shift (rt s)) (page_count (span_heap s x)))) x sizeof_span = Inr m2"
    "s' = s\<lparr>meta := m2\<rparr>"
  using assms by (auto simp: cmalloc_cache_span_def Let_def elim!: bindr_InrE split: if_splits)

lemma large_len:
  assumes R: "runtime_ok r" and pl: "page_inv os E pm m" "placed r E d"
    and n: "MAX_BINNED_PAGES \<le> page_count d"
  defines "len \<equiv> push_bit (cmalloc_page_shift r) (page_count d)"
  shows "unat len = unat (page_count d) * 2 ^ cmalloc_page_shift r" "data_block (span_base d, len)"
    "block_bytes (span_base d, len) = span_bytes r d"
proof -
  let ?k = "cmalloc_page_shift r"
  have "unat (page_count d) * 2 ^ ?k \<le> 2 ^ 47" using placed_bounds(1) [OF pl R] by simp
  also have "(2 :: nat) ^ 47 < 2 ^ 64" by simp
  finally have small: "unat (page_count d) * 2 ^ ?k < 2 ^ 64" .
  show u: "unat len = unat (page_count d) * 2 ^ ?k"
    unfolding len_def unsigned_push_bit_eq using small
    by (simp add: push_bit_eq_mult take_bit_nat_eq_self_iff)
  have "8193 * 2 ^ 12 \<le> unat (page_count d) * (2 ^ ?k :: nat)"
    using n page_shift_bounds [OF R]
    by (intro mult_le_mono power_increasing) (simp_all add: word_le_nat_alt MAX_BINNED_PAGES_def)
  then show "data_block (span_base d, len)" by (simp add: data_block_def u DATA_CHUNK_SIZE_def)
  show "block_bytes (span_base d, len) = span_bytes r d"
    by (simp add: block_bytes_def span_bytes_def u)
qed

lemma release_law:
  assumes I: "span_inv os E K U s" and x: "x \<in> U" "MAX_BINNED_PAGES \<le> page_count (span_heap s x)"
    and run: "cmalloc_cache_span os s x = Inr s'"
  defines "len \<equiv> push_bit (cmalloc_page_shift (rt s)) (page_count (span_heap s x))"
  shows "span_inv os (E - {(span_base (span_heap s x), len), (x, sizeof_span)}) K (U - {x}) s'"
    "rt s' = rt s" "span_heap s' = span_heap s" "page_map s' = page_map s"
    "unat j \<in> span_pages (rt s) (span_heap s x) \<Longrightarrow> look (meta s') (page_map s') j = NULL"
proof -
  note D = span_invD [OF I] and X = index_invD [OF span_invD(3) [OF I]]
  let ?S = "U \<union> cached_spans K" and ?d = "span_heap s x" and ?r = "rt s"
  let ?b = "(span_base ?d, len)"
  let ?E = "E - {?b, (x, sizeof_span)}"
  have xS: "x \<in> ?S" using x(1) by blast
  note pl = X(3) [OF xS]
  obtain m1 m2 where r: "cmalloc_unmap_range os (meta s) (page_map s) (round_down_page_index ?r (span_base ?d))
       (round_down_page_index ?r (span_base ?d) + page_count ?d) = Inr m1"
    "cmalloc_free_metadata os (sys_munmap m1 (span_base ?d) len) x sizeof_span = Inr m2"
    "s' = s\<lparr>meta := m2\<rparr>"
    unfolding len_def by (rule cache_large_run [OF run x(2)])
  show s': "rt s' = rt s" "span_heap s' = span_heap s" "page_map s' = page_map s" by (simp_all add: r(3))
  note L = large_len [OF D(1) X(1) pl x(2), folded len_def]
  have bE: "?b \<in> E" using D(6) x unfolding whole_mappings_def len_def by blast
  have xE: "(x, sizeof_span) \<in> E" by (rule X(2) [OF xS])
  have big: "4194304 < unat len" using L(2) by (simp add: data_block_def DATA_CHUNK_SIZE_def)
  have nd: "\<not> data_block (y, sizeof_span)" for y :: ptr
    by (simp add: data_block_def sizeof_span_def DATA_CHUNK_SIZE_def)
  have ne: "(x, sizeof_span) \<noteq> ?b" using L(2) nd by metis
  note q = page_index.del_range_law [OF X(1) r(1)]
  then have P1: "page_inv os E (page_map s) m1" by blast
  note P2 = page_inv_munmap [OF P1 bE big]
  have "(x, sizeof_span) \<in> E - {?b}" using xE ne by simp
  note P3 = page_inv_free [OF P2(1) this descriptor_size(1) r(2)]
  have lk: "look m2 (page_map s) j =
      (if unat j \<in> span_pages ?r ?d then NULL else look (meta s) (page_map s) j)"
    if j: "unat j < 2 ^ 35" for j
    using q range_pages [OF placed_bounds(2) [OF X(1) pl D(1)] j] by (simp add: P3(2) P2(2))
  have p35: "unat j < 2 ^ 35" if "y \<in> ?S" "unat j \<in> span_pages ?r (span_heap s y)" for y j
    using placed_bounds(2) [OF X(1) X(3) [OF that(1)] D(1)] that(2) by (simp add: span_pages_def)
  show "look (meta s') (page_map s') j = NULL" if "unat j \<in> span_pages (rt s) (span_heap s x)"
    using lk [OF p35 [OF xS that]] that by (simp add: r(3))
  have "page_inv os ?E (page_map s) m2" using P3(1) by (simp add: Diff_insert2 [symmetric] insert_commute)
  moreover have "(y, sizeof_span) \<in> ?E" if y: "y \<in> ?S - {x}" for y
  proof -
    have "(y, sizeof_span) \<noteq> ?b" using L(2) nd [of y] by metis
    then show ?thesis using X(2) [of y] y by blast
  qed
  moreover have sep: "span_bytes ?r (span_heap s y) \<inter> block_bytes ?b = {}" if y: "y \<in> ?S - {x}" for y
    unfolding L(3)
    using X(3) [of y] pl X(4) [of y x] y xS by (intro pages_disjoint_bytes) (auto simp: placed_def)
  have base_in: "unat (span_base (span_heap s y)) \<in> span_bytes ?r (span_heap s y)" if "y \<in> ?S" for y
    using X(3) [OF that] by (simp add: span_bytes_def bytes_def placed_def)
  have "placed ?r ?E (span_heap s y)" if y: "y \<in> ?S - {x}" for y
  proof -
    obtain b where b: "b \<in> E" "data_block b" "span_bytes ?r (span_heap s y) \<subseteq> block_bytes b"
      using X(3) [of y] y by (auto simp: placed_def)
    have "b \<noteq> ?b" using b(3) base_in [of y] sep [OF y] y by blast
    moreover have "b \<noteq> (x, sizeof_span)" using b(2) nd by blast
    ultimately show ?thesis using b X(3) [of y] y by (auto simp: placed_def)
  qed
  moreover have "look m2 (page_map s) j = y"
    if y: "y \<in> ?S - {x}" and j: "unat j \<in> span_pages ?r (span_heap s y)" for y j
  proof -
    have "unat j \<notin> span_pages ?r ?d" using X(4) [of y x] y xS j by blast
    then show ?thesis using lk [OF p35 [OF _ j]] X(5) [OF _ j] y by simp
  qed
  moreover have "look m2 (page_map s) j \<in> ?S - {x} \<and>
      unat j \<in> span_pages ?r (span_heap s (look m2 (page_map s) j))"
    if j: "unat j < 2 ^ 35" "look m2 (page_map s) j \<noteq> NULL" for j
  proof -
    have e: "look m2 (page_map s) j = look (meta s) (page_map s) j" "unat j \<notin> span_pages ?r ?d"
      using lk [OF j(1)] j(2) by (auto split: if_splits)
    note z = j(2) [unfolded e(1)]
    show ?thesis unfolding e(1) using X(6,7) [OF j(1) z] e(2) by auto
  qed
  ultimately have "index_inv os ?E (?S - {x}) s'"
    unfolding index_inv_def s' using X(4) r(3) by simp
  moreover have "?S - {x} = (U - {x}) \<union> cached_spans K" using D(5) x(1) by blast
  moreover have "bins_inv K s'" by (rule bins_inv_cong [OF D(4)]) (simp_all add: r(3))
  moreover have "whole_mappings ?E (U - {x}) s'"
    unfolding whole_mappings_def s'
  proof (intro ballI impI)
    fix y assume y: "y \<in> U - {x}" and n: "MAX_BINNED_PAGES \<le> page_count (span_heap s y)"
    let ?c = "(span_base (span_heap s y), push_bit (cmalloc_page_shift ?r) (page_count (span_heap s y)))"
    have yS: "y \<in> ?S" "y \<in> ?S - {x}" using y by blast+
    note Ly = large_len [OF D(1) X(1) X(3) [OF yS(1)] n]
    have "?c \<in> E" using D(6) y n unfolding whole_mappings_def by blast
    moreover have "?c \<noteq> (x, sizeof_span)" using Ly(2) nd by metis
    moreover have "?c \<noteq> ?b"
      using base_in [OF yS(1)] sep [OF yS(2)] Ly(3) by (metis Int_iff empty_iff)
    ultimately show "?c \<in> ?E" by blast
  qed
  ultimately show "span_inv os ?E K (U - {x}) s'"
    using D(1,2,5) by (auto simp: span_inv_def s')
qed

end
