(* ===== verification/HeapFree.thy ===== *)
theory HeapFree
  imports HeapSteps SpanRelease
begin

text \<open>
  \<open>cfree\<close> of a live block by the thread that owns its span, on every path: the span keeps other
  blocks, it becomes unused and goes back to a bin, or it is a large span. Each path keeps the
  invariant of the heap and removes that block, and no other, from the clients' heap.
\<close>

section \<open>The span of a block\<close>

lemma owned_block_span:
  assumes I: "heap_inv os E K U own s" and p: "(p, n, t) \<in> owned U own s"
  obtains x k where "x \<in> U" "own x = t" "p = block_addr (span_at s x) k" "n = unat (block_size (span_at s x))"
    "k < unat (block_count (span_at s x))" "k \<notin> free_set (span_at s x)" "in_block (span_at s x) k p"
    "cmalloc_get_span (sp s) p = Inr x" "p \<noteq> NULL" "valid_ptr x" "used_span (rt (sp s)) (span_at s x)"
proof -
  obtain x k where x: "x \<in> U" "own x = t" "p = block_addr (span_at s x) k" "n = unat (block_size (span_at s x))"
    "k < unat (block_count (span_at s x))" "k \<notin> free_set (span_at s x)"
    using p by (auto simp: owned_iff live_blocks_def)
  note u = heap_invD(4) [OF I x(1)]
  note pl = used_placed [OF I x(1)]
  have n0: "0 < unat (block_size (span_at s x))"
    using u by (simp add: used_span_def span_ok_def span_geometry_def)
  have "unat p \<in> block_range (span_at s x) k" using n0 by (simp add: x(3) block_range_def bytes_def)
  then have "unat p \<in> span_bytes (rt (sp s)) (span_at s x)" using block_in_span [OF u x(5)] by blast
  then have "unat (round_down_page_index (rt (sp s)) p) \<in> span_pages (rt (sp s)) (span_at s x)"
    unfolding span_pages_word using span_bytes_page pl(1) by (simp add: placed_def)
  then have "look (meta (sp s)) (page_map (sp s)) (round_down_page_index (rt (sp s)) p) = x"
    using index_invD(5) [OF span_invD(3) [OF heap_inv_span [OF I x(1)]]] x(1) by blast
  then have g: "cmalloc_get_span (sp s) p = Inr x"
    by (simp add: cmalloc_get_span_def page_inv_get [OF pl(3)])
  have ib: "in_block (span_at s x) k p" using x(5) n0 by (simp add: in_block_def x(3))
  have "(p, n) \<in> live U s" using p live_iff_owned by blast
  then have "p \<noteq> NULL" using live_address [OF I] by blast
  then show thesis using x ib g pl(4) u by (intro that)
qed

section \<open>A span leaves\<close>

lemma heap_inv_drop_span:
  assumes I: "heap_inv os E K U own s" and x: "x \<in> U"
    and J: "span_inv os E' K' (U - {x}) (sp s')" "rt (sp s') = rt (sp s)" "lock s' = None"
    and others: "\<And>y. y \<noteq> x \<Longrightarrow> unlinked (span_at s' y) = unlinked (span_at s y)"
    and bins: "\<And>t j zs. j < SIZE_CLASS_COUNT \<Longrightarrow> local_bin s t j zs \<Longrightarrow>
      set zs = {y \<in> U. own y = t \<and> size_class_index (span_at s y) = int j \<and> free_set (span_at s y) \<noteq> {}} \<Longrightarrow>
      \<exists>ys. local_bin s' t j ys \<and> set ys = set zs - {x}"
  shows "heap_inv os E' K' (U - {x}) own s'"
    "owned (U - {x}) own s' = owned U own s - tagged (own x) (live_blocks (span_at s x))"
proof -
  have un: "unlinked (span_at s' y) = unlinked (span_at s y)" if "y \<in> U - {x}" for y
    using others that by blast
  have "layer_inv os E' K' (U - {x}) (sp s')" using J(1) by (simp add: layer_inv_def)
  moreover have "used_span (rt (sp s')) (span_at s' y)" if "y \<in> U - {x}" for y
    using unlinked_used(1) [OF un [OF that]] heap_invD(4) [OF I, of y] that J(2) by simp
  moreover have "bins_owned (U - {x}) own s'"
    unfolding bins_owned_def
  proof (intro allI impI)
    fix t j assume j: "j < SIZE_CLASS_COUNT"
    obtain zs where zs: "local_bin s t j zs"
      "set zs = {y \<in> U. own y = t \<and> size_class_index (span_at s y) = int j \<and> free_set (span_at s y) \<noteq> {}}"
      by (rule bins_ownedD [OF heap_invD(3) [OF I] j])
    obtain ys where ys: "local_bin s' t j ys" "set ys = set zs - {x}" using bins [OF j zs] by blast
    have "y \<in> set ys \<longleftrightarrow> y \<in> U - {x} \<and> own y = t \<and>
        size_class_index (span_at s' y) = int j \<and> free_set (span_at s' y) \<noteq> {}" for y
    proof (cases "y \<in> U - {x}")
      case True
      with unlinked_used(3,4) [OF un [OF True]] show ?thesis by (simp add: ys(2) zs(2))
    qed (auto simp: ys(2) zs(2))
    with ys(1) show "\<exists>xs. local_bin s' t j xs \<and> set xs = {y \<in> U - {x}. own y = t \<and>
        size_class_index (span_at s' y) = int j \<and> free_set (span_at s' y) \<noteq> {}}"
      by (intro exI [of _ ys]) blast
  qed
  ultimately show "heap_inv os E' K' (U - {x}) own s'" using J(3) by (simp add: heap_inv_def)
  have "owned (U - {x}) own s' = (\<Union>y \<in> U - {x}. tagged (own y) (live_blocks (span_at s y)))"
    unfolding owned_def using live_blocks_cong [OF un] by (intro SUP_cong) auto
  moreover have "owned U own s = (\<Union>y \<in> U - {x}. tagged (own y) (live_blocks (span_at s y))) \<union>
      tagged (own x) (live_blocks (span_at s x))"
    using x unfolding owned_def by blast
  moreover have "b \<notin> tagged (own x) (live_blocks (span_at s x))"
    if y: "y \<in> U - {x}" and b: "b \<in> tagged (own y) (live_blocks (span_at s y))" for b y
  proof -
    obtain p n t where e: "b = (p, n, t)" by (cases b) auto
    show ?thesis
      using same_block_same_span [OF I, of y p n x n] y x b unfolding e by auto
  qed
  ultimately show "owned (U - {x}) own s' = owned U own s - tagged (own x) (live_blocks (span_at s x))"
    by blast
qed


section \<open>A block of a size class\<close>

lemma give_local:
  assumes run: "bindr (if free_count (span_at s x) = 0 then bin_push tid (int i) x s else Inr s)
      (\<lambda>s. give_block p x s) = Inr s1"
    and bin: "local_bin s tid i xs"
  shows "local_step tid i (insert x (set xs)) x s s1"
proof -
  let ?step = "if free_count (span_at s x) = 0 then bin_push tid (int i) x s else Inr s"
  obtain s0 where s0: "?step = Inr s0" "give_block p x s0 = Inr s1"
    using run by (rule bindr_InrE)
  have "local_step tid i (insert x (set xs)) x s s0"
  proof (cases "free_count (span_at s x) = 0")
    case True
    then have "bin_push tid (int i) x s = Inr s0" using s0(1) by simp
    from bin_push_local [OF this bin] show ?thesis .
  qed (use s0(1) local_step_refl in simp)
  moreover have "local_step tid i (insert x (set xs)) x s0 s1"
  proof -
    obtain d where "s1 = set_span s0 x (\<lambda>_. d)"
      using s0(2) by (auto simp: give_block_def elim!: bindr_InrE split: if_splits)
    then show ?thesis using local_step_set_span [of x "insert x (set xs)" tid i s0] by simp
  qed
  ultimately show ?thesis by (rule local_step_trans)
qed

text \<open>The block is back in its span; the span may have become unused.\<close>

lemma heap_give_law:
  assumes I: "heap_inv os E K U own s" and x: "x \<in> U" "own x = tid"
    and cls: "size_class_index (span_at s x) = int i" "i < SIZE_CLASS_COUNT"
    and v: "valid_ptr x" and k: "in_block (span_at s x) k p" "k \<notin> free_set (span_at s x)"
    and p: "p = block_addr (span_at s x) k" "n = unat (block_size (span_at s x))"
  obtains s1 where "bindr (if free_count (span_at s x) = 0 then bin_push tid (int i) x s else Inr s)
        (\<lambda>s. give_block p x s) = Inr s1"
    "heap_inv os E K U own s1" "owned U own s1 = owned U own s - {(p, n, tid)}"
    "free_set (span_at s1 x) = insert k (free_set (span_at s x))"
    "block_count (span_at s1 x) = block_count (span_at s x)"
    "page_count (span_at s1 x) = page_count (span_at s x)"
    "size_class_index (span_at s1 x) = int i" "rt (sp s1) = rt (sp s)" "lock s1 = None" "mem s1 = mem s"
proof -
  note u = heap_invD(4) [OF I x(1)]
  then have ok: "span_ok (span_at s x)" by (simp add: used_span_def)
  have kc: "k < unat (block_count (span_at s x))" using k(1) by (simp add: in_block_def)
  have nl: "size_class_index (span_at s x) \<noteq> LARGE_CLASS_SIZE_INDEX"
    using cls class_index_nat [OF cls(2)] by simp
  let ?F = "free_set (span_at s x)"
  obtain xs where xs: "local_bin s tid i xs"
    "set xs = {y \<in> U. own y = tid \<and> size_class_index (span_at s y) = int i \<and> free_set (span_at s y) \<noteq> {}}"
    by (rule bins_ownedD [OF heap_invD(3) [OF I] cls(2)])
  have xin: "x \<in> set xs \<longleftrightarrow> ?F \<noteq> {}" using xs(2) x cls(1) by simp
  obtain s1 e where s1: "bindr (if free_count (span_at s x) = 0 then bin_push tid (int i) x s else Inr s)
        (\<lambda>s. give_block p x s) = Inr s1"
    "local_bin s1 tid i (if ?F = {} then x # xs else xs)" "span_ok (span_at s1 x)"
    "free_set (span_at s1 x) = insert k ?F"
    "block_count (span_at s1 x) = block_count (span_at s x)"
    "page_count (span_at s1 x) = page_count (span_at s x)"
    "same_descr (span_at s x) e" "unlinked (span_at s1 x) = unlinked e"
    using cfree_give [OF v cls xs(1) xin ok k] by metis
  note st = give_local [OF s1(1) xs(1)]
  note f = local_step_frame [OF st]
  note ub = unlinked_blocks [OF s1(8)]
  have e: "span_ok e" "free_set e = insert k ?F" using s1(3,4) ub by simp_all
  note us = used_span_update [OF u nl s1(7,8) e(1)]
  have sets: "set (if ?F = {} then x # xs else xs) =
      {y \<in> U. own y = tid \<and> size_class_index (span_at s y) = int i \<and> free_set (span_at s1 y) \<noteq> {}}"
    (is "set ?ys = ?R")
  proof (rule set_eqI)
    fix y
    show "y \<in> set ?ys \<longleftrightarrow> y \<in> ?R"
    proof (cases "y = x")
      case True
      then show ?thesis using xin s1(4) x cls(1) by simp
    next
      case False
      then have "free_set (span_at s1 y) = free_set (span_at s y)"
        using unlinked_blocks(1) [OF f(5) [OF False]] by simp
      then show ?thesis using False xs(2) by auto
    qed
  qed
  have I1: "heap_inv os E K U own s1"
    by (rule heap_inv_local_step [OF I st cls(2) _ _ us(1,2) _ s1(2) sets])
       (use xs(2) x cls(1) us(3) in auto)
  have lc: "live_blocks (span_at s1 x) = live_blocks e" by (rule live_blocks_cong) (rule s1(8))
  note lb = live_blocks_give [OF ok s1(7) k(2) kc e(2), folded p]
  note ow = owned_local_step [OF st x(1), of own, unfolded lc lb x(2)]
  have mem_x: "(p, n) \<in> live_blocks (span_at s x)" using kc k(2) p by (auto simp: live_blocks_def)
  have other: "(p, n, tid) \<notin> tagged (own y) (live_blocks (span_at s y))" if "y \<in> U - {x}" for y
    using same_block_same_span [OF I x(1) mem_x, of y n] that by auto
  have "tagged tid (live_blocks (span_at s x) - {(p, n)}) =
      tagged tid (live_blocks (span_at s x)) - {(p, n, tid)}"
    by (auto simp: tagged_def)
  with other have "owned U own s1 = owned U own s - {(p, n, tid)}"
    unfolding ow(1) by (subst ow(2)) blast
  then show thesis
    using s1 us(3) cls(1) f heap_invD(1) [OF I1] by (intro that [OF s1(1) I1]) simp_all
qed

lemma class_area_small:
  assumes "runtime_ok r" "class_area r d i"
  shows "page_count d < MAX_BINNED_PAGES"
proof -
  have "unat (page_count d) \<le> 256"
    using assms(2) by (intro class_pages_bound [OF assms(1)]) (auto simp: class_area_def)
  then show ?thesis by (simp add: word_less_nat_alt MAX_BINNED_PAGES_def)
qed

lemma unused_span_leaves:
  assumes I: "heap_inv os E K U own s" and x: "x \<in> U" "own x = tid"
    and cls: "size_class_index (span_at s x) = int i" "i < SIZE_CLASS_COUNT"
    and all: "free_set (span_at s x) = span_blocks (span_at s x)"
  obtains K' s' where "bindr (bin_remove tid (int i) x s) (locked_cache_span os tid x) = Inr s'"
    "heap_inv os E K' (U - {x}) own s'" "owned (U - {x}) own s' = owned U own s"
    "rt (sp s') = rt (sp s)" "mem s' = mem s"
proof -
  note u = heap_invD(4) [OF I x(1)]
  have v: "valid_ptr x" by (rule used_placed(4) [OF I x(1)])
  have nl: "size_class_index (span_at s x) \<noteq> LARGE_CLASS_SIZE_INDEX"
    using cls class_index_nat [OF cls(2)] by simp
  then obtain j where "class_area (rt (sp s)) (span_at s x) j"
    using u by (auto simp: used_span_def large_area_def)
  from class_area_small [OF layer_inv_rt(1) [OF heap_invD(2) [OF I]] this]
  have pg: "page_count (span_at s x) < MAX_BINNED_PAGES" .
  have ne: "free_set (span_at s x) \<noteq> {}"
    using u by (auto simp: all span_blocks_def used_span_def span_ok_def span_geometry_def)
  obtain xs where xs: "local_bin s tid i xs"
    "set xs = {y \<in> U. own y = tid \<and> size_class_index (span_at s y) = int i \<and> free_set (span_at s y) \<noteq> {}}"
    by (rule bins_ownedD [OF heap_invD(3) [OF I] cls(2)])
  have xin: "x \<in> set xs" using xs(2) x cls(1) ne by simp
  obtain s2 where s2: "bin_remove tid (int i) x s = Inr s2" "local_bin s2 tid i (remove1 x xs)"
    using thread_bin.remove_law [of "int i" s tid xs x] xs(1) xin class_of_nat(1) [OF cls(2)] by auto
  note st = bin_remove_local [OF s2(1) xs(1) xin]
  note f = local_step_frame [OF st]
  have ux: "unlinked (span_at s2 x) = unlinked (span_at s x)"
    by (rule bin_step_frame(9) [OF bin_remove_step [OF s2(1)]])
  have un2: "unlinked (span_at s2 y) = unlinked (span_at s y)" for y
    using ux f(5) [of y] by (cases "y = x") auto
  have XU: "set xs \<subseteq> U" using xs(2) by blast
  note J = heap_inv_span [OF I x(1)]
  have nK: "span_at s2 y = span_at s y" if "y \<in> cached_spans K" for y
    using f(4) [of y] XU that span_invD(5) [OF J] by blast
  have K2: "span_inv os E K U (sp s2)"
    by (rule span_inv_cong [OF J]) (simp_all add: f(7-12) unlinked_used(2) [OF un2] nK)
  let ?p = "unat (page_count (span_at s x))"
  have pg2: "page_count (span_at s2 x) = page_count (span_at s x)"
    using unlinked_same(2) [OF un2] by blast
  let ?t = "cached x (sp s2)"
  have K3: "span_inv os E (K(?p := x # K ?p)) (U - {x}) ?t"
    using cached_law [OF K2 x(1)] pg pg2 by simp
  let ?s = "s2\<lparr>sp := ?t\<rparr>"
  have run: "bindr (bin_remove tid (int i) x s) (locked_cache_span os tid x) = Inr ?s"
    using s2(1) locked_cache_small [OF v, of s2 os tid] pg pg2 f(2) heap_invD(1) [OF I] by simp
  have dl: "local_bin ?s t j zs = local_bin s2 t j zs" for t j zs
  proof -
    have "dlist (span_heap ?t) h zs = dlist (span_heap (sp s2)) h zs" for h
      by (rule dlist_cong) (simp add: cached_reads)
    then show ?thesis by (simp add: local_bin_def)
  qed
  have bins: "\<exists>ys. local_bin ?s t j ys \<and> set ys = set zs - {x}"
    if j: "j < SIZE_CLASS_COUNT" and zs: "local_bin s t j zs"
      "set zs = {y \<in> U. own y = t \<and> size_class_index (span_at s y) = int j \<and> free_set (span_at s y) \<noteq> {}}"
    for t j zs
  proof (cases "t = tid \<and> j = i")
    case True
    then have e: "set xs = set zs" using xs(2) zs(2) by simp
    have "distinct xs" using xs(1) by (auto simp: local_bin_def dlist_def)
    then have "set (remove1 x xs) = set zs - {x}" by (simp add: e set_remove1_eq)
    then show ?thesis using s2(2) dl True by (intro exI [of _ "remove1 x xs"]) simp
  next
    case False
    have "set zs \<inter> set xs = {}" unfolding zs(2) xs(2) using False by auto
    moreover have "x \<notin> set zs" unfolding zs(2) using False x cls(1) by auto
    ultimately show ?thesis
      using local_step_other_bin [OF st _ _ zs(1)] False dl by (intro exI [of _ zs]) auto
  qed
  have un: "unlinked (span_at ?s y) = unlinked (span_at s y)" if "y \<noteq> x" for y
    using un2 [of y] that by (simp add: cached_reads)
  have r3: "rt (sp ?s) = rt (sp s)" "lock ?s = None"
    using f(2,8) heap_invD(1) [OF I] by (simp_all add: cached_reads)
  have K3': "span_inv os E (K(?p := x # K ?p)) (U - {x}) (sp ?s)" using K3 by simp
  note H = heap_inv_drop_span [OF I x(1) K3' r3]
  have H1: "heap_inv os E (K(?p := x # K ?p)) (U - {x}) own ?s"
    by (rule H(1)) (erule un, rule bins, assumption+)
  have H2: "owned (U - {x}) own ?s = owned U own s - tagged (own x) (live_blocks (span_at s x))"
    by (rule H(2)) (erule un, rule bins, assumption+)
  have "live_blocks (span_at s x) = {}" unfolding live_blocks_def all span_blocks_def by simp
  with H2 have "owned (U - {x}) own ?s = owned U own s" by (simp only: tagged_simps Diff_empty)
  moreover have "mem ?s = mem s" using f(3) by simp
  ultimately show thesis by (intro that [OF run H1 _ r3(1)])
qed

lemma cfree_class_law:
  assumes I: "heap_inv os E K U own s" and p: "(p, n, tid) \<in> owned U own s"
    and x: "cmalloc_get_span (sp s) p = Inr x" "size_class_index (span_at s x) \<noteq> LARGE_CLASS_SIZE_INDEX"
  obtains K' U' s' where "cfree os tid p s = Inr s'" "heap_inv os E K' U' own s'"
    "owned U' own s' = owned U own s - {(p, n, tid)}" "rt (sp s') = rt (sp s)" "mem s' = mem s"
proof -
  obtain k where b: "x \<in> U" "own x = tid" "p = block_addr (span_at s x) k" "n = unat (block_size (span_at s x))"
    "k < unat (block_count (span_at s x))" "k \<notin> free_set (span_at s x)" "in_block (span_at s x) k p"
    "p \<noteq> NULL" "valid_ptr x" "used_span (rt (sp s)) (span_at s x)"
    by (rule owned_block_span [OF I p]) (use x(1) in auto)
  obtain i where cls: "size_class_index (span_at s x) = int i" "i < SIZE_CLASS_COUNT"
    using b(10) x(2) by (auto simp: used_span_def large_area_def class_area_def)
  obtain s1 where s1: "bindr (if free_count (span_at s x) = 0 then bin_push tid (int i) x s else Inr s)
        (\<lambda>s. give_block p x s) = Inr s1"
    "heap_inv os E K U own s1" "owned U own s1 = owned U own s - {(p, n, tid)}"
    "block_count (span_at s1 x) = block_count (span_at s x)"
    "size_class_index (span_at s1 x) = int i" "rt (sp s1) = rt (sp s)" "mem s1 = mem s"
    by (rule heap_give_law [OF I b(1,2) cls b(9,7,6,3,4)])
  note steps = cfree_steps [OF b(8) x(1) b(9) cls, of os tid]
  show thesis
  proof (cases "free_count (span_at s1 x) = block_count (span_at s1 x)")
    case False
    then have "cfree os tid p s = Inr s1" using steps s1(1) by simp
    then show thesis using s1 by (intro that [of s1 K U]) simp_all
  next
    case True
    have ok1: "span_ok (span_at s1 x)" using heap_invD(4) [OF s1(2) b(1)] by (simp add: used_span_def)
    have "free_set (span_at s1 x) = span_blocks (span_at s1 x)"
    proof (rule card_subset_eq)
      show "free_set (span_at s1 x) \<subseteq> span_blocks (span_at s1 x)"
        using ok1 by (auto simp: span_ok_def blocks_ok_def span_blocks_def)
      show "card (free_set (span_at s1 x)) = card (span_blocks (span_at s1 x))"
        using ok1 by (simp add: span_ok_def blocks_ok_def span_blocks_def True [symmetric])
    qed (simp add: span_blocks_def)
    then obtain K' s' where s': "bindr (bin_remove tid (int i) x s1) (locked_cache_span os tid x) = Inr s'"
      "heap_inv os E K' (U - {x}) own s'" "owned (U - {x}) own s' = owned U own s1"
      "rt (sp s') = rt (sp s1)" "mem s' = mem s1"
      using unused_span_leaves [OF s1(2) b(1,2) s1(5) cls(2)] by metis
    have "cfree os tid p s = Inr s'" using steps s1(1) True s'(1) by simp
    then show thesis using s' s1 by (intro that [of s' K' "U - {x}"]) simp_all
  qed
qed


section \<open>A large block\<close>

lemma large_span_leaves:
  assumes I: "heap_inv os E K U own s" and x: "x \<in> U" "free_set (span_at s x) = {}"
    and run: "locked_cache_span os tid x s = Inr s'"
  obtains E' K' where "heap_inv os E' K' (U - {x}) own s'"
    "owned (U - {x}) own s' = owned U own s - tagged (own x) (live_blocks (span_at s x))"
    "rt (sp s') = rt (sp s)" "mem s' = mem s"
proof -
  note J = heap_inv_span [OF I x(1)]
  have lk: "lock s = None" by (rule heap_invD(1) [OF I])
  obtain t where t: "cmalloc_cache_span os (sp s) x = Inr t" "s' = s\<lparr>lock := None, sp := t\<rparr>"
    using run lk
    by (auto simp: locked_cache_span_def pthread_mutex_lock_def pthread_mutex_unlock_def elim!: bindr_InrE)
  have v: "valid_ptr x" by (rule used_placed(4) [OF I x(1)])
  obtain E' K' where T: "span_inv os E' K' (U - {x}) t" "rt t = rt (sp s)"
    "\<And>y. prev_in_size_class_bin (span_heap t y) = prev_in_size_class_bin (span_at s y) \<and>
      next_in_size_class_bin (span_heap t y) = next_in_size_class_bin (span_at s y)"
    "\<And>y. y \<noteq> x \<Longrightarrow> span_heap t y = span_at s y"
  proof (cases "MAX_BINNED_PAGES \<le> page_count (span_at s x)")
    case True
    note r = release_law [OF J x(1) True t(1)]
    show thesis by (rule that [OF r(1,2)]) (simp_all add: r(3))
  next
    case False
    then have pg: "page_count (span_at s x) < MAX_BINNED_PAGES" by simp
    have "t = cached x (sp s)" using t(1) cache_small_span [OF v pg, of os] by simp
    then show thesis using cached_law [OF J x(1) pg] by (intro that) (auto simp: cached_reads)
  qed
  have s': "sp s' = t" "lock s' = None" "thread_local_bin s' = thread_local_bin s" "mem s' = mem s"
    by (simp_all add: t(2))
  have un: "unlinked (span_at s' y) = unlinked (span_at s y)" if "y \<noteq> x" for y
    using T(4) [OF that] by (simp add: s')
  have bins: "\<exists>ys. local_bin s' u j ys \<and> set ys = set zs - {x}"
    if zs: "local_bin s u j zs"
      "set zs = {y \<in> U. own y = u \<and> size_class_index (span_at s y) = int j \<and> free_set (span_at s y) \<noteq> {}}"
    for u j zs
  proof -
    have "dlist (span_heap t) h zs = dlist (span_heap (sp s)) h zs" for h
      using T(3) by (intro dlist_cong) simp
    then have "local_bin s' u j zs" using zs(1) by (simp add: local_bin_def s')
    moreover have "x \<notin> set zs" unfolding zs(2) using x(2) by simp
    ultimately show ?thesis by (intro exI [of _ zs]) simp
  qed
  have K': "span_inv os E' K' (U - {x}) (sp s')" "rt (sp s') = rt (sp s)" using T(1,2) by (simp_all add: s')
  note H = heap_inv_drop_span [OF I x(1) K' s'(2)]
  show thesis
  proof (rule that [OF _ _ K'(2) s'(4)])
    show "heap_inv os E' K' (U - {x}) own s'" by (rule H(1)) (erule un, rule bins, assumption+)
    show "owned (U - {x}) own s' = owned U own s - tagged (own x) (live_blocks (span_at s x))"
      by (rule H(2)) (erule un, rule bins, assumption+)
  qed
qed

lemma cfree_large_law:
  assumes I: "heap_inv os E K U own s" and p: "(p, n, tid) \<in> owned U own s"
    and x: "cmalloc_get_span (sp s) p = Inr x" "size_class_index (span_at s x) = LARGE_CLASS_SIZE_INDEX"
    and run: "cfree os tid p s = Inr s'"
  obtains E' K' U' where "heap_inv os E' K' U' own s'"
    "owned U' own s' = owned U own s - {(p, n, tid)}" "rt (sp s') = rt (sp s)" "mem s' = mem s"
proof -
  obtain k where b: "x \<in> U" "own x = tid" "p = block_addr (span_at s x) k" "n = unat (block_size (span_at s x))"
    "k < unat (block_count (span_at s x))" "p \<noteq> NULL" "valid_ptr x" "used_span (rt (sp s)) (span_at s x)"
    by (rule owned_block_span [OF I p]) (use x(1) in auto)
  have la: "large_area (rt (sp s)) (span_at s x)" "free_set (span_at s x) = {}"
    using b(8) x(2) class_area_index(2) by (auto simp: used_span_def)
  have k0: "k = 0" using b(5) la(1) by (simp add: large_area_def)
  have one: "live_blocks (span_at s x) = {(p, n)}"
    using la unfolding live_blocks_def b(3,4) k0 by (auto simp: large_area_def)
  have "locked_cache_span os tid x s = Inr s'"
    using run b(6,7) x by (simp add: cfree_def)
  then obtain E' K' where "heap_inv os E' K' (U - {x}) own s'"
    "owned (U - {x}) own s' = owned U own s - tagged (own x) (live_blocks (span_at s x))"
    "rt (sp s') = rt (sp s)" "mem s' = mem s"
    using large_span_leaves [OF I b(1) la(2)] by metis
  then show thesis using one b(2) by (intro that [of E' K' "U - {x}"]) simp_all
qed

text \<open>\<open>cfree\<close> of any live block by its owner.\<close>

lemma cfree_law:
  assumes I: "heap_inv os E K U own s" and p: "(p, n, tid) \<in> owned U own s"
    and run: "cfree os tid p s = Inr s'"
  obtains E' K' U' where "heap_inv os E' K' U' own s'"
    "owned U' own s' = owned U own s - {(p, n, tid)}" "rt (sp s') = rt (sp s)" "mem s' = mem s"
proof -
  note result = that
  obtain x where x: "cmalloc_get_span (sp s) p = Inr x" by (rule owned_block_span [OF I p])
  show thesis
  proof (cases "size_class_index (span_at s x) = LARGE_CLASS_SIZE_INDEX")
    case True
    then show thesis using cfree_large_law [OF I p x _ run] result by metis
  next
    case False
    then obtain K' U' t where "cfree os tid p s = Inr t" "heap_inv os E K' U' own t"
      "owned U' own t = owned U own s - {(p, n, tid)}" "rt (sp t) = rt (sp s)" "mem t = mem s"
      using cfree_class_law [OF I p x] by metis
    with run result show thesis by (metis Inr_inject)
  qed
qed

end
