(* ===== verification/HeapRuns.thy ===== *)
theory HeapRuns
  imports HeapMalloc HeapFree Reachable
begin

text \<open>
  The allocator seen by its clients. A call with its result is a \<open>call\<close>, and the clients' heap is
  the set of blocks \<open>(address, size, owner)\<close> they hold. \<open>permitted\<close> is what a client must respect,
  \<open>promised\<close> is what the allocator owes it, and \<open>heap_after\<close> is the effect on the heap; none of the
  three mentions spans, bitmaps or page maps. \<open>heap_run\<close> is every state the program reaches through
  permitted calls of any threads in any order.
\<close>

section \<open>The specification of the heap\<close>

type_synonym heap = "(ptr \<times> nat \<times> nat) set"

datatype call = Malloc nat u64 ptr | Calloc nat u64 u64 ptr | Realloc nat ptr u64 ptr | Free nat ptr

definition granted :: "u64 \<Rightarrow> nat" where
  "granted sz = (if sz > MAX_SIZE_CLASS then unat sz else unat (SIZE_CLASSES ! first_fit sz))"

definition without :: "ptr \<Rightarrow> heap \<Rightarrow> heap" where
  "without p L = {b \<in> L. fst b \<noteq> p}"

fun heap_after :: "heap \<Rightarrow> call \<Rightarrow> heap" where
  "heap_after L (Malloc t sz p) = insert (p, granted sz, t) L"
| "heap_after L (Calloc t n sz p) = (if p = NULL then L else insert (p, granted (n * sz), t) L)"
| "heap_after L (Realloc t q sz p) =
     (if q = NULL then insert (p, granted sz, t) L
      else if sz = 0 then without q L
      else if p = q then L
      else insert (p, granted sz, t) (without q L))"
| "heap_after L (Free t p) = without p L"

text \<open>A request near \<open>2 ^ 64\<close>, or one whose \<open>mmap\<close> fails, is outside the specification.\<close>

definition served :: "platform \<Rightarrow> u64 \<Rightarrow> ptr \<Rightarrow> bool" where
  "served os sz p \<longleftrightarrow> unat sz + unat (sysconf_pagesize os) \<le> 2 ^ 64 \<and> p \<noteq> MAP_FAILED"

fun permitted :: "platform \<Rightarrow> heap \<Rightarrow> call \<Rightarrow> bool" where
  "permitted os L (Malloc t sz p) = served os sz p"
| "permitted os L (Calloc t n sz p) = served os (n * sz) p"
| "permitted os L (Realloc t q sz p) = (served os sz p \<and> (q = NULL \<or> (\<exists>m. (q, m, t) \<in> L)))"
| "permitted os L (Free t p) = (p = NULL \<or> (\<exists>m. (p, m, t) \<in> L))"

definition new_block :: "heap \<Rightarrow> u64 \<Rightarrow> ptr \<Rightarrow> bool" where
  "new_block L sz p \<longleftrightarrow> p \<noteq> NULL \<and> 16 dvd unat p \<and> unat sz \<le> granted sz \<and>
     unat p + granted sz \<le> 2 ^ 47 \<and>
     (\<forall>(q, m, u) \<in> L. bytes p (granted sz) \<inter> bytes q m = {})"

fun promised :: "heap \<Rightarrow> call \<Rightarrow> bool" where
  "promised L (Malloc t sz p) = new_block L sz p"
| "promised L (Calloc t n sz p) =
     (if unat n * unat sz < 2 ^ 64 then new_block L (n * sz) p else p = NULL)"
| "promised L (Realloc t q sz p) =
     (if q = NULL then new_block L sz p
      else if sz = 0 then p = NULL
      else if p = q then \<exists>m. (q, m, t) \<in> L \<and> unat sz \<le> m
      else new_block L sz p)"
| "promised L (Free t p) = True"

section \<open>The program's calls\<close>

fun performs :: "platform \<Rightarrow> cm_state \<Rightarrow> call \<Rightarrow> cm_state \<Rightarrow> bool" where
  "performs os s (Malloc t sz p) s' = (cmalloc os t sz s = Inr (p, s'))"
| "performs os s (Calloc t n sz p) s' = (ccalloc os t n sz s = Inr (p, s'))"
| "performs os s (Realloc t q sz p) s' = (crealloc os t q sz s = Inr (p, s'))"
| "performs os s (Free t p) s' = (cfree os t p s = Inr s')"

inductive heap_run :: "platform \<Rightarrow> cm_state \<Rightarrow> heap \<Rightarrow> bool" for os where
  start: "heap_run os (cmalloc_constructor os (cm_zero bytes0)) {}"
| call: "heap_run os s L \<Longrightarrow> permitted os L c \<Longrightarrow> performs os s c s' \<Longrightarrow> heap_run os s' (heap_after L c)"
| store: "heap_run os s L \<Longrightarrow> (p, n, t) \<in> L \<Longrightarrow> unat a \<in> bytes p n \<Longrightarrow>
    heap_run os (s\<lparr>mem := (mem s)(a := v)\<rparr>) L"

inductive_cases heap_runE: "heap_run os s L"

section \<open>One call on the invariant\<close>

lemma heap_inv_mem [simp]:
  "heap_inv os E K U own (s\<lparr>mem := bs\<rparr>) = heap_inv os E K U own s"
  "owned U own (s\<lparr>mem := bs\<rparr>) = owned U own s"
  by (simp_all add: heap_inv_def bins_owned_def local_bin_def owned_def)

lemma granted_covers: "unat sz \<le> granted sz" "0 < granted sz"
proof -
  show "unat sz \<le> granted sz"
  proof (cases "sz > MAX_SIZE_CLASS")
    case False
    then have "first_fit sz < SIZE_CLASS_COUNT" by (intro first_fit_exists) simp
    from first_fit_ge [OF this] False show ?thesis by (simp add: granted_def word_le_nat_alt)
  qed (simp add: granted_def)
  show "0 < granted sz"
  proof (cases "sz > MAX_SIZE_CLASS")
    case True
    then have "sz \<noteq> 0" by auto
    then show ?thesis using True by (simp add: granted_def unat_gt_0)
  next
    case False
    then have "first_fit sz < SIZE_CLASS_COUNT" by (intro first_fit_exists) simp
    from class_row [OF this] False show ?thesis by (simp add: granted_def class_row_ok_def)
  qed
qed

lemma granted_class:
  assumes "sz \<le> MAX_SIZE_CLASS"
  shows "granted sz \<le> 32768"
proof -
  have i: "first_fit sz < SIZE_CLASS_COUNT" using assms by (rule first_fit_exists)
  have "SIZE_CLASSES ! first_fit sz \<in> set SIZE_CLASSES" using i by (intro nth_mem) simp
  then have "unat (SIZE_CLASSES ! first_fit sz) \<le> 32768" by (auto simp: SIZE_CLASSES_def)
  moreover have "\<not> sz > MAX_SIZE_CLASS" using assms by simp
  ultimately show ?thesis unfolding granted_def by (simp only: if_False)
qed

lemma cmalloc_law:
  assumes I: "heap_inv os E K U own s" and sv: "served os sz p"
    and run: "cmalloc os tid sz s = Inr (p, s')"
  obtains E' K' U' own' where "heap_inv os E' K' U' own' s'"
    "owned U' own' s' = insert (p, granted sz, tid) (owned U own s)"
    "\<And>t. (p, granted sz, t) \<notin> owned U own s" "rt (sp s') = rt (sp s)" "mem s' = mem s"
    "\<forall>y \<in> U. block_size (span_at s' y) = block_size (span_at s y)"
proof (cases "sz > MAX_SIZE_CLASS")
  case True
  note R = layer_inv_rt [OF heap_invD(2) [OF I]]
  have sz: "unat sz + unat (cmalloc_page_size (rt (sp s))) \<le> 2 ^ 64" and p: "p \<noteq> MAP_FAILED"
    using sv by (simp_all add: served_def R(2))
  have "granted sz = unat sz" using True by (simp add: granted_def)
  then show thesis using cmalloc_large_law [OF I True sz run p] that by metis
next
  case False
  note R = layer_inv_rt(1) [OF heap_invD(2) [OF I]]
  have cls: "get_size_class_index (rt (sp s)) sz = int (first_fit sz)" "first_fit sz < SIZE_CLASS_COUNT"
    using False get_size_class_index_value [OF R] by (auto intro: first_fit_exists)
  have "granted sz = unat (SIZE_CLASSES ! first_fit sz)" using False by (simp add: granted_def)
  then show thesis using cmalloc_class_law [OF I cls run] that by metis
qed

lemma cmalloc_new_block:
  assumes I: "heap_inv os E K U own s" "served os sz p" "cmalloc os tid sz s = Inr (p, s')"
  shows "new_block (owned U own s) sz p"
proof -
  obtain E' K' U' own' where J: "heap_inv os E' K' U' own' s'"
    "owned U' own' s' = insert (p, granted sz, tid) (owned U own s)"
    "\<And>t. (p, granted sz, t) \<notin> owned U own s"
    using cmalloc_law [OF I] by metis
  have live: "(q, m) \<in> live U' s'" if "(q, m, u) \<in> insert (p, granted sz, tid) (owned U own s)" for q m u
    using that unfolding J(2) [symmetric] live_iff_owned [where own = own'] by blast
  have pl: "(p, granted sz) \<in> live U' s'" by (rule live [of _ _ tid]) simp
  have "bytes p (granted sz) \<inter> bytes q m = {}" if b: "(q, m, u) \<in> owned U own s" for q m u
  proof (rule live_disjoint [OF J(1) pl live])
    show "(q, m, u) \<in> insert (p, granted sz, tid) (owned U own s)" using b by simp
    show "(p, granted sz) \<noteq> (q, m)" using J(3) b by auto
  qed
  then show ?thesis
    using live_address [OF J(1) pl] granted_covers by (auto simp: new_block_def)
qed


text \<open>An address is the start of one block at most, and never \<open>NULL\<close>.\<close>

lemma owned_unique:
  assumes I: "heap_inv os E K U own s" and b: "(p, m, t) \<in> owned U own s" "(p, n, u) \<in> owned U own s"
  shows "m = n \<and> t = u"
proof -
  obtain x y where x: "x \<in> U" "own x = t" "(p, m) \<in> live_blocks (span_at s x)"
    and y: "y \<in> U" "own y = u" "(p, n) \<in> live_blocks (span_at s y)"
    using b unfolding owned_iff by blast
  have "x = y" by (rule same_block_same_span [OF I x(1,3) y(1,3)])
  moreover have "m = unat (block_size (span_at s x))" "n = unat (block_size (span_at s y))"
    using x(3) y(3) unfolding live_blocks_def by blast+
  ultimately show ?thesis using x(2) y(2) by simp
qed

lemma without_owned:
  assumes "heap_inv os E K U own s" "(p, m, t) \<in> owned U own s"
  shows "without p (owned U own s) = owned U own s - {(p, m, t)}"
proof (rule set_eqI)
  fix b :: "ptr \<times> nat \<times> nat"
  obtain q n u where b: "b = (q, n, u)" by (cases b)
  show "b \<in> without p (owned U own s) \<longleftrightarrow> b \<in> owned U own s - {(p, m, t)}"
    using owned_unique [OF assms, of n u] by (auto simp: without_def b)
qed

lemma owned_not_null:
  assumes I: "heap_inv os E K U own s" and "(p, m, t) \<in> owned U own s"
  shows "p \<noteq> NULL" "0 < m" "16 dvd unat p" "unat p + m \<le> 2 ^ 47"
proof -
  have "(p, m) \<in> live U s" using assms(2) live_iff_owned by blast
  from live_address [OF I this] show "p \<noteq> NULL" "0 < m" "16 dvd unat p" "unat p + m \<le> 2 ^ 47"
    by blast+
qed

lemma without_null: "heap_inv os E K U own s \<Longrightarrow> without NULL (owned U own s) = owned U own s"
  unfolding without_def using owned_not_null(1) by fastforce

definition heap_ok :: "platform \<Rightarrow> cm_state \<Rightarrow> heap \<Rightarrow> bool" where
  "heap_ok os s L \<longleftrightarrow> (\<exists>E K U own. heap_inv os E K U own s \<and> L = owned U own s)"

lemma heap_okI: "heap_inv os E K U own s \<Longrightarrow> owned U own s = L \<Longrightarrow> heap_ok os s L"
  unfolding heap_ok_def by blast

lemma malloc_call:
  assumes "heap_ok os s L" "served os sz p" "cmalloc os t sz s = Inr (p, s')"
  shows "heap_ok os s' (insert (p, granted sz, t) L)" "new_block L sz p" "mem s' = mem s"
proof -
  obtain E K U own where I: "heap_inv os E K U own s" "L = owned U own s"
    using assms(1) unfolding heap_ok_def by blast
  obtain E' K' U' own' where J: "heap_inv os E' K' U' own' s'"
    "owned U' own' s' = insert (p, granted sz, t) (owned U own s)" and m: "mem s' = mem s"
    using cmalloc_law [OF I(1) assms(2,3)] by metis
  show "heap_ok os s' (insert (p, granted sz, t) L)" using heap_okI [OF J] I(2) by simp
  show "new_block L sz p" using cmalloc_new_block [OF I(1) assms(2,3)] I(2) by simp
  show "mem s' = mem s" by (rule m)
qed

lemma free_call:
  assumes "heap_ok os s L" "p = NULL \<or> (\<exists>m. (p, m, t) \<in> L)" "cfree os t p s = Inr s'"
  shows "heap_ok os s' (without p L)" "mem s' = mem s"
proof -
  obtain E K U own where I: "heap_inv os E K U own s" "L = owned U own s"
    using assms(1) unfolding heap_ok_def by blast
  have "heap_ok os s' (without p L) \<and> mem s' = mem s"
  proof (cases "p = NULL")
    case True
    then have "s' = s" using assms(3) by (simp add: cfree_def)
    then show ?thesis using assms(1) without_null [OF I(1)] I(2) True by simp
  next
    case False
    then obtain m where m: "(p, m, t) \<in> owned U own s" using assms(2) I(2) by blast
    obtain E' K' U' where J: "heap_inv os E' K' U' own s'" "owned U' own s' = owned U own s - {(p, m, t)}"
      "mem s' = mem s"
      using cfree_law [OF I(1) m assms(3)] by metis
    show ?thesis using heap_okI [OF J(1,2)] J(3) without_owned [OF I(1) m] I(2) by simp
  qed
  then show "heap_ok os s' (without p L)" "mem s' = mem s" by blast+
qed

lemma heap_ok_mem [simp]: "heap_ok os (s\<lparr>mem := bs\<rparr>) L = heap_ok os s L"
  by (simp add: heap_ok_def)


text \<open>\<open>ccalloc\<close> and \<open>crealloc\<close>, taken apart.\<close>

lemma calloc_run:
  assumes "ccalloc os t n sz s = Inr (p, s')"
  obtains (overflow) "\<not> unat n * unat sz < 2 ^ 64" "p = NULL" "s' = s"
    | (zeroed) s1 where "unat n * unat sz < 2 ^ 64" "cmalloc os t (n * sz) s = Inr (p, s1)"
      "p \<noteq> NULL \<Longrightarrow> s' = s1\<lparr>mem := memset_zero (mem s1) p (n * sz)\<rparr>"
proof (cases "n \<noteq> 0 \<and> sz > SIZE_MAX div n")
  case True
  then show thesis using assms calloc_guard [of n sz] overflow by (simp add: ccalloc_def)
next
  case False
  then have fit: "unat n * unat sz < 2 ^ 64" using calloc_guard [of n sz] by blast
  obtain q s1 where m: "cmalloc os t (n * sz) s = Inr (q, s1)"
    and r: "(if q = NULL then Inr (NULL, s1)
             else if n * sz \<noteq> 0 then
               if \<not> valid_ptr q then Inl Bad_Deref
               else Inr (q, s1\<lparr>mem := memset_zero (mem s1) q (n * sz)\<rparr>)
             else Inr (q, s1)) = Inr (p, s')"
    using assms False by (auto simp: ccalloc_def Let_def elim!: bindr_InrE)
  have z: "s1\<lparr>mem := memset_zero (mem s1) q 0\<rparr> = s1" by (simp add: memset_zero_def)
  have "q = p \<and> (p \<noteq> NULL \<longrightarrow> s' = s1\<lparr>mem := memset_zero (mem s1) p (n * sz)\<rparr>)"
    using r z by (auto split: if_splits)
  then show thesis using fit m by (intro zeroed) auto
qed

lemma realloc_run:
  assumes "crealloc os t q sz s = Inr (p, s')" "q \<noteq> NULL" "sz \<noteq> 0"
    and x: "cmalloc_get_span (sp s) q = Inr x" "valid_ptr x"
  obtains (in_place) "sz \<le> block_size (span_at s x)" "p = q" "s' = s"
    | (failed) "cmalloc os t sz s = Inr (NULL, s')" "p = NULL"
    | (moved) s1 where "cmalloc os t sz s = Inr (p, s1)" "p \<noteq> NULL" "block_size (span_at s x) < sz"
      "cfree os t q (s1\<lparr>mem := memcpy (mem s1) p q (block_size (span_at s1 x))\<rparr>) = Inr s'"
proof (cases "sz \<le> block_size (span_at s x)")
  case True
  have "crealloc os t q sz s = Inr (q, s)"
    unfolding crealloc_def using assms(2,3) x True by simp
  with assms(1) have "p = q" "s' = s" by simp_all
  with True show thesis by (rule in_place)
next
  case False
  then obtain r s1 where m: "cmalloc os t sz s = Inr (r, s1)"
    and r: "(if r = NULL then Inr (NULL, s1)
          else if \<not> valid_ptr r then Inl Bad_Deref
          else bindr (cfree os t q (s1\<lparr>mem := memcpy (mem s1) r q (block_size (span_at s1 x))\<rparr>))
                 (\<lambda>s. Inr (r, s))) = Inr (p, s')"
    using assms unfolding crealloc_def Let_def by (auto elim!: bindr_InrE)
  show thesis
  proof (cases "r = NULL")
    case True
    then show thesis using r m by (intro failed) simp_all
  next
    case ne: False
    then obtain s2 where "cfree os t q (s1\<lparr>mem := memcpy (mem s1) r q (block_size (span_at s1 x))\<rparr>) = Inr s2"
      "(r, s2) = (p, s')"
      using r by (cases "valid_ptr r") (auto elim: bindr_InrE)
    then show thesis using ne m False by (intro moved [of s1]) simp_all
  qed
qed

lemma calloc_call:
  assumes H: "heap_ok os s L" and sv: "served os (n * sz) p" and run: "ccalloc os t n sz s = Inr (p, s')"
  shows "heap_ok os s' (heap_after L (Calloc t n sz p))" "promised L (Calloc t n sz p)"
proof -
  have "heap_ok os s' (heap_after L (Calloc t n sz p)) \<and> promised L (Calloc t n sz p)"
    using run
  proof (cases rule: calloc_run)
    case overflow
    with H show ?thesis by simp
  next
    case (zeroed s1)
    note m = malloc_call [OF H sv zeroed(2)]
    have "p \<noteq> NULL" using m(2) by (simp add: new_block_def)
    with zeroed m show ?thesis by simp
  qed
  then show "heap_ok os s' (heap_after L (Calloc t n sz p))" "promised L (Calloc t n sz p)" by blast+
qed

lemma heap_span:
  assumes "heap_ok os s L" "(q, m, t) \<in> L"
  obtains x where "cmalloc_get_span (sp s) q = Inr x" "valid_ptr x" "m = unat (block_size (span_at s x))"
    "q \<noteq> NULL" "0 < m"
proof -
  obtain E K U own where I: "heap_inv os E K U own s" "L = owned U own s"
    using assms(1) unfolding heap_ok_def by blast
  have b: "(q, m, t) \<in> owned U own s" using assms(2) I(2) by simp
  show thesis by (rule owned_block_span [OF I(1) b]) (use that owned_not_null [OF I(1) b] in blast)
qed

lemma new_block_elsewhere:
  assumes "new_block L sz p" "(q, m, t) \<in> L" "0 < m"
  shows "p \<noteq> q"
proof
  assume "p = q"
  moreover have "bytes p (granted sz) \<inter> bytes q m = {}" using assms(1,2) by (auto simp: new_block_def)
  ultimately show False using assms(3) granted_covers(2) [of sz] by (auto simp: bytes_def)
qed

lemma realloc_call:
  assumes H: "heap_ok os s L" and sv: "served os sz p" and q: "q = NULL \<or> (\<exists>m. (q, m, t) \<in> L)"
    and run: "crealloc os t q sz s = Inr (p, s')"
  shows "heap_ok os s' (heap_after L (Realloc t q sz p)) \<and> promised L (Realloc t q sz p)"
proof -
  consider "q = NULL" | "q \<noteq> NULL" "sz = 0" | m where "q \<noteq> NULL" "sz \<noteq> 0" "(q, m, t) \<in> L"
    using q by blast
  then show ?thesis
  proof cases
    case 1
    then have "cmalloc os t sz s = Inr (p, s')" using run by (simp add: crealloc_def)
    with malloc_call [OF H sv this] 1 show ?thesis by simp
  next
    case 2
    then have "cfree os t q s = Inr s'" "p = NULL" using run by (auto simp: crealloc_def elim!: bindr_InrE)
    with free_call [OF H q this(1)] 2 show ?thesis by simp
  next
    case (3 m)
    obtain x where x: "cmalloc_get_span (sp s) q = Inr x" "valid_ptr x"
      "m = unat (block_size (span_at s x))" "0 < m" by (rule heap_span [OF H 3(3)])
    from run 3(1,2) x(1,2) show ?thesis
    proof (cases rule: realloc_run)
      case in_place
      then have "unat sz \<le> m" by (simp add: x(3) word_le_nat_alt)
      with in_place H 3 show ?thesis by auto
    next
      case failed
      with malloc_call [OF H sv, of t s'] have "new_block L sz NULL" by simp
      then show ?thesis by (simp add: new_block_def)
    next
      case (moved s1)
      note c = malloc_call [OF H sv moved(1)]
      note ne = new_block_elsewhere [OF c(2) 3(3) x(4)]
      have "heap_ok os s' (without q (insert (p, granted sz, t) L))"
        using free_call [OF _ _ moved(4)] c(1) 3(3) by (metis heap_ok_mem insertCI)
      moreover have "without q (insert (p, granted sz, t) L) = insert (p, granted sz, t) (without q L)"
        using ne by (auto simp: without_def)
      ultimately show ?thesis using c(2) ne 3(1,2) by simp
    qed
  qed
qed

lemma call_law:
  assumes "heap_ok os s L" "permitted os L c" "performs os s c s'"
  shows "heap_ok os s' (heap_after L c)" "promised L c"
proof -
  have "heap_ok os s' (heap_after L c) \<and> promised L c"
  proof (cases c)
    case (Malloc t sz p)
    then show ?thesis using assms malloc_call [of os s L sz p t s'] by simp
  next
    case (Calloc t n sz p)
    then show ?thesis using assms calloc_call [of os s L n sz p t s'] by simp
  next
    case (Realloc t q sz p)
    then show ?thesis using assms realloc_call [of os s L sz p q t s'] by simp
  next
    case (Free t p)
    then show ?thesis using assms free_call [of os s L p t s'] by simp
  qed
  then show "heap_ok os s' (heap_after L c)" "promised L c" by blast+
qed

section \<open>Every run\<close>

lemma heap_start_inv:
  assumes os: "os_ok os"
  shows "heap_inv os {} (\<lambda>_. []) {} (\<lambda>_. 0) (cmalloc_constructor os (cm_zero bytes0))"
proof -
  let ?s = "cmalloc_constructor os (cm_zero bytes0)"
  have R: "runtime_ok (cmalloc_runtime_init os runtime_zero)"
    using os by (intro runtime_init_ok) (auto simp: runtime_zero_def os_ok_def)
  have f: "page_map (sp ?s) = NULL" "meta (sp ?s) = meta_zero" "data_arena (sp ?s) = NULL"
    "uninitilized_span_bin (sp ?s) = (\<lambda>_. NULL)" "non_empty_bitmap (sp ?s) = (\<lambda>_. 0)"
    "rt (sp ?s) = cmalloc_runtime_init os runtime_zero" "lock ?s = None" "thread_local_bin ?s = (\<lambda>_ _. NULL)"
    by (simp_all add: cmalloc_constructor_def cm_zero_def span_state_zero_def Let_def)
  have ps: "cmalloc_page_size (rt (sp ?s)) = sysconf_pagesize os"
    by (simp add: f cmalloc_runtime_init_def runtime_zero_def get_system_page_size_def Let_def)
  have "span_fresh os (sp ?s)"
    using os R ps by (simp add: span_fresh_def f bin_bits_def)
  then have "layer_inv os {} (\<lambda>_. []) {} (sp ?s)" by (simp add: layer_inv_def)
  moreover have "bins_owned {} (\<lambda>_. 0) ?s"
    by (auto simp: bins_owned_def local_bin_def dlist_def f intro!: exI [of _ "[]"])
  ultimately show ?thesis using f by (simp add: heap_inv_def)
qed

lemma heap_start: "os_ok os \<Longrightarrow> heap_ok os (cmalloc_constructor os (cm_zero bytes0)) {}"
  by (rule heap_okI [OF heap_start_inv]) (simp_all add: owned_def)

lemma heap_run_ok:
  assumes "heap_run os s L" "os_ok os"
  shows "heap_ok os s L"
  using assms(1)
proof (induction rule: heap_run.induct)
  case (start bytes0)
  show ?case by (rule heap_start) (rule assms(2))
next
  case (call s L c s')
  then show ?case using call_law(1) by blast
qed simp

end
