(* ===== verification/SpanLive.thy ===== *)
theory SpanLive
  imports HeapAlloc
begin

text \<open>
  Span creation does not fault while the system grants memory. \<open>supplied os maps\<close> asks \<open>mmap\<close> for
  one 32 MiB chunk within the next requests, and for enough metadata before and after it; every
  path of \<open>alloc_span\<close> for a size class then returns a span.
\<close>

section \<open>What the system must grant\<close>

definition meta_need :: nat where
  "meta_need = 16400"

fun chunk_steps :: "platform \<Rightarrow> mapping_list \<Rightarrow> nat \<Rightarrow> mapping_list set" where
  "chunk_steps os maps 0 = {maps}"
| "chunk_steps os maps (Suc k) =
     insert maps (chunk_steps os ((mmap os maps META_CHUNK_SIZE, META_CHUNK_SIZE) # maps) k)"

definition data_granted :: "platform \<Rightarrow> (mapping_list \<Rightarrow> bool) \<Rightarrow> u64 \<Rightarrow> mapping_list \<Rightarrow> bool" where
  "data_granted os Q len maps \<longleftrightarrow> mmap os maps len \<noteq> MAP_FAILED \<and>
     reserve_with os Q ((mmap os maps len, len) # maps) meta_need"

text \<open>As for \<open>reserve_with\<close>, \<open>Q\<close> holds of the list of mappings all the while.\<close>

definition supplied_with :: "platform \<Rightarrow> (mapping_list \<Rightarrow> bool) \<Rightarrow> mapping_list \<Rightarrow> bool" where
  "supplied_with os Q maps \<longleftrightarrow> reserve_with os Q maps (meta_need + 2) \<and>
     (\<forall>maps1 \<in> chunk_steps os maps 2. data_granted os Q DATA_CHUNK_SIZE maps1)"

abbreviation supplied :: "platform \<Rightarrow> mapping_list \<Rightarrow> bool" where
  "supplied os \<equiv> supplied_with os (\<lambda>_. True)"

lemma supplied_with_now: "supplied_with os Q maps \<Longrightarrow> Q maps"
  by (auto simp: supplied_with_def dest: reserve_with_now)

lemma chunk_steps_mono: "i \<le> j \<Longrightarrow> chunk_steps os maps i \<subseteq> chunk_steps os maps j"
proof (induction i arbitrary: maps j)
  case 0
  then show ?case by (cases j) auto
next
  case (Suc i)
  then obtain k where "j = Suc k" "i \<le> k" by (cases j) auto
  then show ?case using Suc.IH by auto
qed

lemma chunk_steps_next:
  assumes "maps1 \<in> next_mappings os maps"
  shows "chunk_steps os maps1 k \<subseteq> chunk_steps os maps (Suc k)"
  using assms chunk_steps_mono [of k "Suc k" os maps] by (auto simp: next_mappings_def)

section \<open>The calls return\<close>

lemma alloc_meta_returns:
  assumes I: "page_inv os E (page_map s) (meta s)"
    and sz: "size_ok sz" "\<not> node_size sz" "sz \<noteq> sizeof_l1_node"
    and rs: "reserve_with os Q (mappings (meta s)) (Suc k)"
  obtains p m where "alloc_meta os s sz = Inr (p, s\<lparr>meta := m\<rparr>)" "valid_ptr p"
    "page_inv os (insert (p, sz) E) (page_map s) m"
    "mappings m \<in> next_mappings os (mappings (meta s))" "reserve_with os Q (mappings m) k"
proof -
  obtain A F where J: "os_ok os" "meta_inv A F (meta s)" using I unfolding page_inv_def by blast
  obtain p m where r: "cmalloc_alloc_metadata os (meta s) sz = Inr (p, m)" "valid_ptr p"
    "reserve_with os Q (mappings m) k"
    by (rule alloc_returns [OF J sz(1) rs])
  have p0: "p \<noteq> NULL" using r(2) by auto
  show thesis
    using r page_inv_alloc(1) [OF I sz r(1) p0] alloc_mappings [OF J(2) sz(1) r(1)]
    by (intro that [of p m]) (simp_all add: alloc_meta_def)
qed

lemma map_span_pages_returns:
  assumes I: "page_inv os E (page_map s) (meta s)" and x: "x \<noteq> NULL"
    and le: "unat (span_base (span_heap s x)) div 2 ^ cmalloc_page_shift (rt s)
               + unat (page_count (span_heap s x)) \<le> 2 ^ 35"
    and rs: "reserve_with os Q (mappings (meta s)) (d + 2 * unat (page_count (span_heap s x)))"
  obtains m where "map_span_pages os s x = Inr (s\<lparr>meta := m\<rparr>)" "page_inv os E (page_map s) m"
    "reserve_with os Q (mappings m) d"
proof -
  let ?i = "round_down_page_index (rt s) (span_base (span_heap s x))" and ?n = "page_count (span_heap s x)"
  have "unat (?i + ?n) - unat ?i = unat ?n"
    using le by (simp add: span_pages_word unat_plus_if')
  then have "reserve_with os Q (mappings (meta s)) (d + 2 * (unat (?i + ?n) - unat ?i))" using rs by simp
  then obtain m where m: "cmalloc_map_range os (meta s) (page_map s) x ?i (?i + ?n) = Inr m"
    "reserve_with os Q (mappings m) d"
    using page_index.put_range_returns [OF I x] by blast
  then show thesis
    using page_index.put_range_law [OF I x m(1)]
    by (intro that [of m]) (simp_all add: map_span_pages_def Let_def)
qed

lemma mmap_pages_returns:
  assumes I: "page_inv os E (page_map s) (meta s)"
    and R: "runtime_ok (rt s)" "cmalloc_page_size (rt s) = sysconf_pagesize os"
    and n: "unat n * 2 ^ cmalloc_page_shift (rt s) < 2 ^ 64"
      "unat DATA_CHUNK_SIZE \<le> unat n * 2 ^ cmalloc_page_shift (rt s)"
  defines "len \<equiv> push_bit (cmalloc_page_shift (rt s)) n"
  assumes g: "data_granted os Q len (mappings (meta s))"
  obtains a m where "mmap_pages os s n = (a, s\<lparr>meta := m\<rparr>)" "a \<noteq> MAP_FAILED"
    "page_inv os (insert (a, len) E) (page_map s) m" "reserve_with os Q (mappings m) meta_need"
    "unat a + unat n * 2 ^ cmalloc_page_shift (rt s) \<le> 2 ^ 47" "2 ^ cmalloc_page_shift (rt s) dvd unat a"
proof -
  let ?a = "mmap os (mappings (meta s)) len"
  have l: "unat len = unat n * 2 ^ cmalloc_page_shift (rt s)"
    unfolding len_def unsigned_push_bit_eq using n(1)
    by (simp add: push_bit_eq_mult take_bit_nat_eq_self_iff)
  then have big: "4194304 < unat len" using n(2) by (simp add: DATA_CHUNK_SIZE_def)
  have a: "?a \<noteq> MAP_FAILED" using g by (simp add: data_granted_def)
  have m: "sys_mmap os (meta s) len = (?a, (meta s)\<lparr>mappings := (?a, len) # mappings (meta s)\<rparr>)"
    by (rule sys_mmap_ok [OF refl a])
  note pd = page_inv_data_mapping [OF I m a big]
  have "2 ^ cmalloc_page_shift (rt s) dvd unat ?a" using pd(5) R(2) unat_page_size [OF R(1)] by simp
  then show thesis
    using m pd(1,4) a g l
    by (intro that [of ?a "(meta s)\<lparr>mappings := (?a, len) # mappings (meta s)\<rparr>"])
       (simp_all add: mmap_pages_def data_granted_def len_def)
qed


section \<open>A new chunk\<close>

lemma alloc_span_chunk_eq:
  assumes "alloc_meta os s sizeof_data_chunk = Inr (arena, s1)"
    and "mmap_pages os (s1\<lparr>data_arena := arena\<rparr>) (chunk_page_count (rt s) pages) = (a, s2)"
    and "a \<noteq> MAP_FAILED"
    and "alloc_meta os (s2\<lparr>data_chunk_heap := (data_chunk_heap s2)(arena :=
        \<lparr>chunk_base = a, data_prev = data_arena s\<rparr>)\<rparr>) sizeof_span = Inr (fit, s4)"
    and "map_span_pages os (upd_span s4 fit (fit_area a pages)) fit = Inr s6"
  defines "rest \<equiv> chunk_page_count (rt s) pages - pages"
  shows "alloc_span_chunk os s pages =
    (if 0 < rest \<and> rest < MAX_BINNED_PAGES
     then bindr (alloc_meta os (fit_unlinked s6 fit) sizeof_span) (\<lambda>(x, s8).
            bindr (map_span_pages os (upd_span s8 x (rest_area (rt s8) a pages rest)) x) (\<lambda>s9.
              Inr (fit, rest_binned s9 fit x rest)))
     else Inr (fit, fit_unlinked s6 fit))"
proof -
  have c: "(if DATA_CHUNK_PAGE_COUNT (rt s) < pages then pages else DATA_CHUNK_PAGE_COUNT (rt s)) =
      chunk_page_count (rt s) pages"
    by (simp add: chunk_page_count_def Let_def)
  show ?thesis
    using assms(1-5) unfolding alloc_span_chunk_def Let_def c rest_def
    by (simp add: area_updates fit_unlinked_def rest_binned_def Let_def)
qed

lemma pages_in_user_space:
  assumes "runtime_ok r" "a + n * 2 ^ cmalloc_page_shift r \<le> (2 :: nat) ^ 47"
  shows "a div 2 ^ cmalloc_page_shift r + n \<le> 2 ^ 35"
proof -
  let ?k = "cmalloc_page_shift r"
  have "(a + n * 2 ^ ?k) div 2 ^ ?k = a div 2 ^ ?k + n" by simp
  moreover have "(a + n * 2 ^ ?k) div 2 ^ ?k \<le> 2 ^ 47 div 2 ^ ?k" using assms(2) by (rule div_le_mono)
  moreover have "(2 :: nat) ^ 47 div 2 ^ ?k \<le> 2 ^ 47 div 2 ^ 12"
    using page_shift_bounds [OF assms(1)] by (intro div_le_mono2 power_increasing) simp_all
  ultimately show ?thesis by simp
qed

lemma alloc_span_chunk_returns:
  assumes I: "page_inv os E (page_map s) (meta s)"
    and R: "runtime_ok (rt s)" "cmalloc_page_size (rt s) = sysconf_pagesize os"
    and lt: "0 < pages" "pages < MAX_BINNED_PAGES"
    and rs: "reserve_with os Q (mappings (meta s)) (Suc meta_need)"
    and g: "\<And>maps1. maps1 \<in> next_mappings os (mappings (meta s)) \<Longrightarrow>
      data_granted os Q (push_bit (cmalloc_page_shift (rt s)) (chunk_page_count (rt s) pages)) maps1"
  shows "\<exists>fit s'. alloc_span_chunk os s pages = Inr (fit, s') \<and> fit \<noteq> NULL \<and>
    Q (mappings (meta s'))"
proof -
  let ?c = "chunk_page_count (rt s) pages" and ?k = "cmalloc_page_shift (rt s)"
  note cb = chunk_pages_bounds [OF R(1) lt(2)]
  obtain arena m1 where 1: "alloc_meta os s sizeof_data_chunk = Inr (arena, s\<lparr>meta := m1\<rparr>)"
    "page_inv os (insert (arena, sizeof_data_chunk) E) (page_map s) m1"
    "mappings m1 \<in> next_mappings os (mappings (meta s))"
    by (rule alloc_meta_returns [OF I chunk_record_size rs])
  let ?s1 = "s\<lparr>meta := m1\<rparr>\<lparr>data_arena := arena\<rparr>"
  have s1: "page_inv os (insert (arena, sizeof_data_chunk) E) (page_map ?s1) (meta ?s1)"
    "runtime_ok (rt ?s1)" "unat ?c * 2 ^ cmalloc_page_shift (rt ?s1) < 2 ^ 64"
    "unat DATA_CHUNK_SIZE \<le> unat ?c * 2 ^ cmalloc_page_shift (rt ?s1)"
    "data_granted os Q (push_bit (cmalloc_page_shift (rt ?s1)) ?c) (mappings (meta ?s1))"
    using 1 R cb g by simp_all
  obtain a m2 where 2: "mmap_pages os ?s1 ?c = (a, ?s1\<lparr>meta := m2\<rparr>)" "a \<noteq> MAP_FAILED"
    "page_inv os (insert (a, push_bit (cmalloc_page_shift (rt ?s1)) ?c)
       (insert (arena, sizeof_data_chunk) E)) (page_map ?s1) m2"
    "reserve_with os Q (mappings m2) meta_need" "unat a + unat ?c * 2 ^ ?k \<le> 2 ^ 47" "2 ^ ?k dvd unat a"
    by (rule mmap_pages_returns [OF s1(1,2) _ s1(3-5)]) (simp_all add: R(2))
  let ?s2 = "?s1\<lparr>meta := m2\<rparr>"
  let ?s3 = "?s2\<lparr>data_chunk_heap := (data_chunk_heap ?s2)(arena :=
      \<lparr>chunk_base = a, data_prev = data_arena s\<rparr>)\<rparr>"
  let ?E3 = "insert (a, push_bit (cmalloc_page_shift (rt ?s1)) ?c) (insert (arena, sizeof_data_chunk) E)"
  have s3: "page_inv os ?E3 (page_map ?s3) (meta ?s3)"
    "reserve_with os Q (mappings (meta ?s3)) (Suc (meta_need - 1))"
    using 2(3,4) by (simp_all add: meta_need_def)
  obtain fit m4 where 4: "alloc_meta os ?s3 sizeof_span = Inr (fit, ?s3\<lparr>meta := m4\<rparr>)" "valid_ptr fit"
    "page_inv os (insert (fit, sizeof_span) ?E3) (page_map ?s3) m4" "reserve_with os Q (mappings m4) (meta_need - 1)"
    by (rule alloc_meta_returns [OF s3(1) descriptor_size s3(2)])
  let ?s5 = "upd_span (?s3\<lparr>meta := m4\<rparr>) fit (fit_area a pages)"
  have ak: "unat a div 2 ^ ?k + unat ?c \<le> 2 ^ 35"
    by (rule pages_in_user_space [OF R(1) 2(5)])
  have s5: "page_inv os (insert (fit, sizeof_span) ?E3) (page_map ?s5) (meta ?s5)" "fit \<noteq> NULL"
    "unat (span_base (span_heap ?s5 fit)) div 2 ^ cmalloc_page_shift (rt ?s5)
       + unat (page_count (span_heap ?s5 fit)) \<le> 2 ^ 35"
    "reserve_with os Q (mappings (meta ?s5))
       (meta_need - 1 - 2 * unat pages + 2 * unat (page_count (span_heap ?s5 fit)))"
    using 4(2-4) ak cb(1) lt(2)
    by (simp_all add: upd_span_def fit_area_def meta_need_def word_less_nat_alt MAX_BINNED_PAGES_def) auto
  obtain m6 where 6: "map_span_pages os ?s5 fit = Inr (?s5\<lparr>meta := m6\<rparr>)"
    "page_inv os (insert (fit, sizeof_span) ?E3) (page_map ?s5) m6"
    "reserve_with os Q (mappings m6) (meta_need - 1 - 2 * unat pages)"
    by (rule map_span_pages_returns [OF s5])
  let ?s6 = "fit_unlinked (?s5\<lparr>meta := m6\<rparr>) fit" and ?rest = "?c - pages"
  have ur: "unat ?rest = unat ?c - unat pages" using cb(1) by (simp add: unat_sub word_le_nat_alt)
  note eq = alloc_span_chunk_eq [OF 1(1) 2(1,2) 4(1) 6(1)]
  show ?thesis
  proof (cases "0 < ?rest \<and> ?rest < MAX_BINNED_PAGES")
    case False
    have "Q (mappings (meta ?s6))" unfolding fit_unlinked_reads using reserve_with_now [OF 6(3)] by simp
    then show ?thesis unfolding eq if_not_P [OF False] using s5(2) by blast
  next
    case True
    have e: "Suc (meta_need - 2 - 2 * unat pages) = meta_need - 1 - 2 * unat pages"
      using cb(1,2) by (simp add: meta_need_def)
    have s6: "page_inv os (insert (fit, sizeof_span) ?E3) (page_map ?s6) (meta ?s6)"
      "reserve_with os Q (mappings (meta ?s6)) (Suc (meta_need - 2 - 2 * unat pages))"
      unfolding e using 6(2,3) by (simp_all add: fit_unlinked_def upd_span_def)
    obtain x m8 where 8: "alloc_meta os ?s6 sizeof_span = Inr (x, ?s6\<lparr>meta := m8\<rparr>)" "valid_ptr x"
      "page_inv os (insert (x, sizeof_span) (insert (fit, sizeof_span) ?E3)) (page_map ?s6) m8"
      "reserve_with os Q (mappings m8) (meta_need - 2 - 2 * unat pages)"
      by (rule alloc_meta_returns [OF s6(1) descriptor_size s6(2)])
    let ?s8 = "?s6\<lparr>meta := m8\<rparr>"
    let ?s9 = "upd_span ?s8 x (rest_area (rt ?s8) a pages ?rest)"
    have rt8: "rt ?s8 = rt s" by (simp add: fit_unlinked_def upd_span_def)
    have b9: "span_base (rest_area (rt ?s8) a pages ?rest d) = a + push_bit ?k pages"
      "page_count (rest_area (rt ?s8) a pages ?rest d) = ?rest" for d
      unfolding rt8 rest_area_def by simp_all
    have h9: "span_heap ?s9 x = rest_area (rt ?s8) a pages ?rest (span_heap ?s8 x)" "rt ?s9 = rt s"
      "page_map ?s9 = page_map ?s6" "meta ?s9 = m8"
      by (simp_all add: upd_span_def fit_unlinked_def)
    have lt': "pages < ?c" using True cb(1) ur by (simp add: word_less_nat_alt)
    note sb = split_base [OF 2(6,5) lt']
    have s9: "page_inv os (insert (x, sizeof_span) (insert (fit, sizeof_span) ?E3)) (page_map ?s9) (meta ?s9)"
      "x \<noteq> NULL"
      "unat (span_base (span_heap ?s9 x)) div 2 ^ cmalloc_page_shift (rt ?s9)
         + unat (page_count (span_heap ?s9 x)) \<le> 2 ^ 35"
      "reserve_with os Q (mappings (meta ?s9)) (0 + 2 * unat (page_count (span_heap ?s9 x)))"
    proof -
      show "page_inv os (insert (x, sizeof_span) (insert (fit, sizeof_span) ?E3)) (page_map ?s9) (meta ?s9)"
        unfolding h9 by (rule 8(3))
      show "x \<noteq> NULL" using 8(2) by auto
      show "unat (span_base (span_heap ?s9 x)) div 2 ^ cmalloc_page_shift (rt ?s9)
         + unat (page_count (span_heap ?s9 x)) \<le> 2 ^ 35"
        unfolding h9 b9 sb(2) ur using ak cb(1) by simp
      show "reserve_with os Q (mappings (meta ?s9)) (0 + 2 * unat (page_count (span_heap ?s9 x)))"
      proof -
        have "0 + 2 * (unat ?c - unat pages) \<le> meta_need - 2 - 2 * unat pages"
          using cb(1,2) unfolding meta_need_def by linarith
        then show ?thesis unfolding h9 b9 ur by (rule reserve_mono [OF 8(4)])
      qed
    qed
    obtain m9 where 9: "map_span_pages os ?s9 x = Inr (?s9\<lparr>meta := m9\<rparr>)" "reserve_with os Q (mappings m9) 0"
      by (rule map_span_pages_returns [OF s9])
    have "Q (mappings (meta (rest_binned (?s9\<lparr>meta := m9\<rparr>) fit x ?rest)))"
      unfolding rest_binned_reads using reserve_with_now [OF 9(2)] by simp
    moreover
    have "bindr (alloc_meta os ?s6 sizeof_span) (\<lambda>(x, s8).
            bindr (map_span_pages os (upd_span s8 x (rest_area (rt s8) a pages ?rest)) x) (\<lambda>s9.
              Inr (fit, rest_binned s9 fit x ?rest))) = Inr (fit, rest_binned (?s9\<lparr>meta := m9\<rparr>) fit x ?rest)"
      unfolding 8(1) bindr_simps prod.case 9(1) ..
    ultimately show ?thesis unfolding eq if_P [OF True] using s5(2) by blast
  qed
qed


section \<open>Cutting the best fit\<close>

lemma alloc_span_split_eq:
  assumes "uninitilized_span_bin s (unat best) = b" "valid_ptr b"
    and "alloc_meta os (upd_span (pop_bin s best b) b (\<lambda>d. d\<lparr>page_count := pages\<rparr>)) sizeof_span = Inr (x, s2)"
    and "map_span_pages os (split_linked s2 b x pages (best - pages)) x = Inr s5"
  shows "alloc_span_split os s pages best = Inr (b, split_done s5 b x (best - pages))"
  using assms
  by (simp add: alloc_span_split_def pop_bin_def split_linked_def split_done_def Let_def)

lemma alloc_span_split_returns:
  assumes I: "span_inv os E K U s" and K: "K (unat best) = b # xs"
    and lt: "0 < pages" "pages < best" and rs: "reserve_with os Q (mappings (meta s)) (Suc meta_need)"
  shows "\<exists>s'. alloc_span_split os s pages best = Inr (b, s') \<and> Q (mappings (meta s'))"
proof -
  note D = span_invD [OF I]
  note pb = pop_bin_inv [OF I K]
  let ?rest = "best - pages"
  let ?s1 = "upd_span (pop_bin s best b) b (\<lambda>d. d\<lparr>page_count := pages\<rparr>)"
  have s1: "meta ?s1 = meta s" "page_map ?s1 = page_map s" "rt ?s1 = rt s"
    by (simp_all add: upd_span_def pop_bin_reads)
  note P = index_invD(1) [OF D(3)]
  have P1: "page_inv os E (page_map ?s1) (meta ?s1)" "reserve_with os Q (mappings (meta ?s1)) (Suc meta_need)"
    using P rs by (simp_all add: s1)
  obtain x m2 where 2: "alloc_meta os ?s1 sizeof_span = Inr (x, ?s1\<lparr>meta := m2\<rparr>)" "valid_ptr x"
    "page_inv os (insert (x, sizeof_span) E) (page_map ?s1) m2" "reserve_with os Q (mappings m2) meta_need"
    by (rule alloc_meta_returns [OF P1(1) descriptor_size P1(2)])
  let ?s2 = "?s1\<lparr>meta := m2\<rparr>"
  let ?s4 = "split_linked ?s2 b x pages ?rest"
  have s4: "rt ?s4 = rt s" "page_map ?s4 = page_map ?s1" "meta ?s4 = m2"
    "span_base (span_heap ?s2 b) = span_base (span_heap s b)" "rt ?s2 = rt s"
    by (simp_all add: split_linked_reads upd_span_def pop_bin_reads)
  have bS: "b \<in> U \<union> cached_spans K" using pb(3) by blast
  note pl = index_invD(3) [OF D(3) bS]
  have pcb: "page_count (span_heap s b) = best" by (rule pb(6))
  note bd = placed_bounds [OF P pl D(1), unfolded pcb]
  have al: "2 ^ cmalloc_page_shift (rt s) dvd unat (span_base (span_heap s b))"
    using pl by (simp add: placed_def)
  note sb = split_base [OF al bd(1) lt(2)]
  have n: "unat pages < unat best" using lt by (simp add: word_less_nat_alt)
  have unb: "unat best < 8193" using bins_invD(4) [OF D(4)] K by (simp add: MAX_BINNED_PAGES_def)
  have x0: "x \<noteq> NULL" using 2(2) by auto
  have P4: "page_inv os (insert (x, sizeof_span) E) (page_map ?s4) (meta ?s4)"
    unfolding s4 by (rule 2(3))
  have le: "unat (span_base (span_heap ?s4 x)) div 2 ^ cmalloc_page_shift (rt ?s4)
      + unat (page_count (span_heap ?s4 x)) \<le> 2 ^ 35"
    unfolding split_linked_reads(8,9) s4 sb(2,4) using bd(2) n by simp
  have r4: "reserve_with os Q (mappings (meta ?s4)) (0 + 2 * unat (page_count (span_heap ?s4 x)))"
  proof -
    have "0 + 2 * (unat best - unat pages) \<le> meta_need" using unb unfolding meta_need_def by linarith
    then show ?thesis unfolding split_linked_reads(9) s4 sb(4) by (rule reserve_mono [OF 2(4)])
  qed
  obtain m5 where 5: "map_span_pages os ?s4 x = Inr (?s4\<lparr>meta := m5\<rparr>)" "reserve_with os Q (mappings m5) 0"
    by (rule map_span_pages_returns [OF P4 x0 le r4])
  have "Q (mappings (meta (split_done (?s4\<lparr>meta := m5\<rparr>) b x ?rest)))"
    using reserve_with_now [OF 5(2)] by (simp add: split_done_def upd_span_def mark_non_empty_def Let_def)
  with alloc_span_split_eq [OF pb(4,5) 2(1) 5(1)] show ?thesis by blast
qed

section \<open>\<open>alloc_span\<close> for a size class\<close>

lemma chunk_len_class:
  assumes "runtime_ok r" "pages \<le> 256"
  shows "push_bit (cmalloc_page_shift r) (chunk_page_count r pages) = DATA_CHUNK_SIZE"
proof -
  let ?k = "cmalloc_page_shift r"
  have k: "?k \<in> {12, 13, 14, 15, 16}" using page_shift_bounds [OF assms(1)] by auto
  have c: "DATA_CHUNK_PAGE_COUNT r = drop_bit ?k 33554432"
    by (simp add: DATA_CHUNK_PAGE_COUNT_def DATA_CHUNK_SIZE_def)
  have d: "256 \<le> (drop_bit ?k 33554432 :: u64) \<and> push_bit ?k (drop_bit ?k 33554432) = (33554432 :: u64)"
    using k by (elim insertE emptyE; simp only:; simp)
  have "chunk_page_count r pages = drop_bit ?k 33554432"
    using d assms(2) by (auto simp: chunk_page_count_def c Let_def)
  then show ?thesis using d by (simp add: DATA_CHUNK_SIZE_def)
qed

lemma alloc_span_returns:
  assumes I: "layer_inv os E K U s"
    and pages: "pages = drop_bit (cmalloc_page_shift (rt s)) (round_up_page (rt s) sz)"
      "0 < pages" "pages \<le> 256"
    and g: "supplied_with os Q (mappings (meta s))"
  shows "\<exists>x s'. alloc_span os s sz = Inr (x, s') \<and> x \<noteq> NULL \<and> Q (mappings (meta s'))"
proof -
  have lt: "pages < MAX_BINNED_PAGES"
    using pages(3) by (simp add: word_le_nat_alt word_less_nat_alt MAX_BINNED_PAGES_def)
  have chunk_len: "push_bit (cmalloc_page_shift (rt s)) (chunk_page_count (rt s) pages) = DATA_CHUNK_SIZE"
    by (rule chunk_len_class [OF layer_inv_rt(1) [OF I] pages(3)])
  have proper: "\<exists>x s'. alloc_span os s0 sz = Inr (x, s') \<and> x \<noteq> NULL \<and> Q (mappings (meta s'))"
    if J: "span_inv os E0 K0 U0 s0" and r: "rt s0 = rt s"
      and m: "mappings (meta s0) \<in> next_mappings os (mappings (meta s))" for E0 K0 U0 s0
  proof -
    note D = span_invD [OF J]
    let ?best = "find_best_fitting_uninitialized_span (non_empty_bitmap s0) pages"
    have P: "page_inv os E0 (page_map s0) (meta s0)" by (rule index_invD(1) [OF D(3)])
    have pm: "page_map s0 \<noteq> NULL" using page_inv_valid [OF P] by auto
    have rs: "reserve_with os Q (mappings (meta s0)) (Suc meta_need)"
      using g m reserve_mono [of os Q "mappings (meta s)" "meta_need + 2" "Suc meta_need"]
      by (auto simp: supplied_with_def next_mappings_def Let_def)
    have np: "\<not> MAX_BINNED_PAGES \<le> pages" using lt by simp
    have base: "alloc_span os s0 sz =
        (if data_arena s0 \<noteq> NULL \<and> ?best \<noteq> NO_FITTING_PAGE_SEQUENCE
         then if pages = ?best then alloc_span_exact s0 pages else alloc_span_split os s0 pages ?best
         else alloc_span_chunk os s0 pages)"
      unfolding alloc_span_eq [OF pm] r pages(1) [symmetric] by (simp only: np if_False)
    show ?thesis
    proof (cases "data_arena s0 \<noteq> NULL \<and> ?best \<noteq> NO_FITTING_PAGE_SEQUENCE")
      case True
      then obtain b xs where b: "K0 (unat ?best) = b # xs" "pages \<le> ?best"
        using best_fit_found [OF D(4) refl _ lt] by blast
      have vb: "b \<noteq> NULL" using pop_bin_inv(5) [OF J b(1)] by auto
      have eq: "alloc_span os s0 sz = (if pages = ?best then alloc_span_exact s0 pages
          else alloc_span_split os s0 pages ?best)"
        unfolding base if_P [OF True] ..
      show ?thesis
      proof (cases "pages = ?best")
        case eqb: True
        have "K0 (unat pages) = b # xs" using b(1) eqb by metis
        from alloc_span_exact_law [OF J this] show ?thesis
          using eq eqb vb reserve_with_now [OF rs] by (auto simp: pop_bin_reads)
      next
        case False
        then have "pages < ?best" using b(2) by simp
        from alloc_span_split_returns [OF J b(1) pages(2) this rs] show ?thesis using eq False vb by auto
      qed
    next
      case False
      have eq: "alloc_span os s0 sz = alloc_span_chunk os s0 pages"
        unfolding base if_not_P [OF False] ..
      have "data_granted os Q (push_bit (cmalloc_page_shift (rt s0)) (chunk_page_count (rt s0) pages)) maps1"
        if "maps1 \<in> next_mappings os (mappings (meta s0))" for maps1
      proof -
        have "maps1 \<in> chunk_steps os (mappings (meta s)) 2"
          using that m by (auto simp: next_mappings_def numeral_2_eq_2)
        then show ?thesis using g chunk_len unfolding r by (simp add: supplied_with_def)
      qed
      from alloc_span_chunk_returns [OF P D(1,2) pages(2) lt rs this] show ?thesis unfolding eq .
    qed
  qed
  show ?thesis
  proof (cases "span_inv os E K U s")
    case True
    then show ?thesis by (rule proper) (simp_all add: next_mappings_def)
  next
    case False
    then have F: "span_fresh os s" using I by (simp add: layer_inv_def)
    then have f: "os_ok os" "page_map s = NULL" "meta s = meta_zero" by (simp_all add: span_fresh_def)
    have "reserve_with os Q (mappings meta_zero) (Suc (Suc meta_need))" using g by (simp add: supplied_with_def f(3))
    then obtain p m where p: "cmalloc_alloc_metadata os meta_zero sizeof_l1_node = Inr (p, m)" "valid_ptr p"
      using alloc_returns [OF f(1) meta_zero_inv size_ok_nodes(1)] by metis
    have i: "cmalloc_initialize_range_map os (meta s) = Inr (p, m)" "p \<noteq> NULL"
      using p by (auto simp: cmalloc_initialize_range_map_def f(3))
    let ?s = "s\<lparr>page_map := p, meta := m\<rparr>"
    have "mappings m \<in> next_mappings os (mappings (meta s))"
      unfolding f(3) by (rule alloc_mappings [OF meta_zero_inv size_ok_nodes(1) p(1)])
    then have "\<exists>x s'. alloc_span os ?s sz = Inr (x, s') \<and> x \<noteq> NULL \<and> Q (mappings (meta s'))"
      by (intro proper [OF new_page_map_inv [OF F i]]) simp_all
    moreover have "alloc_span os s sz = alloc_span os ?s sz"
      using i f(2) by (simp add: alloc_span_def)
    ultimately show ?thesis by simp
  qed
qed

end
