(* ===== verification/HeapLive.thy ===== *)
theory HeapLive
  imports HeapRuns SpanLive
begin

text \<open>
  \<open>cmalloc\<close> returns a block for every request up to 32 KiB while the system grants memory, on
  every path: no assertion fails, no pointer is dereferenced that should not be, no lock is left.
\<close>

lemma init_class_returns:
  assumes "i < SIZE_CLASS_COUNT"
  shows "\<exists>e. init_blocks (describe_span (int i) sz d) = Inr e"
proof -
  note f = describe_class_fields [OF assms, of sz d]
  have "32 \<le> unat (SIZE_CLASS_BLOCK_COUNT ! i)" "unat (SIZE_CLASS_BLOCK_COUNT ! i) \<le> MAX_SPAN_BLOCK_COUNT"
    using class_row [OF assms] by (simp_all add: class_row_ok_def)
  then show ?thesis
    using init_blocks_all_free [of "describe_span (int i) sz d"] f by fastforce
qed

lemma initialize_class_returns:
  assumes I: "layer_inv os E K U s" and i: "i < SIZE_CLASS_COUNT"
    and g: "supplied_with os Q (mappings (meta s))"
  shows "\<exists>x s'. cmalloc_initialize_span os s (int i) sz = Inr (x, s') \<and> Q (mappings (meta s'))"
proof -
  note R = layer_inv_rt(1) [OF I]
  let ?pages = "drop_bit (cmalloc_page_shift (rt s)) (round_up_page (rt s) (SIZE_CLASS_SPAN_SIZE ! i))"
  note cp = class_span_pages [OF R i]
  have "?pages \<le> 256"
    using class_pages_bound [OF R i cp(1)] by (simp add: word_le_nat_alt)
  from alloc_span_returns [OF I refl cp(2) this g]
  obtain x s1 where "alloc_span os s (SIZE_CLASS_SPAN_SIZE ! i) = Inr (x, s1)" "x \<noteq> NULL"
    "Q (mappings (meta s1))" by blast
  then show ?thesis
    using init_class_returns [OF i, of sz "span_heap s1 x"] class_index_nat [OF i] i
    by (auto simp: cmalloc_initialize_span_def upd_span_def)
qed

lemma cmalloc_class_returns:
  assumes I: "heap_inv os E K U own s"
    and cls: "get_size_class_index (rt (sp s)) sz = int i" "i < SIZE_CLASS_COUNT"
    and g: "supplied os (mappings (meta (sp s)))"
  shows "\<exists>p s'. cmalloc os tid sz s = Inr (p, s')"
proof (cases "thread_local_bin s tid i = NULL")
  case False
  show ?thesis by (rule cmalloc_bin_law [OF I cls False]) blast
next
  case True
  note H = heap_invD [OF I]
  obtain x t where t: "cmalloc_initialize_span os (sp s) (int i) sz = Inr (x, t)"
    using initialize_class_returns [OF H(2) cls(2) g] by blast
  obtain E' K' where J: "span_inv os E' K' (insert x U) t" "span_ok (span_heap t x)"
    "class_area (rt (sp s)) (span_heap t x) i"
    "free_set (span_heap t x) = {..<unat (SIZE_CLASS_BLOCK_COUNT ! i)}"
    using initialize_class_law [OF H(2) cls(2) t] by metis
  let ?s1 = "s\<lparr>lock := None, sp := t\<rparr>"
  have l: "locked_initialize_span os tid (int i) sz s = Inr (x, ?s1)"
    using t H(1) by (simp add: locked_initialize_span_def pthread_mutex_lock_def pthread_mutex_unlock_def)
  note X = index_invD [OF span_invD(3) [OF J(1)]]
  have "(x, sizeof_span) \<in> E'" using X(2) by blast
  from page_inv_block(1) [OF X(1) this] have v: "valid_ptr x" by simp
  have "local_bin ?s1 tid i []" by (simp add: local_bin_def dlist_def True)
  then obtain s2 where s2: "bin_push tid (int i) x ?s1 = Inr s2"
    using thread_bin.push_law [of "int i" ?s1 tid "[]" x] class_of_nat(1) [OF cls(2)] v by auto
  have u: "unlinked (span_at s2 x) = unlinked (span_at ?s1 x)"
    by (rule bin_step_frame(9) [OF bin_push_step [OF s2]])
  have "free_set (span_heap t x) \<noteq> {}"
    using J(4) class_row [OF cls(2)] by (auto simp: class_row_ok_def lessThan_empty_iff)
  then have "span_ok (span_at s2 x)" "free_set (span_at s2 x) \<noteq> {}"
    using J(2) unlinked_blocks [OF u] by simp_all
  from take_block_law [OF v this] obtain r where "take_block x s2 = Inr r" by blast
  then have "cmalloc os tid sz s = Inr r"
    using cls class_index_nat [OF cls(2)] True l s2 by (simp add: cmalloc_def Let_def)
  then show ?thesis by (cases r) simp
qed

end
