(* ===== verification/HeapCalls.thy ===== *)
theory HeapCalls
  imports HeapLive
begin

text \<open>
  Facts about single calls that the properties of the heap share: addresses inside a block lead to
  its descriptor, requests of a size class return, and the first calls of a program on the sample
  system.
\<close>

section \<open>Addresses inside a block\<close>

lemma address_in_bytes:
  fixes a p k :: u64
  assumes "a - p < k" "unat k \<le> n" "unat p + n \<le> 2 ^ 47"
  shows "unat a \<in> bytes p n"
proof -
  have l: "unat (a - p) < n" using assms(1,2) by (simp add: word_less_nat_alt)
  then have "unat p + unat (a - p) < 2 ^ 64" using assms(3) by simp
  then have "unat (p + (a - p)) = unat p + unat (a - p)" by (intro unat_add_lem [THEN iffD1]) simp
  then show ?thesis using l by simp
qed

lemma block_lookup:
  assumes I: "heap_inv os E K U own s" and b: "(p, n, t) \<in> owned U own s" and a: "unat a \<in> bytes p n"
  obtains x k where "x \<in> U" "own x = t" "n = unat (block_size (span_at s x))"
    "cmalloc_get_span (sp s) a = Inr x" "cmalloc_get_span (sp s) p = Inr x" "valid_ptr x"
    "in_block (span_at s x) k a" "in_block (span_at s x) k p" "used_span (rt (sp s)) (span_at s x)"
proof -
  obtain x k where x: "x \<in> U" "own x = t" "p = block_addr (span_at s x) k" "n = unat (block_size (span_at s x))"
    "k < unat (block_count (span_at s x))" "in_block (span_at s x) k p" "cmalloc_get_span (sp s) p = Inr x"
    "valid_ptr x" "used_span (rt (sp s)) (span_at s x)"
    by (rule owned_block_span [OF I b])
  note pl = used_placed [OF I x(1)]
  have r: "block_range (span_at s x) k = bytes p n" by (simp add: block_range_def x(3,4))
  have "unat a \<in> span_bytes (rt (sp s)) (span_at s x)" using block_in_span [OF x(9,5)] a r by blast
  then have "unat (round_down_page_index (rt (sp s)) a) \<in> span_pages (rt (sp s)) (span_at s x)"
    unfolding span_pages_word using span_bytes_page pl(1) by (simp add: placed_def)
  then have "look (meta (sp s)) (page_map (sp s)) (round_down_page_index (rt (sp s)) a) = x"
    using index_invD(5) [OF span_invD(3) [OF heap_inv_span [OF I x(1)]]] x(1) by blast
  then have "cmalloc_get_span (sp s) a = Inr x" by (simp add: cmalloc_get_span_def page_inv_get [OF pl(3)])
  moreover have "in_block (span_at s x) k a" using a x(3-5) by (simp add: in_block_def)
  ultimately show thesis using that x by blast
qed

text \<open>\<open>cfree\<close> of any address inside a block acts as \<open>cfree\<close> of its start.\<close>

lemma give_block_same:
  assumes "span_ok (span_at s x)" "in_block (span_at s x) k a" "in_block (span_at s x) k p"
  shows "give_block a x s = give_block p x s"
proof -
  have "unat ((q - span_base (span_at s x)) div block_size (span_at s x)) = k"
    if "in_block (span_at s x) k q" for q
    using that assms(1) by (intro block_index_of_addr) (auto simp: in_block_def span_ok_def)
  with assms(2,3) show ?thesis by (simp add: give_block_def free_block_def Let_def)
qed

lemma interior_free:
  assumes H: "heap_ok os s L" and b: "(p, n, t) \<in> L" and a: "unat a \<in> bytes p n"
  shows "cfree os u a s = cfree os u p s"
proof -
  obtain E K U own where I: "heap_inv os E K U own s" "L = owned U own s"
    using H unfolding heap_ok_def by blast
  have b': "(p, n, t) \<in> owned U own s" using b I(2) by simp
  obtain x k where x: "cmalloc_get_span (sp s) a = Inr x" "cmalloc_get_span (sp s) p = Inr x" "valid_ptr x"
    "in_block (span_at s x) k a" "in_block (span_at s x) k p" "used_span (rt (sp s)) (span_at s x)"
    by (rule block_lookup [OF I(1) b' a])
  have nn: "p \<noteq> NULL" "a \<noteq> NULL" using owned_not_null(1) [OF I(1) b'] a by (auto simp: unat_eq_zero)
  let ?c = "size_class_index (span_at s x)"
  let ?f = "if free_count (span_at s x) = 0 then bin_push u ?c x s else Inr s"
  have "give_block a x s1 = give_block p x s1" if s1: "?f = Inr s1" for s1
  proof -
    have un: "unlinked (span_at s1 x) = unlinked (span_at s x)"
      using s1 bin_step_frame(9) [OF bin_push_step] by (auto split: if_splits)
    have "span_ok (span_at s1 x)" using x(6) unlinked_blocks [OF un] by (simp add: used_span_def)
    then show ?thesis using x(4,5) in_block_unlinked [OF un] by (intro give_block_same) simp_all
  qed
  then have "bindr ?f (\<lambda>s. bindr (give_block a x s) g) = bindr ?f (\<lambda>s. bindr (give_block p x s) g)"
    for g :: "cm_state \<Rightarrow> fault + cm_state"
    by (cases ?f) simp_all
  with x(1-3) nn show ?thesis 
    by (cases "?c = LARGE_CLASS_SIZE_INDEX") (simp_all add: cfree_def Let_def split del: if_split)
qed

section \<open>Sample runs\<close>

text \<open>The sample system grants what \<open>supplied\<close> asks.\<close>

lemma sample_mmap_step:
  assumes "sample_top maps + unat len + 2 ^ 17 \<le> 2 ^ 46"
  shows "sample_mmap maps len \<noteq> MAP_FAILED"
    "sample_top ((sample_mmap maps len, len) # maps) \<le> sample_top maps + unat len + 2 ^ 16"
proof -
  let ?a = "(sample_top maps + 65535) div 65536 * 65536"
  have le: "?a \<le> sample_top maps + 65535" by simp
  with assms have b: "?a + unat len \<le> 2 ^ 46" by simp
  then have "?a < 2 ^ 64" by simp
  then have u: "unat (word_of_nat ?a :: ptr) = ?a" by (rule unat_word_of_nat64)
  have m: "sample_mmap maps len = word_of_nat ?a" using b by (simp add: sample_mmap_def Let_def)
  have "unat (word_of_nat ?a :: ptr) \<noteq> unat MAP_FAILED" unfolding u using b by simp
  then show "sample_mmap maps len \<noteq> MAP_FAILED" unfolding m by metis
  show "sample_top ((sample_mmap maps len, len) # maps) \<le> sample_top maps + unat len + 2 ^ 16"
    unfolding sample_top_Cons m u using le by (intro max.boundedI) simp_all
qed

lemma sample_chunk_steps:
  "maps1 \<in> chunk_steps sample_os maps k \<Longrightarrow> sample_top maps + k * 2 ^ 23 + 2 ^ 23 \<le> 2 ^ 46 \<Longrightarrow>
    sample_top maps1 \<le> sample_top maps + k * 2 ^ 23"
proof (induction k arbitrary: maps)
  case 0
  then show ?case by simp
next
  case (Suc k)
  let ?m = "(mmap sample_os maps META_CHUNK_SIZE, META_CHUNK_SIZE) # maps"
  have len: "unat META_CHUNK_SIZE = 4194304" by (simp add: META_CHUNK_SIZE_def)
  have "sample_top maps + unat META_CHUNK_SIZE + 2 ^ 17 \<le> 2 ^ 46" using Suc.prems(2) by (simp add: len)
  from sample_mmap_step(2) [OF this] have t: "sample_top ?m + k * 2 ^ 23 \<le> sample_top maps + Suc k * 2 ^ 23"
    by (simp add: sample_os_def len)
  show ?case
  proof (cases "maps1 = maps")
    case False
    then have "maps1 \<in> chunk_steps sample_os ?m k" using Suc.prems(1) by simp
    from Suc.IH [OF this] t Suc.prems(2) show ?thesis by simp
  qed simp
qed

lemma sample_reserve_top:
  "sample_top maps + k * 2 ^ 23 \<le> b \<Longrightarrow> b + 2 ^ 23 \<le> 2 ^ 46 \<Longrightarrow>
   reserve_with sample_os (\<lambda>ms. sample_top ms \<le> b) maps k"
proof (induction k arbitrary: maps)
  case (Suc k)
  let ?a = "mmap sample_os maps META_CHUNK_SIZE"
  have len: "unat META_CHUNK_SIZE = 4194304" by (simp add: META_CHUNK_SIZE_def)
  have "sample_top maps + unat META_CHUNK_SIZE + 2 ^ 17 \<le> 2 ^ 46" using Suc.prems by (simp add: len)
  note st = sample_mmap_step [OF this]
  have "sample_top ((?a, META_CHUNK_SIZE) # maps) + k * 2 ^ 23 \<le> b"
    using st(2) Suc.prems(1) by (simp add: sample_os_def len)
  from Suc.IH [OF this Suc.prems(2)] show ?case using st(1) Suc.prems(1) by (simp add: sample_os_def Let_def)
qed simp

lemma sample_supplied_with:
  assumes "sample_top maps + 2 ^ 38 \<le> b" "b + 2 ^ 23 \<le> 2 ^ 46" "\<And>ms. sample_top ms \<le> b \<Longrightarrow> Q ms"
  shows "supplied_with sample_os Q maps"
proof -
  have "data_granted sample_os Q DATA_CHUNK_SIZE maps1" if m: "maps1 \<in> chunk_steps sample_os maps 2" for maps1
  proof -
    have len: "unat DATA_CHUNK_SIZE = 33554432" by (simp add: DATA_CHUNK_SIZE_def)
    have t: "sample_top maps1 \<le> sample_top maps + 2 * 2 ^ 23"
      by (rule sample_chunk_steps [OF m]) (use assms(1,2) in simp)
    then have "sample_top maps1 + unat DATA_CHUNK_SIZE + 2 ^ 17 \<le> 2 ^ 46" using assms(1,2) by (simp add: len)
    note st = sample_mmap_step [OF this]
    have "sample_top ((sample_mmap maps1 DATA_CHUNK_SIZE, DATA_CHUNK_SIZE) # maps1) + meta_need * 2 ^ 23 \<le> b"
      using st(2) t assms(1) by (simp add: len meta_need_def)
    from reserve_with_weaken [OF sample_reserve_top [OF this assms(2)] assms(3)] st(1)
    show ?thesis by (simp add: data_granted_def sample_os_def)
  qed
  moreover have "sample_top maps + (meta_need + 2) * 2 ^ 23 \<le> b" using assms(1) by (simp add: meta_need_def)
  from reserve_with_weaken [OF sample_reserve_top [OF this assms(2)] assms(3)]
  have "reserve_with sample_os Q maps (meta_need + 2)" .
  ultimately show ?thesis by (simp add: supplied_with_def)
qed

lemma sample_supplied: "sample_top maps \<le> 2 ^ 44 \<Longrightarrow> supplied sample_os maps"
  by (rule sample_supplied_with [where b = "2 ^ 45"]) simp_all

abbreviation sample_start :: cm_state where
  "sample_start \<equiv> cmalloc_constructor sample_os (cm_zero (\<lambda>_. 0))"

lemma sample_start_run: "heap_run sample_os sample_start {}"
  by (rule heap_run.start)

lemma sample_start_supplied: "supplied sample_os (mappings (meta (sp sample_start)))"
  by (rule sample_supplied)
     (simp add: cmalloc_constructor_def cm_zero_def span_state_zero_def meta_zero_def sample_top_def Let_def)

section \<open>Calls that return\<close>

text \<open>A request of a size class never comes back as \<open>MAP_FAILED\<close>.\<close>

lemma class_malloc_served:
  assumes H: "heap_ok os s L" and sz: "sz \<le> MAX_SIZE_CLASS" and run: "cmalloc os t sz s = Inr (p, s')"
  shows "served os sz p"
proof -
  obtain E K U own where I: "heap_inv os E K U own s" using H unfolding heap_ok_def by blast
  note R = layer_inv_rt [OF heap_invD(2) [OF I]]
  have cls: "get_size_class_index (rt (sp s)) sz = int (first_fit sz)" "first_fit sz < SIZE_CLASS_COUNT"
    using sz get_size_class_index_value [OF R(1)] by (auto intro: first_fit_exists)
  obtain E' K' U' own' where J: "heap_inv os E' K' U' own' s'"
    "owned U' own' s' = insert (p, unat (SIZE_CLASSES ! first_fit sz), t) (owned U own s)"
    using cmalloc_class_law [OF I cls run] by metis
  have m: "(p, unat (SIZE_CLASSES ! first_fit sz), t) \<in> owned U' own' s'" using J(2) by simp
  have "unat p \<noteq> unat MAP_FAILED" using owned_not_null(4) [OF J(1) m] by auto
  then have "p \<noteq> MAP_FAILED" by metis
  moreover have "unat sz + unat (sysconf_pagesize os) \<le> 2 ^ 64"
  proof -
    have "unat sz \<le> 32768" using sz by (simp add: word_le_nat_alt MAX_SIZE_CLASS_def)
    moreover have "(2 :: nat) ^ cmalloc_page_shift (rt (sp s)) \<le> 2 ^ 16"
      using page_shift_bounds [OF R(1)] by (intro power_increasing) simp_all
    ultimately show ?thesis using unat_page_size [OF R(1)] R(2) by simp
  qed
  ultimately show ?thesis by (simp add: served_def)
qed

lemma class_malloc_returns:
  assumes H: "heap_ok os s L" and sz: "sz \<le> MAX_SIZE_CLASS" and g: "supplied os (mappings (meta (sp s)))"
  obtains p s' where "cmalloc os t sz s = Inr (p, s')" "served os sz p"
proof -
  obtain E K U own where I: "heap_inv os E K U own s" using H unfolding heap_ok_def by blast
  note R = layer_inv_rt(1) [OF heap_invD(2) [OF I]]
  have cls: "get_size_class_index (rt (sp s)) sz = int (first_fit sz)" "first_fit sz < SIZE_CLASS_COUNT"
    using sz get_size_class_index_value [OF R] by (auto intro: first_fit_exists)
  obtain p s' where run: "cmalloc os t sz s = Inr (p, s')" using cmalloc_class_returns [OF I cls g] by blast
  from that [OF run class_malloc_served [OF H sz run]] show thesis .
qed

lemma small_block_class:
  assumes I: "heap_inv os E K U own s" and x: "x \<in> U" "unat (block_size (span_at s x)) \<le> 32768"
  shows "size_class_index (span_at s x) \<noteq> LARGE_CLASS_SIZE_INDEX"
  using heap_invD(4) [OF I x(1)] x(2) class_area_index(2)
  by (auto simp: used_span_def large_area_def word_less_nat_alt MAX_SIZE_CLASS_def)

lemma class_free_returns:
  assumes H: "heap_ok os s L" and p: "(p, n, t) \<in> L" "n \<le> 32768"
  obtains s' where "cfree os t p s = Inr s'" "mem s' = mem s"
proof -
  obtain E K U own where I: "heap_inv os E K U own s" "L = owned U own s" using H unfolding heap_ok_def by blast
  have b: "(p, n, t) \<in> owned U own s" using p(1) I(2) by simp
  obtain x where x: "x \<in> U" "n = unat (block_size (span_at s x))" "cmalloc_get_span (sp s) p = Inr x"
    by (rule owned_block_span [OF I(1) b])
  show thesis
    using cfree_class_law [OF I(1) b x(3) small_block_class [OF I(1) x(1)]] p(2) x(2) that by metis
qed

lemma heap_block_fits: "heap_ok os s L \<Longrightarrow> (p, n, t) \<in> L \<Longrightarrow> unat p + n \<le> 2 ^ 47"
  unfolding heap_ok_def using owned_not_null(4) by blast

lemma without_block: "heap_ok os s L \<Longrightarrow> (p, n, t) \<in> L \<Longrightarrow> without p L = L - {(p, n, t)}"
  unfolding heap_ok_def using without_owned by blast

lemma class_malloc_run:
  assumes "os_ok os" "heap_run os s L" "sz \<le> MAX_SIZE_CLASS" "supplied os (mappings (meta (sp s)))"
  obtains p s' where "cmalloc os t sz s = Inr (p, s')" "served os sz p" "new_block L sz p"
    "heap_run os s' (insert (p, granted sz, t) L)" "mem s' = mem s"
proof -
  note H = heap_run_ok [OF assms(2,1)]
  obtain p s' where r: "cmalloc os t sz s = Inr (p, s')" "served os sz p"
    by (rule class_malloc_returns [OF H assms(3,4)])
  have "heap_run os s' (heap_after L (Malloc t sz p))"
    by (rule heap_run.call [OF assms(2)]) (simp_all add: r)
  then show thesis using that [OF r] malloc_call(2,3) [OF H r(2,1)] by simp
qed

lemma sample_malloc:
  obtains p s where "cmalloc sample_os 0 1000 sample_start = Inr (p, s)" "served sample_os 1000 p"
    "heap_run sample_os s {(p, granted 1000, 0)}"
proof -
  have "heap_ok sample_os sample_start {}" by (rule heap_start) (rule sample_os_ok)
  moreover have "(1000 :: u64) \<le> MAX_SIZE_CLASS" by (simp add: MAX_SIZE_CLASS_def)
  ultimately obtain p s where r: "cmalloc sample_os 0 1000 sample_start = Inr (p, s)" "served sample_os 1000 p"
    using class_malloc_returns sample_start_supplied by metis
  have "heap_run sample_os s (heap_after {} (Malloc 0 1000 p))"
    by (rule heap_run.call [OF sample_start_run]) (simp_all add: r)
  with r show thesis by (intro that) simp_all
qed

text \<open>
  A thread that holds one block of a class finds the span it came from in its bin: a second
  request needs nothing of the system.
\<close>

lemma second_malloc_returns:
  assumes H: "heap_ok os s {(p, granted sz, t)}" and sz: "sz \<le> MAX_SIZE_CLASS"
  shows "\<exists>q s'. cmalloc os t sz s = Inr (q, s') \<and> served os sz q"
proof -
  obtain E K U own where I: "heap_inv os E K U own s" "{(p, granted sz, t)} = owned U own s"
    using H unfolding heap_ok_def by blast
  let ?i = "first_fit sz"
  note R = layer_inv_rt [OF heap_invD(2) [OF I(1)]]
  have cls: "get_size_class_index (rt (sp s)) sz = int ?i" "?i < SIZE_CLASS_COUNT"
    using sz get_size_class_index_value [OF R(1)] by (auto intro: first_fit_exists)
  have g: "granted sz = unat (SIZE_CLASSES ! ?i)" using sz by (simp add: granted_def leD)
  have b: "(p, granted sz, t) \<in> owned U own s" using I(2) by blast
  obtain x where x: "x \<in> U" "own x = t" "granted sz = unat (block_size (span_at s x))"
    "used_span (rt (sp s)) (span_at s x)" by (rule owned_block_span [OF I(1) b])
  have "granted sz \<le> 32768" by (rule granted_class [OF sz])
  then obtain j where j: "class_area (rt (sp s)) (span_at s x) j"
    using x(3,4) by (auto simp: used_span_def large_area_def word_less_nat_alt MAX_SIZE_CLASS_def)
  have "SIZE_CLASSES ! j = SIZE_CLASSES ! ?i" using j x(3) g by (simp add: class_area_def word_unat_eq_iff)
  then have ji: "j = ?i"
    using size_classes_increase cls(2) j by (auto simp: class_area_def strict_sorted_iff nth_eq_iff_index_eq)
  have ok: "span_ok (span_at s x)" using x(4) by (simp add: used_span_def)
  have "32 \<le> unat (block_count (span_at s x))"
    using j class_row [of j] by (simp add: class_area_def class_row_ok_def)
  then have c: "0 < unat (block_count (span_at s x))" "1 < unat (block_count (span_at s x))" by simp_all
  have "free_set (span_at s x) \<noteq> {}"
  proof
    assume e: "free_set (span_at s x) = {}"
    have "(block_addr (span_at s x) k, granted sz, t) \<in> owned U own s" if "k < unat (block_count (span_at s x))" for k
      using that x(1-3) e unfolding owned_iff live_blocks_def by blast
    then have "block_addr (span_at s x) 0 = p" "block_addr (span_at s x) 1 = p"
      using c unfolding I(2) [symmetric] by blast+
    then show False using block_addr_inj [OF ok c] by simp
  qed
  moreover obtain xs where xs: "local_bin s t ?i xs"
    "set xs = {y \<in> U. own y = t \<and> size_class_index (span_at s y) = int ?i \<and> free_set (span_at s y) \<noteq> {}}"
    by (rule bins_ownedD [OF heap_invD(3) [OF I(1)] cls(2)])
  ultimately have "xs \<noteq> []" using x(1,2) j ji by (auto simp: class_area_def)
  with xs(1) have ne: "thread_local_bin s t ?i \<noteq> NULL" by (cases rule: local_bin_cases) auto
  obtain q s' where q: "cmalloc os t sz s = Inr (q, s')" using cmalloc_bin_law [OF I(1) cls ne] by metis
  with class_malloc_served [OF H sz q] show ?thesis by blast
qed

end
