(* ===== verification/HeapTheorems.thy ===== *)
theory HeapTheorems
  imports HeapCalls
begin

text \<open>
  The allocator against the specification of the heap in \<open>HeapRuns\<close>: in every state that permitted
  calls reach, the blocks are disjoint, aligned and apart from the allocator's own data, each call
  does what the specification promises, and nothing but the owner writes into a block.
\<close>

section \<open>The contract of the heap\<close>

text \<open>C1: in every state that permitted calls of any threads reach, a further permitted call does
  what the specification promises: \<open>cmalloc\<close>, \<open>ccalloc\<close> and \<open>crealloc\<close> return an aligned block,
  at least as large as the request and disjoint from every block that any thread holds, and the
  clients' heap afterwards is the specified one.\<close>

theorem heap_calls_refine:
  assumes "os_ok os" "heap_run os s L" "permitted os L c" "performs os s c s'"
  shows "promised L c \<and> heap_run os s' (heap_after L c)"
  using call_law(2) [OF heap_run_ok [OF assms(2,1)] assms(3,4)] heap_run.call [OF assms(2-4)] by blast

theorem heap_calls_refine_witness:
  "\<exists>p s. performs sample_os sample_start (Malloc 0 1000 p) s \<and> new_block {} 1000 p \<and>
     heap_run sample_os s {(p, granted 1000, 0)}"
proof -
  obtain p s where r: "cmalloc sample_os 0 1000 sample_start = Inr (p, s)" "served sample_os 1000 p"
    by (rule sample_malloc)
  then have "performs sample_os sample_start (Malloc 0 1000 p) s" "permitted sample_os {} (Malloc 0 1000 p)"
    by simp_all
  from heap_calls_refine [OF sample_os_ok sample_start_run this(2,1)] this(1) show ?thesis by auto
qed

text \<open>C2: the blocks that the clients hold never overlap, are 16-byte aligned, non-empty, not at
  \<open>NULL\<close> and inside the user address space.\<close>

theorem heap_blocks_disjoint:
  assumes "os_ok os" "heap_run os s L" "(p, m, t) \<in> L"
  shows "p \<noteq> NULL \<and> 16 dvd unat p \<and> 0 < m \<and> unat p + m \<le> 2 ^ 47 \<and>
    (\<forall>(q, n, u) \<in> L - {(p, m, t)}. bytes p m \<inter> bytes q n = {})"
proof -
  obtain E K U own where I: "heap_inv os E K U own s" "L = owned U own s"
    using heap_run_ok [OF assms(2,1)] unfolding heap_ok_def by blast
  have b: "(p, m, t) \<in> owned U own s" using assms(3) I(2) by simp
  have live: "(q, n) \<in> live U s" if "(q, n, u) \<in> owned U own s" for q n u
    using that live_iff_owned by blast
  have "bytes p m \<inter> bytes q n = {}" if c: "(q, n, u) \<in> L - {(p, m, t)}" for q n u
  proof (rule live_disjoint [OF I(1) live [OF b] live [of q n u]])
    show "(q, n, u) \<in> owned U own s" using c I(2) by simp
    show "(p, m) \<noteq> (q, n)" using owned_unique [OF I(1) b, of n u] c I(2) by auto
  qed
  then show ?thesis using owned_not_null [OF I(1) b] by blast
qed

theorem heap_blocks_disjoint_witness:
  "\<exists>p s. heap_run sample_os s {(p, granted 1000, 0)} \<and> p \<noteq> NULL \<and> (16 :: nat) dvd unat p"
proof -
  obtain p s where r: "heap_run sample_os s {(p, granted 1000, 0)}" by (rule sample_malloc)
  from heap_blocks_disjoint [OF sample_os_ok r, of p "granted 1000" 0] r show ?thesis by blast
qed

text \<open>C3: while \<open>mmap\<close> grants memory, \<open>cmalloc\<close> of a request up to 32 KiB never faults: in every
  state that permitted calls reach it returns a block that meets the specification.\<close>

theorem malloc_returns_block:
  assumes "os_ok os" "heap_run os s L" "sz \<le> MAX_SIZE_CLASS" "supplied os (mappings (meta (sp s)))"
  shows "\<exists>p s'. cmalloc os t sz s = Inr (p, s') \<and> p \<noteq> MAP_FAILED \<and> new_block L sz p \<and>
    heap_run os s' (insert (p, granted sz, t) L)"
proof -
  note H = heap_run_ok [OF assms(2,1)]
  obtain p s' where r: "cmalloc os t sz s = Inr (p, s')" "served os sz p"
    by (rule class_malloc_returns [OF H assms(3,4)])
  have "heap_run os s' (heap_after L (Malloc t sz p))"
    by (rule heap_run.call [OF assms(2)]) (simp_all add: r)
  with malloc_call(2) [OF H r(2,1)] r show ?thesis by (auto simp: served_def)
qed

theorem malloc_returns_block_witness:
  "\<exists>p s'. cmalloc sample_os 7 32768 sample_start = Inr (p, s') \<and> new_block {} 32768 p"
  using malloc_returns_block [OF sample_os_ok sample_start_run _ sample_start_supplied, of 32768 7]
  by (auto simp: MAX_SIZE_CLASS_def)


section \<open>\<open>cfree\<close>\<close>

text \<open>C4: \<open>cfree\<close> by its owner of a block of a size class never faults, in any state that permitted
  calls reach and whatever the system grants, and it removes that block and no other.\<close>

theorem small_free_never_faults:
  assumes "os_ok os" "heap_run os s L" "(p, n, t) \<in> L" "n \<le> 32768"
  shows "\<exists>s'. cfree os t p s = Inr s' \<and> heap_run os s' (L - {(p, n, t)}) \<and> mem s' = mem s"
proof -
  note H = heap_run_ok [OF assms(2,1)]
  obtain s' where s': "cfree os t p s = Inr s'" "mem s' = mem s" by (rule class_free_returns [OF H assms(3,4)])
  have "heap_run os s' (heap_after L (Free t p))"
    by (rule heap_run.call [OF assms(2)]) (use assms(3) s' in auto)
  moreover have "without p L = L - {(p, n, t)}" by (rule without_block [OF H assms(3)])
  ultimately show ?thesis using s' by simp
qed

theorem small_free_never_faults_witness:
  "\<exists>p s s'. heap_run sample_os s {(p, granted 1000, 0)} \<and> cfree sample_os 0 p s = Inr s' \<and>
     heap_run sample_os s' {}"
proof -
  obtain p s where r: "heap_run sample_os s {(p, granted 1000, 0)}" by (rule sample_malloc)
  have "granted 1000 \<le> 32768" by (rule granted_class) (simp add: MAX_SIZE_CLASS_def)
  from small_free_never_faults [OF sample_os_ok r _ this, of p 0] r show ?thesis by auto
qed

section \<open>The contents of the blocks\<close>

lemma outside_block:
  fixes a p k :: u64
  assumes nb: "new_block L sz p" and le: "unat k \<le> granted sz" and out: "unat a \<notin> bytes p (granted sz)"
  shows "\<not> a - p < k"
  using address_in_bytes [OF _ le] nb out by (auto simp: new_block_def)

lemma realloc_old_size:
  assumes H: "heap_ok os s L" and b: "(q, m, t) \<in> L" and sv: "served os sz p"
    and x: "cmalloc_get_span (sp s) q = Inr x" and run: "cmalloc os tid sz s = Inr (p, s')"
  shows "unat (block_size (span_at s' x)) = m"
proof -
  obtain E K U own where I: "heap_inv os E K U own s" "L = owned U own s"
    using H unfolding heap_ok_def by blast
  have b': "(q, m, t) \<in> owned U own s" using b I(2) by simp
  obtain y where "y \<in> U" "m = unat (block_size (span_at s y))" "cmalloc_get_span (sp s) q = Inr y"
    by (rule owned_block_span [OF I(1) b'])
  moreover obtain "\<forall>y \<in> U. block_size (span_at s' y) = block_size (span_at s y)"
    using cmalloc_law [OF I(1) sv run] by metis
  ultimately show ?thesis using x by simp
qed

lemma realloc_moved:
  assumes H: "heap_ok os s L" and b: "(q, m, t) \<in> L" and sv: "served os sz p"
    and x: "cmalloc_get_span (sp s) q = Inr x" and m: "cmalloc os t sz s = Inr (p, s1)"
    and f: "cfree os t q (s1\<lparr>mem := memcpy (mem s1) p q (block_size (span_at s1 x))\<rparr>) = Inr s'"
  obtains k where "unat k = m" "mem s' = memcpy (mem s) p q k"
proof -
  note c = malloc_call [OF H sv m]
  let ?s1 = "s1\<lparr>mem := memcpy (mem s1) p q (block_size (span_at s1 x))\<rparr>"
  have "heap_ok os ?s1 (insert (p, granted sz, t) L)" using c(1) by simp
  from free_call(2) [OF this _ f] b
  have "mem s' = memcpy (mem s) p q (block_size (span_at s1 x))" using c(3) by auto
  with realloc_old_size [OF H b sv x m] show thesis by (rule that)
qed

text \<open>What a call writes into user memory: nothing outside the block it returns.\<close>

lemma call_writes:
  assumes H: "heap_ok os s L" and pm: "permitted os L c" and run: "performs os s c s'"
    and b: "(q, m, u) \<in> L" "(q, m, u) \<in> heap_after L c" and a: "unat a \<in> bytes q m"
  shows "mem s' a = mem s a"
proof -
  have out: "\<not> a - p < k" if "new_block L sz p" "unat k \<le> granted sz" for p sz k
  proof (rule outside_block [OF that])
    have "bytes p (granted sz) \<inter> bytes q m = {}" using that(1) b(1) by (auto simp: new_block_def)
    then show "unat a \<notin> bytes p (granted sz)" using a by blast
  qed
  show ?thesis
  proof (cases c)
    case (Malloc t sz p)
    then show ?thesis using malloc_call(3) [OF H] pm run by simp
  next
    case (Free t p)
    then show ?thesis using free_call(2) [OF H] pm run by simp
  next
    case (Calloc t n sz p)
    then have "ccalloc os t n sz s = Inr (p, s')" and sv: "served os (n * sz) p" using pm run by simp_all
    then show ?thesis
    proof (cases rule: calloc_run)
      case (zeroed s1)
      note c = malloc_call [OF H sv zeroed(2)]
      have "p \<noteq> NULL" using c(2) by (simp add: new_block_def)
      then show ?thesis
        using zeroed(3) c(3) out [OF c(2) granted_covers(1)] by (simp add: memset_zero_def)
    qed simp
  next
    case (Realloc t r sz p)
    then have run': "crealloc os t r sz s = Inr (p, s')" and sv: "served os sz p"
      and r: "r = NULL \<or> (\<exists>n. (r, n, t) \<in> L)" using pm run by simp_all
    consider "r = NULL" | "r \<noteq> NULL" "sz = 0" | n where "r \<noteq> NULL" "sz \<noteq> 0" "(r, n, t) \<in> L"
      using r by blast
    then show ?thesis
    proof cases
      case 1
      then show ?thesis using malloc_call(3) [OF H sv] run' by (simp add: crealloc_def)
    next
      case 2
      then have "cfree os t r s = Inr s'" using run' by (auto simp: crealloc_def elim!: bindr_InrE)
      with free_call(2) [OF H r this] show ?thesis by simp
    next
      case (3 n)
      obtain x where x: "cmalloc_get_span (sp s) r = Inr x" "valid_ptr x"
        "n = unat (block_size (span_at s x))" by (rule heap_span [OF H 3(3)])
      from run' 3(1,2) x(1,2) show ?thesis
      proof (cases rule: realloc_run)
        case failed
        then show ?thesis using malloc_call(3) [OF H sv] by simp
      next
        case (moved s1)
        note c = malloc_call [OF H sv moved(1)]
        obtain k where k: "unat k = n" "mem s' = memcpy (mem s) p r k"
          by (rule realloc_moved [OF H 3(3) sv x(1) moved(1,4)])
        have "n \<le> granted sz"
          using moved(3) granted_covers(1) [of sz] by (simp add: x(3) word_less_nat_alt)
        then show ?thesis using out [OF c(2), of k] k by (simp add: memcpy_def)
      qed simp
    qed
  qed
qed


text \<open>C5: no permitted call writes into a block that some thread holds before and after it: the
  bytes of the other blocks survive \<open>ccalloc\<close> zeroing its block and \<open>crealloc\<close> copying into its
  own.\<close>

theorem heap_contents_kept:
  assumes "os_ok os" "heap_run os s L" "permitted os L c" "performs os s c s'"
    and "(q, m, u) \<in> L" "(q, m, u) \<in> heap_after L c" "unat a \<in> bytes q m"
  shows "mem s' a = mem s a"
  by (rule call_writes [OF heap_run_ok [OF assms(2,1)] assms(3-7)])

theorem heap_contents_kept_witness:
  "\<exists>p q s s'. heap_run sample_os s {(p, granted 1000, 0)} \<and> cmalloc sample_os 0 1000 s = Inr (q, s') \<and>
     mem s' p = mem s p"
proof -
  obtain p s where r: "heap_run sample_os s {(p, granted 1000, 0)}" by (rule sample_malloc)
  note H = heap_run_ok [OF r sample_os_ok]
  have "(1000 :: u64) \<le> MAX_SIZE_CLASS" by (simp add: MAX_SIZE_CLASS_def)
  from second_malloc_returns [OF H this] obtain q s' where
    q: "cmalloc sample_os 0 1000 s = Inr (q, s')" "served sample_os 1000 q" by blast
  have "mem s' p = mem s p"
    by (rule heap_contents_kept [OF sample_os_ok r, of "Malloc 0 1000 q" s' p "granted 1000" 0])
       (use q granted_covers(2) [of 1000] in \<open>simp_all add: bytes_def\<close>)
  with r q(1) show ?thesis by blast
qed

text \<open>C6: \<open>crealloc\<close> of a block keeps its contents: whether it answers with the same block or with a
  new one, all bytes of the old block are found from the start of the result.\<close>

theorem realloc_keeps_contents:
  assumes "os_ok os" "heap_run os s L" "(q, m, t) \<in> L" "served os sz p" "sz \<noteq> 0"
    and "crealloc os t q sz s = Inr (p, s')" "k < m"
  shows "mem s' (p + word_of_nat k) = mem s (q + word_of_nat k)"
proof -
  note H = heap_run_ok [OF assms(2,1)]
  obtain x where x: "cmalloc_get_span (sp s) q = Inr x" "valid_ptr x" "q \<noteq> NULL"
    by (rule heap_span [OF H assms(3)])
  from assms(6) x(3) assms(5) x(1,2) show ?thesis
  proof (cases rule: realloc_run)
    case failed
    with malloc_call(2) [OF H assms(4)] have "new_block L sz NULL" by blast
    then show ?thesis by (simp add: new_block_def)
  next
    case (moved s1)
    obtain j where j: "unat j = m" "mem s' = memcpy (mem s) p q j"
      by (rule realloc_moved [OF H assms(3,4) x(1) moved(1,4)])
    have "m < 2 ^ 64" using j(1) unat_less64 [of j] by simp
    then have "unat (word_of_nat k :: u64) = k" using assms(7) by (intro unat_word_of_nat64) simp
    then have "(word_of_nat k :: u64) < j" using assms(7) j(1) by (simp add: word_less_nat_alt)
    then show ?thesis by (simp add: j(2) memcpy_def)
  qed simp
qed

theorem realloc_keeps_contents_witness:
  "\<exists>p s s'. heap_run sample_os s {(p, granted 1000, 0)} \<and> crealloc sample_os 0 p 500 s = Inr (p, s') \<and>
     (\<forall>k < 500. mem s' (p + word_of_nat k) = mem s (p + word_of_nat k))"
proof -
  obtain p s where r: "served sample_os 1000 p" "heap_run sample_os s {(p, granted 1000, 0)}"
    by (rule sample_malloc)
  note H = heap_run_ok [OF r(2) sample_os_ok]
  obtain x where x: "cmalloc_get_span (sp s) p = Inr x" "valid_ptr x"
    "granted 1000 = unat (block_size (span_at s x))" "p \<noteq> NULL"
    by (rule heap_span [OF H, of p "granted 1000" 0]) simp
  have g: "500 < granted 1000" using granted_covers(1) [of 1000] by simp
  then have "(500 :: u64) \<le> block_size (span_at s x)" unfolding x(3) by (simp add: word_le_nat_alt)
  then have run: "crealloc sample_os 0 p 500 s = Inr (p, s)" using x by (simp add: crealloc_def)
  have sv: "served sample_os 500 p" using r(1) by (simp add: served_def sample_os_def)
  have "mem s (p + word_of_nat k) = mem s (p + word_of_nat k)" if "k < 500" for k
    by (rule realloc_keeps_contents [OF sample_os_ok r(2) _ sv _ run, of "granted 1000"]) (use that g in simp_all)
  with r(2) run show ?thesis by blast
qed

section \<open>Lookups and large blocks\<close>

text \<open>C24: for every block that a thread holds, the page map sends each of its addresses, interior
  ones included, to one descriptor, which records the size of the block and whose own bytes no
  block of any thread touches.\<close>

theorem heap_blocks_found:
  assumes "os_ok os" "heap_run os s L" "(p, n, t) \<in> L"
  shows "\<exists>x. (\<forall>a. unat a \<in> bytes p n \<longrightarrow> cmalloc_get_span (sp s) a = Inr x) \<and>
    unat (block_size (span_at s x)) = n \<and>
    (\<forall>(q, m, u) \<in> L. bytes q m \<inter> bytes x (unat sizeof_span) = {})"
proof -
  obtain E K U own where I: "heap_inv os E K U own s" "L = owned U own s"
    using heap_run_ok [OF assms(2,1)] unfolding heap_ok_def by blast
  have b: "(p, n, t) \<in> owned U own s" using assms(3) I(2) by simp
  obtain x where x: "x \<in> U" "n = unat (block_size (span_at s x))" "cmalloc_get_span (sp s) p = Inr x"
    by (rule owned_block_span [OF I(1) b])
  note pl = used_placed [OF I(1) x(1)]
  have "cmalloc_get_span (sp s) a = Inr x" if "unat a \<in> bytes p n" for a
    by (rule block_lookup [OF I(1) b that]) (use x(3) in auto)
  moreover have "bytes q m \<inter> bytes x (unat sizeof_span) = {}" if c: "(q, m, u) \<in> L" for q m u
  proof -
    have lv: "(q, m) \<in> live U s" using c I(2) live_iff_owned by blast
    have "\<not> data_block (x, sizeof_span)" by (simp add: data_block_def sizeof_span_def DATA_CHUNK_SIZE_def)
    from live_not_metadata [OF I(1) lv pl(2) this] show ?thesis by (simp add: block_bytes_def)
  qed
  ultimately show ?thesis using x(2) by blast
qed

theorem heap_blocks_found_witness:
  "\<exists>p s x. heap_run sample_os s {(p, granted 1000, 0)} \<and> cmalloc_get_span (sp s) (p + 5) = Inr x"
proof -
  obtain p s where r: "heap_run sample_os s {(p, granted 1000, 0)}" by (rule sample_malloc)
  obtain E K U own where I: "heap_inv sample_os E K U own s" "{(p, granted 1000, 0)} = owned U own s"
    using heap_run_ok [OF r sample_os_ok] unfolding heap_ok_def by blast
  then have "(p, granted 1000, 0) \<in> owned U own s" by blast
  note b = owned_not_null(4) [OF I(1) this]
  then have "unat p + 5 < 2 ^ 64" using granted_covers(1) [of 1000] b by simp
  then have "unat (p + 5) = unat p + 5" by (simp add: unat_plus_if')
  then have "unat (p + 5) \<in> bytes p (granted 1000)" using granted_covers(1) [of 1000] by (simp add: bytes_def)
  with heap_blocks_found [OF sample_os_ok r, of p "granted 1000" 0] r show ?thesis by blast
qed

end
