(* ===== verification/HeapLarge.thy ===== *)
theory HeapLarge
  imports HeapCalls
begin

text \<open>
  Requests of \<open>MAX_BINNED_PAGES\<close> pages or more in every state of the heap, whatever \<open>mmap\<close> answers
  for the span: \<open>cmalloc\<close> returns that answer, \<open>MAP_FAILED\<close> included.
\<close>

section \<open>What the system must grant\<close>

text \<open>Metadata for the page map, the descriptor and the entries of the span, but not the span itself.\<close>

definition with_span :: "platform \<Rightarrow> u64 \<Rightarrow> mapping_list \<Rightarrow> mapping_list" where
  "with_span os len maps =
     (if mmap os maps len = MAP_FAILED then maps else (mmap os maps len, len) # maps)"

definition large_supplied :: "platform \<Rightarrow> mapping_list \<Rightarrow> u64 \<Rightarrow> nat \<Rightarrow> bool" where
  "large_supplied os maps len n \<longleftrightarrow> reserve os maps 2 \<and>
     (\<forall>maps1 \<in> chunk_steps os maps 2.
        reserve os (with_span os len maps1) (2 * n))"

section \<open>The page map is made on the way\<close>

lemma large_malloc_first:
  assumes "page_map (sp s) = NULL" "cmalloc_initialize_range_map os (meta (sp s)) = Inr (p, m)" "p \<noteq> NULL"
    and "get_size_class_index (rt (sp s)) sz = LARGE_CLASS_SIZE_INDEX"
  shows "cmalloc os t sz s = cmalloc os t sz (s\<lparr>sp := (sp s)\<lparr>page_map := p, meta := m\<rparr>\<rparr>)"
proof -
  let ?v = "(sp s)\<lparr>page_map := p, meta := m\<rparr>"
  have "alloc_span os (sp s) n = alloc_span os ?v n" for n
    using assms(1-3) by (simp add: alloc_span_def)
  then have "cmalloc_initialize_span os (sp s) i n = cmalloc_initialize_span os ?v i n" for i n
    by (simp add: cmalloc_initialize_span_def)
  then have "locked_initialize_span os t i n s = locked_initialize_span os t i n (s\<lparr>sp := ?v\<rparr>)" for i n
    by (simp add: locked_initialize_span_def pthread_mutex_lock_def pthread_mutex_unlock_def)
  with assms(4) show ?thesis by (simp add: cmalloc_def)
qed

text \<open>With a page map, the state \<open>s\<close> on which the span is made.\<close>

lemma large_malloc_mapped:
  assumes I: "page_inv os E (page_map (sp s)) (meta (sp s))" and lk: "lock s = None"
    and R: "runtime_ok (rt (sp s))" and sz: "sz > MAX_SIZE_CLASS"
    and pages: "pages = drop_bit (cmalloc_page_shift (rt (sp s))) (round_up_page (rt (sp s)) sz)"
      "MAX_BINNED_PAGES \<le> pages"
    and len: "len = push_bit (cmalloc_page_shift (rt (sp s))) pages"
    and rs: "reserve os (mappings (meta (sp s))) 1"
    and g: "\<forall>maps1 \<in> next_mappings os (mappings (meta (sp s))).
        reserve_with os Q (with_span os len maps1) (2 * unat pages)"
  shows "\<exists>maps1 \<in> next_mappings os (mappings (meta (sp s))). \<exists>s' x.
    cmalloc os t sz s = Inr (mmap os maps1 len, s') \<and>
    cmalloc_get_span (sp s') (mmap os maps1 len) = Inr x \<and>
    span_base (span_at s' x) = mmap os maps1 len \<and> block_size (span_at s' x) = sz \<and>
    page_count (span_at s' x) = pages \<and> Q (mappings (meta (sp s')))"
proof -
  have "reserve os (mappings (meta (sp s))) (Suc 0)" using rs by simp
  then obtain x m1 where x: "cmalloc_alloc_metadata os (meta (sp s)) sizeof_span = Inr (x, m1)" "valid_ptr x"
    "page_inv os (insert (x, sizeof_span) E) (page_map (sp s)) m1"
    "mappings m1 \<in> next_mappings os (mappings (meta (sp s)))"
    by (rule alloc_descriptor [OF I])
  let ?a = "mmap os (mappings m1) len" and ?k = "cmalloc_page_shift (rt (sp s))"
  let ?m2 = "if ?a = MAP_FAILED then m1 else m1\<lparr>mappings := (?a, len) # mappings m1\<rparr>"
  have mm: "sys_mmap os m1 (push_bit ?k pages) = (?a, ?m2)"
    by (simp add: sys_mmap_def len [symmetric] Let_def)
  have I2: "page_inv os (insert (x, sizeof_span) E) (page_map (sp s)) ?m2"
    using x(3) page_inv_more_mappings by simp
  have rs2: "reserve_with os Q (mappings ?m2) (2 * unat pages)"
    using bspec [OF g x(4)] by (auto simp: with_span_def split: if_splits)
  let ?i = "round_down_page_index (rt (sp s)) ?a"
  have shift: "unat (drop_bit ?k w) < 2 ^ 52" for w :: u64
  proof -
    have "unat w div 2 ^ ?k \<le> unat w div 2 ^ 12"
      using page_shift_bounds [OF R] by (intro div_le_mono2 power_increasing) simp_all
    moreover have "unat w < 2 ^ 64" using unsigned_less [of w] by simp
    moreover have "unat (drop_bit ?k w) = unat w div 2 ^ ?k"
      by (simp add: unat_drop_bit_eq flip: drop_bit_eq_div)
    ultimately show ?thesis by simp
  qed
  have nowrap: "unat ?i + unat pages < 2 ^ 64"
    using shift [of ?a] shift [of "round_up_page (rt (sp s)) sz"] pages(1)
    by (simp add: round_down_page_index_def)
  obtain s' where s': "cmalloc os t sz s = Inr (?a, s')" "span_base (span_at s' x) = ?a"
    "block_size (span_at s' x) = sz" "page_count (span_at s' x) = pages" "page_map (sp s') = page_map (sp s)" "rt (sp s') = rt (sp s)"
    "page_inv os (insert (x, sizeof_span) E) (page_map (sp s)) (meta (sp s'))"
    "\<forall>j. look (meta (sp s')) (page_map (sp s)) j =
       (if \<exists>k. in_range ?i (?i + pages) k \<and> same_slot j k then x else look ?m2 (page_map (sp s)) j)" "Q (mappings (meta (sp s')))"
    by (rule cmalloc_large_path [OF sz lk I pages x(1-3) mm I2 rs2 nowrap])
  have "0 < unat pages" using pages(2) by (simp add: word_le_nat_alt MAX_BINNED_PAGES_def)
  moreover have "unat (?i + pages) = unat ?i + unat pages" using nowrap by (simp add: unat_plus_if')
  ultimately have "in_range ?i (?i + pages) ?i" by (simp add: in_range_def word_less_nat_alt)
  then have "look (meta (sp s')) (page_map (sp s)) ?i = x"
    using s'(8) by (auto simp: same_slot_def)
  then have "cmalloc_get_span (sp s') ?a = Inr x"
    using page_inv_get [OF s'(7)] by (simp add: cmalloc_get_span_def s'(5,6))
  with s'(1-4,9) x(4) show ?thesis by blast
qed

text \<open>Every state of the heap.\<close>

lemma large_malloc_heap:
  assumes H: "heap_ok os s L" and sz: "sz > MAX_SIZE_CLASS"
    and pages: "pages = drop_bit (cmalloc_page_shift (rt (sp s))) (round_up_page (rt (sp s)) sz)"
      "MAX_BINNED_PAGES \<le> pages"
    and len: "len = push_bit (cmalloc_page_shift (rt (sp s))) pages"
    and rs: "reserve os (mappings (meta (sp s))) 2"
    and gr: "\<forall>maps1 \<in> chunk_steps os (mappings (meta (sp s))) 2.
        reserve_with os Q (with_span os len maps1) (2 * unat pages)"
  shows "\<exists>maps1 \<in> chunk_steps os (mappings (meta (sp s))) 2. \<exists>s' x.
    cmalloc os t sz s = Inr (mmap os maps1 len, s') \<and>
    cmalloc_get_span (sp s') (mmap os maps1 len) = Inr x \<and>
    span_base (span_at s' x) = mmap os maps1 len \<and> block_size (span_at s' x) = sz \<and>
    page_count (span_at s' x) = pages \<and> Q (mappings (meta (sp s')))"
proof -
  let ?maps = "mappings (meta (sp s))"
  obtain E K U own where I: "heap_inv os E K U own s" using H unfolding heap_ok_def by blast
  note D = heap_invD(1,2) [OF I]
  note R = layer_inv_rt(1) [OF D(2)]
  have step: "next_mappings os maps1 \<subseteq> chunk_steps os ?maps 2" if "maps1 \<in> next_mappings os ?maps" for maps1
    using chunk_steps_next [OF that, of "Suc 0"] by (auto simp: next_mappings_def eval_nat_numeral)
  show ?thesis
  proof (cases "page_map (sp s) = NULL")
    case False
    then have "span_inv os E K U (sp s)" using D(2) by (auto simp: layer_inv_def span_fresh_def)
    note P = index_invD(1) [OF span_invD(3) [OF this]]
    have 1: "reserve os ?maps 1" using reserve_mono [OF rs, of 1] by simp
    have 2: "next_mappings os ?maps \<subseteq> chunk_steps os ?maps 2"
      by (rule step) (simp add: next_mappings_def)
    then have "\<forall>maps1 \<in> next_mappings os ?maps.
        reserve_with os Q (with_span os len maps1) (2 * unat pages)" using gr by blast
    from large_malloc_mapped [OF P D(1) R sz pages len 1 this, of t] show ?thesis using 2 by blast
  next
    case True
    then have F: "span_fresh os (sp s)"
      using D(2) page_inv_valid index_invD(1) span_invD(3) by (fastforce simp: layer_inv_def)
    then have f: "os_ok os" "meta (sp s) = meta_zero" by (simp_all add: span_fresh_def)
    have I0: "meta_inv {} (\<lambda>_. []) (meta (sp s))" using meta_zero_inv f(2) by simp
    have "reserve os ?maps (Suc 1)" using rs by (simp add: numeral_2_eq_2)
    then obtain p m where i: "cmalloc_alloc_metadata os (meta (sp s)) sizeof_l1_node = Inr (p, m)"
      "valid_ptr p" "reserve os (mappings m) 1"
      by (rule alloc_returns [OF f(1) I0 size_ok_nodes(1)])
    then have r: "cmalloc_initialize_range_map os (meta (sp s)) = Inr (p, m)" "p \<noteq> NULL"
      by (auto simp: cmalloc_initialize_range_map_def)
    have mm: "mappings m \<in> next_mappings os ?maps"
      by (rule alloc_mappings [OF I0 size_ok_nodes(1) i(1)])
    let ?s = "s\<lparr>sp := (sp s)\<lparr>page_map := p, meta := m\<rparr>\<rparr>"
    have "span_inv os {} (\<lambda>_. []) {} (sp ?s)" using new_page_map_inv [OF F r] by simp
    note P = index_invD(1) [OF span_invD(3) [OF this]]
    have cl: "get_size_class_index (rt (sp s)) sz = LARGE_CLASS_SIZE_INDEX"
      using sz by (simp add: get_size_class_index_def)
    have S: "lock ?s = None" "runtime_ok (rt (sp ?s))"
      "pages = drop_bit (cmalloc_page_shift (rt (sp ?s))) (round_up_page (rt (sp ?s)) sz)"
      "len = push_bit (cmalloc_page_shift (rt (sp ?s))) pages" "mappings (meta (sp ?s)) = mappings m"
      using D(1) R pages(1) len by simp_all
    have 1: "reserve os (mappings (meta (sp ?s))) 1" using i(3) by simp
    have "\<forall>maps1 \<in> next_mappings os (mappings (meta (sp ?s))).
        reserve_with os Q (with_span os len maps1) (2 * unat pages)" unfolding S(5) using gr step [OF mm] by blast
    from large_malloc_mapped [OF P S(1,2) sz S(3) pages(2) S(4) 1 this, of t]
    show ?thesis
      using step [OF mm] large_malloc_first [OF True r cl, of t] by (auto simp: S(5))
  qed
qed

end
