(* ===== verification/LargeFree.thy ===== *)
theory LargeFree
  imports HeapLarge
begin

text \<open>
  \<open>cfree\<close> of a block with a span of \<open>MAX_BINNED_PAGES\<close> pages or more: with memory for the metadata
  it returns, the mapping has gone back to the system, and no address of the block leads to a
  descriptor any more.
\<close>

section \<open>The span layer\<close>

text \<open>
  Six chunks for each page that leaves the page map, and three for the descriptor once the mapping
  \<open>d\<close> is gone.
\<close>

definition release_supplied :: "platform \<Rightarrow> mapping_list \<Rightarrow> block \<Rightarrow> nat \<Rightarrow> bool" where
  "release_supplied os maps d n \<longleftrightarrow>
     reserve_with os (\<lambda>ms. reserve os (removeAll d ms) 3) maps (6 * n)"

lemma release_returns:
  assumes I: "span_inv os E K U s" and x: "x \<in> U" "MAX_BINNED_PAGES \<le> page_count (span_heap s x)"
  defines "d \<equiv> (span_base (span_heap s x), push_bit (cmalloc_page_shift (rt s)) (page_count (span_heap s x)))"
  assumes rs: "release_supplied os (mappings (meta s)) d (unat (page_count (span_heap s x)))"
  obtains s' where "cmalloc_cache_span os s x = Inr s'" "d \<notin> set (mappings (meta s'))"
proof -
  note D = span_invD [OF I] and X = index_invD [OF span_invD(3) [OF I]]
  let ?d = "span_heap s x" and ?r = "rt s"
  let ?i = "round_down_page_index ?r (span_base ?d)"
  let ?n = "?i + page_count ?d"
  have xS: "x \<in> U \<union> cached_spans K" using x(1) by blast
  note pl = X(3) [OF xS]
  note p = in_range_pages [OF placed_bounds(2) [OF X(1) pl D(1)]]
  note L = large_len [OF D(1) X(1) pl x(2), folded d_def]
  have big: "4194304 < unat (snd d)" using L(2) by (simp add: data_block_def DATA_CHUNK_SIZE_def)
  have v: "valid_ptr x" using page_inv_block(1) [OF X(1) X(2) [OF xS]] by simp
  then have "x \<noteq> NULL" by auto
  then have 1: "look (meta s) (page_map s) k \<noteq> NULL" if "in_range ?i ?n k" for k
    using X(5) [OF xS] that p(1) by auto
  have 2: "j = k" if "in_range ?i ?n j" "in_range ?i ?n k" "same_slot j k" for j k
    using that p(2) same_slot_small by blast
  have 3: "reserve_with os (\<lambda>ms. reserve os (removeAll d ms) 3) (mappings (meta s))
      (0 + 6 * (unat ?n - unat ?i))"
    using rs by (simp add: release_supplied_def p(3))
  obtain m1 where m1: "cmalloc_unmap_range os (meta s) (page_map s) ?i ?n = Inr m1"
    "reserve os (removeAll d (mappings m1)) 3"
    using page_index.del_range_returns [OF X(1) 1 2 3] by auto
  let ?m = "sys_munmap m1 (fst d) (snd d)"
  have P1: "page_inv os E (page_map s) m1" using page_index.del_range_law [OF X(1) m1(1)] by blast
  have dE: "d \<in> E" using D(6) x unfolding whole_mappings_def d_def by blast
  have P2: "page_inv os (E - {d}) (page_map s) ?m"
    using page_inv_munmap(1) [OF P1, of "fst d" "snd d"] dE big by simp
  have "(x, sizeof_span) \<in> E - {d}"
    using X(2) [OF xS] big by (auto simp: sizeof_span_def)
  then obtain A F where J: "os_ok os" "meta_inv A F ?m" "(x, sizeof_span) \<in> A"
    using P2 unfolding page_inv_def client_def by blast
  have "reserve_with os (\<lambda>ms. \<forall>e \<in> set ms. e \<noteq> d) (mappings ?m) (Suc (Suc (Suc 0)))"
    by (rule reserve_all) (use m1(2) big in \<open>auto simp: sys_munmap_def numeral_3_eq_3 META_CHUNK_SIZE_def\<close>)
  from free_metadata_returns [OF J this] obtain m2 where
    m2: "cmalloc_free_metadata os ?m x sizeof_span = Inr m2" "\<forall>e \<in> set (mappings m2). e \<noteq> d"
    by auto
  have "cmalloc_cache_span os s x = Inr (s\<lparr>meta := m2\<rparr>)"
    using m1(1) m2(1) v x(2) by (simp add: cmalloc_cache_span_def Let_def d_def)
  with m2(2) show thesis by (intro that) auto
qed

section \<open>The heap\<close>

lemma large_block:
  assumes H: "heap_ok os s L" and b: "(p, n, t) \<in> L"
    and x: "cmalloc_get_span (sp s) p = Inr x" "MAX_BINNED_PAGES \<le> page_count (span_at s x)"
  obtains E K U own where "heap_inv os E K U own s" "x \<in> U" "p = span_base (span_at s x)" "p \<noteq> NULL"
    "bytes p n \<subseteq> span_bytes (rt (sp s)) (span_at s x)" "placed (rt (sp s)) E (span_at s x)"
    "\<forall>u. cfree os u p s = locked_cache_span os u x s"
proof -
  obtain E K U own where I: "heap_inv os E K U own s" "L = owned U own s"
    using H unfolding heap_ok_def by blast
  have b': "(p, n, t) \<in> owned U own s" using b I(2) by simp
  obtain k where k: "x \<in> U" "p = block_addr (span_at s x) k" "n = unat (block_size (span_at s x))"
    "k < unat (block_count (span_at s x))" "p \<noteq> NULL" "valid_ptr x" "used_span (rt (sp s)) (span_at s x)"
    by (rule owned_block_span [OF I(1) b']) (use x(1) in auto)
  note R = layer_inv_rt(1) [OF heap_invD(2) [OF I(1)]]
  have la: "large_area (rt (sp s)) (span_at s x)"
    using k(7) class_area_small [OF R] x(2) by (fastforce simp: used_span_def)
  then have k0: "k = 0" using k(4) by (simp add: large_area_def)
  have "bytes p n = block_range (span_at s x) k" by (simp add: block_range_def k(2,3))
  then have sub: "bytes p n \<subseteq> span_bytes (rt (sp s)) (span_at s x)"
    using block_in_span [OF k(7,4)] by simp
  have f: "\<forall>u. cfree os u p s = locked_cache_span os u x s"
    using x(1) k(5,6) la by (simp add: cfree_def large_area_def)
  show thesis
    by (rule that [OF I(1) k(1) _ k(5) sub used_placed(1) [OF I(1) k(1)] f]) (simp add: k(2) k0 block_addr_def)
qed

lemma cfree_unmapped:
  assumes "cmalloc_get_span (sp s) a = Inr NULL" "a \<noteq> NULL"
  shows "cfree os u a s = Inl Bad_Deref"
  using assms by (simp add: cfree_def)

lemma large_gone:
  assumes H: "heap_ok os s L" and b: "(p, n, t) \<in> L"
    and x: "cmalloc_get_span (sp s) p = Inr x" "MAX_BINNED_PAGES \<le> page_count (span_at s x)"
    and run: "cfree os u p s = Inr s'" and a: "unat a \<in> bytes p n"
  shows "cmalloc_get_span (sp s') a = Inr NULL" "cfree os v a s' = Inl Bad_Deref"
proof -
  obtain E K U own where B: "heap_inv os E K U own s" "x \<in> U" "p = span_base (span_at s x)" "p \<noteq> NULL"
    "bytes p n \<subseteq> span_bytes (rt (sp s)) (span_at s x)" "placed (rt (sp s)) E (span_at s x)"
    "\<forall>u. cfree os u p s = locked_cache_span os u x s" by (rule large_block [OF H b x])
  have "locked_cache_span os u x s = Inr s'" using run B(7) by metis
  then obtain w where w: "cmalloc_cache_span os (sp s) x = Inr w" "s' = s\<lparr>lock := None, sp := w\<rparr>"
    using heap_invD(1) [OF B(1)]
    by (auto simp: locked_cache_span_def pthread_mutex_lock_def pthread_mutex_unlock_def elim!: bindr_InrE)
  note r = release_law [OF heap_inv_span [OF B(1,2)] B(2) x(2) w(1)]
  have "unat (round_down_page_index (rt (sp s)) a) \<in> span_pages (rt (sp s)) (span_at s x)"
    unfolding span_pages_word using span_bytes_page B(5,6) a by (auto simp: placed_def)
  from r(5) [OF this] have "look (meta w) (page_map w) (round_down_page_index (rt w) a) = NULL"
    by (simp add: r(2))
  then show g: "cmalloc_get_span (sp s') a = Inr NULL"
    using page_inv_get [OF index_invD(1) [OF span_invD(3) [OF r(1)]]]
    by (simp add: cmalloc_get_span_def w(2))
  have "a \<noteq> NULL" using a B(4) by (auto simp: bytes_def unat_eq_zero)
  with g show "cfree os v a s' = Inl Bad_Deref" by (rule cfree_unmapped)
qed

lemma large_free_heap:
  assumes H: "heap_ok os s L" and b: "(p, n, t) \<in> L"
    and x: "cmalloc_get_span (sp s) p = Inr x" "MAX_BINNED_PAGES \<le> page_count (span_at s x)"
  defines "d \<equiv> (p, push_bit (cmalloc_page_shift (rt (sp s))) (page_count (span_at s x)))"
  assumes g: "release_supplied os (mappings (meta (sp s))) d (unat (page_count (span_at s x)))"
  obtains s' where "cfree os u p s = Inr s'" "d \<notin> set (mappings (meta (sp s')))"
proof -
  obtain E K U own where B: "heap_inv os E K U own s" "x \<in> U" "p = span_base (span_at s x)" "p \<noteq> NULL"
    "\<forall>u. cfree os u p s = locked_cache_span os u x s" by (rule large_block [OF H b x])
  obtain w where w: "cmalloc_cache_span os (sp s) x = Inr w" "d \<notin> set (mappings (meta w))"
    by (rule release_returns [OF heap_inv_span [OF B(1,2)] B(2) x(2)])
      (use g in \<open>simp_all add: d_def B(3)\<close>)
  have "cfree os u p s = Inr (s\<lparr>lock := None, sp := w\<rparr>)"
    using w(1) B(5) heap_invD(1) [OF B(1)]
    by (simp add: locked_cache_span_def pthread_mutex_lock_def pthread_mutex_unlock_def)
  with w(2) show thesis by (intro that) auto
qed

end
