(* ===== verification/LargeTheorems.thy ===== *)
theory LargeTheorems
  imports LargeFree
begin

text \<open>
  What clients see of requests that get a mapping of their own: what \<open>cmalloc\<close> answers, with a
  system that refuses the mapping as the concrete case, and that \<open>cfree\<close> gives the mapping back.
\<close>

section \<open>A system that grants mappings of at most 32 MiB\<close>

definition limited_os :: platform where
  "limited_os = \<lparr>sysconf_pagesize = 4096,
     mmap = (\<lambda>maps len. if len \<le> DATA_CHUNK_SIZE then sample_mmap maps len else MAP_FAILED)\<rparr>"

lemma limited_os_fields [simp]:
  "sysconf_pagesize limited_os = 4096"
  "mmap limited_os maps META_CHUNK_SIZE = mmap sample_os maps META_CHUNK_SIZE"
  "mmap limited_os maps 33558528 = MAP_FAILED"
  by (simp_all add: limited_os_def sample_os_def META_CHUNK_SIZE_def DATA_CHUNK_SIZE_def)

lemma limited_os_ok: "os_ok limited_os"
  using sample_os_ok
  by (auto simp: os_ok_def page_size_ok_def mmap_result_ok_def limited_os_def sample_os_def)

lemma limited_reserve: "reserve limited_os maps k = reserve sample_os maps k"
  by (induction k arbitrary: maps) (simp_all add: Let_def)

lemma limited_chunk_steps: "chunk_steps limited_os maps k = chunk_steps sample_os maps k"
  by (induction k arbitrary: maps) simp_all

lemma limited_supplied:
  assumes "sample_top maps \<le> 2 ^ 44"
  shows "large_supplied limited_os maps 33558528 8193"
proof -
  have "reserve sample_os maps1 (2 * 8193)" if m: "maps1 \<in> chunk_steps sample_os maps 2" for maps1
  proof -
    have "sample_top maps1 \<le> sample_top maps + 2 * 2 ^ 23"
      by (rule sample_chunk_steps [OF m]) (use assms in simp)
    then show ?thesis by (intro sample_reserve) (use assms in simp)
  qed
  moreover have "reserve sample_os maps 2" by (rule sample_reserve) (use assms in simp)
  ultimately show ?thesis
    by (simp add: large_supplied_def with_span_def limited_reserve limited_chunk_steps)
qed

abbreviation limited_start :: cm_state where
  "limited_start \<equiv> cmalloc_constructor limited_os (cm_zero (\<lambda>_. 0))"

lemma limited_start_fields:
  "rt (sp limited_start) = sample_rt" "mappings (meta (sp limited_start)) = []"
proof -
  have "cmalloc_runtime_init limited_os runtime_zero = sample_rt"
    by (simp add: sample_rt_def cmalloc_runtime_init_def get_system_page_size_def
        get_system_page_shift_def sample_os_def limited_os_def)
  then show "rt (sp limited_start) = sample_rt" "mappings (meta (sp limited_start)) = []"
    by (simp_all add: cmalloc_constructor_def cm_zero_def span_state_zero_def meta_zero_def Let_def)
qed

lemma large_request_pages:
  "round_up_page sample_rt 33558528 = 33558528"
  "drop_bit (cmalloc_page_shift sample_rt) (33558528 :: u64) = 8193"
  "push_bit (cmalloc_page_shift sample_rt) (8193 :: u64) = 33558528"
  by (simp_all add: round_up_page_def sample_rt_pages)

section \<open>The answer of \<open>mmap\<close> is the answer of \<open>cmalloc\<close>\<close>

text \<open>C9: a request of \<open>MAX_BINNED_PAGES\<close> pages or more does not fault while the system grants the
  metadata for it, and returns what \<open>mmap\<close> returned for its span: a mapping of its own, or
  \<open>MAP_FAILED\<close> when the system refuses. Either way the page map leads from the result to a
  descriptor with that base and the requested size.\<close>

theorem large_malloc_returns_mmap:
  assumes "os_ok os" "heap_run os s L" "sz > MAX_SIZE_CLASS"
    and "pages = drop_bit (cmalloc_page_shift (rt (sp s))) (round_up_page (rt (sp s)) sz)"
    and "MAX_BINNED_PAGES \<le> pages" "len = push_bit (cmalloc_page_shift (rt (sp s))) pages"
    and "large_supplied os (mappings (meta (sp s))) len (unat pages)"
  shows "\<exists>maps1 \<in> chunk_steps os (mappings (meta (sp s))) 2. \<exists>s' x.
    cmalloc os t sz s = Inr (mmap os maps1 len, s') \<and>
    cmalloc_get_span (sp s') (mmap os maps1 len) = Inr x \<and>
    span_base (span_at s' x) = mmap os maps1 len \<and> block_size (span_at s' x) = sz"
  using large_malloc_heap [OF heap_run_ok [OF assms(2,1)] assms(3-6), where Q = "\<lambda>_. True" and t = t]
    assms(7) [unfolded large_supplied_def] by blast

theorem large_malloc_returns_mmap_witness:
  "\<exists>s' x. cmalloc limited_os 0 33558528 limited_start = Inr (MAP_FAILED, s') \<and>
     cmalloc_get_span (sp s') MAP_FAILED = Inr x \<and> span_base (span_at s' x) = MAP_FAILED"
proof -
  have run: "heap_run limited_os limited_start {}" by (rule heap_run.start)
  have "large_supplied limited_os (mappings (meta (sp limited_start))) 33558528 (unat (8193 :: u64))"
    unfolding limited_start_fields using limited_supplied [of "[]"] by (simp add: sample_top_def)
  from large_malloc_returns_mmap [OF limited_os_ok run _ _ _ _ this, of 33558528 0]
  show ?thesis
    unfolding limited_start_fields(1) large_request_pages
    by (auto simp: MAX_SIZE_CLASS_def MAX_BINNED_PAGES_def)
qed

section \<open>A large block comes back\<close>

text \<open>A first call for 8193 pages on the sample system.\<close>

lemma sample_top_removeAll: "sample_top (removeAll d maps) \<le> sample_top maps"
  by (induction maps) (auto simp: sample_top_def)

lemma sample_start_fields:
  "rt (sp sample_start) = sample_rt" "mappings (meta (sp sample_start)) = []"
  by (simp_all add: cmalloc_constructor_def cm_zero_def span_state_zero_def meta_zero_def sample_rt_def Let_def)

lemma sample_large:
  obtains p s x where "heap_run sample_os s {(p, 33558528, 0)}" "cmalloc_get_span (sp s) p = Inr x"
    "page_count (span_at s x) = 8193" "sample_top (mappings (meta (sp s))) \<le> 2 ^ 43"
    "rt (sp s) = sample_rt"
proof -
  note H = heap_run_ok [OF sample_start_run sample_os_ok]
  have top: "sample_top maps1 \<le> 65536 + 2 * 2 ^ 23" if "maps1 \<in> chunk_steps sample_os [] 2" for maps1
    using sample_chunk_steps [OF that] by (simp add: sample_top_def)
  have grant: "mmap sample_os maps1 33558528 \<noteq> MAP_FAILED"
    "sample_top ((mmap sample_os maps1 33558528, 33558528) # maps1) \<le> 2 ^ 26"
    if "maps1 \<in> chunk_steps sample_os [] 2" for maps1
    using sample_mmap_step [of maps1 33558528] top [OF that] by (simp_all add: sample_os_def)
  have "reserve_with sample_os (\<lambda>ms. sample_top ms \<le> 2 ^ 43)
      (with_span sample_os 33558528 maps1) (2 * unat (8193 :: u64))"
    if "maps1 \<in> chunk_steps sample_os [] 2" for maps1
    by (rule sample_reserve_top) (use grant [OF that] in \<open>simp_all add: with_span_def\<close>)
  then have "\<forall>maps1 \<in> chunk_steps sample_os [] 2. reserve_with sample_os (\<lambda>ms. sample_top ms \<le> 2 ^ 43)
      (with_span sample_os 33558528 maps1) (2 * unat (8193 :: u64))" by blast
  moreover have "reserve sample_os [] 2" by (rule sample_reserve) (simp add: sample_top_def)
  ultimately obtain maps1 s x where r: "maps1 \<in> chunk_steps sample_os [] 2"
    "cmalloc sample_os 0 33558528 sample_start = Inr (mmap sample_os maps1 33558528, s)"
    "cmalloc_get_span (sp s) (mmap sample_os maps1 33558528) = Inr x"
    "page_count (span_at s x) = 8193" "sample_top (mappings (meta (sp s))) \<le> 2 ^ 43"
    using large_malloc_heap [OF H, of 33558528 8193 33558528 "\<lambda>ms. sample_top ms \<le> 2 ^ 43" 0]
    unfolding sample_start_fields large_request_pages by (auto simp: MAX_SIZE_CLASS_def MAX_BINNED_PAGES_def)
  let ?p = "mmap sample_os maps1 33558528"
  have "served sample_os 33558528 ?p" using grant(1) [OF r(1)] by (simp add: served_def sample_os_def)
  then have "heap_run sample_os s (heap_after {} (Malloc 0 33558528 ?p))"
    by (intro heap_run.call [OF sample_start_run]) (simp_all add: r(2))
  moreover have "granted 33558528 = 33558528" by (simp add: granted_def MAX_SIZE_CLASS_def)
  moreover have "rt (sp s) = sample_rt" using cmalloc_rt [OF r(2)] by (simp add: sample_start_fields)
  ultimately show thesis using r(3-5) by (intro that) simp_all
qed

text \<open>C10: \<open>cfree\<close> of a block whose span has \<open>MAX_BINNED_PAGES\<close> pages or more does not fault while
  the system grants the metadata for it, and removes that block and no other. Its mapping has gone
  back to the system, and no address of the block is in the page map any more, so a second
  \<open>cfree\<close> of it, by any thread, dereferences \<open>NULL\<close>.\<close>

theorem large_free_returns_memory:
  assumes "os_ok os" "heap_run os s L" "(p, n, t) \<in> L"
    and "cmalloc_get_span (sp s) p = Inr x" "MAX_BINNED_PAGES \<le> page_count (span_at s x)"
    and "len = push_bit (cmalloc_page_shift (rt (sp s))) (page_count (span_at s x))"
    and "release_supplied os (mappings (meta (sp s))) (p, len) (unat (page_count (span_at s x)))"
  shows "\<exists>s'. cfree os t p s = Inr s' \<and> heap_run os s' (without p L) \<and> mem s' = mem s \<and>
    (p, len) \<notin> set (mappings (meta (sp s'))) \<and>
    (\<forall>a u. unat a \<in> bytes p n \<longrightarrow>
       cmalloc_get_span (sp s') a = Inr NULL \<and> cfree os u a s' = Inl Bad_Deref)"
proof -
  note H = heap_run_ok [OF assms(2,1)]
  obtain s' where s': "cfree os t p s = Inr s'" "(p, len) \<notin> set (mappings (meta (sp s')))"
    using large_free_heap [OF H assms(3-5)] assms(6,7) by metis
  have "heap_run os s' (heap_after L (Free t p))"
    by (rule heap_run.call [OF assms(2)]) (use assms(3) s'(1) in auto)
  moreover have "mem s' = mem s" using free_call(2) [OF H _ s'(1)] assms(3) by blast
  ultimately show ?thesis using s' large_gone [OF H assms(3-5) s'(1)] by auto
qed

theorem large_free_returns_memory_witness:
  "\<exists>p s s'. heap_run sample_os s {(p, 33558528, 0)} \<and> cfree sample_os 0 p s = Inr s' \<and>
     heap_run sample_os s' {} \<and> (p, 33558528) \<notin> set (mappings (meta (sp s'))) \<and>
     cfree sample_os 1 p s' = Inl Bad_Deref"
proof -
  obtain p s x where r: "heap_run sample_os s {(p, 33558528, 0)}" "cmalloc_get_span (sp s) p = Inr x"
    "page_count (span_at s x) = 8193" "sample_top (mappings (meta (sp s))) \<le> 2 ^ 43"
    "rt (sp s) = sample_rt" by (rule sample_large)
  have "reserve_with sample_os (\<lambda>ms. sample_top ms \<le> 2 ^ 44) (mappings (meta (sp s))) (6 * 8193)"
    by (rule sample_reserve_top) (use r(4) in simp_all)
  then have "release_supplied sample_os (mappings (meta (sp s))) (p, 33558528) 8193"
    unfolding release_supplied_def
  proof (rule reserve_with_weaken)
    fix ms :: mapping_list assume "sample_top ms \<le> 2 ^ 44"
    with sample_top_removeAll [of "(p, 33558528)" ms]
    have "sample_top (removeAll (p, 33558528) ms) + 3 * 2 ^ 23 \<le> 2 ^ 46" by simp
    then show "reserve sample_os (removeAll (p, 33558528) ms) 3" by (rule sample_reserve)
  qed
  then obtain s' where s': "cfree sample_os 0 p s = Inr s'" "heap_run sample_os s' (without p {(p, 33558528, 0)})"
    "(p, 33558528) \<notin> set (mappings (meta (sp s')))"
    "\<forall>a u. unat a \<in> bytes p 33558528 \<longrightarrow> cfree sample_os u a s' = Inl Bad_Deref"
    using large_free_returns_memory [OF sample_os_ok r(1) _ r(2), of 33558528 0 33558528]
    by (auto simp: r(3,5) large_request_pages MAX_BINNED_PAGES_def)
  have "without p {(p, 33558528, 0)} = {}" "unat p \<in> bytes p 33558528" by (auto simp: without_def bytes_def)
  with r(1) s' show ?thesis by metis
qed

text \<open>A second \<open>cfree\<close> of such a pointer faults whenever the first one returned.\<close>

theorem large_double_free_faults:
  assumes "os_ok os" "heap_run os s L" "(p, n, t) \<in> L"
    and "cmalloc_get_span (sp s) p = Inr x" "MAX_BINNED_PAGES \<le> page_count (span_at s x)"
    and "cfree os t p s = Inr s'"
  shows "cmalloc_get_span (sp s') p = Inr NULL \<and> cfree os t p s' = Inl Bad_Deref"
proof -
  note H = heap_run_ok [OF assms(2,1)]
  have "0 < n" by (rule heap_span [OF H assms(3)])
  then have "unat p \<in> bytes p n" by (simp add: bytes_def)
  from large_gone [OF H assms(3-6) this] show ?thesis by simp
qed

end
