(* ===== verification/FastPaths.thy ===== *)
theory FastPaths
  imports HeapCalls CmallocTheorems
begin

text \<open>
  The calls that take no lock: \<open>cmalloc\<close> from the thread's own bin, and \<open>cfree\<close> of a block whose
  span keeps another block in use. They read and write the caller's bins and spans and nothing else
  that another such call writes, so that calls of two threads commute and it does not matter how
  they are ordered.
\<close>

section \<open>The state beside a thread\<close>

text \<open>\<open>s\<close> with everything replaced that is not a bin of \<open>t\<close> or a span in \<open>A\<close>: other descriptors by
  those of \<open>h\<close>, other bins by those of \<open>B\<close>.\<close>

definition beside ::
  "nat \<Rightarrow> ptr set \<Rightarrow> (ptr \<Rightarrow> span_t) \<Rightarrow> (nat \<Rightarrow> nat \<Rightarrow> ptr) \<Rightarrow> cm_state \<Rightarrow> cm_state" where
  "beside t A h B s = s\<lparr>sp := (sp s)\<lparr>span_heap := (\<lambda>y. if y \<in> A then span_at s y else h y)\<rparr>,
     thread_local_bin := B(t := thread_local_bin s t)\<rparr>"

lemma beside_reads [simp]:
  "y \<in> A \<Longrightarrow> span_at (beside t A h B s) y = span_at s y"
  "thread_local_bin (beside t A h B s) t = thread_local_bin s t"
  "rt (sp (beside t A h B s)) = rt (sp s)"
  "cmalloc_get_span (sp (beside t A h B s)) p = cmalloc_get_span (sp s) p"
  by (simp_all add: beside_def cmalloc_get_span_def)

lemma beside_writes:
  "y \<in> A \<Longrightarrow> set_span (beside t A h B s) y f = beside t A h B (set_span s y f)"
  "set_local_bin (beside t A h B s) t c p = beside t A h B (set_local_bin s t c p)"
  by (auto simp: beside_def set_span_def upd_span_def set_local_bin_def fun_eq_iff)

text \<open>The primitives of the fast paths do not see what lies beside.\<close>

lemma take_block_beside:
  "x \<in> A \<Longrightarrow> take_block x s = Inr (p, s') \<Longrightarrow> take_block x (beside t A h B s) = Inr (p, beside t A h B s')"
  by (auto simp: take_block_def beside_writes elim!: bindr_InrE split: if_splits)

lemma give_block_beside:
  "x \<in> A \<Longrightarrow> give_block p x s = Inr s' \<Longrightarrow> give_block p x (beside t A h B s) = Inr (beside t A h B s')"
  by (auto simp: give_block_def beside_writes elim!: bindr_InrE split: if_splits)

lemma bin_push_beside:
  assumes "x \<in> A" "thread_local_bin s t (nat c) \<in> insert NULL A" "bin_push t c x s = Inr s'"
  shows "bin_push t c x (beside t A h B s) = Inr (beside t A h B s')"
  using assms by (auto simp: bin_push_def beside_writes Let_def split: if_splits)

lemma bin_remove_beside:
  assumes "x \<in> A" "prev_in_size_class_bin (span_at s x) \<in> insert NULL A"
    "next_in_size_class_bin (span_at s x) \<in> insert NULL A" "bin_remove t c x s = Inr s'"
  shows "bin_remove t c x (beside t A h B s) = Inr (beside t A h B s')"
  using assms by (auto simp: bin_remove_def beside_writes Let_def split: if_splits)

section \<open>Calls that take no lock\<close>

text \<open>\<open>fast s A c\<close>: the call \<open>c\<close> needs no lock in \<open>s\<close>, the caller's bin holds spans of \<open>A\<close> only, and a
  block to free lies in one of them.\<close>

fun caller :: "call \<Rightarrow> nat" where
  "caller (Malloc t sz p) = t"
| "caller (Calloc t n sz p) = t"
| "caller (Realloc t q sz p) = t"
| "caller (Free t p) = t"

fun fast :: "cm_state \<Rightarrow> ptr set \<Rightarrow> call \<Rightarrow> bool" where
  "fast s A (Malloc t sz p) \<longleftrightarrow>
     (\<exists>i xs. get_size_class_index (rt (sp s)) sz = int i \<and> i < SIZE_CLASS_COUNT \<and>
        local_bin s t i xs \<and> set xs \<subseteq> A \<and> xs \<noteq> [])"
| "fast s A (Free t p) \<longleftrightarrow>
     (\<exists>x i xs. p \<noteq> NULL \<and> cmalloc_get_span (sp s) p = Inr x \<and> x \<in> A \<and>
        size_class_index (span_at s x) = int i \<and> i < SIZE_CLASS_COUNT \<and>
        local_bin s t i xs \<and> set xs \<subseteq> A \<and>
        free_count (span_at s x) + 1 \<noteq> block_count (span_at s x))"
| "fast s A _ \<longleftrightarrow> False"

lemma local_bin_links:
  assumes "local_bin s t i (x # xs)"
  shows "prev_in_size_class_bin (span_at s x) = NULL"
    "next_in_size_class_bin (span_at s x) \<in> insert NULL (set xs)"
proof -
  obtain l where d: "prev_in_size_class_bin (span_at s x) = NULL"
    "dseg (span_heap (sp s)) x (next_in_size_class_bin (span_at s x)) xs l NULL"
    using assms by (auto simp: local_bin_def dlist_def)
  show "prev_in_size_class_bin (span_at s x) = NULL" by (rule d(1))
  show "next_in_size_class_bin (span_at s x) \<in> insert NULL (set xs)"
    using dseg_first [OF d(2)] by (cases xs) auto
qed

lemma fast_malloc_beside:
  assumes cls: "get_size_class_index (rt (sp s)) sz = int i" "i < SIZE_CLASS_COUNT"
    and bin: "local_bin s t i (x # xs)" "set (x # xs) \<subseteq> A" and run: "cmalloc os t sz s = Inr (p, s')"
  shows "cmalloc os t sz (beside t A h B s) = Inr (p, beside t A h B s')"
proof -
  have hd: "thread_local_bin s t i = x" "x \<noteq> NULL"
    using dlist_head [OF bin(1) [unfolded local_bin_def]] dlist_valid [OF bin(1) [unfolded local_bin_def]]
    by auto
  have xA: "x \<in> A" using bin(2) by simp
  let ?step = "\<lambda>s. if free_count (span_at s x) = 1 then bin_remove t (int i) x s else Inr s"
  have eq: "cmalloc os t sz v = bindr (?step v) (take_block x)"
    if "rt (sp v) = rt (sp s)" "thread_local_bin v t i = x" for v
    using that cls class_index_nat [OF cls(2)] hd(2) by (simp add: cmalloc_def Let_def)
  obtain s1 where s1: "?step s = Inr s1" "take_block x s1 = Inr (p, s')"
    using run eq [OF refl hd(1)] by (auto elim: bindr_InrE)
  have "?step (beside t A h B s) = Inr (beside t A h B s1)"
  proof (cases "free_count (span_at s x) = 1")
    case True
    have "bin_remove t (int i) x (beside t A h B s) = Inr (beside t A h B s1)"
      by (rule bin_remove_beside [OF xA]) (use local_bin_links [OF bin(1)] bin(2) s1(1) True in auto)
    then show ?thesis using True xA by simp
  qed (use s1(1) xA in simp)
  then show ?thesis
    using eq [of "beside t A h B s"] hd(1) take_block_beside [OF xA s1(2)] by simp
qed

lemma fast_free_beside:
  assumes x: "p \<noteq> NULL" "cmalloc_get_span (sp s) p = Inr x" "x \<in> A"
    and cls: "size_class_index (span_at s x) = int i" "i < SIZE_CLASS_COUNT"
    and bin: "local_bin s t i xs" "set xs \<subseteq> A"
    and keeps: "free_count (span_at s x) + 1 \<noteq> block_count (span_at s x)"
    and run: "cfree os t p s = Inr s'"
  shows "cfree os t p (beside t A h B s) = Inr (beside t A h B s')"
    and "bindr (if free_count (span_at s x) = 0 then bin_push t (int i) x s else Inr s)
      (\<lambda>s. give_block p x s) = Inr s'"
proof -
  let ?push = "\<lambda>v. if free_count (span_at v x) = 0 then bin_push t (int i) x v else Inr v"
  have nl: "int i \<noteq> LARGE_CLASS_SIZE_INDEX" by (simp add: LARGE_CLASS_SIZE_INDEX_def)
  have v: "valid_ptr x" using run x by (auto simp: cfree_def split: if_splits)
  obtain s0 s1 where s1: "?push s = Inr s0" "give_block p x s0 = Inr s1"
    "(if free_count (span_at s1 x) = block_count (span_at s1 x) then bindr (bin_remove t (int i) x s1)
       (\<lambda>s. locked_cache_span os t x s) else Inr s1) = Inr s'"
    using run x cls nl v by (auto simp: cfree_def Let_def elim!: bindr_InrE split del: if_split)
  have un: "unlinked (span_at s0 x) = unlinked (span_at s x)"
    using s1(1) bin_step_frame(9) [OF bin_push_step] by (auto split: if_splits)
  have f0: "free_count (span_at s0 x) = free_count (span_at s x)" "block_count (span_at s0 x) = block_count (span_at s x)"
    using unlinked_same [OF un] by simp_all
  have "free_count (span_at s1 x) = free_count (span_at s0 x) + 1" "block_count (span_at s1 x) = block_count (span_at s0 x)"
    using s1(2) by (auto simp: give_block_def free_block_def set_span_def upd_span_def Let_def
        elim!: bindr_InrE split: if_splits)
  then have k1: "free_count (span_at s1 x) \<noteq> block_count (span_at s1 x)" using f0 keeps by simp
  then have s': "s' = s1" using s1(3) by simp
  show "bindr (?push s) (\<lambda>s. give_block p x s) = Inr s'" using s1(1,2) s' by simp
  have hd: "thread_local_bin s t (nat (int i)) \<in> insert NULL A"
    using dlist_head [OF bin(1) [unfolded local_bin_def]] bin(2) by (cases xs) auto
  have "?push (beside t A h B s) = Inr (beside t A h B s0)"
    using s1(1) bin_push_beside [OF x(3) hd, where h = h and B = B] x(3) by (auto split: if_splits)
  moreover note give_block_beside [OF x(3) s1(2), of t h B]
  ultimately show "cfree os t p (beside t A h B s) = Inr (beside t A h B s')"
    using x cls nl v k1 by (simp add: cfree_def Let_def s' split del: if_split)
qed

text \<open>What a fast call changes, and that it does not see the rest.\<close>

lemma fast_call:
  assumes "fast s A c" "performs os s c s'"
  obtains i x Z where "Z \<subseteq> A" "local_step (caller c) i Z x s s'"
    "\<forall>h B. performs os (beside (caller c) A h B s) c (beside (caller c) A h B s')"
proof (cases c)
  case (Malloc t sz p)
  then obtain i xs where f: "get_size_class_index (rt (sp s)) sz = int i" "i < SIZE_CLASS_COUNT"
    "local_bin s t i xs" "set xs \<subseteq> A" "xs \<noteq> []" using assms(1) by auto
  have run: "cmalloc os t sz s = Inr (p, s')" using assms(2) Malloc by simp
  obtain x ys where x: "xs = x # ys" using f(5) by (cases xs) auto
  note st = cmalloc_bin_local [OF f(1,2) f(3) [unfolded x] run]
  show thesis
    by (rule that [of "set (x # ys)" i x])
       (use st f(4) x fast_malloc_beside [OF f(1,2) f(3,4) [unfolded x] run] Malloc in auto)
next
  case (Free t p)
  then obtain x i xs where f: "p \<noteq> NULL" "cmalloc_get_span (sp s) p = Inr x" "x \<in> A"
    "size_class_index (span_at s x) = int i" "i < SIZE_CLASS_COUNT" "local_bin s t i xs" "set xs \<subseteq> A"
    "free_count (span_at s x) + 1 \<noteq> block_count (span_at s x)" using assms(1) by auto
  have run: "cfree os t p s = Inr s'" using assms(2) Free by simp
  note b = fast_free_beside [OF f run]
  note st = give_local [OF b(2) f(6)]
  show thesis by (rule that [of "insert x (set xs)" i x]) (use st f(3,7) b(1) Free in auto)
qed (use assms in simp_all)

section \<open>They commute\<close>

lemma beside_other:
  assumes "local_step t i Z x s s'" "Z \<inter> C = {}" "t \<noteq> u"
  shows "s' = beside u C (span_heap (sp s')) (thread_local_bin s') s"
proof -
  obtain h g where s': "s' = s\<lparr>sp := (sp s)\<lparr>span_heap := h\<rparr>, thread_local_bin := g\<rparr>"
    "\<forall>y. y \<notin> Z \<longrightarrow> h y = span_at s y" "\<forall>v d. v \<noteq> t \<or> d \<noteq> i \<longrightarrow> g v d = thread_local_bin s v d"
    using assms(1) unfolding local_step_def by blast
  have "h = (\<lambda>y. if y \<in> C then span_at s y else h y)" using s'(2) assms(2) by (auto simp: fun_eq_iff)
  moreover have "g = g(u := thread_local_bin s u)" using s'(3) assms(3) by (auto simp: fun_eq_iff)
  ultimately show ?thesis unfolding s'(1) beside_def by (simp cong: if_cong)
qed

lemma beside_swap:
  assumes "local_step t i Z x s s1" "Z \<subseteq> A" "local_step u j Y y s s2" "Y \<subseteq> C" "A \<inter> C = {}" "t \<noteq> u"
  shows "beside u C (span_heap (sp s1)) (thread_local_bin s1) s2 =
    beside t A (span_heap (sp s2)) (thread_local_bin s2) s1"
proof -
  note f = local_step_frame [OF assms(1)] local_step_frame [OF assms(3)]
  obtain h1 g1 h2 g2 where e: "s1 = s\<lparr>sp := (sp s)\<lparr>span_heap := h1\<rparr>, thread_local_bin := g1\<rparr>"
    "s2 = s\<lparr>sp := (sp s)\<lparr>span_heap := h2\<rparr>, thread_local_bin := g2\<rparr>"
    using assms(1,3) unfolding local_step_def by blast
  have h: "h1 z = span_at s z" if "z \<notin> A" for z using f(4) [of z] that assms(2) by (auto simp: e)
  have h': "h2 z = span_at s z" if "z \<notin> C" for z using f(16) [of z] that assms(4) by (auto simp: e)
  have g: "g1 v = thread_local_bin s v" if "v \<noteq> t" for v
    using f(6) [of v] that by (auto simp: e fun_eq_iff)
  have g': "g2 v = thread_local_bin s v" if "v \<noteq> u" for v
    using f(18) [of v] that by (auto simp: e fun_eq_iff)
  have "(\<lambda>z. if z \<in> C then h2 z else h1 z) = (\<lambda>z. if z \<in> A then h1 z else h2 z)"
    using h h' assms(5) by (auto simp: fun_eq_iff)
  moreover have "g1(u := g2 u) = g2(t := g1 t)" using g g' assms(6) by (auto simp: fun_eq_iff)
  ultimately show ?thesis by (simp add: beside_def e cong: if_cong)
qed

lemma fast_calls_commute:
  assumes "caller c \<noteq> caller d" "A \<inter> C = {}" "fast s A c" "fast s C d"
    and "performs os s c s1" "performs os s d s2"
  shows "\<exists>s12. performs os s1 d s12 \<and> performs os s2 c s12"
proof -
  obtain i x Z where 1: "Z \<subseteq> A" "local_step (caller c) i Z x s s1"
    "\<forall>h B. performs os (beside (caller c) A h B s) c (beside (caller c) A h B s1)"
    by (rule fast_call [OF assms(3,5)])
  obtain j y Y where 2: "Y \<subseteq> C" "local_step (caller d) j Y y s s2"
    "\<forall>h B. performs os (beside (caller d) C h B s) d (beside (caller d) C h B s2)"
    by (rule fast_call [OF assms(4,6)])
  have "Z \<inter> C = {}" "Y \<inter> A = {}" using 1(1) 2(1) assms(2) by auto
  note s1 = beside_other [OF 1(2) this(1) assms(1)] and s2 = beside_other [OF 2(2) this(2) assms(1) [symmetric]]
  have "performs os s1 d (beside (caller d) C (span_heap (sp s1)) (thread_local_bin s1) s2)"
    using 2(3) s1 by metis
  moreover have "performs os s2 c (beside (caller c) A (span_heap (sp s2)) (thread_local_bin s2) s1)"
    using 1(3) s2 by metis
  ultimately show ?thesis using beside_swap [OF 1(2,1) 2(2,1) assms(2,1)] by metis
qed

text \<open>C11: calls of two threads that take no lock commute, when their bins and the spans of the blocks
  they free are disjoint: each returns the same result whether the other has run or not, and both
  orders end in the same state.\<close>

theorem fast_paths_commute:
  assumes "caller c \<noteq> caller d" "A \<inter> C = {}" "fast s A c" "fast s C d"
    and "performs os s c s1" "performs os s d s2"
  shows "\<exists>s12. performs os s1 d s12 \<and> performs os s2 c s12"
  by (rule fast_calls_commute [OF assms])

theorem fast_paths_commute_witness:
  "\<exists>s s1 s2 s12 q. performs sample_os s (Free 0 1048576) s1 \<and> performs sample_os s (Malloc 1 32768 q) s2 \<and>
     performs sample_os s1 (Malloc 1 32768 q) s12 \<and> performs sample_os s2 (Free 0 1048576) s12"
proof -
  obtain v where v: "local_bin v 0 47 [4096]" "span_ok (span_at v 4096)"
    "free_set (span_at v 4096) = {2..<32}" "block_count (span_at v 4096) = 32"
    "block_size (span_at v 4096) = 32768" "span_base (span_at v 4096) = 1048576"
    "size_class_index (span_at v 4096) = int 47" "cmalloc_get_span (sp v) 1048576 = Inr 4096"
    "get_size_class_index (rt (sp v)) 32768 = int 47" by (rule sample_two_taken) blast
  let ?s = "set_local_bin (set_span v 8192 (\<lambda>_. span_at v 4096)) 1 47 8192"
  have same: "span_at ?s 4096 = span_at v 4096" "span_at ?s 8192 = span_at v 4096"
    "cmalloc_get_span (sp ?s) 1048576 = Inr 4096" "get_size_class_index (rt (sp ?s)) 32768 = int 47"
    using v(8,9) by (simp_all add: set_span_def upd_span_def cmalloc_get_span_def)
  have c47: "47 < SIZE_CLASS_COUNT" and vp: "valid_ptr 4096" by (simp_all add: SIZE_CLASS_COUNT_def valid_ptr_def)
  have links: "prev_in_size_class_bin (span_at v 4096) = NULL" "next_in_size_class_bin (span_at v 4096) = NULL"
    "thread_local_bin v 0 47 = 4096"
    using v(1) by (auto simp: local_bin_def dlist_def)
  have b0: "local_bin ?s 0 47 [4096]" and b1: "local_bin ?s 1 47 [8192]"
    using links same(1,2) by (auto simp: local_bin_def dlist_def valid_ptr_def)
  have ne: "free_set (span_at v 4096) \<noteq> {}" using v(3) by auto
  have "unat (free_count (span_at v 4096)) = 30" using v(2,3) by (simp add: span_ok_def blocks_ok_def)
  then have k: "free_count (span_at ?s 4096) + 1 \<noteq> block_count (span_at ?s 4096)"
    using v(4) by (auto simp: same word_unat_eq_iff unat_plus_if')
  have fast: "fast ?s {4096} (Free 0 1048576)" "fast ?s {8192} (Malloc 1 32768 q)" for q
    using same v(7) b0 b1 c47 k by (fastforce simp: same)+
  have blk: "in_block (span_at ?s 4096) 0 1048576" "0 \<notin> free_set (span_at ?s 4096)"
    "4096 \<in> set [4096 :: ptr] \<longleftrightarrow> free_set (span_at ?s 4096) \<noteq> {}" "span_ok (span_at ?s 4096)"
    "Suc (card (free_set (span_at ?s 4096))) < unat (block_count (span_at ?s 4096))"
    "size_class_index (span_at ?s 4096) = int 47"
    using v by (simp_all add: same in_first_block)
  have "(1048576 :: ptr) \<noteq> NULL" by simp
  from cfree_returns_block [OF this same(3) vp blk(6) c47 b0 blk(3,4,1,2,5), of sample_os]
  obtain s1 where s1: "performs sample_os ?s (Free 0 1048576) s1" unfolding performs.simps by blast
  have ok: "span_ok (span_at ?s 8192)" "free_set (span_at ?s 8192) \<noteq> {}" using v(2) ne same(2) by simp_all
  obtain q s2 where s2: "performs sample_os ?s (Malloc 1 32768 q) s2"
    unfolding performs.simps by (rule cmalloc_bin_path [OF same(4) c47 b1 ok, of sample_os]) blast
  have "caller (Free 0 1048576) \<noteq> caller (Malloc 1 32768 q)" "{4096} \<inter> {8192 :: ptr} = {}" by simp_all
  from fast_paths_commute [OF this fast(1) fast(2) s1 s2] s1 s2 show ?thesis by blast
qed

section \<open>The calls of permitted programs\<close>

text \<open>In the heap of a permitted program the spans of two threads are disjoint: the condition is met
  whenever both calls find what they need without the lock.\<close>

fun lock_free :: "cm_state \<Rightarrow> call \<Rightarrow> bool" where
  "lock_free s (Malloc t sz p) \<longleftrightarrow> sz \<le> MAX_SIZE_CLASS \<and> thread_local_bin s t (first_fit sz) \<noteq> NULL"
| "lock_free s (Free t p) \<longleftrightarrow> p \<noteq> NULL \<and>
     (case cmalloc_get_span (sp s) p of Inl e \<Rightarrow> False
      | Inr x \<Rightarrow> size_class_index (span_at s x) \<noteq> LARGE_CLASS_SIZE_INDEX \<and>
          free_count (span_at s x) + 1 \<noteq> block_count (span_at s x))"
| "lock_free s _ \<longleftrightarrow> False"

lemma permitted_fast:
  assumes I: "heap_inv os E K U own s" and perm: "permitted os (owned U own s) c" and lf: "lock_free s c"
  shows "fast s {x \<in> U. own x = caller c} c"
proof (cases c)
  case (Malloc t sz p)
  let ?i = "first_fit sz"
  note R = layer_inv_rt(1) [OF heap_invD(2) [OF I]]
  have sz: "sz \<le> MAX_SIZE_CLASS" and ne: "thread_local_bin s t ?i \<noteq> NULL" using lf Malloc by simp_all
  then have cls: "get_size_class_index (rt (sp s)) sz = int ?i" "?i < SIZE_CLASS_COUNT"
    using get_size_class_index_value [OF R] by (auto intro: first_fit_exists)
  obtain xs where xs: "local_bin s t ?i xs"
    "set xs = {x \<in> U. own x = t \<and> size_class_index (span_at s x) = int ?i \<and> free_set (span_at s x) \<noteq> {}}"
    by (rule bins_ownedD [OF heap_invD(3) [OF I] cls(2)])
  have "xs \<noteq> []" using xs(1) ne by (cases rule: local_bin_cases) auto
  moreover have "set xs \<subseteq> {x \<in> U. own x = t}" using xs(2) by blast
  ultimately show ?thesis using cls xs(1) Malloc by auto
next
  case (Free t p)
  have p: "p \<noteq> NULL" using lf Free by simp
  then obtain m where b: "(p, m, t) \<in> owned U own s" using perm Free by auto
  obtain x where x: "x \<in> U" "own x = t" "cmalloc_get_span (sp s) p = Inr x" "used_span (rt (sp s)) (span_at s x)"
    by (rule owned_block_span [OF I b])
  have l: "size_class_index (span_at s x) \<noteq> LARGE_CLASS_SIZE_INDEX"
    "free_count (span_at s x) + 1 \<noteq> block_count (span_at s x)" using lf Free x(3) by simp_all
  obtain i where i: "size_class_index (span_at s x) = int i" "i < SIZE_CLASS_COUNT"
    using x(4) l(1) by (auto simp: used_span_def large_area_def class_area_def)
  obtain xs where xs: "local_bin s t i xs"
    "set xs = {x \<in> U. own x = t \<and> size_class_index (span_at s x) = int i \<and> free_set (span_at s x) \<noteq> {}}"
    by (rule bins_ownedD [OF heap_invD(3) [OF I] i(2)])
  have "set xs \<subseteq> {x \<in> U. own x = t}" using xs(2) by blast
  then show ?thesis using p x(1-3) i xs(1) l(2) Free by auto
qed (use lf in simp_all)

theorem permitted_lock_free_commute:
  assumes "os_ok os" "heap_run os s L" "permitted os L c" "permitted os L d"
    and "lock_free s c" "lock_free s d" "caller c \<noteq> caller d"
    and run: "performs os s c s1" "performs os s d s2"
  shows "\<exists>s12. performs os s1 d s12 \<and> performs os s2 c s12"
proof -
  obtain E K U own where I: "heap_inv os E K U own s" "L = owned U own s"
    using heap_run_ok [OF assms(2,1)] unfolding heap_ok_def by blast
  let ?A = "\<lambda>c. {x \<in> U. own x = caller c}"
  have "?A c \<inter> ?A d = {}" using assms(7) by auto
  moreover have "fast s (?A c) c" "fast s (?A d) d"
    using permitted_fast [OF I(1)] assms(3-6) unfolding I(2) by blast+
  ultimately show ?thesis by (rule fast_calls_commute [OF assms(7) _ _ _ run])
qed

end
