(* ===== verification/Backends.thy ===== *)
theory Backends
  imports Shim
begin

text \<open>
  The backends of \<open>bench/shim/alloc_shim.c\<close>. A build compiles one of them under the names \<open>shim_...\<close>,
  and the shared entry points call it under those names: a \<open>backend\<close> is what they call. The
  allocators behind the mimalloc, tcmalloc and system backends are not part of the repository; their
  functions are parameters, collected in one record per library, on a state of any type.
\<close>

section \<open>Backends\<close>

record 's backend =
  backend_name :: string
  backend_malloc :: "u64 \<Rightarrow> 's \<Rightarrow> fault + ptr \<times> 's"
  backend_free :: "ptr \<Rightarrow> 's \<Rightarrow> fault + 's"
  backend_calloc :: "u64 \<Rightarrow> u64 \<Rightarrow> 's \<Rightarrow> fault + ptr \<times> 's"
  backend_realloc :: "ptr \<Rightarrow> u64 \<Rightarrow> 's \<Rightarrow> fault + ptr \<times> 's"
  backend_usable_size :: "ptr \<Rightarrow> 's \<Rightarrow> fault + u64"
  backend_memalign :: "u64 \<Rightarrow> u64 \<Rightarrow> 's \<Rightarrow> fault + ptr \<times> 's"

definition cm_backend :: "platform \<Rightarrow> nat \<Rightarrow> cm_state backend" where
  "cm_backend os tid = \<lparr>backend_name = shim_backend_name,
     backend_malloc = shim_malloc os tid, backend_free = shim_free os tid,
     backend_calloc = shim_calloc os tid, backend_realloc = shim_realloc os tid,
     backend_usable_size = (\<lambda>p s. shim_usable_size s p), backend_memalign = shim_memalign os tid\<rparr>"

subsection \<open>mimalloc\<close>

record 's mimalloc =
  mi_malloc :: "u64 \<Rightarrow> 's \<Rightarrow> fault + ptr \<times> 's"
  mi_free :: "ptr \<Rightarrow> 's \<Rightarrow> fault + 's"
  mi_calloc :: "u64 \<Rightarrow> u64 \<Rightarrow> 's \<Rightarrow> fault + ptr \<times> 's"
  mi_realloc :: "ptr \<Rightarrow> u64 \<Rightarrow> 's \<Rightarrow> fault + ptr \<times> 's"
  mi_usable_size :: "ptr \<Rightarrow> 's \<Rightarrow> fault + u64"
  mi_malloc_aligned :: "u64 \<Rightarrow> u64 \<Rightarrow> 's \<Rightarrow> fault + ptr \<times> 's"

definition mi_backend :: "('s, 'a) mimalloc_scheme \<Rightarrow> 's backend" where
  "mi_backend lib = \<lparr>backend_name = ''mimalloc'',
     backend_malloc = mi_malloc lib, backend_free = mi_free lib,
     backend_calloc = mi_calloc lib, backend_realloc = mi_realloc lib,
     backend_usable_size = mi_usable_size lib,
     backend_memalign = (\<lambda>a sz. mi_malloc_aligned lib sz a)\<rparr>"

subsection \<open>tcmalloc\<close>

record 's tcmalloc =
  tc_malloc :: "u64 \<Rightarrow> 's \<Rightarrow> fault + ptr \<times> 's"
  tc_free :: "ptr \<Rightarrow> 's \<Rightarrow> fault + 's"
  tc_calloc :: "u64 \<Rightarrow> u64 \<Rightarrow> 's \<Rightarrow> fault + ptr \<times> 's"
  tc_realloc :: "ptr \<Rightarrow> u64 \<Rightarrow> 's \<Rightarrow> fault + ptr \<times> 's"
  tc_malloc_size :: "ptr \<Rightarrow> 's \<Rightarrow> fault + u64"
  tc_memalign :: "u64 \<Rightarrow> u64 \<Rightarrow> 's \<Rightarrow> fault + ptr \<times> 's"

definition tc_backend :: "('s, 'a) tcmalloc_scheme \<Rightarrow> 's backend" where
  "tc_backend lib = \<lparr>backend_name = ''tcmalloc'',
     backend_malloc = tc_malloc lib, backend_free = tc_free lib,
     backend_calloc = tc_calloc lib, backend_realloc = tc_realloc lib,
     backend_usable_size = tc_malloc_size lib,
     backend_memalign = (\<lambda>a sz. tc_memalign lib a sz)\<rparr>"

subsection \<open>The system's \<open>malloc\<close>, and jemalloc in its place\<close>

text \<open>
  \<open>posix_memalign\<close> returns its code and what it stores in \<open>*out\<close>, \<open>None\<close> when it stores nothing;
  \<open>out\<close> is \<open>NULL\<close> before the call.
\<close>

record 's libc =
  libc_malloc :: "u64 \<Rightarrow> 's \<Rightarrow> fault + ptr \<times> 's"
  libc_free :: "ptr \<Rightarrow> 's \<Rightarrow> fault + 's"
  libc_calloc :: "u64 \<Rightarrow> u64 \<Rightarrow> 's \<Rightarrow> fault + ptr \<times> 's"
  libc_realloc :: "ptr \<Rightarrow> u64 \<Rightarrow> 's \<Rightarrow> fault + ptr \<times> 's"
  malloc_size :: "ptr \<Rightarrow> 's \<Rightarrow> fault + u64"
  posix_memalign :: "u64 \<Rightarrow> u64 \<Rightarrow> 's \<Rightarrow> fault + (int \<times> ptr option) \<times> 's"

definition system_memalign :: "('s, 'a) libc_scheme \<Rightarrow> u64 \<Rightarrow> u64 \<Rightarrow> 's \<Rightarrow> fault + ptr \<times> 's" where
  "system_memalign lib alignment sz s =
     bindr (posix_memalign lib alignment sz s) (\<lambda>((rc, out), s).
       if rc \<noteq> 0 then Inr (NULL, s)
       else Inr (case out of None \<Rightarrow> NULL | Some p \<Rightarrow> p, s))"

definition system_backend :: "bool \<Rightarrow> ('s, 'a) libc_scheme \<Rightarrow> 's backend" where
  "system_backend jemalloc lib = \<lparr>backend_name = (if jemalloc then ''jemalloc'' else ''system''),
     backend_malloc = libc_malloc lib, backend_free = libc_free lib,
     backend_calloc = libc_calloc lib, backend_realloc = libc_realloc lib,
     backend_usable_size = malloc_size lib, backend_memalign = system_memalign lib\<rparr>"

section \<open>The shared entry points on any backend\<close>

definition backend_aligned_alloc :: "'s backend \<Rightarrow> u64 \<Rightarrow> u64 \<Rightarrow> 's \<Rightarrow> fault + ptr \<times> 's" where
  "backend_aligned_alloc b alignment sz s = backend_memalign b alignment sz s"

definition backend_valloc :: "'s backend \<Rightarrow> u64 \<Rightarrow> 's \<Rightarrow> fault + ptr \<times> 's" where
  "backend_valloc b sz s = backend_memalign b 4096 sz s"

definition backend_posix_memalign ::
  "'s backend \<Rightarrow> bool \<Rightarrow> u64 \<Rightarrow> u64 \<Rightarrow> 's \<Rightarrow> fault + (int \<times> ptr option) \<times> 's" where
  "backend_posix_memalign b out_is_null alignment sz s =
     (if out_is_null then Inr ((EINVAL, None), s)
      else if alignment < 8 \<or> alignment AND (alignment - 1) \<noteq> 0 then Inr ((EINVAL, None), s)
      else
        bindr (backend_memalign b alignment sz s) (\<lambda>(p, s).
          if p = NULL then Inr ((ENOMEM, None), s)
          else Inr ((0, Some p), s)))"

lemma cm_shared_entry_points:
  "shim_aligned_alloc os tid a sz s = backend_aligned_alloc (cm_backend os tid) a sz s"
  "shim_valloc os tid sz s = backend_valloc (cm_backend os tid) sz s"
  "shim_posix_memalign os tid o_null a sz s = backend_posix_memalign (cm_backend os tid) o_null a sz s"
  by (simp_all add: shim_aligned_alloc_def shim_valloc_def shim_posix_memalign_def cm_backend_def
      backend_aligned_alloc_def backend_valloc_def backend_posix_memalign_def)

section \<open>The alignments \<open>posix_memalign\<close> accepts\<close>

text \<open>The test of the code for a power of two.\<close>

lemma power_of_two_test:
  fixes w :: u64
  assumes "w \<noteq> 0"
  shows "w AND (w - 1) = 0 \<longleftrightarrow> (\<exists>k < 64. w = 2 ^ k)"
proof
  assume "\<exists>k < 64. w = 2 ^ k"
  then obtain k where k: "k < 64" "w = 2 ^ k" by blast
  have "w AND (w - 1) = w AND mask k" by (simp add: k(2) mask_eq_exp_minus_1)
  moreover have "unat (w AND mask k) = 0" using k by (simp add: unat_and_mask unat_exp64)
  ultimately show "w AND (w - 1) = 0" by (simp add: unat_eq_zero)
next
  assume z: "w AND (w - 1) = 0"
  obtain k where k: "2 ^ k \<le> unat w" "unat w < 2 ^ Suc k"
    using ex_power_ivl1 [of 2 "unat w"] assms by (auto simp: Suc_le_eq unat_gt_0)
  have "(2 :: nat) ^ k < 2 ^ 64" using k(1) unat_less64 [of w] by linarith
  then have k64: "k < 64" by (simp only: power_strict_increasing_iff)
  have m: "unat (w - 1) = unat w - 1" using assms by (simp add: unat_sub word_le_nat_alt unat_gt_0 Suc_le_eq)
  have bit: "bit v k" if "2 ^ k \<le> unat v" "unat v < 2 ^ Suc k" for v :: u64
  proof -
    have "unat v div 2 ^ k = 1" using that by (intro div_nat_eqI) simp_all
    then have "drop_bit k v = 1" by (simp add: word_unat_eq_iff unat_drop_bit)
    then show ?thesis by (simp add: bit_iff_odd_drop_bit)
  qed
  have "unat w = 2 ^ k"
  proof (rule ccontr)
    assume "unat w \<noteq> 2 ^ k"
    then have "bit w k" "bit (w - 1) k" using k m by (intro bit; simp)+
    then have "bit (w AND (w - 1)) k" by (simp add: bit_and_iff)
    then show False by (simp add: z)
  qed
  then have "w = 2 ^ k" using k64 by (simp add: word_unat_eq_iff unat_exp64)
  with k64 show "\<exists>k < 64. w = 2 ^ k" by blast
qed

lemma power_of_two_unat:
  fixes w :: u64
  assumes "w \<noteq> 0"
  shows "w AND (w - 1) = 0 \<longleftrightarrow> (\<exists>k. unat w = 2 ^ k)"
proof -
  have "k < 64 \<and> w = 2 ^ k" if "unat w = 2 ^ k" for k
  proof -
    have "(2 :: nat) ^ k < 2 ^ 64" using unat_less64 [of w] that by simp
    then have "k < 64" by (simp only: power_strict_increasing_iff)
    with that show ?thesis by (simp add: word_unat_eq_iff unat_exp64)
  qed
  then show ?thesis unfolding power_of_two_test [OF assms] by (auto simp: unat_exp64)
qed

lemma posix_alignment:
  "(out_is_null \<or> al < 8 \<or> al AND (al - 1) \<noteq> 0) \<longleftrightarrow>
    (out_is_null \<or> unat al < 8 \<or> \<not> (\<exists>k. unat al = 2 ^ k))" for al :: u64
  using power_of_two_unat [of al] by (cases "al = 0") (auto simp: word_less_nat_alt)

lemma power_ge_8: "(8 :: nat) \<le> 2 ^ k \<Longrightarrow> 3 \<le> k"
proof (rule ccontr)
  assume "(8 :: nat) \<le> 2 ^ k" "\<not> 3 \<le> k"
  moreover from this(2) have "(2 :: nat) ^ k \<le> 2 ^ 2" by (intro power_increasing) simp_all
  ultimately show False by simp
qed

section \<open>The interface of a backend that aligns\<close>

text \<open>
  \<open>good\<close> is what a backend promises of the addresses its \<open>memalign\<close> returns, in the states and for
  the requests of \<open>ok\<close>. \<open>posix_memalign\<close> on it follows.
\<close>

locale aligning_backend =
  fixes b :: "'s backend" and ok :: "u64 \<Rightarrow> u64 \<Rightarrow> 's \<Rightarrow> bool"
    and good :: "u64 \<Rightarrow> u64 \<Rightarrow> 's \<Rightarrow> ptr \<Rightarrow> 's \<Rightarrow> bool"
  assumes memalign_good: "ok al sz s \<Longrightarrow> 3 \<le> k \<Longrightarrow> unat al = 2 ^ k \<Longrightarrow>
    backend_memalign b al sz s = Inr (p, s') \<Longrightarrow> p \<noteq> NULL \<Longrightarrow> good al sz s p s'"
begin

lemma posix_memalign_law:
  assumes ok: "ok al sz s" and run: "backend_posix_memalign b out_is_null al sz s = Inr ((rc, out), s')"
  shows "(rc = EINVAL \<longleftrightarrow> out_is_null \<or> unat al < 8 \<or> \<not> (\<exists>k. unat al = 2 ^ k)) \<and>
    (rc = EINVAL \<longrightarrow> out = None \<and> s' = s) \<and>
    (rc \<noteq> EINVAL \<longrightarrow> rc = ENOMEM \<and> out = None \<or>
      rc = 0 \<and> (\<exists>p. out = Some p \<and> p \<noteq> NULL \<and> good al sz s p s'))"
proof (cases "out_is_null \<or> al < 8 \<or> al AND (al - 1) \<noteq> 0")
  case True
  then have "rc = EINVAL \<and> out = None \<and> s' = s"
    using run by (auto simp: backend_posix_memalign_def split: if_splits)
  then show ?thesis using True by (simp add: posix_alignment)
next
  case False
  then obtain p where p: "backend_memalign b al sz s = Inr (p, s')"
    "rc = (if p = NULL then ENOMEM else 0)" "out = (if p = NULL then None else Some p)"
    using run by (auto simp: backend_posix_memalign_def elim!: bindr_InrE split: if_splits)
  obtain k where k: "unat al = 2 ^ k" "8 \<le> unat al" using False by (auto simp: posix_alignment)
  have "3 \<le> k" using k by (intro power_ge_8) simp
  from memalign_good [OF ok this k(1) p(1)] show ?thesis
    using p(2,3) False by (cases "p = NULL") (auto simp: EINVAL_def ENOMEM_def posix_alignment)
qed

lemma valloc_good:
  "ok 4096 sz s \<Longrightarrow> backend_valloc b sz s = Inr (p, s') \<Longrightarrow> p \<noteq> NULL \<Longrightarrow> good 4096 sz s p s'"
  using memalign_good [of 4096 sz s 12] by (simp add: backend_valloc_def)

end

section \<open>The libraries behind the other backends\<close>

text \<open>What the manuals of the three libraries promise, for a power of two as alignment.\<close>

definition mi_aligned :: "('s, 'a) mimalloc_scheme \<Rightarrow> bool" where
  "mi_aligned lib \<longleftrightarrow> (\<forall>al sz s p s'. (\<exists>k. unat al = 2 ^ k) \<and> mi_malloc_aligned lib sz al s = Inr (p, s') \<longrightarrow>
     unat al dvd unat p)"

definition tc_aligned :: "('s, 'a) tcmalloc_scheme \<Rightarrow> bool" where
  "tc_aligned lib \<longleftrightarrow> (\<forall>al sz s p s'. (\<exists>k. unat al = 2 ^ k) \<and> tc_memalign lib al sz s = Inr (p, s') \<longrightarrow>
     unat al dvd unat p)"

definition libc_aligned :: "('s, 'a) libc_scheme \<Rightarrow> bool" where
  "libc_aligned lib \<longleftrightarrow> (\<forall>al sz s out s'. (\<exists>k. unat al = 2 ^ k) \<and>
     posix_memalign lib al sz s = Inr ((0, out), s') \<longrightarrow> (\<exists>p. out = Some p \<and> unat al dvd unat p))"

lemma library_backends:
  "mi_aligned mi \<Longrightarrow> aligning_backend (mi_backend mi) (\<lambda>_ _ _. True) (\<lambda>al _ _ p _. unat al dvd unat p)"
  "tc_aligned tc \<Longrightarrow> aligning_backend (tc_backend tc) (\<lambda>_ _ _. True) (\<lambda>al _ _ p _. unat al dvd unat p)"
  "libc_aligned libc \<Longrightarrow>
    aligning_backend (system_backend je libc) (\<lambda>_ _ _. True) (\<lambda>al _ _ p _. unat al dvd unat p)"
proof -
  show "mi_aligned mi \<Longrightarrow> aligning_backend (mi_backend mi) (\<lambda>_ _ _. True) (\<lambda>al _ _ p _. unat al dvd unat p)"
    by unfold_locales (unfold mi_aligned_def mi_backend_def backend.simps, blast)
  show "tc_aligned tc \<Longrightarrow> aligning_backend (tc_backend tc) (\<lambda>_ _ _. True) (\<lambda>al _ _ p _. unat al dvd unat p)"
    by unfold_locales (unfold tc_aligned_def tc_backend_def backend.simps, blast)
  show "libc_aligned libc \<Longrightarrow>
      aligning_backend (system_backend je libc) (\<lambda>_ _ _. True) (\<lambda>al _ _ p _. unat al dvd unat p)"
  proof unfold_locales
    fix al sz s k p s'
    assume l: "libc_aligned libc" and k: "unat al = 2 ^ k" and p: "p \<noteq> NULL"
      and run: "backend_memalign (system_backend je libc) al sz s = Inr (p, s')"
    then obtain out where "posix_memalign libc al sz s = Inr ((0, out), s')"
      "p = (case out of None \<Rightarrow> NULL | Some q \<Rightarrow> q)"
      by (auto simp: system_backend_def system_memalign_def elim!: bindr_InrE split: if_splits)
    moreover from this(1) l k obtain q where "out = Some q" "unat al dvd unat q"
      unfolding libc_aligned_def by blast
    ultimately show "unat al dvd unat p" by simp
  qed
qed

text \<open>C21: on the mimalloc, tcmalloc, jemalloc and system backends, whose libraries align as
  documented, the shim's \<open>posix_memalign\<close> refuses exactly the alignments POSIX excludes (and a null
  result pointer) without calling the library, stores an aligned address that is not \<open>NULL\<close> when it
  returns 0, and stores nothing when it returns \<open>ENOMEM\<close>.\<close>

theorem posix_memalign_backends:
  assumes "mi_aligned mi" "tc_aligned tc" "libc_aligned libc"
    and "b = mi_backend mi \<or> b = tc_backend tc \<or> b = system_backend je libc"
    and "backend_posix_memalign b out_is_null al sz s = Inr ((rc, out), s')"
  shows "(rc = EINVAL \<longleftrightarrow> out_is_null \<or> unat al < 8 \<or> \<not> (\<exists>k. unat al = 2 ^ k)) \<and>
    (rc = EINVAL \<longrightarrow> out = None \<and> s' = s) \<and>
    (rc \<noteq> EINVAL \<longrightarrow> rc = ENOMEM \<and> out = None \<or>
      rc = 0 \<and> (\<exists>p. out = Some p \<and> p \<noteq> NULL \<and> unat al dvd unat p))"
proof -
  have "aligning_backend b (\<lambda>_ _ _. True) (\<lambda>al _ _ p _. unat al dvd unat p)"
    using library_backends(1) [OF assms(1)] library_backends(2) [OF assms(2)]
      library_backends(3) [OF assms(3)] assms(4) by blast
  from aligning_backend.posix_memalign_law [OF this TrueI assms(5)] show ?thesis .
qed

text \<open>A library that places blocks one after the other, for the witness.\<close>

definition bump_up :: "u64 \<Rightarrow> u64 \<Rightarrow> u64" where
  "bump_up al s = s + al - (s + al) mod al"

lemma bump_up_aligned: "unat al dvd unat (bump_up al s)"
proof -
  have "unat (bump_up al s) = unat (s + al) - unat (s + al) mod unat al"
    by (simp add: bump_up_def unat_sub word_le_nat_alt unat_mod mod_less_eq_dividend)
  then show ?thesis by (simp add: minus_mod_eq_div_mult)
qed

definition bump_mimalloc :: "u64 mimalloc" where
  "bump_mimalloc = \<lparr>mi_malloc = (\<lambda>sz s. Inr (s, s + sz)), mi_free = (\<lambda>_ s. Inr s),
     mi_calloc = (\<lambda>n sz s. Inr (s, s + n * sz)), mi_realloc = (\<lambda>_ sz s. Inr (s, s + sz)),
     mi_usable_size = (\<lambda>_ _. Inr 0),
     mi_malloc_aligned = (\<lambda>sz al s. Inr (bump_up al s, bump_up al s + sz))\<rparr>"

definition bump_tcmalloc :: "u64 tcmalloc" where
  "bump_tcmalloc = \<lparr>tc_malloc = (\<lambda>sz s. Inr (s, s + sz)), tc_free = (\<lambda>_ s. Inr s),
     tc_calloc = (\<lambda>n sz s. Inr (s, s + n * sz)), tc_realloc = (\<lambda>_ sz s. Inr (s, s + sz)),
     tc_malloc_size = (\<lambda>_ _. Inr 0),
     tc_memalign = (\<lambda>al sz s. Inr (bump_up al s, bump_up al s + sz))\<rparr>"

definition bump_libc :: "u64 libc" where
  "bump_libc = \<lparr>libc_malloc = (\<lambda>sz s. Inr (s, s + sz)), libc_free = (\<lambda>_ s. Inr s),
     libc_calloc = (\<lambda>n sz s. Inr (s, s + n * sz)), libc_realloc = (\<lambda>_ sz s. Inr (s, s + sz)),
     malloc_size = (\<lambda>_ _. Inr 0),
     posix_memalign = (\<lambda>al sz s. Inr ((0, Some (bump_up al s)), bump_up al s + sz))\<rparr>"

theorem posix_memalign_backends_witness:
  "\<exists>p. backend_posix_memalign (system_backend True bump_libc) False 64 100 65537 =
     Inr ((0, Some p), p + 100) \<and> (64 :: nat) dvd unat p"
proof -
  have "mi_aligned bump_mimalloc" "tc_aligned bump_tcmalloc" "libc_aligned bump_libc"
    by (simp_all add: mi_aligned_def tc_aligned_def libc_aligned_def bump_mimalloc_def bump_tcmalloc_def
        bump_libc_def bump_up_aligned)
  note law = posix_memalign_backends [OF this, of "system_backend True bump_libc" True False 64 100 65537]
  have run: "backend_posix_memalign (system_backend True bump_libc) False 64 100 65537 =
      Inr ((0, Some 65600), 65700)"
    by (simp add: backend_posix_memalign_def system_backend_def system_memalign_def bump_libc_def bump_up_def)
  from law [OF _ run] have "(64 :: nat) dvd unat (65600 :: u64)" by (auto simp: EINVAL_def ENOMEM_def)
  with run show ?thesis by (intro exI [of _ 65600]) simp
qed

end
