(* ===== verification/HeapShim.thy ===== *)
theory HeapShim
  imports HeapCalls EntryTheorems
begin

text \<open>
  The shim of \<open>bench/shim/alloc_shim.c\<close> against the specification of the heap: over-aligned blocks,
  which the shim makes without a header by rounding up inside a larger block, and the copies that
  \<open>strdup\<close> and \<open>strndup\<close> make.
\<close>

section \<open>Over-aligned blocks\<close>

text \<open>A failed \<open>mmap\<close> shows as \<open>MAP_FAILED\<close> in \<open>cmalloc\<close>; rounding it up wraps to \<open>NULL\<close>.\<close>

lemma align_map_failed:
  assumes "0 < k" "k < 64"
  shows "align_address MAP_FAILED (2 ^ k) = NULL"
proof -
  have m: "unat (mask k :: u64) = 2 ^ k - 1" by (rule unat_mask64 [OF assms(2)])
  have "(2 :: nat) ^ 1 \<le> 2 ^ k" using assms(1) by (intro power_increasing) simp_all
  then have le: "1 \<le> unat (mask k :: u64)" unfolding m by simp
  then have "unat (mask k - 1 :: u64) = unat (mask k :: u64) - 1"
    by (subst unat_sub) (simp_all add: word_le_nat_alt)
  then have "unat (mask k - 1 :: u64) < 2 ^ k" unfolding m by simp
  then have "unat ((mask k - 1 :: u64) AND NOT (mask k)) = 0" by (simp add: unat_and_not_mask)
  moreover have "MAP_FAILED + 2 ^ k - 1 = mask k - (1 :: u64)" by (simp add: mask_eq_exp_minus_1)
  ultimately show ?thesis by (simp add: align_address_def mask_eq_exp_minus_1 unat_eq_zero)
qed

text \<open>What the rounding leaves inside the block, also when nothing was requested.\<close>

lemma aligned_inside:
  fixes q raw :: nat
  assumes "2 ^ k dvd q" "16 dvd raw" "raw \<le> q" "q < raw + 2 ^ k" "4 < k"
  shows "q + 16 \<le> raw + 2 ^ k"
proof -
  have d: "(16 :: nat) dvd 2 ^ k"
    using le_imp_power_dvd [of 4 k "2 :: nat"] assms(5) by simp
  then have "16 dvd q" using assms(1) by (rule dvd_trans)
  moreover have "16 dvd raw + 2 ^ k" using assms(2) d by (rule dvd_add)
  ultimately have "16 dvd (raw + 2 ^ k) - q" using assms(4) by (intro dvd_diff_nat)
  moreover have "0 < (raw + 2 ^ k) - q" using assms(4) by simp
  ultimately have "16 \<le> (raw + 2 ^ k) - q" by (rule dvd_imp_le)
  then show ?thesis using assms(4) by simp
qed

lemma without_new:
  assumes "heap_ok os s L" "new_block L sz p"
  shows "without p L = L"
proof -
  have "q \<noteq> p" if b: "(q, m, u) \<in> L" for q m u
  proof
    assume "q = p"
    moreover have "0 < m" by (rule heap_span [OF assms(1) b])
    moreover have "bytes p (granted sz) \<inter> bytes q m = {}" using assms(2) b by (auto simp: new_block_def)
    ultimately show False using granted_covers(2) [of sz] bytes_disjoint_iff by fastforce
  qed
  then show ?thesis unfolding without_def by fastforce
qed

lemma free_new_run:
  assumes "heap_run os s (insert (p, n, t) L)" "without p L = L" "cfree os t p s = Inr s'"
  shows "heap_run os s' L"
proof -
  have "heap_run os s' (heap_after (insert (p, n, t) L) (Free t p))"
    using assms(3) by (intro heap_run.call [OF assms(1)]) auto
  moreover have "without p (insert (p, n, t) L) = without p L" by (auto simp: without_def)
  ultimately show ?thesis using assms(2) by simp
qed

lemma memalign_law:
  assumes os: "os_ok os" and H: "heap_run os s L" and k: "4 < k" "k < 64"
    and sz: "unat sz + 2 ^ k - 1 + unat (sysconf_pagesize os) \<le> 2 ^ 64"
    and run: "shim_memalign os t (2 ^ k) sz s = Inr (q, s')" "q \<noteq> NULL"
  obtains raw n where "2 ^ k dvd unat q" "unat q \<in> bytes raw n" "bytes q (unat sz) \<subseteq> bytes raw n"
    "\<forall>(r, m, u) \<in> L. bytes raw n \<inter> bytes r m = {}" "heap_run os s' (insert (raw, n, t) L)"
    "raw \<noteq> NULL" "without raw L = L" "n = granted (sz + 2 ^ k - 1)"
    "cmalloc os t (sz + 2 ^ k - 1) s = Inr (raw, s')" "mem s' = mem s"
proof -
  obtain raw n where r: "cmalloc os t n s = Inr (raw, s')" "raw \<noteq> NULL" "n = sz + 2 ^ k - 1"
    "unat n = unat sz + 2 ^ k - 1" "q = align_address raw (2 ^ k)"
    "unat raw + unat n < 2 ^ 64 \<longrightarrow> 2 ^ k dvd unat q \<and> unat raw \<le> unat q \<and> unat q < unat raw + 2 ^ k \<and>
       unat q + unat sz \<le> unat raw + unat n"
    by (rule memalign_run [OF k run])
  have "raw \<noteq> MAP_FAILED" using align_map_failed [of k] k r(5) run(2) by auto
  then have sv: "served os n raw" using sz r(4) by (simp add: served_def)
  note c = malloc_call [OF heap_run_ok [OF H os] sv r(1)]
  note b = c(2) [unfolded new_block_def]
  have a: "2 ^ k dvd unat q" "unat raw \<le> unat q" "unat q < unat raw + 2 ^ k"
    "unat q + unat sz \<le> unat raw + unat n" using r(6) b by auto
  have "heap_run os s' (heap_after L (Malloc t n raw))"
    by (rule heap_run.call [OF H]) (simp_all add: sv r(1))
  moreover have "unat q + 16 \<le> unat raw + 2 ^ k"
    by (rule aligned_inside) (use a b k in auto)
  then have "unat q < unat raw + granted n" using b r(4) by linarith
  moreover have "bytes q (unat sz) \<subseteq> bytes raw (granted n)" using a b by (auto simp: bytes_def)
  moreover have "without raw L = L" by (rule without_new [OF heap_run_ok [OF H os] c(2)])
  ultimately show thesis using that [of raw "granted n"] a(1,2) b r(1-3) c(3) by simp
qed

text \<open>With memory granted, a small aligned request returns.\<close>

lemma memalign_eq:
  assumes k: "4 < k" "k < 64" and room: "unat sz + 2 ^ k < 2 ^ 64"
  shows "shim_memalign os t (2 ^ k) sz s = bindr (cmalloc os t (sz + 2 ^ k - 1) s) (\<lambda>(raw, s).
      if raw = NULL then Inr (NULL, s) else Inr (align_address raw (2 ^ k), s))"
    and "unat (sz + 2 ^ k - 1) = unat sz + 2 ^ k - 1"
proof -
  have u: "unat (2 ^ k :: u64) = 2 ^ k" using k(2) by (rule unat_exp64)
  have "(2 :: nat) ^ 5 \<le> 2 ^ k" using k(1) by (intro power_increasing) simp_all
  then have big: "\<not> (2 ^ k :: u64) \<le> 16" by (simp add: word_le_nat_alt u)
  have "unat (SIZE_MAX - 2 ^ k :: u64) = 2 ^ 64 - 1 - 2 ^ k"
    using u unat_less64 [of "2 ^ k"] by (subst unat_sub) (simp_all add: SIZE_MAX_def word_le_nat_alt)
  then have "\<not> sz > SIZE_MAX - 2 ^ k" using room by (simp add: word_less_nat_alt)
  with big show "shim_memalign os t (2 ^ k) sz s = bindr (cmalloc os t (sz + 2 ^ k - 1) s) (\<lambda>(raw, s).
      if raw = NULL then Inr (NULL, s) else Inr (align_address raw (2 ^ k), s))"
    by (simp add: shim_memalign_def)
  have s1: "unat (sz + 2 ^ k) = unat sz + 2 ^ k" using room u by (simp add: unat_plus_if')
  have "(1 :: nat) \<le> 2 ^ k" by simp
  then have "1 \<le> unat (sz + 2 ^ k)" using s1 by linarith
  then have "1 \<le> sz + 2 ^ k" by (simp add: word_le_nat_alt)
  then show "unat (sz + 2 ^ k - 1) = unat sz + 2 ^ k - 1" using s1 by (simp add: unat_sub)
qed

lemma memalign_returns:
  assumes H: "heap_ok os s L" and k: "4 < k" "k < 64" and sz: "unat sz + 2 ^ k - 1 \<le> 32768"
    and g: "supplied os (mappings (meta (sp s)))"
  obtains q s' where "shim_memalign os t (2 ^ k) sz s = Inr (q, s')" "q \<noteq> NULL"
proof -
  have room: "unat sz + 2 ^ k < 2 ^ 64" using sz by simp
  note e = memalign_eq [OF k room]
  have n: "sz + 2 ^ k - 1 \<le> MAX_SIZE_CLASS" using sz e(2) by (simp add: word_le_nat_alt MAX_SIZE_CLASS_def)
  obtain raw s' where r: "cmalloc os t (sz + 2 ^ k - 1) s = Inr (raw, s')" "served os (sz + 2 ^ k - 1) raw"
    by (rule class_malloc_returns [OF H n g])
  note b = malloc_call(2) [OF H r(2,1), unfolded new_block_def]
  have "unat raw \<le> 2 ^ 47" using b by linarith
  moreover have "(2 :: nat) ^ k - 1 \<le> 32768" using sz by linarith
  ultimately have fit: "unat raw + (2 ^ k - 1) < 2 ^ 64" by simp
  have "(unat raw + (2 ^ k - 1)) div 2 ^ k * 2 ^ k + (unat raw + (2 ^ k - 1)) mod 2 ^ k = unat raw + (2 ^ k - 1)"
    by (rule div_mult_mod_eq)
  moreover have "(unat raw + (2 ^ k - 1)) mod 2 ^ k < 2 ^ k" by simp
  ultimately have "unat raw \<le> unat (align_address raw (2 ^ k))"
    unfolding align_address_value [OF k(2) fit] by linarith
  then have "align_address raw (2 ^ k) \<noteq> NULL" using b by (auto simp: unat_eq_zero)
  with r b show thesis by (intro that [of "align_address raw (2 ^ k)" s']) (simp_all add: e(1))
qed

text \<open>C13: in a state that permitted calls reach, let the request and the slack for the alignment, \<open>size + alignment - 1\<close> bytes, stay a page
  short of \<open>2^64\<close> (nearer to it the page rounding of \<open>cmalloc\<close> wraps, which this property says nothing
  about). Then a block from \<open>shim_memalign\<close> with a power of two above 16 is aligned and its address lies
  in a block that one \<open>cmalloc\<close> of the padded size returned in the same call; that block is new, so it
  and the requested bytes in it share no byte with another held block, and \<open>shim_free\<close> of the aligned
  address does what it does for the address \<open>cmalloc\<close> returned: when it returns, the whole block is back.\<close>

theorem memalign_block:
  assumes "os_ok os" "heap_run os s L" "4 < k" "k < 64"
    and "unat sz + 2 ^ k - 1 + unat (sysconf_pagesize os) \<le> 2 ^ 64"
    and "shim_memalign os t (2 ^ k) sz s = Inr (q, s')" "q \<noteq> NULL"
  shows "2 ^ k dvd unat q \<and> (\<forall>(r, m, u) \<in> L. bytes q (unat sz) \<inter> bytes r m = {}) \<and>
    (\<exists>raw n. cmalloc os t (sz + 2 ^ k - 1) s = Inr (raw, s') \<and> n = granted (sz + 2 ^ k - 1) \<and>
      unat q \<in> bytes raw n \<and> bytes q (unat sz) \<subseteq> bytes raw n \<and>
      (\<forall>(r, m, u) \<in> L. bytes raw n \<inter> bytes r m = {}) \<and>
      heap_run os s' (insert (raw, n, t) L) \<and> shim_free os t q s' = shim_free os t raw s' \<and>
      (\<forall>s''. shim_free os t q s' = Inr s'' \<longrightarrow> heap_run os s'' L))"
proof -
  obtain raw n where r: "2 ^ k dvd unat q" "unat q \<in> bytes raw n" "bytes q (unat sz) \<subseteq> bytes raw n"
    "\<forall>(r, m, u) \<in> L. bytes raw n \<inter> bytes r m = {}" "heap_run os s' (insert (raw, n, t) L)" "raw \<noteq> NULL"
    "without raw L = L" "n = granted (sz + 2 ^ k - 1)" "cmalloc os t (sz + 2 ^ k - 1) s = Inr (raw, s')"
    by (rule memalign_law [OF assms])
  have f: "cfree os t q s' = cfree os t raw s'"
    by (rule interior_free [OF heap_run_ok [OF r(5) assms(1)] insertI1 r(2)])
  have "heap_run os s'' L" if "cfree os t raw s' = Inr s''" for s''
    by (rule free_new_run [OF r(5,7) that])
  then have fr: "\<forall>s''. cfree os t q s' = Inr s'' \<longrightarrow> heap_run os s'' L" using f by simp
  have "\<forall>(r, m, u) \<in> L. bytes q (unat sz) \<inter> bytes r m = {}" using r(3,4) by fast
  with r(1-5,8,9) f fr show ?thesis
    unfolding shim_free_def by (intro conjI exI [of _ raw] exI [of _ n]) assumption+
qed

theorem memalign_block_witness:
  "\<exists>q s' s''. shim_memalign sample_os 0 (2 ^ 6) 100 sample_start = Inr (q, s') \<and> 2 ^ 6 dvd unat q \<and>
     shim_free sample_os 0 q s' = Inr s'' \<and> heap_run sample_os s'' {}"
proof -
  obtain q s' where q: "shim_memalign sample_os 0 (2 ^ 6) 100 sample_start = Inr (q, s')" "q \<noteq> NULL"
    using memalign_returns [OF heap_run_ok [OF sample_start_run sample_os_ok], of 6 100 0]
      sample_start_supplied by auto
  have sz: "unat (100 :: u64) + 2 ^ 6 - 1 + unat (sysconf_pagesize sample_os) \<le> 2 ^ 64"
    by (simp add: sample_os_def)
  have k: "(4 :: nat) < 6" "(6 :: nat) < 64" by simp_all
  note m = memalign_block [OF sample_os_ok sample_start_run k sz q]
  obtain raw where
    r: "2 ^ 6 dvd unat q" "heap_run sample_os s' {(raw, granted (100 + 2 ^ 6 - 1), 0)}"
    "shim_free sample_os 0 q s' = shim_free sample_os 0 raw s'"
    "\<forall>s''. shim_free sample_os 0 q s' = Inr s'' \<longrightarrow> heap_run sample_os s'' {}" using m by blast
  have "granted (100 + 2 ^ 6 - 1) \<le> 32768" by (rule granted_class) (simp add: MAX_SIZE_CLASS_def)
  with class_free_returns [OF heap_run_ok [OF r(2) sample_os_ok] singletonI]
  obtain s'' where "cfree sample_os 0 raw s' = Inr s''" by blast
  then have "shim_free sample_os 0 q s' = Inr s''" using r(3) by (simp add: shim_free_def)
  with q(1) r(1,4) show ?thesis by blast
qed

end
