(* ===== verification/ShimTheorems.thy ===== *)
theory ShimTheorems
  imports Backends HeapShim
begin

text \<open>
  The entry points of the shim that are built on \<open>malloc\<close> and \<open>memalign\<close>: \<open>posix_memalign\<close> with its
  error codes, and the string copies.
\<close>

section \<open>Writing into a block\<close>

lemma heap_run_writes:
  fixes A :: "ptr set"
  assumes "finite A" "heap_run os s L" "\<forall>a \<in> A. \<exists>(p, n, t) \<in> L. unat a \<in> bytes p n"
    and "\<forall>a. a \<notin> A \<longrightarrow> m a = mem s a"
  shows "heap_run os (s\<lparr>mem := m\<rparr>) L"
  using assms(1,3,4)
proof (induction A arbitrary: m)
  case empty
  then have "m = mem s" by auto
  then show ?case using assms(2) by simp
next
  case (insert a A)
  have r: "heap_run os (s\<lparr>mem := m(a := mem s a)\<rparr>) L" by (rule insert.IH) (use insert.prems in auto)
  obtain p n t where "(p, n, t) \<in> L" "unat a \<in> bytes p n" using insert.prems(1) by blast
  from heap_run.store [OF r this, of "m a"] show ?case by simp
qed

lemma heap_run_write_block:
  fixes k p :: u64
  assumes H: "heap_run os s L" "os_ok os" and b: "(p, n, t) \<in> L" and k: "unat k \<le> n"
    and m: "\<forall>a. \<not> a - p < k \<longrightarrow> m a = mem s a"
  shows "heap_run os (s\<lparr>mem := m\<rparr>) L"
proof (rule heap_run_writes [of "{a. a - p < k}"])
  have fit: "unat p + n \<le> 2 ^ 47" by (rule heap_block_fits [OF heap_run_ok [OF H] b])
  show "\<forall>a \<in> {a. a - p < k}. \<exists>(p, n, t) \<in> L. unat a \<in> bytes p n"
    using address_in_bytes [OF _ k fit] b by blast
qed (use H(1) m in auto)

section \<open>String copies\<close>

lemma strlen_iff:
  "strlen bs p = Some n \<longleftrightarrow> bs (p + word_of_nat n) = 0 \<and> (\<forall>k < n. bs (p + word_of_nat k) \<noteq> 0)"
proof (induction n arbitrary: p)
  case 0
  show ?case by (subst strlen.simps) (auto simp: bind_eq_Some_conv)
next
  case (Suc n)
  have "strlen bs p = Some (Suc n) \<longleftrightarrow> bs p \<noteq> 0 \<and> strlen bs (p + 1) = Some n"
    by (subst strlen.simps) (auto simp: bind_eq_Some_conv)
  also have "\<dots> \<longleftrightarrow> bs p \<noteq> 0 \<and> bs (p + word_of_nat (Suc n)) = 0 \<and> (\<forall>k < n. bs (p + word_of_nat (Suc k)) \<noteq> 0)"
    unfolding Suc.IH by (simp add: add.assoc)
  also have "\<dots> \<longleftrightarrow> bs (p + word_of_nat (Suc n)) = 0 \<and> (\<forall>k < Suc n. bs (p + word_of_nat k) \<noteq> 0)"
    unfolding All_less_Suc2 by auto
  finally show ?case .
qed

lemma strnlen_spec:
  "strnlen bs p n \<le> n \<and> (\<forall>k < strnlen bs p n. bs (p + word_of_nat k) \<noteq> 0) \<and>
    (strnlen bs p n < n \<longrightarrow> bs (p + word_of_nat (strnlen bs p n)) = 0)"
proof (induction n arbitrary: p)
  case (Suc n)
  then show ?case using Suc.IH [of "p + 1"] by (auto simp: All_less_Suc2 add.assoc)
qed simp

lemma memcpy_at:
  assumes "k < unat n"
  shows "memcpy bs p q n (p + word_of_nat k) = bs (q + word_of_nat k)"
proof -
  have "k < 2 ^ 64" using assms unat_less64 [of n] by simp
  then have "(word_of_nat k :: u64) < n" using assms by (simp add: word_less_nat_alt unat_word_of_nat64)
  then show ?thesis by (simp add: memcpy_def)
qed

text \<open>The new string: \<open>n\<close> copied bytes, none of them zero, and a zero.\<close>

lemma copied_string:
  assumes "\<forall>k < n. m (p + word_of_nat k) = bs (q + word_of_nat k) \<and> bs (q + word_of_nat k) \<noteq> 0"
    and "m (p + word_of_nat n) = 0"
  shows "strlen m p = Some n"
  using assms by (simp add: strlen_iff)

text \<open>C19: while \<open>mmap\<close> grants memory, \<open>shim_strdup\<close> of a string shorter than 32 KiB returns a new
  block that holds the same string, terminator included, and writes no other block.\<close>

theorem strdup_copies:
  assumes "os_ok os" "heap_run os s L" "supplied os (mappings (meta (sp s)))"
    and "str \<noteq> NULL" "strlen (mem s) str = Some n" "n < 32768"
  shows "\<exists>p s'. shim_strdup os t str s = Some (Inr (p, s')) \<and> new_block L (word_of_nat n + 1) p \<and>
    heap_run os s' (insert (p, granted (word_of_nat n + 1), t) L) \<and> strlen (mem s') p = Some n \<and>
    (\<forall>k \<le> n. mem s' (p + word_of_nat k) = mem s (str + word_of_nat k)) \<and>
    (\<forall>a. unat a \<notin> bytes p (n + 1) \<longrightarrow> mem s' a = mem s a)"
proof -
  define len :: u64 where "len = word_of_nat n + 1"
  have len: "unat len = n + 1"
    using unat_word_of_nat64 [of "n + 1"] assms(6) by (simp add: len_def add.commute)
  then have "len \<le> MAX_SIZE_CLASS" using assms(6) by (simp add: word_le_nat_alt MAX_SIZE_CLASS_def)
  then obtain p s1 where c: "cmalloc os t len s = Inr (p, s1)" "served os len p" "new_block L len p"
    "heap_run os s1 (insert (p, granted len, t) L)" "mem s1 = mem s"
    by (rule class_malloc_run [OF assms(1,2) _ assms(3)])
  note b = c(3) [unfolded new_block_def]
  have v: "valid_ptr p" using b c(2) by (simp add: valid_ptr_def served_def)
  let ?m = "memcpy (mem s1) p str len"
  have run: "shim_strdup os t str s = Some (Inr (p, s1\<lparr>mem := ?m\<rparr>))"
    using assms(4,5) c(1) v by (simp add: shim_strdup_def shim_malloc_def len_def Let_def valid_ptr_def)
  have "heap_run os (s1\<lparr>mem := ?m\<rparr>) (insert (p, granted len, t) L)"
    by (rule heap_run_write_block [OF c(4) assms(1) insertI1, of len])
       (use b in \<open>simp_all add: memcpy_def\<close>)
  moreover have copy: "?m (p + word_of_nat k) = mem s (str + word_of_nat k)" if "k \<le> n" for k
    using memcpy_at [of k len "mem s1" p str] that len c(5) by simp
  moreover have "strlen ?m p = Some n"
    by (rule copied_string [where bs = "mem s" and q = str])
       (use copy assms(5) in \<open>auto simp: strlen_iff\<close>)
  moreover have "?m a = mem s a" if "unat a \<notin> bytes p (n + 1)" for a
  proof -
    have "\<not> a - p < len" using address_in_bytes [of a p len "n + 1"] that len b by auto
    then show ?thesis by (simp add: memcpy_def c(5))
  qed
  ultimately show ?thesis using run c(3) unfolding len_def [symmetric]
    by (intro exI [of _ p] exI [of _ "s1\<lparr>mem := ?m\<rparr>"]) simp
qed

text \<open>A start state whose memory holds the string of one character at address 16.\<close>

lemma sample_string_start:
  obtains s where "heap_run sample_os s {}" "supplied sample_os (mappings (meta (sp s)))"
    "mem s = (\<lambda>a. if a = 16 then 72 else 0)"
proof (rule that)
  let ?s = "cmalloc_constructor sample_os (cm_zero (\<lambda>a. if a = 16 then 72 else 0))"
  show "heap_run sample_os ?s {}" by (rule heap_run.start)
  show "supplied sample_os (mappings (meta (sp ?s)))"
    by (rule sample_supplied)
       (simp add: cmalloc_constructor_def cm_zero_def span_state_zero_def meta_zero_def sample_top_def Let_def)
  show "mem ?s = (\<lambda>a. if a = 16 then 72 else 0)" by (simp add: cmalloc_constructor_def cm_zero_def Let_def)
qed

theorem strdup_copies_witness:
  "\<exists>s p s'. shim_strdup sample_os 0 16 s = Some (Inr (p, s')) \<and> strlen (mem s') p = Some 1 \<and> mem s' p = 72"
proof -
  obtain s where s: "heap_run sample_os s {}" "supplied sample_os (mappings (meta (sp s)))"
    "mem s = (\<lambda>a. if a = 16 then 72 else 0)" by (rule sample_string_start)
  have l: "strlen (mem s) 16 = Some 1" by (simp add: strlen_iff s(3))
  have n: "(16 :: ptr) \<noteq> NULL" "(1 :: nat) < 32768" by simp_all
  obtain p s' where r: "shim_strdup sample_os 0 16 s = Some (Inr (p, s'))" "strlen (mem s') p = Some 1"
    "\<forall>k \<le> 1. mem s' (p + word_of_nat k) = mem s (16 + word_of_nat k)"
    using strdup_copies [OF sample_os_ok s(1,2) n(1) l n(2)] by blast
  from r(3) [rule_format, of 0] have "mem s' p = 72" by (simp add: s(3))
  with r(1,2) show ?thesis by blast
qed

text \<open>While \<open>mmap\<close> grants memory, \<open>shim_strndup\<close> returns a new block that holds the first \<open>n\<close>
  bytes of the string, or all of a shorter one, and a terminator, even when none of the \<open>n\<close> bytes
  is zero.\<close>

theorem strndup_copies:
  assumes "os_ok os" "heap_run os s L" "supplied os (mappings (meta (sp s)))"
    and "str \<noteq> NULL" "strnlen (mem s) str (unat n) = l" "l < 32768"
  shows "\<exists>p s'. shim_strndup os t str n s = Inr (p, s') \<and> new_block L (word_of_nat l + 1) p \<and>
    heap_run os s' (insert (p, granted (word_of_nat l + 1), t) L) \<and> strlen (mem s') p = Some l \<and>
    (\<forall>k < l. mem s' (p + word_of_nat k) = mem s (str + word_of_nat k)) \<and>
    (\<forall>a. unat a \<notin> bytes p (l + 1) \<longrightarrow> mem s' a = mem s a)"
proof -
  have ln: "unat (word_of_nat l :: u64) = l" using assms(6) by (intro unat_word_of_nat64) simp
  define len :: u64 where "len = word_of_nat l + 1"
  have len: "unat len = l + 1"
    using unat_word_of_nat64 [of "l + 1"] assms(6) by (simp add: len_def add.commute)
  then have "len \<le> MAX_SIZE_CLASS" using assms(6) by (simp add: word_le_nat_alt MAX_SIZE_CLASS_def)
  then obtain p s1 where c: "cmalloc os t len s = Inr (p, s1)" "served os len p" "new_block L len p"
    "heap_run os s1 (insert (p, granted len, t) L)" "mem s1 = mem s"
    by (rule class_malloc_run [OF assms(1,2) _ assms(3)])
  note b = c(3) [unfolded new_block_def]
  have v: "valid_ptr p" using b c(2) by (simp add: valid_ptr_def served_def)
  let ?m = "(memcpy (mem s1) p str (word_of_nat l))(p + word_of_nat l := 0)"
  have run: "shim_strndup os t str n s = Inr (p, s1\<lparr>mem := ?m\<rparr>)"
    using assms(4,5) c(1) v by (simp add: shim_strndup_def shim_malloc_def len_def Let_def valid_ptr_def)
  have frame: "?m a = mem s a" if "\<not> a - p < len" for a
  proof -
    have "a - p \<noteq> word_of_nat l" using that ln len by (auto simp: word_less_nat_alt)
    then have "a \<noteq> p + word_of_nat l" by auto
    moreover have "\<not> a - p < word_of_nat l" using that ln len by (simp add: word_less_nat_alt)
    ultimately show ?thesis by (simp add: memcpy_def c(5))
  qed
  have "heap_run os (s1\<lparr>mem := ?m\<rparr>) (insert (p, granted len, t) L)"
    by (rule heap_run_write_block [OF c(4) assms(1) insertI1, of len]) (use b frame c(5) in simp_all)
  moreover have copy: "?m (p + word_of_nat k) = mem s (str + word_of_nat k)" if k: "k < l" for k
  proof -
    have "unat (word_of_nat k :: u64) = k" using k assms(6) by (intro unat_word_of_nat64) simp
    then have "(word_of_nat k :: u64) \<noteq> word_of_nat l" using k ln by auto
    then show ?thesis using memcpy_at [of k "word_of_nat l" "mem s1" p str] k ln c(5) by simp
  qed
  moreover have "strlen ?m p = Some l"
    by (rule copied_string [where bs = "mem s" and q = str])
       (use copy strnlen_spec [of "mem s" str "unat n"] assms(5) in simp_all)
  moreover have "?m a = mem s a" if "unat a \<notin> bytes p (l + 1)" for a
    using address_in_bytes [of a p len "l + 1"] that len b by (intro frame) auto
  ultimately show ?thesis using run c(3) unfolding len_def [symmetric]
    by (intro exI [of _ p] exI [of _ "s1\<lparr>mem := ?m\<rparr>"]) simp
qed

theorem strndup_copies_witness:
  "\<exists>s p s'. shim_strndup sample_os 0 16 9 s = Inr (p, s') \<and> strlen (mem s') p = Some 1"
proof -
  obtain s where s: "heap_run sample_os s {}" "supplied sample_os (mappings (meta (sp s)))"
    "mem s = (\<lambda>a. if a = 16 then 72 else 0)" by (rule sample_string_start)
  have l: "strnlen (mem s) 16 (unat (9 :: u64)) = 1" proof -
    have "unat (9 :: u64) = Suc (Suc 7)" by simp
    then show ?thesis by (simp only: strnlen.simps) (simp add: s(3))
  qed
  have n: "(16 :: ptr) \<noteq> NULL" "(1 :: nat) < 32768" by simp_all
  show ?thesis using strndup_copies [OF sample_os_ok s(1,2) n(1) l n(2)] by blast
qed

section \<open>\<open>posix_memalign\<close>\<close>

text \<open>Both paths of \<open>shim_memalign\<close>, for a power of two.\<close>

lemma memalign_any:
  assumes os: "os_ok os" and H: "heap_run os s L" and k: "3 \<le> k" "unat al = 2 ^ k"
    and sz: "unat sz + unat al + unat (sysconf_pagesize os) \<le> 2 ^ 64"
    and run: "shim_memalign os t al sz s = Inr (p, s')" "p \<noteq> NULL"
  shows "p = MAP_FAILED \<and> unat al \<le> 16 \<or> (\<exists>raw n. unat al dvd unat p \<and> bytes p (unat sz) \<subseteq> bytes raw n \<and>
      (\<forall>(r, m, u) \<in> L. bytes raw n \<inter> bytes r m = {}) \<and> heap_run os s' (insert (raw, n, t) L))"
proof (cases "k \<le> 4")
  case True
  then have "(2 :: nat) ^ k \<le> 2 ^ 4" by (intro power_increasing) simp_all
  then have le: "unat al \<le> 16" using k(2) by simp
  then have c: "cmalloc os t sz s = Inr (p, s')" using run(1) by (simp add: shim_memalign_def word_le_nat_alt)
  show ?thesis
  proof (cases "p = MAP_FAILED")
    case False
    then have sv: "served os sz p" using sz by (simp add: served_def)
    note b = malloc_call(2) [OF heap_run_ok [OF H os] sv c, unfolded new_block_def]
    have "unat al dvd 16" using le_imp_power_dvd [OF True, of "2 :: nat"] k(2) by simp
    then have "unat al dvd unat p" using b dvd_trans by blast
    moreover have "bytes p (unat sz) \<subseteq> bytes p (granted sz)" using b by (auto simp: bytes_def)
    moreover have "heap_run os s' (insert (p, granted sz, t) L)"
      using heap_run.call [OF H, of "Malloc t sz p"] sv c by simp
    moreover have "\<forall>(r, m, u) \<in> L. bytes p (granted sz) \<inter> bytes r m = {}" using b by blast
    ultimately show ?thesis by blast
  qed (use le in simp)
next
  case False
  have "(2 :: nat) ^ k < 2 ^ 64" using unat_less64 [of al] k(2) by simp
  then have k64: "k < 64" by (simp only: power_strict_increasing_iff)
  then have al: "al = 2 ^ k" using k(2) by (simp add: word_unat_eq_iff unat_exp64)
  have "unat sz + 2 ^ k - 1 + unat (sysconf_pagesize os) \<le> 2 ^ 64" using sz k(2) by simp
  from False memalign_law [OF os H _ k64 this run [unfolded al]]
  obtain raw n where "2 ^ k dvd unat p" "bytes p (unat sz) \<subseteq> bytes raw n"
    "\<forall>(r, m, u) \<in> L. bytes raw n \<inter> bytes r m = {}" "heap_run os s' (insert (raw, n, t) L)"
    by (metis not_le)
  then show ?thesis unfolding k(2) by blast
qed

text \<open>The cmalloc backend, in the heap \<open>L\<close> of its clients.\<close>

interpretation cm_shim: aligning_backend "cm_backend os t"
  "\<lambda>al sz s. os_ok os \<and> heap_run os s L \<and> unat sz + unat al + unat (sysconf_pagesize os) \<le> 2 ^ 64"
  "\<lambda>al sz s p s'. p = MAP_FAILED \<and> unat al \<le> 16 \<or> (\<exists>raw n. unat al dvd unat p \<and>
     bytes p (unat sz) \<subseteq> bytes raw n \<and> (\<forall>(r, m, u) \<in> L. bytes raw n \<inter> bytes r m = {}) \<and>
     heap_run os s' (insert (raw, n, t) L))"
  for os t L
  by unfold_locales (rule memalign_any; simp add: cm_backend_def)

text \<open>C20: let the size, the alignment and one page fit \<open>2^64\<close> together (beyond that the page rounding
  of \<open>cmalloc\<close> wraps, which this property says nothing about). Then, in a state that permitted calls reach,
  \<open>shim_posix_memalign\<close> returns
  \<open>EINVAL\<close> exactly for a null result pointer and for an alignment that is not a power of two of at
  least 8, and then does nothing else. Otherwise it either returns \<open>ENOMEM\<close> without storing a
  result, or stores an aligned address whose bytes lie in a new block of the heap, which shares no
  byte with a block held before; \<open>MAP_FAILED\<close> shows only at alignments that \<open>cmalloc\<close> serves itself.\<close>

theorem posix_memalign_contract:
  assumes "os_ok os" "heap_run os s L" "unat sz + unat al + unat (sysconf_pagesize os) \<le> 2 ^ 64"
    and "shim_posix_memalign os t out_is_null al sz s = Inr ((rc, out), s')"
  shows "(rc = EINVAL \<longleftrightarrow> out_is_null \<or> unat al < 8 \<or> \<not> (\<exists>k. unat al = 2 ^ k)) \<and>
    (rc = EINVAL \<longrightarrow> out = None \<and> s' = s) \<and>
    (rc \<noteq> EINVAL \<longrightarrow> rc = ENOMEM \<and> out = None \<or>
      rc = 0 \<and> (\<exists>p raw n. out = Some p \<and> (p = MAP_FAILED \<and> unat al \<le> 16 \<or>
        unat al dvd unat p \<and> bytes p (unat sz) \<subseteq> bytes raw n \<and>
        (\<forall>(r, m, u) \<in> L. bytes raw n \<inter> bytes r m = {}) \<and> heap_run os s' (insert (raw, n, t) L))))"
proof -
  have run: "backend_posix_memalign (cm_backend os t) out_is_null al sz s = Inr ((rc, out), s')"
    using assms(4) by (simp add: cm_shared_entry_points)
  have "os_ok os \<and> heap_run os s L \<and> unat sz + unat al + unat (sysconf_pagesize os) \<le> 2 ^ 64"
    using assms(1-3) by simp
  from cm_shim.posix_memalign_law [OF this run] show ?thesis by blast
qed

theorem posix_memalign_contract_witness:
  "\<exists>p s'. shim_posix_memalign sample_os 0 False 64 100 sample_start = Inr ((0, Some p), s') \<and> (64 :: nat) dvd unat p"
proof -
  obtain q s' where q: "shim_memalign sample_os 0 (2 ^ 6) 100 sample_start = Inr (q, s')" "q \<noteq> NULL"
    using memalign_returns [OF heap_run_ok [OF sample_start_run sample_os_ok], of 6 100 0]
      sample_start_supplied by auto
  then have r: "shim_posix_memalign sample_os 0 False 64 100 sample_start = Inr ((0, Some q), s')"
    by (simp add: shim_posix_memalign_def)
  have "unat (100 :: u64) + unat (64 :: u64) + unat (sysconf_pagesize sample_os) \<le> 2 ^ 64"
    by (simp add: sample_os_def)
  from posix_memalign_contract [OF sample_os_ok sample_start_run this r] have "(64 :: nat) dvd unat q"
    by (auto simp: EINVAL_def ENOMEM_def)
  with r show ?thesis by blast
qed

end
