(* ===== verification/ShimNew.thy ===== *)
theory ShimNew
  imports Shim
begin

text \<open>
  The replaceable \<open>operator new\<close> and \<open>operator delete\<close> of \<open>bench/shim/alloc_shim_new.cpp\<close> on the
  cmalloc backend. The state adds the installed \<open>new_handler\<close> to the allocator's. Handlers are the
  program's own functions and a parameter of the model: running one may change the state (free
  memory, install another handler), throw, fault, or not return (\<open>None\<close>). The retry loop may run
  for ever, so it is a \<open>partial_function\<close>.
\<close>

section \<open>State, exceptions and handlers\<close>

datatype exn = Bad_Alloc | Handler_Exn nat

record 'h cpp =
  cm :: cm_state
  new_handler :: "'h option"

type_synonym 'h handlers = "'h \<Rightarrow> nat \<Rightarrow> 'h cpp \<Rightarrow> (fault + exn option \<times> 'h cpp) option"

section \<open>The retry loop\<close>

text \<open>
  \<open>shim_new\<close> and \<open>shim_new_aligned\<close> are the same loop around two allocation functions.
\<close>

partial_function (option) new_loop ::
  "(cm_state \<Rightarrow> fault + ptr \<times> cm_state) \<Rightarrow> 'h handlers \<Rightarrow> nat \<Rightarrow> 'h cpp \<Rightarrow> (fault + (exn + ptr) \<times> 'h cpp) option"
where
  "new_loop alloc hs tid w =
     (case alloc (cm w) of
        Inl f \<Rightarrow> Some (Inl f)
      | Inr (p, s) \<Rightarrow>
          let w = w\<lparr>cm := s\<rparr>
          in if p \<noteq> NULL then Some (Inr (Inr p, w))
             else
               case new_handler w of
                 None \<Rightarrow> Some (Inr (Inl Bad_Alloc, w))
               | Some h \<Rightarrow>
                   Option.bind (hs h tid w) (\<lambda>r.
                     case r of
                       Inl f \<Rightarrow> Some (Inl f)
                     | Inr (thrown, w) \<Rightarrow>
                         (case thrown of
                            Some e \<Rightarrow> Some (Inr (Inl e, w))
                          | None \<Rightarrow> new_loop alloc hs tid w)))"

definition shim_new ::
  "platform \<Rightarrow> 'h handlers \<Rightarrow> nat \<Rightarrow> u64 \<Rightarrow> 'h cpp \<Rightarrow> (fault + (exn + ptr) \<times> 'h cpp) option" where
  "shim_new os hs tid sz = new_loop (shim_malloc os tid (if sz \<noteq> 0 then sz else 1)) hs tid"

definition shim_new_aligned ::
  "platform \<Rightarrow> 'h handlers \<Rightarrow> nat \<Rightarrow> u64 \<Rightarrow> u64 \<Rightarrow> 'h cpp \<Rightarrow> (fault + (exn + ptr) \<times> 'h cpp) option" where
  "shim_new_aligned os hs tid sz alignment =
     new_loop (shim_memalign os tid alignment (if sz \<noteq> 0 then sz else 1)) hs tid"

text \<open>\<open>try { ... } catch (...) { return nullptr; }\<close>: exceptions become \<open>NULL\<close>, faults stay.\<close>

definition catch_all ::
  "(fault + (exn + ptr) \<times> 'h cpp) option \<Rightarrow> (fault + ptr \<times> 'h cpp) option" where
  "catch_all r = map_option (\<lambda>r. bindr r (\<lambda>(v, w).
     case v of Inl e \<Rightarrow> Inr (NULL, w) | Inr p \<Rightarrow> Inr (p, w))) r"

definition shim_new_nothrow ::
  "platform \<Rightarrow> 'h handlers \<Rightarrow> nat \<Rightarrow> u64 \<Rightarrow> 'h cpp \<Rightarrow> (fault + ptr \<times> 'h cpp) option" where
  "shim_new_nothrow os hs tid sz w = catch_all (shim_new os hs tid sz w)"

section \<open>The operators\<close>

text \<open>Each form and its \<open>[]\<close> form have the same body, and one definition.\<close>

definition operator_new ::
  "platform \<Rightarrow> 'h handlers \<Rightarrow> nat \<Rightarrow> u64 \<Rightarrow> 'h cpp \<Rightarrow> (fault + (exn + ptr) \<times> 'h cpp) option" where
  "operator_new os hs tid sz w = shim_new os hs tid sz w"

definition operator_new_nothrow ::
  "platform \<Rightarrow> 'h handlers \<Rightarrow> nat \<Rightarrow> u64 \<Rightarrow> 'h cpp \<Rightarrow> (fault + ptr \<times> 'h cpp) option" where
  "operator_new_nothrow os hs tid sz w = shim_new_nothrow os hs tid sz w"

definition operator_new_aligned ::
  "platform \<Rightarrow> 'h handlers \<Rightarrow> nat \<Rightarrow> u64 \<Rightarrow> u64 \<Rightarrow> 'h cpp \<Rightarrow> (fault + (exn + ptr) \<times> 'h cpp) option" where
  "operator_new_aligned os hs tid sz alignment w = shim_new_aligned os hs tid sz alignment w"

definition operator_new_aligned_nothrow ::
  "platform \<Rightarrow> 'h handlers \<Rightarrow> nat \<Rightarrow> u64 \<Rightarrow> u64 \<Rightarrow> 'h cpp \<Rightarrow> (fault + ptr \<times> 'h cpp) option" where
  "operator_new_aligned_nothrow os hs tid sz alignment w =
     catch_all (shim_new_aligned os hs tid sz alignment w)"

text \<open>
  Every form of \<open>operator delete\<close> has the same body: the size, the alignment and the \<open>nothrow\<close>
  tag are ignored.
\<close>

definition operator_delete :: "platform \<Rightarrow> nat \<Rightarrow> ptr \<Rightarrow> 'h cpp \<Rightarrow> fault + 'h cpp" where
  "operator_delete os tid p w = bindr (shim_free os tid p (cm w)) (\<lambda>s. Inr (w\<lparr>cm := s\<rparr>))"

definition operator_delete_aligned :: "platform \<Rightarrow> nat \<Rightarrow> ptr \<Rightarrow> u64 \<Rightarrow> 'h cpp \<Rightarrow> fault + 'h cpp" where
  "operator_delete_aligned os tid p alignment w =
     bindr (shim_free os tid p (cm w)) (\<lambda>s. Inr (w\<lparr>cm := s\<rparr>))"

section \<open>What the loop does on one round\<close>

lemma new_loop_success:
  "alloc (cm w) = Inr (p, s) \<Longrightarrow> p \<noteq> NULL \<Longrightarrow> new_loop alloc hs tid w = Some (Inr (Inr p, w\<lparr>cm := s\<rparr>))"
  by (simp add: new_loop.simps)

lemma new_loop_fault: "alloc (cm w) = Inl f \<Longrightarrow> new_loop alloc hs tid w = Some (Inl f)"
  by (simp add: new_loop.simps)

lemma new_loop_no_handler:
  "alloc (cm w) = Inr (NULL, s) \<Longrightarrow> new_handler w = None \<Longrightarrow>
    new_loop alloc hs tid w = Some (Inr (Inl Bad_Alloc, w\<lparr>cm := s\<rparr>))"
  by (simp add: new_loop.simps)

lemma new_loop_retry:
  "alloc (cm w) = Inr (NULL, s) \<Longrightarrow> new_handler w = Some h \<Longrightarrow> hs h tid (w\<lparr>cm := s\<rparr>) = Some (Inr (None, w')) \<Longrightarrow>
    new_loop alloc hs tid w = new_loop alloc hs tid w'"
  by (subst new_loop.simps) simp

lemma new_loop_throw:
  "alloc (cm w) = Inr (NULL, s) \<Longrightarrow> new_handler w = Some h \<Longrightarrow> hs h tid (w\<lparr>cm := s\<rparr>) = Some (Inr (Some e, w')) \<Longrightarrow>
    new_loop alloc hs tid w = Some (Inr (Inl e, w'))"
  by (simp add: new_loop.simps)

lemmas new_loop_rounds = new_loop_success new_loop_fault new_loop_no_handler new_loop_retry new_loop_throw

lemma catch_all_simps [simp]:
  "catch_all None = None" "catch_all (Some (Inl f)) = Some (Inl f)"
  "catch_all (Some (Inr (Inl e, w))) = Some (Inr (NULL, w))"
  "catch_all (Some (Inr (Inr p, w))) = Some (Inr (p, w))"
  by (simp_all add: catch_all_def)

end
