(* ===== verification/ShimNewTheorems.thy ===== *)
theory ShimNewTheorems
  imports ShimNew HeapShim
begin

text \<open>
  \<open>operator new\<close> and \<open>operator delete\<close> against the specification of the heap, and the end of the
  retry loop.
\<close>

section \<open>Requests the allocator answers\<close>

lemma page_size_le:
  assumes "os_ok os"
  shows "unat (sysconf_pagesize os) \<le> 2 ^ 16"
proof -
  obtain k where k: "k \<le> 16" "sysconf_pagesize os = 2 ^ k"
    using assms by (auto simp: os_ok_def page_size_ok_def)
  then have "unat (sysconf_pagesize os) = 2 ^ k" using unat_exp64 [of k] by simp
  then show ?thesis using power_increasing [OF k(1), of "2 :: nat"] by simp
qed

lemma new_size: "(if sz \<noteq> 0 then sz else 1) \<le> MAX_SIZE_CLASS" if "sz \<le> MAX_SIZE_CLASS" for sz :: u64
  using that by (simp add: MAX_SIZE_CLASS_def)

text \<open>C14: while \<open>mmap\<close> grants memory, \<open>operator new\<close> of at most 32 KiB (0 counts as 1) returns a new
  block whatever the \<open>new_handler\<close>, which is not called, and \<open>operator delete\<close> takes it back.\<close>

theorem operator_new_delete:
  assumes "os_ok os" "heap_run os (cm w) L" "sz \<le> MAX_SIZE_CLASS"
    and "supplied os (mappings (meta (sp (cm w))))"
  shows "\<exists>p s s'. operator_new os hs t sz w = Some (Inr (Inr p, w\<lparr>cm := s\<rparr>)) \<and>
    new_block L (if sz \<noteq> 0 then sz else 1) p \<and>
    operator_delete os t p (w\<lparr>cm := s\<rparr>) = Inr (w\<lparr>cm := s'\<rparr>) \<and> heap_run os s' L"
proof -
  define n where n_def: "n = (if sz \<noteq> 0 then sz else 1)"
  have n: "n \<le> MAX_SIZE_CLASS" unfolding n_def by (rule new_size [OF assms(3)])
  note H = heap_run_ok [OF assms(2,1)]
  obtain p s where r: "cmalloc os t n (cm w) = Inr (p, s)" "served os n p"
    by (rule class_malloc_returns [OF H n assms(4)])
  note c = malloc_call [OF H r(2,1)]
  have p: "p \<noteq> NULL" using c(2) by (simp add: new_block_def)
  have new: "operator_new os hs t sz w = Some (Inr (Inr p, w\<lparr>cm := s\<rparr>))"
    using new_loop_success [of "shim_malloc os t n" w p s, OF _ p] r(1)
    by (simp add: operator_new_def shim_new_def shim_malloc_def n_def)
  have run: "heap_run os s (insert (p, granted n, t) L)"
    using heap_run.call [OF assms(2), of "Malloc t n p" s] r by simp
  obtain s' where f: "cfree os t p s = Inr s'"
    by (rule class_free_returns [OF c(1) insertI1 granted_class [OF n]])
  have "heap_run os s' L" by (rule free_new_run [OF run without_new [OF H c(2)] f])
  with new c(2) f show ?thesis unfolding n_def [symmetric]
    by (intro exI [of _ p] exI [of _ s] exI [of _ s']) (simp add: operator_delete_def shim_free_def)
qed

theorem operator_new_delete_witness:
  "\<exists>p s. operator_new sample_os (\<lambda>_ _ _. None) 0 0 \<lparr>cm = sample_start, new_handler = Some ()\<rparr> =
     Some (Inr (Inr p, \<lparr>cm = s, new_handler = Some ()\<rparr>)) \<and> p \<noteq> NULL"
proof -
  let ?w = "\<lparr>cm = sample_start, new_handler = Some ()\<rparr>"
  have w: "heap_run sample_os (cm ?w) {}" "supplied sample_os (mappings (meta (sp (cm ?w))))"
    using sample_start_run sample_start_supplied by simp_all
  have z: "(0 :: u64) \<le> MAX_SIZE_CLASS" by simp
  obtain p s where "operator_new sample_os (\<lambda>_ _ _. None) 0 0 ?w = Some (Inr (Inr p, ?w\<lparr>cm := s\<rparr>))"
    "new_block {} (if (0 :: u64) \<noteq> 0 then 0 else 1) p"
    using operator_new_delete [OF sample_os_ok w(1) z w(2), of "\<lambda>_ _ _. None" 0] by blast
  then show ?thesis by (auto simp: new_block_def)
qed

text \<open>C22: for a request that leaves a byte and a page below \<open>2^64\<close> (nearer to it the page rounding of
  \<open>cmalloc\<close> wraps, which this property says nothing about), \<open>operator new\<close> on this allocator never
  reaches its \<open>new_handler\<close> and never throws \<open>bad_alloc\<close>: from a state that permitted calls reach,
  whenever it ends without a fault it has returned a new block, or the \<open>MAP_FAILED\<close> that \<open>cmalloc\<close>
  passes on, and the installed handler is what it was.\<close>

theorem operator_new_never_throws:
  assumes "os_ok os" "heap_run os (cm w) L" "unat sz + 1 + unat (sysconf_pagesize os) \<le> 2 ^ 64"
    and "operator_new os hs t sz w = Some (Inr (v, w'))"
  shows "new_handler w' = new_handler w \<and>
    (\<exists>p. v = Inr p \<and> (p = MAP_FAILED \<or> new_block L (if sz \<noteq> 0 then sz else 1) p))"
proof -
  let ?n = "if sz \<noteq> 0 then sz else 1"
  obtain p s where r: "cmalloc os t ?n (cm w) = Inr (p, s)"
    using assms(4) by (cases "cmalloc os t ?n (cm w)")
      (auto simp: operator_new_def shim_new_def shim_malloc_def new_loop_fault)
  have sv: "served os ?n p" if "p \<noteq> MAP_FAILED" using assms(3) that by (simp add: served_def)
  note b = malloc_call(2) [OF heap_run_ok [OF assms(2,1)] sv r]
  then have "p \<noteq> NULL" by (cases "p = MAP_FAILED") (auto simp: new_block_def)
  then have "new_loop (shim_malloc os t ?n) hs t w = Some (Inr (Inr p, w\<lparr>cm := s\<rparr>))"
    using r by (intro new_loop_success) (simp_all add: shim_malloc_def)
  then have "v = Inr p" "w' = w\<lparr>cm := s\<rparr>" using assms(4) by (simp_all add: operator_new_def shim_new_def)
  then show ?thesis using b by (cases "p = MAP_FAILED") simp_all
qed

theorem operator_new_never_throws_witness:
  "\<exists>p w'. operator_new sample_os (\<lambda>_ _ _. None) 0 1000 \<lparr>cm = sample_start, new_handler = None :: unit option\<rparr> =
     Some (Inr (Inr p, w')) \<and> new_handler w' = None"
proof -
  let ?w = "\<lparr>cm = sample_start, new_handler = None :: unit option\<rparr>"
  obtain p s where r: "cmalloc sample_os 0 1000 sample_start = Inr (p, s)" "served sample_os 1000 p"
    by (rule sample_malloc)
  have "p \<noteq> NULL" using malloc_call(2) [OF heap_run_ok [OF sample_start_run sample_os_ok] r(2,1)]
    by (simp add: new_block_def)
  then have run: "operator_new sample_os (\<lambda>_ _ _. None) 0 1000 ?w = Some (Inr (Inr p, ?w\<lparr>cm := s\<rparr>))"
    unfolding operator_new_def shim_new_def using r(1)
    by (intro new_loop_success) (simp_all add: shim_malloc_def)
  have "unat (1000 :: u64) + 1 + unat (sysconf_pagesize sample_os) \<le> 2 ^ 64" by (simp add: sample_os_def)
  moreover have "heap_run sample_os (cm ?w) {}" using sample_start_run by simp
  ultimately have "new_handler (?w\<lparr>cm := s\<rparr>) = new_handler ?w"
    using operator_new_never_throws [OF sample_os_ok _ _ run] by blast
  with run show ?thesis by auto
qed

text \<open>C15: while \<open>mmap\<close> grants memory, the over-aligned \<open>operator new\<close> of a request that fits 32 KiB
  with its slack returns an aligned address whose bytes touch no other block, and the over-aligned
  \<open>operator delete\<close> of that address, which lies inside a larger block, gives the block back whole.\<close>

theorem aligned_new_delete:
  assumes "os_ok os" "heap_run os (cm w) L" "4 < k" "k < 64"
    and "unat (if sz \<noteq> 0 then sz else 1) + 2 ^ k - 1 \<le> 32768"
    and "supplied os (mappings (meta (sp (cm w))))"
  shows "\<exists>q s s'. operator_new_aligned os hs t sz (2 ^ k) w = Some (Inr (Inr q, w\<lparr>cm := s\<rparr>)) \<and>
    2 ^ k dvd unat q \<and> (\<forall>(r, m, u) \<in> L. bytes q (unat sz) \<inter> bytes r m = {}) \<and>
    operator_delete_aligned os t q (2 ^ k) (w\<lparr>cm := s\<rparr>) = Inr (w\<lparr>cm := s'\<rparr>) \<and> heap_run os s' L"
proof -
  define n where n_def: "n = (if sz \<noteq> 0 then sz else 1)"
  have sz: "unat n + 2 ^ k - 1 \<le> 32768" using assms(5) unfolding n_def .
  note H = heap_run_ok [OF assms(2,1)]
  obtain q s where q: "shim_memalign os t (2 ^ k) n (cm w) = Inr (q, s)" "q \<noteq> NULL"
    by (rule memalign_returns [OF H assms(3,4) sz assms(6)])
  have "unat (sysconf_pagesize os) \<le> 2 ^ 16" using page_size_le [OF assms(1)] .
  then have "unat n + 2 ^ k - 1 + unat (sysconf_pagesize os) \<le> 2 ^ 64" using sz by simp
  note law = memalign_law [OF assms(1-4) this q]
  obtain raw m where r: "2 ^ k dvd unat q" "unat q \<in> bytes raw m" "bytes q (unat n) \<subseteq> bytes raw m"
    "\<forall>(r, m', u) \<in> L. bytes raw m \<inter> bytes r m' = {}" "heap_run os s (insert (raw, m, t) L)"
    "without raw L = L" "m = granted (n + 2 ^ k - 1)" by (rule law)
  have "unat (n + 2 ^ k - 1) = unat n + 2 ^ k - 1" by (rule memalign_eq(2) [OF assms(3,4)]) (use sz in simp)
  then have "n + 2 ^ k - 1 \<le> MAX_SIZE_CLASS" using sz by (simp add: word_le_nat_alt MAX_SIZE_CLASS_def)
  then have m: "m \<le> 32768" unfolding r(7) by (rule granted_class)
  note Hs = heap_run_ok [OF r(5) assms(1)]
  obtain s' where f: "cfree os t raw s = Inr s'" by (rule class_free_returns [OF Hs insertI1 m])
  have f': "cfree os t q s = Inr s'" using interior_free [OF Hs insertI1 r(2)] f by simp
  have "operator_new_aligned os hs t sz (2 ^ k) w = Some (Inr (Inr q, w\<lparr>cm := s\<rparr>))"
    unfolding operator_new_aligned_def shim_new_aligned_def n_def [symmetric]
    by (rule new_loop_success [of "shim_memalign os t (2 ^ k) n", OF q])
  moreover have "bytes q (unat sz) \<subseteq> bytes q (unat n)" by (simp add: n_def bytes_def)
  then have "\<forall>(r, m', u) \<in> L. bytes q (unat sz) \<inter> bytes r m' = {}" using r(3,4) by fast
  moreover have "operator_delete_aligned os t q (2 ^ k) (w\<lparr>cm := s\<rparr>) = Inr (w\<lparr>cm := s'\<rparr>)"
    using f' by (simp add: operator_delete_aligned_def shim_free_def)
  moreover have "heap_run os s' L" by (rule free_new_run [OF r(5,6) f])
  ultimately show ?thesis using r(1) by blast
qed

theorem aligned_new_delete_witness:
  "\<exists>q s. operator_new_aligned sample_os (\<lambda>_ _ _. None) 0 100 (2 ^ 12) \<lparr>cm = sample_start, new_handler = None :: unit option\<rparr> =
     Some (Inr (Inr q, \<lparr>cm = s, new_handler = None\<rparr>)) \<and> 2 ^ 12 dvd unat q"
proof -
  let ?w = "\<lparr>cm = sample_start, new_handler = None :: unit option\<rparr>"
  have w: "heap_run sample_os (cm ?w) {}" "supplied sample_os (mappings (meta (sp (cm ?w))))"
    using sample_start_run sample_start_supplied by simp_all
  have k: "(4 :: nat) < 12" "(12 :: nat) < 64" "unat (if (100 :: u64) \<noteq> 0 then 100 else 1 :: u64) + 2 ^ 12 - 1 \<le> (32768 :: nat)"
    by simp_all
  obtain q s where "operator_new_aligned sample_os (\<lambda>_ _ _. None) 0 100 (2 ^ 12) ?w = Some (Inr (Inr q, ?w\<lparr>cm := s\<rparr>))"
    "2 ^ 12 dvd unat q"
    using aligned_new_delete [OF sample_os_ok w(1) k w(2), of "\<lambda>_ _ _. None" 0] by blast
  then show ?thesis by auto
qed

section \<open>Requests the allocator refuses\<close>

text \<open>
  A set of states that the installed handlers never leave and in which they always return: a run
  from it goes round for ever, also when they change the allocator or install one another.
\<close>

definition handlers_stay :: "'h handlers \<Rightarrow> nat \<Rightarrow> 'h cpp set \<Rightarrow> bool" where
  "handlers_stay hs tid S \<longleftrightarrow> (\<forall>v \<in> S. \<exists>h v'. new_handler v = Some h \<and> hs h tid v = Some (Inr (None, v')) \<and> v' \<in> S)"

lemma new_loop_refused:
  assumes "\<And>s. alloc s = Inr (NULL, s)"
  shows "new_handler w = None \<Longrightarrow> new_loop alloc hs tid w = Some (Inr (Inl Bad_Alloc, w))"
    and "new_loop alloc hs tid w \<noteq> Some (Inr (Inr p, w'))"
    and "handlers_stay hs tid S \<Longrightarrow> w \<in> S \<Longrightarrow> new_loop alloc hs tid w = None"
proof -
  show "new_loop alloc hs tid w = Some (Inr (Inl Bad_Alloc, w))" if "new_handler w = None"
    using new_loop_no_handler [of alloc w "cm w" hs tid] that assms by simp
  have "f = alloc \<longrightarrow> (\<forall>p w'. y \<noteq> Inr (Inr p, w')) \<and> (\<forall>S. handlers_stay hs tid S \<longrightarrow> w \<notin> S)"
    if "new_loop f hs tid w = Some y" for y f
    using that
  proof (induction rule: new_loop.raw_induct [rotated, consumes 1])
    case (1 loop f hs tid w y)
    show ?case
    proof (intro impI)
      assume f: "f = alloc"
      have ih: "loop alloc hs tid v \<noteq> Some (Inr (Inr p, w'))"
        "loop alloc hs tid v = Some y \<Longrightarrow> handlers_stay hs tid S \<Longrightarrow> v \<notin> S" for v p w' S
        using 1(1) [of alloc hs tid v] by blast+
      have round: "(case new_handler w of None \<Rightarrow> Some (Inr (Inl Bad_Alloc, w))
          | Some h \<Rightarrow> Option.bind (hs h tid w) (\<lambda>r. case r of Inl f \<Rightarrow> Some (Inl f)
              | Inr (thrown, w) \<Rightarrow> (case thrown of Some e \<Rightarrow> Some (Inr (Inl e, w))
                  | None \<Rightarrow> loop alloc hs tid w))) = Some y"
        using 1(2) [unfolded f] assms [of "cm w"] by (simp add: case_prod_unfold)
      have "w \<notin> S" if S: "handlers_stay hs tid S" for S
      proof
        assume "w \<in> S"
        then obtain h v where h: "new_handler w = Some h" "hs h tid w = Some (Inr (None, v))" "v \<in> S"
          using S unfolding handlers_stay_def by blast
        from round h(1,2) have "loop alloc hs tid v = Some y" by simp
        from ih(2) [OF this S] h(3) show False by contradiction
      qed
      moreover from round have "y \<noteq> Inr (Inr p, w')" for p w'
        by (cases "new_handler w") (auto split: bind_splits sum.splits option.splits simp: ih(1))
      ultimately show "(\<forall>p w'. y \<noteq> Inr (Inr p, w')) \<and> (\<forall>S. handlers_stay hs tid S \<longrightarrow> w \<notin> S)" by blast
    qed
  qed
  then show "new_loop alloc hs tid w \<noteq> Some (Inr (Inr p, w'))"
    and "handlers_stay hs tid S \<Longrightarrow> w \<in> S \<Longrightarrow> new_loop alloc hs tid w = None"
    by (cases "new_loop alloc hs tid w"; blast)+
qed

text \<open>C23: a request whose alignment slack overflows is refused. Without a handler \<open>operator new\<close>
  throws \<open>bad_alloc\<close> and its \<open>nothrow\<close> form returns \<open>NULL\<close>, both without touching the allocator.
  From a set of states in which some handler is installed and returns into the set again, whatever
  it changes there (the allocator's state, or which handler is installed), both forms loop for
  ever. Whatever the handlers do, neither form returns an address.\<close>

theorem aligned_new_refused:
  assumes "16 < al" "SIZE_MAX - al < (if sz \<noteq> 0 then sz else 1)"
  shows "(new_handler w = None \<longrightarrow>
      operator_new_aligned os hs t sz al w = Some (Inr (Inl Bad_Alloc, w)) \<and>
      operator_new_aligned_nothrow os hs t sz al w = Some (Inr (NULL, w))) \<and>
    (\<forall>S. w \<in> S \<and> (\<forall>v \<in> S. \<exists>h v'. new_handler v = Some h \<and> hs h t v = Some (Inr (None, v')) \<and> v' \<in> S) \<longrightarrow>
      operator_new_aligned os hs t sz al w = None \<and> operator_new_aligned_nothrow os hs t sz al w = None) \<and>
    (\<forall>p w'. operator_new_aligned os hs t sz al w \<noteq> Some (Inr (Inr p, w'))) \<and>
    (\<forall>p w'. operator_new_aligned_nothrow os hs t sz al w = Some (Inr (p, w')) \<longrightarrow> p = NULL)"
proof -
  have small: "\<not> al \<le> 16" using assms(1) by simp
  have a: "shim_memalign os t al (if sz \<noteq> 0 then sz else 1) s = Inr (NULL, s)" for s
    unfolding shim_memalign_def if_not_P [OF small] if_P [OF assms(2)] ..
  note r = new_loop_refused [where alloc = "shim_memalign os t al (if sz \<noteq> 0 then sz else 1)" and hs = hs
      and tid = t and w = w, OF a]
  let ?run = "operator_new_aligned os hs t sz al w"
  have e: "?run = new_loop (shim_memalign os t al (if sz \<noteq> 0 then sz else 1)) hs t w"
    "operator_new_aligned_nothrow os hs t sz al w = catch_all ?run"
    by (simp_all add: operator_new_aligned_nothrow_def operator_new_aligned_def shim_new_aligned_def)
  have none: "?run \<noteq> Some (Inr (Inr p, w'))" for p w' unfolding e(1) by (rule r(2))
  have null: "p = NULL" if "catch_all ?run = Some (Inr (p, w'))" for p w'
    using that none by (auto simp: catch_all_def elim!: bindr_InrE split: sum.splits)
  have loop: "?run = None \<and> catch_all ?run = None"
    if "w \<in> S \<and> (\<forall>v \<in> S. \<exists>h v'. new_handler v = Some h \<and> hs h t v = Some (Inr (None, v')) \<and> v' \<in> S)" for S
    using r(3) [unfolded handlers_stay_def, of S] that by (simp add: e(1))
  have throw: "?run = Some (Inr (Inl Bad_Alloc, w))" if "new_handler w = None"
    unfolding e(1) by (rule r(1) [OF that])
  have "catch_all ?run = Some (Inr (NULL, w))" if "new_handler w = None" by (simp add: throw [OF that])
  then show ?thesis unfolding e(2) by (intro conjI impI allI none null) (use loop throw in blast)+
qed

text \<open>Two handlers that install each other, and a state in which the second one is installed.\<close>

definition toggle :: "bool handlers" where
  "toggle h tid w = Some (Inr (None, w\<lparr>new_handler := Some (\<not> h)\<rparr>))"

theorem aligned_new_refused_witness:
  "operator_new_aligned sample_os toggle 0 (- 8) 64 \<lparr>cm = sample_start, new_handler = None\<rparr> =
     Some (Inr (Inl Bad_Alloc, \<lparr>cm = sample_start, new_handler = None\<rparr>)) \<and>
   operator_new_aligned sample_os toggle 0 (- 8) 64 \<lparr>cm = sample_start, new_handler = Some True\<rparr> = None"
proof -
  have "SIZE_MAX - 64 < (if (- 8 :: u64) \<noteq> 0 then - 8 else 1)" by (simp add: SIZE_MAX_def)
  moreover have "(16 :: u64) < 64" by simp
  ultimately have refused: "(new_handler w = None \<longrightarrow>
      operator_new_aligned sample_os toggle 0 (- 8) 64 w = Some (Inr (Inl Bad_Alloc, w))) \<and>
    (\<forall>S. w \<in> S \<and> (\<forall>v \<in> S. \<exists>h v'. new_handler v = Some h \<and> toggle h 0 v = Some (Inr (None, v')) \<and> v' \<in> S) \<longrightarrow>
      operator_new_aligned sample_os toggle 0 (- 8) 64 w = None)" for w
    using aligned_new_refused [where al = 64 and sz = "- 8" and t = 0 and hs = toggle and os = sample_os and w = w]
    by blast
  have "operator_new_aligned sample_os toggle 0 (- 8) 64 w = None" if "new_handler w = Some True" for w
    using refused [of w] that
    by (elim conjE allE [where x = "{v. new_handler v \<noteq> None}"]) (auto simp: toggle_def)
  with refused show ?thesis by simp
qed

section \<open>The end of the retry loop\<close>

lemma new_loop_ends:
  assumes h: "\<And>h w. new_handler w = Some h \<Longrightarrow>
    \<exists>r. hs h tid w = Some r \<and> (\<forall>w'. r = Inr (None, w') \<longrightarrow> rank (new_handler w') < (rank (new_handler w) :: nat))"
  shows "\<exists>r. new_loop alloc hs tid w = Some r"
proof (induction "rank (new_handler w)" arbitrary: w rule: less_induct)
  case less
  show ?case
  proof (cases "alloc (cm w)")
    case (Inr ps)
    obtain p s where ps: "ps = (p, s)" by (cases ps)
    show ?thesis
    proof (cases "p = NULL \<and> new_handler w \<noteq> None")
      case True
      then obtain x where x: "new_handler w = Some x" by blast
      obtain r where r: "hs x tid (w\<lparr>cm := s\<rparr>) = Some r"
        "\<forall>w'. r = Inr (None, w') \<longrightarrow> rank (new_handler w') < rank (new_handler w)"
        using h [of "w\<lparr>cm := s\<rparr>" x] x by auto
      show ?thesis
      proof (cases "\<exists>w'. r = Inr (None, w')")
        case True
        then obtain w' where w': "r = Inr (None, w')" by blast
        have "\<exists>v. new_loop alloc hs tid w' = Some v" by (rule less.hyps) (use r(2) w' in blast)
        then show ?thesis using Inr ps \<open>p = NULL \<and> _\<close> x r(1) w' by (simp add: new_loop.simps [of _ _ _ w])
      next
        case False
        then show ?thesis using Inr ps \<open>p = NULL \<and> _\<close> x r(1)
          by (auto simp: new_loop.simps [of _ _ _ w] Let_def split: sum.splits option.splits)
      qed
    next
      case False
      then show ?thesis using Inr ps by (auto simp: new_loop.simps [of _ _ _ w] Let_def)
    qed
  qed (simp add: new_loop_fault)
qed

text \<open>C16: the retry loops end for every request, alignment and state of the allocator, provided
  every handler returns or throws and, when it returns, has removed itself or installed a handler
  of lower rank.\<close>

theorem retry_loop_ends:
  assumes "\<And>h w. new_handler w = Some h \<Longrightarrow>
    \<exists>r. hs h t w = Some r \<and> (\<forall>w'. r = Inr (None, w') \<longrightarrow> rank (new_handler w') < (rank (new_handler w) :: nat))"
  shows "(\<exists>r. operator_new os hs t sz w = Some r) \<and> (\<exists>r. operator_new_aligned os hs t sz al w = Some r) \<and>
    (\<exists>r. operator_new_nothrow os hs t sz w = Some r)"
proof -
  have e: "\<exists>r. new_loop alloc hs t w = Some r" for alloc by (rule new_loop_ends [where rank = rank]) (rule assms)
  show ?thesis
    using e [of "shim_malloc os t (if sz \<noteq> 0 then sz else 1)"]
      e [of "shim_memalign os t al (if sz \<noteq> 0 then sz else 1)"]
    by (auto simp: operator_new_def operator_new_aligned_def operator_new_nothrow_def shim_new_nothrow_def
        shim_new_def shim_new_aligned_def catch_all_def)
qed

text \<open>Handlers that install the next lower one, the lowest of which removes itself.\<close>

definition countdown :: "nat handlers" where
  "countdown h tid w = Some (Inr (None, w\<lparr>new_handler := if h = 0 then None else Some (h - 1)\<rparr>))"

theorem retry_loop_ends_witness:
  "\<exists>r. operator_new_aligned sample_os countdown 0 (- 8) 64 \<lparr>cm = sample_start, new_handler = Some 5\<rparr> = Some r"
proof -
  let ?rank = "\<lambda>h. case h of None \<Rightarrow> 0 | Some n \<Rightarrow> Suc n"
  show ?thesis
    using retry_loop_ends [where hs = countdown and rank = ?rank and t = 0, of sample_os "- 8" "\<lparr>cm = sample_start, new_handler = Some 5\<rparr>" 64]
    by (auto simp: countdown_def)
qed

end
