(* ===== verification/XThread.thy ===== *)
theory XThread
  imports Cmalloc
begin

text \<open>
  The two worker functions of \<open>bench/xthread_repro.c\<close> as programs of threads that share the
  allocator. A step of a worker is one call of the allocator, or one critical section of the
  \<open>handoff\<close> mutex, with the tests and assignments around it; a schedule is the list of the threads
  that take the steps. \<open>pthread_create\<close> gives a worker an identifier of its own, so its bins start
  empty.
\<close>

definition THREADS :: nat where "THREADS = 8"
definition SLOTS :: nat where "SLOTS = 256"
definition ROUNDS :: nat where "ROUNDS = 200000"
definition BLOCK_SZ :: u64 where "BLOCK_SZ = 64"

section \<open>Schedules\<close>

fun run_threads :: "(nat \<Rightarrow> 'w \<Rightarrow> fault + 'w) \<Rightarrow> nat list \<Rightarrow> 'w \<Rightarrow> fault + 'w" where
  "run_threads step [] w = Inr w"
| "run_threads step (t # ts) w = bindr (step t w) (run_threads step ts)"

section \<open>The control: every thread frees what it allocated\<close>

datatype same_pc = Same_Evict | Same_Allocate | Same_Drain | Same_Returned

record same_worker =
  same_at :: same_pc
  same_i :: nat
  live_slots :: "ptr list"

record same_phase =
  same_heap :: cm_state
  same_workers :: "nat \<Rightarrow> same_worker"
  same_oom :: nat

definition same_thread_worker :: "platform \<Rightarrow> nat \<Rightarrow> same_phase \<Rightarrow> fault + same_phase" where
  "same_thread_worker os tid w =
     (let v = same_workers w tid;
          slot = same_i v mod SLOTS;
          put = (\<lambda>v s. w\<lparr>same_heap := s, same_workers := (same_workers w)(tid := v)\<rparr>)
      in case same_at v of
           Same_Evict \<Rightarrow>
             if same_i v < ROUNDS then
               bindr (if live_slots v ! slot \<noteq> NULL then cfree os tid (live_slots v ! slot) (same_heap w)
                      else Inr (same_heap w))
                 (\<lambda>s. Inr (put (v\<lparr>same_at := Same_Allocate\<rparr>) s))
             else Inr (put (v\<lparr>same_at := Same_Drain, same_i := 0\<rparr>) (same_heap w))
         | Same_Allocate \<Rightarrow>
             bindr (cmalloc os tid BLOCK_SZ (same_heap w)) (\<lambda>(p, s).
               let v = v\<lparr>live_slots := (live_slots v)[slot := p]\<rparr>
               in if p = NULL then
                    Inr ((put (v\<lparr>same_at := Same_Returned\<rparr>) s)\<lparr>same_oom := same_oom w + 1\<rparr>)
                  else Inr (put (v\<lparr>same_at := Same_Evict, same_i := same_i v + 1\<rparr>) s))
         | Same_Drain \<Rightarrow>
             if same_i v < SLOTS then
               bindr (if live_slots v ! same_i v \<noteq> NULL
                      then cfree os tid (live_slots v ! same_i v) (same_heap w) else Inr (same_heap w))
                 (\<lambda>s. Inr (put (v\<lparr>same_i := same_i v + 1\<rparr>) s))
             else Inr (put (v\<lparr>same_at := Same_Returned\<rparr>) (same_heap w))
         | Same_Returned \<Rightarrow> Inr w)"

definition same_start :: same_worker where
  "same_start = \<lparr>same_at = Same_Evict, same_i = 0, live_slots = replicate SLOTS NULL\<rparr>"

section \<open>The experiment: blocks change hands through shared slots\<close>

datatype cross_pc = Cross_Take | Cross_Free_Taken | Cross_Allocate | Cross_Publish
  | Cross_Free_Evicted | Cross_Returned

record cross_worker =
  cross_at :: cross_pc
  cross_i :: nat
  taken :: ptr
  block :: ptr
  evicted :: ptr

record cross_phase =
  cross_heap :: cm_state
  cross_workers :: "nat \<Rightarrow> cross_worker"
  shared_slot :: "ptr list"
  cross_oom :: nat

definition cross_thread_worker :: "platform \<Rightarrow> nat \<Rightarrow> cross_phase \<Rightarrow> fault + cross_phase" where
  "cross_thread_worker os tid w =
     (let v = cross_workers w tid;
          slot = cross_i v mod SLOTS;
          put = (\<lambda>v s. w\<lparr>cross_heap := s, cross_workers := (cross_workers w)(tid := v)\<rparr>)
      in case cross_at v of
           Cross_Take \<Rightarrow>
             if cross_i v < ROUNDS then
               Inr ((put (v\<lparr>taken := shared_slot w ! slot, cross_at := Cross_Free_Taken\<rparr>) (cross_heap w))
                      \<lparr>shared_slot := (shared_slot w)[slot := NULL]\<rparr>)
             else Inr (put (v\<lparr>cross_at := Cross_Returned\<rparr>) (cross_heap w))
         | Cross_Free_Taken \<Rightarrow>
             bindr (if taken v \<noteq> NULL then cfree os tid (taken v) (cross_heap w) else Inr (cross_heap w))
               (\<lambda>s. Inr (put (v\<lparr>cross_at := Cross_Allocate\<rparr>) s))
         | Cross_Allocate \<Rightarrow>
             bindr (cmalloc os tid BLOCK_SZ (cross_heap w)) (\<lambda>(p, s).
               let v = v\<lparr>block := p\<rparr>
               in if p = NULL then
                    Inr ((put (v\<lparr>cross_at := Cross_Returned\<rparr>) s)\<lparr>cross_oom := cross_oom w + 1\<rparr>)
                  else Inr (put (v\<lparr>cross_at := Cross_Publish\<rparr>) s))
         | Cross_Publish \<Rightarrow>
             Inr ((put (v\<lparr>evicted := shared_slot w ! slot, cross_at := Cross_Free_Evicted\<rparr>) (cross_heap w))
                    \<lparr>shared_slot := (shared_slot w)[slot := block v]\<rparr>)
         | Cross_Free_Evicted \<Rightarrow>
             bindr (if evicted v \<noteq> NULL then cfree os tid (evicted v) (cross_heap w) else Inr (cross_heap w))
               (\<lambda>s. Inr (put (v\<lparr>cross_at := Cross_Take, cross_i := cross_i v + 1\<rparr>) s))
         | Cross_Returned \<Rightarrow> Inr w)"

definition cross_start :: cross_worker where
  "cross_start = \<lparr>cross_at = Cross_Take, cross_i = 0, taken = NULL, block = NULL, evicted = NULL\<rparr>"

section \<open>\<open>run_phase\<close>\<close>

text \<open>
  \<open>run_phase\<close> clears the counter and the shared slots, starts \<open>THREADS\<close> workers, with identifiers
  from \<open>first\<close> on, and returns the counter when all have returned. One definition for each worker.
\<close>

definition phase_threads :: "nat \<Rightarrow> nat set" where
  "phase_threads first = {first..<first + THREADS}"

definition control_phase :: "cm_state \<Rightarrow> same_phase" where
  "control_phase s = \<lparr>same_heap = s, same_workers = (\<lambda>_. same_start), same_oom = 0\<rparr>"

definition cross_phase_start :: "cm_state \<Rightarrow> cross_phase" where
  "cross_phase_start s = \<lparr>cross_heap = s, cross_workers = (\<lambda>_. cross_start),
     shared_slot = replicate SLOTS NULL, cross_oom = 0\<rparr>"

definition run_phase_control :: "platform \<Rightarrow> nat \<Rightarrow> cm_state \<Rightarrow> nat list \<Rightarrow> same_phase \<Rightarrow> bool" where
  "run_phase_control os first s sched w \<longleftrightarrow>
     set sched \<subseteq> phase_threads first \<and>
     run_threads (same_thread_worker os) sched (control_phase s) = Inr w"

definition run_phase_cross :: "platform \<Rightarrow> nat \<Rightarrow> cm_state \<Rightarrow> nat list \<Rightarrow> cross_phase \<Rightarrow> bool" where
  "run_phase_cross os first s sched w \<longleftrightarrow>
     set sched \<subseteq> phase_threads first \<and>
     run_threads (cross_thread_worker os) sched (cross_phase_start s) = Inr w"

section \<open>The interface of a phase\<close>

text \<open>
  A phase whose threads each have a bound \<open>left\<close> on the steps they can still take, which no other
  thread raises: the bounds add up over any schedule, and a thread scheduled often enough has
  returned.
\<close>

locale phase =
  fixes step :: "nat \<Rightarrow> 'w \<Rightarrow> fault + 'w" and left :: "nat \<Rightarrow> 'w \<Rightarrow> nat"
  assumes own_step: "step t w = Inr w' \<Longrightarrow> left t w' \<le> left t w - 1"
    and other_step: "step t w = Inr w' \<Longrightarrow> u \<noteq> t \<Longrightarrow> left u w' = left u w"
begin

lemma left_after: "run_threads step sched w = Inr w' \<Longrightarrow> left u w' \<le> left u w - count_list sched u"
proof (induction sched arbitrary: w)
  case (Cons t ts)
  then obtain v where v: "step t w = Inr v" "run_threads step ts v = Inr w'" by (auto elim!: bindr_InrE)
  note ih = Cons.IH [OF v(2)]
  show ?case
  proof (cases "u = t")
    case True
    have "left u v \<le> left u w - 1" unfolding True by (rule own_step [OF v(1)])
    then show ?thesis using ih True by simp
  next
    case False
    then show ?thesis using ih other_step [OF v(1) False] by simp
  qed
qed simp

lemma returned: "run_threads step sched w = Inr w' \<Longrightarrow> left u w \<le> count_list sched u \<Longrightarrow> left u w' = 0"
  using left_after [of sched w w' u] by simp

end

lemma run_threads_invariant:
  assumes "\<And>t w w'. t \<in> T \<Longrightarrow> P w \<Longrightarrow> step t w = Inr w' \<Longrightarrow> P w'"
  shows "run_threads step sched w = Inr w' \<Longrightarrow> set sched \<subseteq> T \<Longrightarrow> P w \<Longrightarrow> P w'"
proof (induction sched arbitrary: w)
  case (Cons t ts)
  then obtain v where v: "step t w = Inr v" "run_threads step ts v = Inr w'" by (auto elim!: bindr_InrE)
  have "P v" by (rule assms [OF _ Cons.prems(3) v(1)]) (use Cons.prems(2) in simp)
  from Cons.IH [OF v(2) _ this] Cons.prems(2) show ?case by simp
qed simp

text \<open>The steps left of both workers.\<close>

definition same_left :: "nat \<Rightarrow> same_phase \<Rightarrow> nat" where
  "same_left t w =
     (let v = same_workers w t
      in case same_at v of
           Same_Evict \<Rightarrow> 2 * (ROUNDS - same_i v) + SLOTS + 2
         | Same_Allocate \<Rightarrow> 2 * (ROUNDS - Suc (same_i v)) + SLOTS + 3
         | Same_Drain \<Rightarrow> SLOTS - same_i v + 1
         | Same_Returned \<Rightarrow> 0)"

definition cross_left :: "nat \<Rightarrow> cross_phase \<Rightarrow> nat" where
  "cross_left t w =
     (let v = cross_workers w t; k = ROUNDS - Suc (cross_i v)
      in case cross_at v of
           Cross_Take \<Rightarrow> 5 * (ROUNDS - cross_i v) + 1
         | Cross_Free_Taken \<Rightarrow> 5 * k + 5
         | Cross_Allocate \<Rightarrow> 5 * k + 4
         | Cross_Publish \<Rightarrow> 5 * k + 3
         | Cross_Free_Evicted \<Rightarrow> 5 * k + 2
         | Cross_Returned \<Rightarrow> 0)"

interpretation control: phase "same_thread_worker os" same_left for os
proof
  fix t u w w' assume run: "same_thread_worker os t w = Inr w'"
  show "same_left t w' \<le> same_left t w - 1"
    using run by (auto simp: same_thread_worker_def same_left_def Let_def elim!: bindr_InrE
        split: same_pc.splits if_splits)
  show "same_left u w' = same_left u w" if "u \<noteq> t"
    using run that by (auto simp: same_thread_worker_def same_left_def Let_def elim!: bindr_InrE
        split: same_pc.splits if_splits)
qed

interpretation crossing: phase "cross_thread_worker os" cross_left for os
proof
  fix t u w w' assume run: "cross_thread_worker os t w = Inr w'"
  show "cross_left t w' \<le> cross_left t w - 1"
    using run by (auto simp: cross_thread_worker_def cross_left_def Let_def elim!: bindr_InrE
        split: cross_pc.splits if_splits)
  show "cross_left u w' = cross_left u w" if "u \<noteq> t"
    using run that by (auto simp: cross_thread_worker_def cross_left_def Let_def elim!: bindr_InrE
        split: cross_pc.splits if_splits)
qed

end
