(* ===== verification/XThreadRace.thy ===== *)
theory XThreadRace
  imports XThread HeapCalls CmallocTheorems
begin

text \<open>
  What a free by another thread leads to, call by call: the span is offered for reuse while it is
  still in the bin of its owner, the owner allocates from it, and the next thread that needs a span
  is given it with all its blocks free again.
\<close>

section \<open>The first block of a program\<close>

text \<open>After a span has been made there is a data chunk.\<close>

lemma alloc_span_arena:
  assumes "alloc_span os s sz = Inr (x, s')" "x \<noteq> NULL"
    and "drop_bit (cmalloc_page_shift (rt s)) (round_up_page (rt s) sz) < MAX_BINNED_PAGES"
  shows "data_arena s' \<noteq> NULL"
proof -
  have exact: "data_arena v' = data_arena v" if "alloc_span_exact v n = Inr (y, v')" for v v' n y
    using that by (auto simp: alloc_span_exact_def Let_def set_bin_def mark_empty_def split: if_splits)
  have split: "data_arena v' = data_arena v" if "alloc_span_split os v n b = Inr (y, v')" for v v' n b y
    using that
    by (auto simp: alloc_span_split_def alloc_meta_def map_span_pages_def upd_span_def set_bin_def
        mark_empty_def mark_non_empty_def Let_def elim!: bindr_InrE split: if_splits)
  have chunk: "data_arena v' \<noteq> NULL" if "alloc_span_chunk os v n = Inr (y, v')" "y \<noteq> NULL" for v v' n y
    using that
    by (auto simp: alloc_span_chunk_def alloc_meta_def map_span_pages_def mmap_pages_def upd_span_def
        set_bin_def mark_non_empty_def valid_ptr_def Let_def elim!: bindr_InrE split: if_splits prod.splits)
  let ?n = "drop_bit (cmalloc_page_shift (rt s)) (round_up_page (rt s) sz)"
  have np: "\<not> MAX_BINNED_PAGES \<le> ?n" using assms(3) by simp
  obtain v where v: "(let best = find_best_fitting_uninitialized_span (non_empty_bitmap v) ?n
      in if data_arena v \<noteq> NULL \<and> best \<noteq> NO_FITTING_PAGE_SEQUENCE
         then if ?n = best then alloc_span_exact v ?n else alloc_span_split os v ?n best
         else alloc_span_chunk os v ?n) = Inr (x, s')"
  proof (cases "page_map s = NULL")
    case True
    then obtain a b where "cmalloc_initialize_range_map os (meta s) = Inr (a, b)"
      using assms(1) by (auto simp: alloc_span_def elim!: bindr_InrE)
    then show thesis using assms(1) np True
      by (intro that [of "s\<lparr>page_map := a, meta := b\<rparr>"])
        (simp add: alloc_span_def Let_def split del: if_split cong: if_cong)
  next
    case False
    then show thesis using assms(1) np by (intro that [of s])
        (simp add: alloc_span_def Let_def split del: if_split cong: if_cong)
  qed
  show ?thesis
  proof (cases "data_arena v \<noteq> NULL \<and>
      find_best_fitting_uninitialized_span (non_empty_bitmap v) ?n \<noteq> NO_FITTING_PAGE_SEQUENCE")
    case True
    then show ?thesis using v exact split by (auto simp: Let_def split: if_splits)
  next
    case False
    have "alloc_span_chunk os v ?n = Inr (x, s')" using v unfolding Let_def if_not_P [OF False] .
    then show ?thesis using chunk assms(2) by blast
  qed
qed

lemma new_class_span_arena:
  assumes "runtime_ok (rt (sp s))" "get_size_class_index (rt (sp s)) sz = int i" "i < SIZE_CLASS_COUNT"
    and "thread_local_bin s tid i = NULL" "cmalloc os tid sz s = Inr (p, s')"
  shows "data_arena (sp s') \<noteq> NULL"
proof -
  obtain x s1 s2 where r: "locked_initialize_span os tid (int i) sz s = Inr (x, s1)"
    "bin_push tid (int i) x s1 = Inr s2" "take_block x s2 = Inr (p, s')"
    using assms(2-5) class_index_nat [OF assms(3)] by (auto simp: cmalloc_def Let_def elim!: bindr_InrE)
  obtain t where t: "cmalloc_initialize_span os (sp s) (int i) sz = Inr (x, t)" "s1 = s\<lparr>lock := None, sp := t\<rparr>"
    by (rule locked_initialize_run [OF r(1)])
  obtain u d where u: "alloc_span os (sp s) (if int i = LARGE_CLASS_SIZE_INDEX then sz
      else SIZE_CLASS_SPAN_SIZE ! nat (int i)) = Inr (x, u)" "x \<noteq> NULL" "t = upd_span u x (\<lambda>_. d)"
    by (rule initialize_span_run [OF t(1)])
  have "data_arena u \<noteq> NULL"
    by (rule alloc_span_arena [OF _ u(2) class_span_pages(3) [OF assms(1,3)]])
       (use u(1) class_index_nat [OF assms(3)] in simp)
  then have "data_arena (sp s1) \<noteq> NULL" by (simp add: t(2) u(3) upd_span_def)
  moreover have "data_arena (sp s2) = data_arena (sp s1)"
    by (rule bin_step_frame(6) [OF bin_push_step [OF r(2)]])
  moreover have "data_arena (sp s') = data_arena (sp s2)"
    using r(3) by (auto simp: take_block_def set_span_def upd_span_def elim!: bindr_InrE split: if_splits)
  ultimately show ?thesis by simp
qed

lemma sole_bin:
  assumes I: "heap_inv os E K {x} own s" and t: "own x = t" and i: "i < SIZE_CLASS_COUNT"
  shows "size_class_index (span_at s x) = int i \<Longrightarrow> free_set (span_at s x) \<noteq> {} \<Longrightarrow> local_bin s t i [x]"
    "thread_local_bin s t i \<noteq> NULL \<Longrightarrow>
      local_bin s t i [x] \<and> size_class_index (span_at s x) = int i \<and> free_set (span_at s x) \<noteq> {}"
    "u \<noteq> t \<Longrightarrow> thread_local_bin s u i = NULL"
proof -
  have one: "xs = [] \<or> xs = [x]" if "distinct xs" "set xs \<subseteq> {x}" for xs
    using that by (cases xs; cases "tl xs") auto
  have bin: "\<exists>xs. (xs = [] \<or> xs = [x]) \<and> local_bin s u i xs \<and> set xs = {y \<in> {x}. own y = u \<and>
      size_class_index (span_at s y) = int i \<and> free_set (span_at s y) \<noteq> {}}" for u
  proof (rule bins_ownedD [OF heap_invD(3) [OF I] i, of u])
    fix xs
    assume xs: "local_bin s u i xs" "set xs = {y \<in> {x}. own y = u \<and>
      size_class_index (span_at s y) = int i \<and> free_set (span_at s y) \<noteq> {}}"
    then have "xs = [] \<or> xs = [x]" by (intro one) (auto simp: local_bin_def dlist_def)
    with xs show ?thesis by blast
  qed
  have nil: "thread_local_bin s u i = NULL" if "local_bin s u i []" for u
    using that by (simp add: local_bin_def dlist_def)
  obtain xs where xs: "xs = [] \<or> xs = [x]" "local_bin s t i xs" "set xs = {y \<in> {x}. own y = t \<and>
      size_class_index (span_at s y) = int i \<and> free_set (span_at s y) \<noteq> {}}" using bin [of t] by blast
  show "local_bin s t i [x]" if "size_class_index (span_at s x) = int i" "free_set (span_at s x) \<noteq> {}"
  proof -
    have "x \<in> set xs" unfolding xs(3) using that t by simp
    then show ?thesis using xs(1,2) by auto
  qed
  show "local_bin s t i [x] \<and> size_class_index (span_at s x) = int i \<and> free_set (span_at s x) \<noteq> {}"
    if ne: "thread_local_bin s t i \<noteq> NULL"
  proof -
    have e: "xs = [x]" using xs(1,2) nil ne by auto
    then have "x \<in> set xs" by simp
    then show ?thesis using e xs(2) unfolding xs(3) by simp
  qed
  show "thread_local_bin s u i = NULL" if "u \<noteq> t"
  proof -
    obtain zs where zs: "zs = [] \<or> zs = [x]" "local_bin s u i zs" "set zs = {y \<in> {x}. own y = u \<and>
        size_class_index (span_at s y) = int i \<and> free_set (span_at s y) \<noteq> {}}" using bin [of u] by blast
    have "x \<notin> set zs" unfolding zs(3) using that t by simp
    then show ?thesis using zs(1,2) nil by auto
  qed
qed

text \<open>The state after it: one span, in the bin of the thread, with all blocks but the first free.\<close>

lemma first_malloc:
  assumes os: "os_ok os" and sz: "sz \<le> MAX_SIZE_CLASS"
    and run: "cmalloc os t sz (cmalloc_constructor os (cm_zero bytes0)) = Inr (p, s)"
  obtains x i E K own where "i = first_fit sz" "i < SIZE_CLASS_COUNT" "heap_inv os E K {x} own s"
    "class_area (rt (sp s)) (span_at s x) i" "span_ok (span_at s x)" "p = block_addr (span_at s x) 0"
    "free_set (span_at s x) = {..<unat (block_count (span_at s x))} - {0}" "local_bin s t i [x]"
    "\<forall>u. u \<noteq> t \<longrightarrow> thread_local_bin s u i = NULL" "data_arena (sp s) \<noteq> NULL"
proof -
  let ?s0 = "cmalloc_constructor os (cm_zero bytes0)" and ?i = "first_fit sz"
  note I0 = heap_start_inv [OF os, of bytes0]
  note R = layer_inv_rt(1) [OF heap_invD(2) [OF I0]]
  have cls: "get_size_class_index (rt (sp ?s0)) sz = int ?i" "?i < SIZE_CLASS_COUNT"
    using sz get_size_class_index_value [OF R] by (auto intro: first_fit_exists)
  obtain xs0 where xs0: "local_bin ?s0 t ?i xs0" "set xs0 = {}"
    by (rule bins_ownedD [OF heap_invD(3) [OF I0] cls(2), of t]) simp
  then have emp: "thread_local_bin ?s0 t ?i = NULL" by (simp add: local_bin_def dlist_def)
  note arena = new_class_span_arena [OF R cls emp run]
  obtain E K x s2 where e: "heap_inv os E K {x} ((\<lambda>_. 0)(x := t)) s2" "{} \<subseteq> E" "x \<notin> {}"
    "owned {x} ((\<lambda>_. 0)(x := t)) s2 = owned {} (\<lambda>_. 0) ?s0" "cmalloc os t sz s2 = Inr (p, s)"
    "thread_local_bin s2 t ?i \<noteq> NULL" "rt (sp s2) = rt (sp ?s0)" "mem s2 = mem ?s0"
    "\<forall>y \<in> {}. block_size (span_at s2 y) = block_size (span_at ?s0 y)"
    by (rule class_span_enters [OF I0 cls emp run])
  note H2 = heap_invD [OF e(1)]
  have u2: "used_span (rt (sp s2)) (span_at s2 x)" by (rule H2(4)) simp
  then have ok2: "span_ok (span_at s2 x)" by (simp add: used_span_def)
  have b2: "local_bin s2 t ?i [x]" "size_class_index (span_at s2 x) = int ?i" "free_set (span_at s2 x) \<noteq> {}"
    using sole_bin(2) [OF e(1) _ cls(2) e(6)] by simp_all
  have u2: "used_span (rt (sp s2)) (span_at s2 x)" by (rule heap_invD(4) [OF e(1)]) simp
  then have ok2: "span_ok (span_at s2 x)" by (simp add: used_span_def)
  let ?d = "span_at s2 x" and ?n = "unat (block_count (span_at s2 x))"
  have ca2: "class_area (rt (sp s2)) ?d ?i"
    using u2 b2(2) class_index_nat [OF cls(2)] by (auto simp: used_span_def large_area_def class_area_def)
  have n: "32 \<le> ?n" using ca2 class_row [OF cls(2)] by (simp add: class_area_def class_row_ok_def)
  have "live_blocks ?d = {}" using e(4) by (auto simp: owned_def tagged_def)
  moreover have "free_set ?d \<subseteq> {..<?n}" using ok2 by (simp add: span_ok_def blocks_ok_def)
  ultimately have f2: "free_set ?d = {..<?n}" by (auto simp: live_blocks_def)
  have m: "Min (free_set ?d) = 0" unfolding f2 using n by (intro Min_eqI) auto
  have c2: "get_size_class_index (rt (sp s2)) sz = int ?i" using cls(1) e(7) by simp
  show thesis
  proof (rule cmalloc_bin_path [OF c2 cls(2) b2(1) ok2 b2(3), of os])
    fix s' assume s': "cmalloc os t sz s2 = Inr (block_addr ?d (Min (free_set ?d)), s')"
      "local_bin s' t ?i (if card (free_set ?d) = 1 then [] else [x])" "span_ok (span_at s' x)"
      "free_set (span_at s' x) = free_set ?d - {Min (free_set ?d)}"
      "\<exists>d. same_descr ?d d \<and> unlinked (span_at s' x) = unlinked d" "rt (sp s') = rt (sp s2)"
    have eq: "s' = s" "p = block_addr ?d 0" using s'(1) e(5) by (simp_all add: m)
    obtain d where d: "same_descr ?d d" "unlinked (span_at s x) = unlinked d" using s'(5) eq(1) by blast
    note us = unlinked_same [OF d(2)] and ub = unlinked_blocks [OF d(2)] and f = same_descr_fields [OF d(1)]
    obtain q v where v: "cmalloc os t sz s2 = Inr (q, v)" "heap_inv os E K {x} ((\<lambda>_. 0)(x := t)) v"
      by (rule cmalloc_bin_law [OF e(1) c2 cls(2) e(6)])
    have "v = s" using v(1) e(5) by simp
    with v(2) have I: "heap_inv os E K {x} ((\<lambda>_. 0)(x := t)) s" by simp
    have cnt: "block_count (span_at s x) = block_count ?d" using us f by simp
    have fs: "free_set (span_at s x) = {..<unat (block_count (span_at s x))} - {0}"
      unfolding cnt using s'(4) eq(1) m f2 by simp
    have "1 \<in> free_set (span_at s x)" unfolding fs cnt using n by simp
    then have ne: "free_set (span_at s x) \<noteq> {}" by blast
    have ci: "size_class_index (span_at s x) = int ?i" using us f b2(2) by simp
    have u: "used_span (rt (sp s)) (span_at s x)" by (rule heap_invD(4) [OF I]) simp
    have ca: "class_area (rt (sp s)) (span_at s x) ?i"
      using u ci class_index_nat [OF cls(2)] by (auto simp: used_span_def large_area_def class_area_def)
    have p: "p = block_addr (span_at s x) 0" unfolding eq(2) using ub same_descr_addr [OF d(1)] by simp
    have ok: "span_ok (span_at s x)" using u by (simp add: used_span_def)
    have lb: "local_bin s t ?i [x]" by (rule sole_bin(1) [OF I _ cls(2) ci ne]) simp
    have "\<forall>u. u \<noteq> t \<longrightarrow> thread_local_bin s u ?i = NULL"
      using sole_bin(3) [OF I _ cls(2)] by simp
    then show thesis by (rule that [OF refl cls(2) I ca ok p fs lb _ arena])
  qed
qed

section \<open>The owner allocates from the cached span\<close>

lemma stale_bin_serves:
  assumes "get_size_class_index (rt (sp s)) sz = int i" "i < SIZE_CLASS_COUNT"
    and "thread_local_bin s t i = x" "valid_ptr x" "free_count (span_at s x) \<noteq> 1"
    and "span_ok (span_at s x)" "free_set (span_at s x) \<noteq> {}"
  obtains d where "cmalloc os t sz s =
      Inr (block_addr (span_at s x) (Min (free_set (span_at s x))), set_span s x (\<lambda>_. d))"
    "same_descr (span_at s x) d"
proof -
  obtain d where d: "take_block x s =
      Inr (block_addr (span_at s x) (Min (free_set (span_at s x))), set_span s x (\<lambda>_. d))"
    "same_descr (span_at s x) d"
    using take_block_law [OF assms(4,6,7)] by metis
  have "x \<noteq> NULL" using assms(4) by auto
  then have "cmalloc os t sz s = take_block x s"
    using assms(1-3,5) class_index_nat [OF assms(2)] by (simp add: cmalloc_def Let_def)
  with d show thesis by (intro that) simp_all
qed

section \<open>Another thread is given the span\<close>

text \<open>\<open>x\<close> is the span that the next request of its size is given.\<close>

definition pooled :: "cm_state \<Rightarrow> ptr \<Rightarrow> bool" where
  "pooled s x \<longleftrightarrow> page_map (sp s) \<noteq> NULL \<and> data_arena (sp s) \<noteq> NULL \<and>
     uninitilized_span_bin (sp s) (unat (page_count (span_at s x))) = x \<and>
     unat (page_count (span_at s x)) \<in> bin_bits (non_empty_bitmap (sp s))"

lemma pool_enters:
  assumes R: "runtime_ok (rt (sp s))" and cls: "get_size_class_index (rt (sp s)) sz = int i" "i < SIZE_CLASS_COUNT"
    and emp: "thread_local_bin s t i = NULL" and lk: "lock s = None" and pool: "pooled s x"
    and x: "valid_ptr x" "class_area (rt (sp s)) (span_at s x) i"
      "unat (span_base (span_at s x)) + unat (SIZE_CLASS_SPAN_SIZE ! i) < 2 ^ 64"
  obtains s' where "cmalloc os t sz s = cmalloc os t sz s'" "local_bin s' t i [x]" "span_ok (span_at s' x)"
    "free_set (span_at s' x) = {..<unat (SIZE_CLASS_BLOCK_COUNT ! i)}" "rt (sp s') = rt (sp s)"
    "span_base (span_at s' x) = span_base (span_at s x)" "block_count (span_at s' x) = SIZE_CLASS_BLOCK_COUNT ! i"
    "\<forall>u. u \<noteq> t \<longrightarrow> thread_local_bin s' u = thread_local_bin s u"
proof -
  note po = pool [unfolded pooled_def, THEN conjunct1] pool [unfolded pooled_def, THEN conjunct2, THEN conjunct1]
    pool [unfolded pooled_def, THEN conjunct2, THEN conjunct2, THEN conjunct1]
    pool [unfolded pooled_def, THEN conjunct2, THEN conjunct2, THEN conjunct2]
  let ?d = "span_at s x" and ?n = "page_count (span_at s x)"
  let ?pages = "drop_bit (cmalloc_page_shift (rt (sp s))) (round_up_page (rt (sp s)) (SIZE_CLASS_SPAN_SIZE ! i))"
  note cp = class_span_pages [OF R cls(2)]
  have "unat ?pages * 2 ^ cmalloc_page_shift (rt (sp s)) = unat ?n * 2 ^ cmalloc_page_shift (rt (sp s))"
    using cp(1) x(2) by (simp only: class_area_def)
  then have "unat ?pages = unat ?n" by (simp only: mult_cancel2) simp
  then have n: "?pages = ?n" by (simp add: word_unat_eq_iff)
  have small: "?n < MAX_BINNED_PAGES" using cp(3) n by simp
  have best: "find_best_fitting_uninitialized_span (non_empty_bitmap (sp s)) ?n = ?n"
    unfolding find_best_fit_value [OF small]
    by (subst best_fit_spec_eqI [OF po(4)]) (use small in \<open>simp_all add: word_less_nat_alt\<close>)
  obtain v where v: "alloc_span_exact (sp s) ?n = Inr (x, v)"
    using po(3) x(1) by (auto simp: alloc_span_exact_def Let_def)
  then have sh: "span_heap v = span_heap (sp s)" "rt v = rt (sp s)"
    by (auto simp: alloc_span_exact_def Let_def set_bin_def mark_empty_def split: if_splits)
  have "?n \<noteq> NO_FITTING_PAGE_SEQUENCE" using small by (auto simp: NO_FITTING_PAGE_SEQUENCE_def MAX_BINNED_PAGES_def)
  moreover have "\<not> MAX_BINNED_PAGES \<le> ?n" using small by simp
  ultimately have al: "alloc_span os (sp s) (SIZE_CLASS_SPAN_SIZE ! i) = Inr (x, v)"
    unfolding alloc_span_eq [OF po(1)] n using best po(2) v by simp
  obtain e where e: "init_blocks (describe_span (int i) sz ?d) = Inr e" "span_ok e"
    "free_set e = {..<unat (SIZE_CLASS_BLOCK_COUNT ! i)}" "span_base e = span_base ?d"
    "block_count e = SIZE_CLASS_BLOCK_COUNT ! i"
    using fresh_class_span [OF cls(2) x(3), of sz] unfolding fresh_span_def by metis
  have xn: "x \<noteq> NULL" using x(1) by auto
  let ?s1 = "s\<lparr>lock := None, sp := upd_span v x (\<lambda>_. e)\<rparr>"
  have "cmalloc_initialize_span os (sp s) (int i) sz = Inr (x, upd_span v x (\<lambda>_. e))"
    using al xn e(1) sh(1) cls(2) class_index_nat [OF cls(2)] by (simp add: cmalloc_initialize_span_def)
  then have l: "locked_initialize_span os t (int i) sz s = Inr (x, ?s1)"
    using lk by (simp add: locked_initialize_span_def pthread_mutex_lock_def pthread_mutex_unlock_def)
  let ?s2 = "set_local_bin (set_heap ?s1 (push_links (span_heap (sp ?s1)) NULL x)) t i x"
  have p: "bin_push t (int i) x ?s1 = Inr ?s2"
    using bin_push_eq [OF class_of_nat(1) [OF cls(2)] x(1), of t ?s1] emp by simp
  have u: "unlinked (span_at ?s2 x) = unlinked e" by (simp add: unlinked_push_links upd_span_def)
  note ub = unlinked_blocks [OF u] and us = unlinked_same [OF u]
  have bin: "local_bin ?s2 t i [x]"
  proof -
    have "local_bin ?s1 t i []" by (simp add: local_bin_def dlist_def emp)
    then show ?thesis
      using thread_bin.push_law [of "int i" ?s1 t "[]" x] class_of_nat(1) [OF cls(2)] x(1) p by auto
  qed
  then have hd: "thread_local_bin ?s2 t i = x" by simp
  have n32: "32 \<le> unat (SIZE_CLASS_BLOCK_COUNT ! i)" using class_row [OF cls(2)] by (simp add: class_row_ok_def)
  have ok: "span_ok (span_at ?s2 x)" "free_set (span_at ?s2 x) = {..<unat (SIZE_CLASS_BLOCK_COUNT ! i)}"
    using ub e(2,3) by simp_all
  then have "unat (free_count (span_at ?s2 x)) = unat (SIZE_CLASS_BLOCK_COUNT ! i)"
    by (simp add: span_ok_def blocks_ok_def)
  then have fc: "free_count (span_at ?s2 x) \<noteq> 1" using n32 by auto
  have "cmalloc os t sz s = take_block x ?s2"
    using cls class_index_nat [OF cls(2)] emp l p by (simp add: cmalloc_def Let_def)
  also have "\<dots> = cmalloc os t sz ?s2"
    using cls class_index_nat [OF cls(2)] hd fc xn sh(2) by (simp add: cmalloc_def Let_def)
  finally have "cmalloc os t sz s = cmalloc os t sz ?s2" .
  then show thesis
    by (rule that [OF _ bin ok]) (use us e(4,5) sh(2) in \<open>simp_all add: fun_eq_iff\<close>)
qed

section \<open>A free by another thread\<close>

lemma uninitialized_fields:
  "free_set (d\<lparr>is_initialized := b, next_in_uninitialized_bin := q\<rparr>) = free_set d"
  "span_ok (d\<lparr>is_initialized := b, next_in_uninitialized_bin := q\<rparr>) = span_ok d"
  "block_addr (d\<lparr>is_initialized := b, next_in_uninitialized_bin := q\<rparr>) = block_addr d"
  "class_area r (d\<lparr>is_initialized := b, next_in_uninitialized_bin := q\<rparr>) i = class_area r d i"
  by (simp_all add: free_set_def span_ok_def blocks_ok_def span_geometry_def block_addr_def class_area_def
      fun_eq_iff)

lemma class_area_cong:
  assumes "size_class_index e = size_class_index d" "block_size e = block_size d"
    "block_count e = block_count d" "page_count e = page_count d"
  shows "class_area r e i = class_area r d i"
  using assms by (simp add: class_area_def)

lemma class_span_end:
  assumes I: "heap_inv os E K U own s" and x: "x \<in> U" "class_area (rt (sp s)) (span_at s x) i"
  shows "unat (span_base (span_at s x)) + unat (SIZE_CLASS_SPAN_SIZE ! i) < 2 ^ 64"
    "page_count (span_at s x) < MAX_BINNED_PAGES"
proof -
  note R = layer_inv_rt(1) [OF heap_invD(2) [OF I]]
  note pl = used_placed [OF I x(1)]
  have e: "unat (page_count (span_at s x)) * 2 ^ cmalloc_page_shift (rt (sp s)) = unat (SIZE_CLASS_SPAN_SIZE ! i)"
    "i < SIZE_CLASS_COUNT"
    using x(2) by (simp_all add: class_area_def)
  from placed_bounds(1) [OF pl(3,1) R]
  show "unat (span_base (span_at s x)) + unat (SIZE_CLASS_SPAN_SIZE ! i) < 2 ^ 64" using e by simp
  have "unat (page_count (span_at s x)) \<le> 256" by (rule class_pages_bound [OF R e(2,1)])
  then show "page_count (span_at s x) < MAX_BINNED_PAGES" by (simp add: word_less_nat_alt MAX_BINNED_PAGES_def)
qed

text \<open>Thread \<open>t\<close> has allocated its first block, thread \<open>u\<close> frees it.\<close>

lemma cross_freed:
  assumes os: "os_ok os" and sz: "sz \<le> MAX_SIZE_CLASS" and tu: "u \<noteq> t"
    and run: "cmalloc os t sz (cmalloc_constructor os (cm_zero bytes0)) = Inr (p, s1)"
  obtains x i s2 where "i = first_fit sz" "i < SIZE_CLASS_COUNT" "cfree os u p s1 = Inr s2" "p \<noteq> NULL"
    "valid_ptr x" "runtime_ok (rt (sp s2))" "get_size_class_index (rt (sp s2)) sz = int i" "lock s2 = None"
    "thread_local_bin s2 t i = x" "thread_local_bin s2 u i = NULL" "pooled s2 x"
    "span_ok (span_at s2 x)" "free_set (span_at s2 x) = {..<unat (block_count (span_at s2 x))}"
    "class_area (rt (sp s2)) (span_at s2 x) i" "span_base (span_at s2 x) = p"
    "unat p + unat (SIZE_CLASS_SPAN_SIZE ! i) < 2 ^ 64"
proof -
  obtain x i E K own where F: "i = first_fit sz" "i < SIZE_CLASS_COUNT" "heap_inv os E K {x} own s1"
    "class_area (rt (sp s1)) (span_at s1 x) i" "span_ok (span_at s1 x)" "p = block_addr (span_at s1 x) 0"
    "free_set (span_at s1 x) = {..<unat (block_count (span_at s1 x))} - {0}" "local_bin s1 t i [x]"
    "\<forall>u. u \<noteq> t \<longrightarrow> thread_local_bin s1 u i = NULL" "data_arena (sp s1) \<noteq> NULL"
    by (rule first_malloc [OF os sz run])
  let ?d = "span_at s1 x" and ?n = "unat (block_count (span_at s1 x))"
  note R = layer_inv_rt(1) [OF heap_invD(2) [OF F(3)]]
  note pl = used_placed [OF F(3) singletonI] and ce = class_span_end [OF F(3) singletonI F(4)]
  have n: "32 \<le> ?n" using F(4) class_row [OF F(2)] by (simp add: class_area_def class_row_ok_def)
  have ci: "size_class_index ?d = int i" using F(4) by (simp add: class_area_def)
  have "(p, unat (block_size ?d)) \<in> live_blocks ?d" unfolding live_blocks_def using F(6,7) n by auto
  then have own: "(p, unat (block_size ?d), own x) \<in> owned {x} own s1" unfolding owned_iff by blast
  obtain y k where y: "y \<in> {x}" "p = block_addr (span_at s1 y) k" "k < unat (block_count (span_at s1 y))"
    "k \<notin> free_set (span_at s1 y)" "in_block (span_at s1 y) k p" "cmalloc_get_span (sp s1) p = Inr y" "p \<noteq> NULL"
    by (rule owned_block_span [OF F(3) own])
  have yx: "y = x" using y(1) by simp
  have k: "k = 0" using y(3,4) unfolding yx F(7) by auto
  note blk = y(4,5) [unfolded yx k]
  have ne: "free_set ?d \<noteq> {}"
  proof -
    have "1 \<in> free_set ?d" unfolding F(7) using n by simp
    then show ?thesis by blast
  qed
  have last: "Suc (card (free_set ?d)) = ?n" unfolding F(7) using n by (simp add: card_Diff_singleton)
  obtain s2 d where s2: "cfree os u p s1 = Inr s2" "thread_local_bin s2 u i = NULL"
    "\<forall>t j. t \<noteq> u \<longrightarrow> thread_local_bin s2 t j = thread_local_bin s1 t j" "lock s2 = None"
    "sp s2 = cached x ((sp s1)\<lparr>span_heap := remove_links ((span_heap (sp s1))(x := d)) x\<rparr>)"
    "same_descr ?d d" "span_ok d" "free_set d = insert 0 (free_set ?d)"
    by (rule lone_free_run [OF y(7) y(6) [unfolded yx] pl(4) ci F(2) sole_links [OF F(8)] F(5) blk(2,1) ne last ce(2)
          heap_invD(1) [OF F(3)], where os = os and tid = u])
  let ?T = "(sp s1)\<lparr>span_heap := remove_links ((span_heap (sp s1))(x := d)) x\<rparr>"
  note f = same_descr_fields [OF s2(6)]
  have ut: "unlinked (span_heap ?T x) = unlinked d" by (simp add: unlinked_remove_links)
  note us = unlinked_same [OF ut] and ub = unlinked_blocks [OF ut]
  have all: "free_set d = {..<?n}" unfolding s2(8) F(7) using n by auto
  have pg: "page_count (span_heap ?T x) = page_count ?d" using us(2) f by (simp only:)
  obtain b q where dx: "span_at s2 x = (span_heap ?T x)\<lparr>is_initialized := b, next_in_uninitialized_bin := q\<rparr>"
    unfolding s2(5) cached_reads(3) by simp
  have D: "free_set (span_at s2 x) = {..<?n}" "span_ok (span_at s2 x)" "block_addr (span_at s2 x) = block_addr ?d"
    "span_base (span_at s2 x) = span_base ?d" "page_count (span_at s2 x) = page_count ?d"
    "free_count (span_at s2 x) = free_count d" "class_area r (span_at s2 x) i = class_area r ?d i" for r
    using ub us f s2(7) all same_descr_addr [OF s2(6)]
    unfolding dx uninitialized_fields by (simp_all add: class_area_def)
  have "unat (free_count d) = ?n" using s2(7) by (simp add: span_ok_def blocks_ok_def all)
  then have fc: "free_count (span_at s2 x) \<noteq> 1" using n D(6) by auto
  have rt2: "rt (sp s2) = rt (sp s1)" unfolding s2(5) by (simp add: cached_reads)
  have cls: "get_size_class_index (rt (sp s2)) sz = int i"
    unfolding rt2 F(1) get_size_class_index_value [OF R] using sz by (simp add: leD)
  have hd: "thread_local_bin s2 t i = x"
    using s2(3) tu F(8) dlist_head [of "span_heap (sp s1)" _ "[x]"] by (auto simp: local_bin_def)
  have pm: "page_map (sp s1) \<noteq> NULL" using page_inv_valid [OF pl(3)] by auto
  have po: "pooled s2 x"
    using ce(2) F(10) pm unfolding pooled_def D(5) by (simp add: s2(5) cached_reads pg [simplified])
  have base: "span_base (span_at s2 x) = p" unfolding D(4) F(6) by (simp add: block_addr_def)
  have cnt: "block_count (span_at s2 x) = block_count ?d"
    using D(7) [of "rt (sp s1)"] F(4) by (simp add: class_area_def)
  show thesis
  proof (rule that [of i s2 x, OF F(1,2) s2(1) y(7) pl(4) _ cls s2(4) hd s2(2) po D(2) _ _ base])
    show "free_set (span_at s2 x) = {..<unat (block_count (span_at s2 x))}" unfolding D(1) cnt ..
    show "class_area (rt (sp s2)) (span_at s2 x) i" unfolding D(7) rt2 by (rule F(4))
    show "unat p + unat (SIZE_CLASS_SPAN_SIZE ! i) < 2 ^ 64" using ce(1) base D(4) by simp
  qed (use R rt2 in simp)
qed

text \<open>Thread \<open>t\<close> allocates from its bin, and thread \<open>u\<close> is given the same span.\<close>

lemma four_calls:
  assumes os: "os_ok os" and sz: "sz \<le> MAX_SIZE_CLASS" and tu: "u \<noteq> t"
    and run: "cmalloc os t sz (cmalloc_constructor os (cm_zero bytes0)) = Inr (p, s1)"
  obtains s2 s3 s4 where "cfree os u p s1 = Inr s2" "cmalloc os t sz s2 = Inr (p, s3)"
    "cmalloc os u sz s3 = Inr (p, s4)" "p \<noteq> NULL"
proof -
  obtain x i s2 where F: "i = first_fit sz" "i < SIZE_CLASS_COUNT" "cfree os u p s1 = Inr s2" "p \<noteq> NULL"
    "valid_ptr x" "runtime_ok (rt (sp s2))" "get_size_class_index (rt (sp s2)) sz = int i" "lock s2 = None"
    "thread_local_bin s2 t i = x" "thread_local_bin s2 u i = NULL" "pooled s2 x"
    "span_ok (span_at s2 x)" "free_set (span_at s2 x) = {..<unat (block_count (span_at s2 x))}"
    "class_area (rt (sp s2)) (span_at s2 x) i" "span_base (span_at s2 x) = p"
    "unat p + unat (SIZE_CLASS_SPAN_SIZE ! i) < 2 ^ 64"
    by (rule cross_freed [OF os sz tu run])
  have n: "32 \<le> unat (block_count (span_at s2 x))"
    using F(14) class_row [OF F(2)] by (simp add: class_area_def class_row_ok_def)
  have m: "Min (free_set (span_at s2 x)) = 0" and ne: "free_set (span_at s2 x) \<noteq> {}"
    unfolding F(13) using n by (auto intro!: Min_eqI simp: lessThan_empty_iff)
  have "unat (free_count (span_at s2 x)) = unat (block_count (span_at s2 x))"
    using F(12,13) by (simp add: span_ok_def blocks_ok_def)
  then have fc: "free_count (span_at s2 x) \<noteq> 1" using n by auto
  obtain d3 where s3: "cmalloc os t sz s2 = Inr (block_addr (span_at s2 x) (Min (free_set (span_at s2 x))),
      set_span s2 x (\<lambda>_. d3))" "same_descr (span_at s2 x) d3"
    by (rule stale_bin_serves [OF F(7,2,9,5) fc F(12) ne])
  let ?s3 = "set_span s2 x (\<lambda>_. d3)"
  note f3 = same_descr_fields [OF s3(2)]
  have m2: "cmalloc os t sz s2 = Inr (p, ?s3)" using s3(1) F(15) unfolding m by (simp add: block_addr_def)
  have po: "pooled ?s3 x"
    using F(11) f3 by (simp add: pooled_def set_span_def upd_span_def)
  have R: "runtime_ok (rt (sp ?s3))" "get_size_class_index (rt (sp ?s3)) sz = int i"
    "thread_local_bin ?s3 u i = NULL" "lock ?s3 = None" "class_area (rt (sp ?s3)) (span_at ?s3 x) i"
    "unat (span_base (span_at ?s3 x)) + unat (SIZE_CLASS_SPAN_SIZE ! i) < 2 ^ 64" "span_base (span_at ?s3 x) = p"
    using F f3 by (simp_all add: set_span_def upd_span_def class_area_def)
  obtain v where v: "cmalloc os u sz ?s3 = cmalloc os u sz v" "local_bin v u i [x]" "span_ok (span_at v x)"
    "free_set (span_at v x) = {..<unat (SIZE_CLASS_BLOCK_COUNT ! i)}" "rt (sp v) = rt (sp ?s3)"
    "span_base (span_at v x) = span_base (span_at ?s3 x)"
    by (rule pool_enters [OF R(1,2) F(2) R(3,4) po F(5) R(5,6)])
  have mv: "Min (free_set (span_at v x)) = 0" and nv: "free_set (span_at v x) \<noteq> {}"
    unfolding v(4) using class_row [OF F(2)]
    by (auto intro!: Min_eqI simp: lessThan_empty_iff class_row_ok_def)
  have "get_size_class_index (rt (sp v)) sz = int i" using R(2) v(5) by simp
  from cmalloc_bin_path [OF this F(2) v(2,3) nv, of os]
  obtain s4 where "cmalloc os u sz v = Inr (block_addr (span_at v x) 0, s4)" unfolding mv by metis
  then have "cmalloc os u sz ?s3 = Inr (p, s4)" using v(1,6) R(7) by (simp add: block_addr_def)
  then show thesis by (rule that [OF F(3) m2 _ F(4)])
qed

section \<open>The experiment\<close>

text \<open>
  The schedule: thread 0 publishes its first block in slot 0 and starts its next round, thread 1
  takes that block and frees it, thread 0 allocates, thread 1 allocates.
\<close>

definition race_schedule :: "nat list" where
  "race_schedule = [0, 0, 0, 0, 0, 1, 1, 0, 0, 0, 1]"

lemma race_run:
  assumes "cmalloc os 0 BLOCK_SZ s0 = Inr (p, s1)" "cfree os 1 p s1 = Inr s2"
    and "cmalloc os 0 BLOCK_SZ s2 = Inr (p, s3)" "cmalloc os 1 BLOCK_SZ s3 = Inr (p, s4)" "p \<noteq> NULL"
  obtains w where "run_phase_cross os 0 s0 race_schedule w" "cross_heap w = s4" "cross_oom w = 0"
    "block (cross_workers w 0) = p" "block (cross_workers w 1) = p"
    "cross_at (cross_workers w 0) = Cross_Publish" "cross_at (cross_workers w 1) = Cross_Publish"
proof -
  have z: "0 mod SLOTS = 0" "Suc 0 mod SLOTS = 1" "0 < SLOTS" "1 < SLOTS" "0 < ROUNDS" "Suc 0 < ROUNDS"
    by (simp_all add: SLOTS_def ROUNDS_def)
  have "\<exists>w. run_threads (cross_thread_worker os) race_schedule (cross_phase_start s0) = Inr w \<and>
      cross_heap w = s4 \<and> cross_oom w = 0 \<and> block (cross_workers w 0) = p \<and> block (cross_workers w 1) = p \<and>
      cross_at (cross_workers w 0) = Cross_Publish \<and> cross_at (cross_workers w 1) = Cross_Publish"
    using assms z
    by (simp add: race_schedule_def cross_thread_worker_def cross_phase_start_def cross_start_def Let_def
        nth_list_update)
  moreover have "set race_schedule \<subseteq> phase_threads 0"
    by (simp add: race_schedule_def phase_threads_def THREADS_def)
  ultimately show thesis using that by (auto simp: run_phase_cross_def)
qed

text \<open>C7: the experiment breaks the allocator without any two calls overlapping. There is a schedule
  of two threads after which both hold the same block: no call faulted, none returned \<open>NULL\<close>, and
  every block was freed once, but by the other thread.\<close>

theorem cross_phase_same_block:
  assumes "os_ok os" "supplied os (mappings (meta (sp (cmalloc_constructor os (cm_zero bytes0)))))"
  shows "\<exists>w p. run_phase_cross os 0 (cmalloc_constructor os (cm_zero bytes0)) race_schedule w \<and>
    p \<noteq> NULL \<and> cross_oom w = 0 \<and>
    block (cross_workers w 0) = p \<and> cross_at (cross_workers w 0) = Cross_Publish \<and>
    block (cross_workers w 1) = p \<and> cross_at (cross_workers w 1) = Cross_Publish"
proof -
  have sz: "BLOCK_SZ \<le> MAX_SIZE_CLASS" by (simp add: BLOCK_SZ_def MAX_SIZE_CLASS_def)
  obtain p s1 where m: "cmalloc os 0 BLOCK_SZ (cmalloc_constructor os (cm_zero bytes0)) = Inr (p, s1)"
    by (rule class_malloc_returns [OF heap_start [OF assms(1)] sz assms(2)])
  obtain s2 s3 s4 where "cfree os 1 p s1 = Inr s2" "cmalloc os 0 BLOCK_SZ s2 = Inr (p, s3)"
    "cmalloc os 1 BLOCK_SZ s3 = Inr (p, s4)" "p \<noteq> NULL"
    by (rule four_calls [OF assms(1) sz _ m, of 1]) simp
  from race_run [OF m this] show ?thesis using \<open>p \<noteq> NULL\<close> by metis
qed

theorem cross_phase_same_block_witness:
  "\<exists>w p. run_phase_cross sample_os 0 sample_start race_schedule w \<and> p \<noteq> NULL \<and>
     block (cross_workers w 0) = p \<and> block (cross_workers w 1) = p"
  using cross_phase_same_block [OF sample_os_ok sample_start_supplied] by blast

end
