(* ===== verification/XThreadSerial.thy ===== *)
theory XThreadSerial
  imports XThreadRace
begin

text \<open>
  Threads that run one after the other, each to its end. Freeing across threads breaks the
  invariant of the heap, but not what is stated here of one size class: the spans of \<open>A\<close> are in
  use and stand in no bin beside another, the running thread's bin is empty or holds one of them,
  and the blocks taken from them are known. While few blocks are in use, every request of the class
  is served from the bin, from a cached span, or from new memory.
\<close>

section \<open>Memory for several requests\<close>

text \<open>\<open>grants os n\<close>: the system can serve \<open>n\<close> new spans, one after the other.\<close>

fun grants :: "platform \<Rightarrow> nat \<Rightarrow> mapping_list \<Rightarrow> bool" where
  "grants os 0 = (\<lambda>_. True)"
| "grants os (Suc n) = supplied_with os (grants os n)"

lemma sample_grants: "sample_top maps + n * 2 ^ 38 \<le> 2 ^ 45 \<Longrightarrow> grants sample_os n maps"
proof (induction n arbitrary: maps)
  case (Suc n)
  show ?case unfolding grants.simps
  proof (rule sample_supplied_with)
    show "sample_top maps + 2 ^ 38 \<le> sample_top maps + 2 ^ 38" by simp
    show "sample_top maps + 2 ^ 38 + 2 ^ 23 \<le> 2 ^ 46" using Suc.prems by simp
    show "grants sample_os n ms" if "sample_top ms \<le> sample_top maps + 2 ^ 38" for ms
      by (rule Suc.IH) (use that Suc.prems in simp)
  qed
qed simp

section \<open>The state between two calls\<close>

definition live_addrs :: "span_t \<Rightarrow> ptr set" where
  "live_addrs d = block_addr d ` {k. k < unat (block_count d) \<and> k \<notin> free_set d}"

definition lone_span :: "runtime \<Rightarrow> nat \<Rightarrow> span_t \<Rightarrow> bool" where
  "lone_span r i d \<longleftrightarrow> used_span r d \<and> class_area r d i \<and>
     prev_in_size_class_bin d = NULL \<and> next_in_size_class_bin d = NULL"

definition span_page_count :: "runtime \<Rightarrow> nat \<Rightarrow> u64" where
  "span_page_count r i = drop_bit (cmalloc_page_shift r) (round_up_page r (SIZE_CLASS_SPAN_SIZE ! i))"

definition serial_parts :: "platform \<Rightarrow> (mapping_list \<Rightarrow> bool) \<Rightarrow> nat \<Rightarrow> nat \<Rightarrow>
    block set \<Rightarrow> (nat \<Rightarrow> ptr list) \<Rightarrow> ptr set \<Rightarrow> ptr set \<Rightarrow> cm_state \<Rightarrow> bool" where
  "serial_parts os Q i t E K U A s \<longleftrightarrow>
     lock s = None \<and> layer_inv os E K U (sp s) \<and> A \<subseteq> U \<and>
     (\<forall>x \<in> A. lone_span (rt (sp s)) i (span_at s x)) \<and> (A \<noteq> {} \<longrightarrow> data_arena (sp s) \<noteq> NULL) \<and>
     (thread_local_bin s t i \<noteq> NULL \<longrightarrow> thread_local_bin s t i \<in> A) \<and>
     (\<forall>u > t. thread_local_bin s u i = NULL) \<and>
     (if thread_local_bin s t i = NULL \<and> (K (unat (span_page_count (rt (sp s)) i)) = [] \<or> data_arena (sp s) = NULL)
      then supplied_with os Q (mappings (meta (sp s))) else Q (mappings (meta (sp s))))"

definition serial :: "platform \<Rightarrow> (mapping_list \<Rightarrow> bool) \<Rightarrow> nat \<Rightarrow> nat \<Rightarrow> ptr set \<Rightarrow> cm_state \<Rightarrow> bool" where
  "serial os Q i t B s \<longleftrightarrow>
     (\<exists>E K U A. serial_parts os Q i t E K U A s \<and> B = (\<Union>x \<in> A. live_addrs (span_at s x)))"

lemma serial_partsD:
  assumes "serial_parts os Q i t E K U A s"
  shows "lock s = None" "layer_inv os E K U (sp s)" "A \<subseteq> U" "x \<in> A \<Longrightarrow> lone_span (rt (sp s)) i (span_at s x)"
    "A \<noteq> {} \<Longrightarrow> data_arena (sp s) \<noteq> NULL" "thread_local_bin s t i \<noteq> NULL \<Longrightarrow> thread_local_bin s t i \<in> A"
    "t < u \<Longrightarrow> thread_local_bin s u i = NULL" "Q (mappings (meta (sp s)))"
    "thread_local_bin s t i = NULL \<Longrightarrow>
      K (unat (span_page_count (rt (sp s)) i)) = [] \<or> data_arena (sp s) = NULL \<Longrightarrow>
      supplied_with os Q (mappings (meta (sp s)))"
  using assms supplied_with_now unfolding serial_parts_def by (auto split: if_splits)

lemma serial_span_inv:
  assumes "serial_parts os Q i t E K U A s" "x \<in> A"
  shows "span_inv os E K U (sp s)"
  using serial_partsD(2,3) [OF assms(1)] assms(2) by (auto simp: layer_inv_def)

text \<open>The next thread, with the blocks it may meet or without them.\<close>

lemma serial_next:
  assumes S: "serial os (supplied_with os Q) i t B s" and u: "t < u"
  shows "serial os Q i u B s" "thread_local_bin s u i = NULL"
proof -
  obtain E K U A where P: "serial_parts os (supplied_with os Q) i t E K U A s" "B = (\<Union>x \<in> A. live_addrs (span_at s x))"
    using S unfolding serial_def by blast
  note D = serial_partsD [OF P(1)]
  show "thread_local_bin s u i = NULL" by (rule D(7) [OF u])
  then have "serial_parts os Q i u E K U A s"
    using D(1-5,8) D(7) less_trans [OF u] supplied_with_now [OF D(8)]
    unfolding serial_parts_def by auto
  then show "serial os Q i u B s" using P(2) unfolding serial_def by blast
qed

lemma serial_forget:
  assumes S: "serial os Q i t B s" and n: "thread_local_bin s t i = NULL"
  shows "serial os Q i t {} s"
proof -
  obtain E K U A where P: "serial_parts os Q i t E K U A s"
    using S unfolding serial_def by blast
  then have "serial_parts os Q i t E K U {} s" using n unfolding serial_parts_def by simp
  then show ?thesis unfolding serial_def by blast
qed

section \<open>The blocks of the spans\<close>

lemma lone_spanD:
  assumes "lone_span r i d"
  shows "used_span r d" "class_area r d i" "prev_in_size_class_bin d = NULL" "next_in_size_class_bin d = NULL"
    "span_ok d" "i < SIZE_CLASS_COUNT" "size_class_index d = int i" "block_count d = SIZE_CLASS_BLOCK_COUNT ! i"
    "0 < unat (block_size d)" "free_set d \<subseteq> {..<unat (block_count d)}" "finite (free_set d)"
proof -
  show u: "used_span r d" and c: "class_area r d i" and "prev_in_size_class_bin d = NULL"
    "next_in_size_class_bin d = NULL" using assms by (simp_all add: lone_span_def)
  show ok: "span_ok d" using u by (simp add: used_span_def)
  show "i < SIZE_CLASS_COUNT" "size_class_index d = int i" "block_count d = SIZE_CLASS_BLOCK_COUNT ! i"
    using c by (simp_all add: class_area_def)
  show "0 < unat (block_size d)" "free_set d \<subseteq> {..<unat (block_count d)}"
    using ok by (simp_all add: span_ok_def span_geometry_def blocks_ok_def)
  then show "finite (free_set d)" using finite_subset by blast
qed

lemma live_card:
  assumes "span_ok d" "free_set d \<subseteq> {..<unat (block_count d)}"
  shows "card (live_addrs d) + card (free_set d) = unat (block_count d)" "finite (live_addrs d)"
proof -
  let ?L = "{k. k < unat (block_count d) \<and> k \<notin> free_set d}"
  have "inj_on (block_addr d) ?L" by (rule inj_onI) (use block_addr_inj [OF assms(1)] in simp)
  then have "card (live_addrs d) = card ?L" unfolding live_addrs_def by (rule card_image)
  moreover have "?L = {..<unat (block_count d)} - free_set d" by auto
  moreover have "card ({..<unat (block_count d)} - free_set d) = unat (block_count d) - card (free_set d)"
    using assms(2) by (simp add: card_Diff_subset finite_subset)
  moreover have "card (free_set d) \<le> unat (block_count d)" using card_mono [OF _ assms(2)] by simp
  ultimately show "card (live_addrs d) + card (free_set d) = unat (block_count d)" by simp
  show "finite (live_addrs d)" by (simp add: live_addrs_def)
qed

lemma span_addr_lookup:
  assumes I: "span_inv os E K U (sp s)" and x: "x \<in> U" "used_span (rt (sp s)) (span_at s x)"
    and k: "k < unat (block_count (span_at s x))"
  shows "cmalloc_get_span (sp s) (block_addr (span_at s x) k) = Inr x"
    "valid_ptr x" "block_addr (span_at s x) k \<noteq> NULL"
proof -
  let ?d = "span_at s x"
  note X = index_invD [OF span_invD(3) [OF I]]
  have xU: "x \<in> U \<union> cached_spans K" using x(1) by simp
  note pl = X(3) [OF xU]
  have n0: "0 < unat (block_size ?d)" using x(2) by (simp add: used_span_def span_ok_def span_geometry_def)
  have "unat (block_addr ?d k) \<in> block_range ?d k" using n0 by (simp add: block_range_def bytes_def)
  then have "unat (block_addr ?d k) \<in> span_bytes (rt (sp s)) ?d" using block_in_span [OF x(2) k] by blast
  then have "unat (round_down_page_index (rt (sp s)) (block_addr ?d k)) \<in> span_pages (rt (sp s)) ?d"
    unfolding span_pages_word using span_bytes_page pl by (simp add: placed_def)
  from X(5) [OF xU this] show "cmalloc_get_span (sp s) (block_addr ?d k) = Inr x"
    by (simp add: cmalloc_get_span_def page_inv_get [OF X(1)])
  show "valid_ptr x" using page_inv_block(1) [OF X(1) X(2) [OF xU]] by simp
  have ok: "span_ok ?d" using x(2) by (simp add: used_span_def)
  have "unat (block_addr ?d k) \<noteq> 0"
    using placed_bounds(3) [OF X(1) pl span_invD(1) [OF I]] block_address [OF ok k] by (auto simp: unat_eq_zero)
  then show "block_addr ?d k \<noteq> NULL" by auto
qed

lemma serial_live:
  assumes P: "serial_parts os Q i t E K U A s" and x: "x \<in> A"
  shows "k < unat (block_count (span_at s x)) \<Longrightarrow> y \<in> A \<Longrightarrow> block_addr (span_at s x) k \<in> live_addrs (span_at s y) \<Longrightarrow>
      y = x \<and> k \<notin> free_set (span_at s x)"
    "finite B \<Longrightarrow> live_addrs (span_at s x) \<subseteq> B \<Longrightarrow>
      unat (SIZE_CLASS_BLOCK_COUNT ! i) \<le> card B + card (free_set (span_at s x))"
proof -
  note I = serial_span_inv [OF P x] and D = serial_partsD [OF P]
  note L = lone_spanD [OF D(4)]
  show "y = x \<and> k \<notin> free_set (span_at s x)"
    if k: "k < unat (block_count (span_at s x))" and y: "y \<in> A" "block_addr (span_at s x) k \<in> live_addrs (span_at s y)"
  proof -
    obtain j where j: "block_addr (span_at s x) k = block_addr (span_at s y) j"
      "j < unat (block_count (span_at s y))" "j \<notin> free_set (span_at s y)"
      using y(2) unfolding live_addrs_def by auto
    have "y = x"
      using span_addr_lookup(1) [OF I subsetD [OF D(3) x] L(1) [OF x] k]
        span_addr_lookup(1) [OF I subsetD [OF D(3) y(1)] L(1) [OF y(1)] j(2)] j(1)
      by simp
    with j k block_addr_inj [OF L(5) [OF x]] show ?thesis by auto
  qed
  show "unat (SIZE_CLASS_BLOCK_COUNT ! i) \<le> card B + card (free_set (span_at s x))"
    if "finite B" "live_addrs (span_at s x) \<subseteq> B"
    using card_mono [OF that] live_card(1) [OF L(5) [OF x] L(10) [OF x]] L(8) [OF x] by simp
qed


section \<open>A block is taken or comes back\<close>

lemma same_descr_lone:
  assumes "lone_span r i d" "same_descr d e" "span_ok e"
  shows "lone_span r i e"
proof -
  note f = same_descr_fields [OF assms(2)]
  have "class_area r e i" using assms(1) f by (simp add: lone_span_def class_area_def)
  then show ?thesis using assms(1,3) f by (auto simp: lone_span_def used_span_def)
qed

lemma live_same:
  assumes "same_descr d e"
  shows "live_addrs e = block_addr d ` {k. k < unat (block_count d) \<and> k \<notin> free_set e}"
  by (simp add: live_addrs_def same_descr_addr [OF assms] same_descr_fields [OF assms])

lemma serial_set_span:
  assumes P: "serial_parts os Q i t E K U A s" and x: "x \<in> A"
    and d: "same_descr (span_at s x) d" "span_ok d"
  shows "serial_parts os Q i t E K U A (set_span s x (\<lambda>_. d))"
proof -
  note D = serial_partsD [OF P] and I = serial_span_inv [OF P x] and f = same_descr_fields [OF d(1)]
  let ?s = "set_span s x (\<lambda>_. d)"
  have da: "data_arena (sp ?s) = data_arena (sp s)" by (simp add: set_span_def upd_span_def)
  have "span_inv os E K U (sp ?s)"
    by (rule span_inv_cong [OF I]) (use f in \<open>auto simp: same_area_def\<close>)
  then have "layer_inv os E K U (sp ?s)" by (simp add: layer_inv_def)
  moreover have "lone_span (rt (sp ?s)) i (span_at ?s y)" if "y \<in> A" for y
    using D(4) [OF that] same_descr_lone [OF D(4) [OF x] d] by simp
  ultimately show ?thesis using P unfolding serial_parts_def da by simp
qed

text \<open>From the bin.\<close>

lemma serial_bin_malloc:
  assumes P: "serial_parts os Q i t E K U A s" and B: "B = (\<Union>x \<in> A. live_addrs (span_at s x))" "finite B"
    and few: "card B + 2 \<le> unat (SIZE_CLASS_BLOCK_COUNT ! i)"
    and cls: "get_size_class_index (rt (sp s)) sz = int i" "i < SIZE_CLASS_COUNT"
    and ne: "thread_local_bin s t i \<noteq> NULL"
  obtains p s' where "cmalloc os t sz s = Inr (p, s')" "p \<noteq> NULL" "p \<notin> B" "serial os Q i t (insert p B) s'"
    "rt (sp s') = rt (sp s)"
proof -
  note D = serial_partsD [OF P]
  define x where "x = thread_local_bin s t i"
  have x: "x \<in> A" unfolding x_def by (rule D(6) [OF ne])
  let ?d = "span_at s x"
  note L = lone_spanD [OF D(4) [OF x]] and I = serial_span_inv [OF P x]
  have v: "valid_ptr x" by (rule span_addr_lookup(2) [OF I subsetD [OF D(3) x] L(1), of 0])
      (use few L(8) in simp)
  have "live_addrs ?d \<subseteq> B" using B(1) x by blast
  then have c: "2 \<le> card (free_set ?d)" using serial_live(2) [OF P x B(2)] few by linarith
  then have ne': "free_set ?d \<noteq> {}" by auto
  have fc: "free_count ?d \<noteq> 1" using c L(5) by (auto simp: span_ok_def blocks_ok_def)
  obtain e where e: "take_block x s = Inr (block_addr ?d (Min (free_set ?d)), set_span s x (\<lambda>_. e))"
    "same_descr ?d e" "span_ok e" "free_set e = free_set ?d - {Min (free_set ?d)}"
    by (rule take_block_law [OF v L(5) ne'])
  define k where "k = Min (free_set ?d)"
  have k: "k \<in> free_set ?d" unfolding k_def by (rule Min_in [OF L(11) ne'])
  then have kb: "k < unat (block_count ?d)" using L(10) by blast
  let ?p = "block_addr ?d k" and ?s = "set_span s x (\<lambda>_. e)"
  have run: "cmalloc os t sz s = Inr (?p, ?s)"
    using cls class_index_nat [OF cls(2)] ne fc e(1) by (simp add: cmalloc_def Let_def x_def k_def)
  have p0: "?p \<noteq> NULL" by (rule span_addr_lookup(3) [OF I subsetD [OF D(3) x] L(1) kb])
  have new: "?p \<notin> B" unfolding B(1) using serial_live(1) [OF P x kb] k by blast
  have le: "live_addrs e = insert ?p (live_addrs ?d)"
    unfolding live_same [OF e(2)] e(4) k_def [symmetric] using kb by (auto simp: live_addrs_def)
  have "(\<Union>y \<in> A. live_addrs (span_at ?s y)) = insert ?p B"
    unfolding B(1) using x le by (auto split: if_splits)
  then have "serial os Q i t (insert ?p B) ?s"
    using serial_set_span [OF P x e(2,3)] unfolding serial_def by metis
  then show thesis using that [OF run p0 new] by simp
qed


text \<open>From a span of the pool, or from a new one.\<close>

lemma serial_initialize:
  assumes P: "serial_parts os Q i t E K U A s" and emp: "thread_local_bin s t i = NULL" and i: "i < SIZE_CLASS_COUNT"
  shows "\<exists>x v. cmalloc_initialize_span os (sp s) (int i) sz = Inr (x, v) \<and> Q (mappings (meta v))"
proof (cases "K (unat (span_page_count (rt (sp s)) i)) = [] \<or> data_arena (sp s) = NULL")
  case True
  from initialize_class_returns [OF serial_partsD(2) [OF P] i serial_partsD(9) [OF P emp True]]
  show ?thesis .
next
  case False
  note D = serial_partsD [OF P]
  let ?n = "span_page_count (rt (sp s)) i"
  obtain x xs where K: "K (unat ?n) = x # xs" using False by (cases "K (unat ?n)") auto
  then have I: "span_inv os E K U (sp s)" using D(2) by (auto simp: layer_inv_def)
  note J = span_invD [OF I]
  have small: "?n < MAX_BINNED_PAGES"
    using class_span_pages(3) [OF J(1) i] by (simp add: span_page_count_def)
  have "unat ?n \<in> bin_bits (non_empty_bitmap (sp s))" using bins_invD(3) [OF J(4)] K by auto
  then have "best_fit_spec (bin_bits (non_empty_bitmap (sp s))) (unat ?n) = word_of_nat (unat ?n)"
    using small by (intro best_fit_spec_eqI) (simp_all add: word_less_nat_alt)
  then have best: "find_best_fitting_uninitialized_span (non_empty_bitmap (sp s)) ?n = ?n"
    unfolding find_best_fit_value [OF small] by simp
  have pm: "page_map (sp s) \<noteq> NULL" using page_inv_valid [OF index_invD(1) [OF J(3)]] by auto
  have "?n \<noteq> NO_FITTING_PAGE_SEQUENCE" using small by (auto simp: NO_FITTING_PAGE_SEQUENCE_def MAX_BINNED_PAGES_def)
  moreover have "\<not> MAX_BINNED_PAGES \<le> ?n" using small by simp
  ultimately have al: "alloc_span os (sp s) (SIZE_CLASS_SPAN_SIZE ! i) = Inr (x, pop_bin (sp s) ?n x)"
    unfolding alloc_span_eq [OF pm] span_page_count_def [symmetric]
    using best False alloc_span_exact_law [OF I K] by simp
  have "x \<noteq> NULL" using pop_bin_inv(5) [OF I K] by auto
  then show ?thesis
    using al D(8) init_class_returns [OF i, of sz "span_heap (sp s) x"] class_index_nat [OF i] i
    by (auto simp: cmalloc_initialize_span_def upd_span_def pop_bin_reads)
qed

lemma initialized_arena:
  assumes R: "runtime_ok (rt s)" and i: "i < SIZE_CLASS_COUNT"
    and run: "cmalloc_initialize_span os s (int i) sz = Inr (x, v)"
  shows "data_arena v \<noteq> NULL"
proof -
  obtain u d where u: "alloc_span os s (if int i = LARGE_CLASS_SIZE_INDEX then sz
      else SIZE_CLASS_SPAN_SIZE ! nat (int i)) = Inr (x, u)" "x \<noteq> NULL" "v = upd_span u x (\<lambda>_. d)"
    by (rule initialize_span_run [OF run])
  have "data_arena u \<noteq> NULL"
    by (rule alloc_span_arena [OF _ u(2) class_span_pages(3) [OF R i]])
       (use u(1) class_index_nat [OF i] in simp)
  then show ?thesis by (simp add: u(3) upd_span_def)
qed

lemma same_user_lone:
  assumes "same_user d e"
  shows "lone_span r i e = lone_span r i d" "live_addrs e = live_addrs d"
proof -
  note f = same_user_reads [OF assms]
  show "lone_span r i e = lone_span r i d"
    by (simp add: lone_span_def same_user_used(1) [OF assms] f class_area_def)
  have "block_addr e = block_addr d" by (simp add: block_addr_def f fun_eq_iff)
  then show "live_addrs e = live_addrs d" by (simp add: live_addrs_def same_user_used(3) [OF assms] f)
qed

text \<open>The new span in the empty bin: the request is then one from the bin.\<close>

definition entered :: "nat \<Rightarrow> nat \<Rightarrow> ptr \<Rightarrow> span_state \<Rightarrow> cm_state \<Rightarrow> cm_state" where
  "entered t i x v s =
     set_local_bin (set_heap (s\<lparr>lock := None, sp := v\<rparr>) (push_links (span_heap v) NULL x)) t i x"

lemma entered_reads:
  "thread_local_bin (entered t i x v s) t i = x" "lock (entered t i x v s) = None"
  "u \<noteq> t \<Longrightarrow> thread_local_bin (entered t i x v s) u = thread_local_bin s u"
  "rt (sp (entered t i x v s)) = rt v" "meta (sp (entered t i x v s)) = meta v"
  "page_map (sp (entered t i x v s)) = page_map v" "data_arena (sp (entered t i x v s)) = data_arena v"
  "uninitilized_span_bin (sp (entered t i x v s)) = uninitilized_span_bin v"
  "non_empty_bitmap (sp (entered t i x v s)) = non_empty_bitmap v"
  "prev_in_size_class_bin (span_at (entered t i x v s) x) = NULL"
  "next_in_size_class_bin (span_at (entered t i x v s) x) = NULL"
  "unlinked (span_at (entered t i x v s) y) = unlinked (span_heap v y)"
  "y \<noteq> x \<Longrightarrow> span_at (entered t i x v s) y = span_heap v y"
  by (simp_all add: entered_def set_local_bin_def set_heap_def unlinked_def push_links_def Let_def)

lemma entered_run:
  assumes "get_size_class_index (rt (sp s)) sz = int i" "i < SIZE_CLASS_COUNT" "thread_local_bin s t i = NULL"
    and "lock s = None" "cmalloc_initialize_span os (sp s) (int i) sz = Inr (x, v)" "rt v = rt (sp s)"
    and x: "valid_ptr x" and fc: "free_count (span_heap v x) \<noteq> 1"
  shows "cmalloc os t sz s = cmalloc os t sz (entered t i x v s)"
proof -
  let ?s1 = "s\<lparr>lock := None, sp := v\<rparr>" and ?s2 = "entered t i x v s"
  have l: "locked_initialize_span os t (int i) sz s = Inr (x, ?s1)"
    using assms(4,5) by (simp add: locked_initialize_span_def pthread_mutex_lock_def pthread_mutex_unlock_def)
  have b: "bin_push t (int i) x ?s1 = Inr ?s2"
    using bin_push_eq [OF class_of_nat(1) [OF assms(2)] x, of t ?s1] assms(3) by (simp add: entered_def)
  have "cmalloc os t sz s = take_block x ?s2"
    using assms(1-3) class_index_nat [OF assms(2)] l b by (simp add: cmalloc_def Let_def)
  moreover have "free_count (span_at ?s2 x) \<noteq> 1" using fc unlinked_same(7) [OF entered_reads(12)] by simp
  moreover have "x \<noteq> NULL" using x by auto
  ultimately show ?thesis
    using assms(1,2,6) class_index_nat [OF assms(2)] entered_reads(1,4) by (simp add: cmalloc_def Let_def)
qed

lemma serial_enters:
  assumes P: "serial_parts os Q i t E K U A s"
    and cls: "get_size_class_index (rt (sp s)) sz = int i" "i < SIZE_CLASS_COUNT"
    and emp: "thread_local_bin s t i = NULL"
  obtains E' K' x s' where "serial_parts os Q i t E' K' (insert x U) (insert x A) s'"
    "(\<Union>y \<in> insert x A. live_addrs (span_at s' y)) = (\<Union>y \<in> A. live_addrs (span_at s y))"
    "thread_local_bin s' t i \<noteq> NULL" "cmalloc os t sz s = cmalloc os t sz s'" "rt (sp s') = rt (sp s)"
proof -
  note D = serial_partsD [OF P] and n32 = class_row [OF cls(2), unfolded class_row_ok_def]
  obtain x v where v: "cmalloc_initialize_span os (sp s) (int i) sz = Inr (x, v)" "Q (mappings (meta v))"
    using serial_initialize [OF P emp cls(2)] by blast
  obtain E' K' where J: "span_inv os E' K' (insert x U) v" "x \<notin> U" "rt v = rt (sp s)"
    "\<And>y. y \<in> U \<Longrightarrow> same_user (span_at s y) (span_heap v y)"
    "span_ok (span_heap v x)" "class_area (rt (sp s)) (span_heap v x) i" "is_initialized (span_heap v x)"
    "free_set (span_heap v x) = {..<unat (SIZE_CLASS_BLOCK_COUNT ! i)}"
    by (rule initialize_class_law [OF D(2) cls(2) v(1)]) blast
  let ?s2 = "entered t i x v s"
  note u = entered_reads(12) [of t i x v s]
  note X = index_invD [OF span_invD(3) [OF J(1)]]
  have vx: "valid_ptr x" using page_inv_block(1) [OF X(1) X(2), of x] by simp
  have "used_span (rt (sp s)) (span_heap v x)" using J(5-7) by (auto simp: used_span_def)
  moreover have "class_area (rt (sp s)) (span_at ?s2 x) i" using J(6) unlinked_same [OF u] by (simp add: class_area_def)
  ultimately have lone: "lone_span (rt (sp ?s2)) i (span_at ?s2 x)"
    unfolding lone_span_def using unlinked_used(1) [OF u] J(3) by (simp add: entered_reads)
  have none: "live_addrs (span_at ?s2 x) = {}"
    unfolding live_addrs_def unlinked_blocks(1) [OF u] J(8) lone_spanD(8) [OF lone] by auto
  have old: "lone_span (rt (sp ?s2)) i (span_at ?s2 y) \<and> live_addrs (span_at ?s2 y) = live_addrs (span_at s y)"
    if y: "y \<in> A" for y
  proof -
    have "y \<noteq> x" using y D(3) J(2) by blast
    then show ?thesis using same_user_lone [OF J(4) [OF subsetD [OF D(3) y]]] D(4) [OF y] J(3)
      by (simp add: entered_reads)
  qed
  have "span_inv os E' K' (insert x U) (sp ?s2)"
  proof (rule span_inv_cong [OF J(1)])
    show "next_in_uninitialized_bin (span_at ?s2 y) = next_in_uninitialized_bin (span_heap v y)" for y
      by (cases "y = x") (simp_all add: entered_def push_links_def Let_def)
  qed (simp_all add: entered_reads unlinked_used(2) [OF u])
  moreover have "data_arena v \<noteq> NULL" by (rule initialized_arena [OF layer_inv_rt(1) [OF D(2)] cls(2) v(1)])
  moreover have "x \<noteq> NULL" using vx by auto
  moreover have "\<forall>u > t. thread_local_bin ?s2 u i = NULL" using D(7) by (simp add: entered_reads)
  ultimately have P2: "serial_parts os Q i t E' K' (insert x U) (insert x A) ?s2"
    using lone old v(2) D(3) unfolding serial_parts_def layer_inv_def
    by (intro conjI) (auto simp: entered_reads)
  have "unat (free_count (span_heap v x)) = unat (SIZE_CLASS_BLOCK_COUNT ! i)"
    using J(5,8) by (simp add: span_ok_def blocks_ok_def)
  then have "free_count (span_heap v x) \<noteq> 1" using n32 by auto
  from that [OF P2 _ _ entered_run [OF cls emp D(1) v(1) J(3) vx this]] show thesis
    using none old \<open>x \<noteq> NULL\<close> J(3) by (simp add: entered_reads cong: SUP_cong)
qed

text \<open>A request of the class, in any of these states.\<close>

lemma serial_malloc:
  assumes S: "serial os Q i t B s" and sz: "sz \<le> MAX_SIZE_CLASS" "i = first_fit sz"
    and B: "finite B" "card B + 2 \<le> unat (SIZE_CLASS_BLOCK_COUNT ! i)"
  obtains p s' where "cmalloc os t sz s = Inr (p, s')" "p \<noteq> NULL" "p \<notin> B" "serial os Q i t (insert p B) s'"
    "rt (sp s') = rt (sp s)"
proof -
  obtain E K U A where P: "serial_parts os Q i t E K U A s" "B = (\<Union>x \<in> A. live_addrs (span_at s x))"
    using S unfolding serial_def by blast
  have cls: "get_size_class_index (rt (sp s)) sz = int i" "i < SIZE_CLASS_COUNT"
    unfolding sz(2) using sz(1) get_size_class_index_value [OF layer_inv_rt(1) [OF serial_partsD(2) [OF P(1)]]]
    by (auto intro: first_fit_exists)
  show thesis
  proof (cases "thread_local_bin s t i = NULL")
    case True
    obtain E' K' x s1 where N: "serial_parts os Q i t E' K' (insert x U) (insert x A) s1"
      "(\<Union>y \<in> insert x A. live_addrs (span_at s1 y)) = B" "thread_local_bin s1 t i \<noteq> NULL"
      "cmalloc os t sz s = cmalloc os t sz s1" "rt (sp s1) = rt (sp s)"
      unfolding P(2) by (rule serial_enters [OF P(1) cls True])
    have "get_size_class_index (rt (sp s1)) sz = int i" using cls(1) N(5) by simp
    from serial_bin_malloc [OF N(1) N(2) [symmetric] B this cls(2) N(3)] show thesis
      using that N(4,5) by metis
  next
    case False
    then show thesis by (rule serial_bin_malloc [OF P B cls]) (rule that)
  qed
qed

text \<open>The span of a block that is in use.\<close>

lemma serial_block:
  assumes P: "serial_parts os Q i t E K U A s" and B: "B = (\<Union>x \<in> A. live_addrs (span_at s x))"
    and p: "p \<in> B" and few: "finite B" "card B < unat (SIZE_CLASS_BLOCK_COUNT ! i)"
  obtains x k where "x \<in> A" "p \<noteq> NULL" "cmalloc_get_span (sp s) p = Inr x" "valid_ptr x"
    "in_block (span_at s x) k p" "k \<notin> free_set (span_at s x)" "free_set (span_at s x) \<noteq> {}"
    "\<And>y. y \<in> A \<Longrightarrow> y \<noteq> x \<Longrightarrow> p \<notin> live_addrs (span_at s y)"
    "\<And>e. same_descr (span_at s x) e \<Longrightarrow> free_set e = insert k (free_set (span_at s x)) \<Longrightarrow>
      live_addrs e = live_addrs (span_at s x) - {p}"
proof -
  note D = serial_partsD [OF P]
  obtain x k where x: "x \<in> A" "p = block_addr (span_at s x) k" "k < unat (block_count (span_at s x))"
    "k \<notin> free_set (span_at s x)"
    using p unfolding B live_addrs_def by blast
  let ?d = "span_at s x"
  note L = lone_spanD [OF D(4) [OF x(1)]] and I = serial_span_inv [OF P x(1)]
  note g = span_addr_lookup [OF I subsetD [OF D(3) x(1)] L(1) x(3), folded x(2)]
  have "in_block ?d k p" using x(3) L(9) by (simp add: in_block_def x(2))
  moreover have "live_addrs ?d \<subseteq> B" using B x(1) by blast
  then have "0 < card (free_set ?d)" using serial_live(2) [OF P x(1) few(1)] few(2) by linarith
  then have "free_set ?d \<noteq> {}" by auto
  moreover have "p \<notin> live_addrs (span_at s y)" if "y \<in> A" "y \<noteq> x" for y
    using serial_live(1) [OF P x(1,3) that(1)] that(2) unfolding x(2) [symmetric] by blast
  moreover have "live_addrs e = live_addrs ?d - {p}" if e: "same_descr ?d e" "free_set e = insert k (free_set ?d)" for e
  proof -
    have "block_addr ?d j \<noteq> p" if "j \<noteq> k" "j < unat (block_count ?d)" for j
      using block_addr_inj [OF L(5) that(2) x(3)] that(1) by (simp add: x(2))
    then show ?thesis unfolding live_same [OF e(1)] e(2) by (auto simp: live_addrs_def x(2))
  qed
  ultimately show thesis using that x(1,4) g by blast
qed

lemma serial_free_kept:
  assumes P: "serial_parts os Q i t E K U A s" and x: "x \<in> A"
    and get: "p \<noteq> NULL" "cmalloc_get_span (sp s) p = Inr x" "valid_ptr x"
    and k: "in_block (span_at s x) k p" "k \<notin> free_set (span_at s x)" "free_set (span_at s x) \<noteq> {}"
    and some: "Suc (card (free_set (span_at s x))) \<noteq> unat (block_count (span_at s x))"
  obtains e where "cfree os t p s = Inr (set_span s x (\<lambda>_. e))" "same_descr (span_at s x) e" "span_ok e"
    "free_set e = insert k (free_set (span_at s x))"
proof -
  note L = lone_spanD [OF serial_partsD(4) [OF P x]]
  obtain e where e: "give_block p x s = Inr (set_span s x (\<lambda>_. e))" "same_descr (span_at s x) e" "span_ok e"
    "free_set e = insert k (free_set (span_at s x))"
    using give_block_law [OF get(3) L(5) k(1,2)] by blast
  have "free_count (span_at s x) \<noteq> 0" using k(3) L(5,11) by (auto simp: span_ok_def blocks_ok_def)
  moreover have "unat (free_count e) = Suc (card (free_set (span_at s x)))" "block_count e = block_count (span_at s x)"
    using e(3,4) k(2) L(11) same_descr_fields [OF e(2)] by (simp_all add: span_ok_def blocks_ok_def)
  then have "free_count e \<noteq> block_count e" using some by auto
  ultimately have "cfree os t p s = Inr (set_span s x (\<lambda>_. e))"
    using cfree_steps [OF get L(7,6)] e(1) by simp
  then show thesis using that e(2-4) by blast
qed

text \<open>A lone span that becomes unused, in the span layer.\<close>

lemma lone_cached:
  assumes I: "span_inv os E K U s" and x: "x \<in> U" "lone_span (rt s) i (span_heap s x)"
    and e: "same_descr (span_heap s x) e"
  defines "s' \<equiv> cached x (s\<lparr>span_heap := remove_links ((span_heap s)(x := e)) x\<rparr>)"
    and "n \<equiv> unat (span_page_count (rt s) i)"
  shows "span_inv os E (K(n := x # K n)) (U - {x}) s'" "page_count (span_heap s x) < MAX_BINNED_PAGES"
    "rt s' = rt s" "meta s' = meta s" "data_arena s' = data_arena s" "y \<noteq> x \<Longrightarrow> span_heap s' y = span_heap s y"
proof -
  let ?T = "s\<lparr>span_heap := remove_links ((span_heap s)(x := e)) x\<rparr>" and ?d = "span_heap s x"
  note f = same_descr_fields [OF e] and L = lone_spanD [OF x(2)] and R = span_invD(1) [OF I]
  have pc: "unat (page_count ?d) * 2 ^ cmalloc_page_shift (rt s) = unat (SIZE_CLASS_SPAN_SIZE ! i)"
    using L(2) by (simp add: class_area_def)
  have "unat (page_count ?d) \<le> 256" by (rule class_pages_bound [OF R L(6) pc])
  then show small: "page_count ?d < MAX_BINNED_PAGES" by (simp add: word_less_nat_alt MAX_BINNED_PAGES_def)
  have "n * 2 ^ cmalloc_page_shift (rt s) = unat (page_count ?d) * 2 ^ cmalloc_page_shift (rt s)"
    using class_span_pages(1) [OF R L(6)] pc by (simp only: span_page_count_def n_def)
  then have n: "n = unat (page_count ?d)" by (simp only: mult_cancel2) simp
  have links: "span_heap ?T y = (if y = x then e\<lparr>prev_in_size_class_bin := NULL, next_in_size_class_bin := NULL\<rparr>
      else span_heap s y)" for y
    using f L(3,4) by (simp add: remove_links_def Let_def)
  have area: "same_area (span_heap s y) (span_heap ?T y)" for y
    unfolding links using f by (simp add: same_area_def)
  have "span_inv os E K U ?T"
  proof (rule span_inv_cong [OF I _ _ _ _ _ area])
    show "next_in_uninitialized_bin (span_heap ?T y) = next_in_uninitialized_bin (span_heap s y)" for y
      unfolding links using f by simp
  qed simp_all
  moreover have pg: "page_count (span_heap ?T x) = page_count ?d" using area by (simp add: same_area_def)
  ultimately show "span_inv os E (K(n := x # K n)) (U - {x}) s'"
    using cached_law [of os E K U ?T x] x(1) small unfolding pg s'_def n by simp
  show "rt s' = rt s" "meta s' = meta s" "data_arena s' = data_arena s" by (simp_all add: s'_def cached_reads)
  show "y \<noteq> x \<Longrightarrow> span_heap s' y = span_heap s y" unfolding s'_def cached_reads using links [of y] by simp
qed

lemma serial_free_last:
  assumes P: "serial_parts os Q i t E K U A s" and x: "x \<in> A"
    and get: "p \<noteq> NULL" "cmalloc_get_span (sp s) p = Inr x" "valid_ptr x"
    and k: "in_block (span_at s x) k p" "k \<notin> free_set (span_at s x)" "free_set (span_at s x) \<noteq> {}"
    and last: "Suc (card (free_set (span_at s x))) = unat (block_count (span_at s x))"
  obtains s' K' where "cfree os t p s = Inr s'" "serial_parts os Q i t E K' (U - {x}) (A - {x}) s'"
    "\<forall>y. y \<noteq> x \<longrightarrow> span_at s' y = span_at s y" "rt (sp s') = rt (sp s)"
proof -
  note D = serial_partsD [OF P] and I = serial_span_inv [OF P x]
  note xU = subsetD [OF D(3) x] and L = lone_spanD [OF D(4) [OF x]]
  have "page_count (span_at s x) < MAX_BINNED_PAGES"
    by (rule lone_cached(2) [OF I xU D(4) [OF x], of "span_at s x"]) (simp add: same_descr_def)
  then obtain s' e where s': "cfree os t p s = Inr s'" "thread_local_bin s' t i = NULL"
    "\<forall>u j. u \<noteq> t \<longrightarrow> thread_local_bin s' u j = thread_local_bin s u j" "lock s' = None"
    "sp s' = cached x ((sp s)\<lparr>span_heap := remove_links ((span_heap (sp s))(x := e)) x\<rparr>)"
    "same_descr (span_at s x) e"
    using lone_free_run [OF get L(7,6,3,4,5) k(1,2,3) last _ D(1), where os = os and tid = t] by metis
  let ?n = "unat (span_page_count (rt (sp s)) i)"
  note C = lone_cached [OF I xU D(4) [OF x] s'(6), folded s'(5)]
  have "lone_span (rt (sp s')) i (span_at s' y)" if "y \<in> A - {x}" for y using that D(4) C(3,6) by simp
  moreover have "data_arena (sp s') \<noteq> NULL" using D(5) x C(5) by auto
  moreover have "\<forall>u > t. thread_local_bin s' u i = NULL" using s'(3) D(7) by simp
  moreover have "A - {x} \<subseteq> U - {x}" using D(3) by blast
  ultimately have "serial_parts os Q i t E (K(?n := x # K ?n)) (U - {x}) (A - {x}) s'"
    using s'(2,4) C(1) D(8) unfolding serial_parts_def layer_inv_def C(3,4) by simp
  from that [OF s'(1) this] show thesis using C(3,6) by blast
qed

lemma serial_free:
  assumes S: "serial os Q i t B s" and p: "p \<in> B"
    and B: "finite B" "card B < unat (SIZE_CLASS_BLOCK_COUNT ! i)"
  obtains s' where "cfree os t p s = Inr s'" "serial os Q i t (B - {p}) s'" "rt (sp s') = rt (sp s)"
proof -
  obtain E K U A where P: "serial_parts os Q i t E K U A s" "B = (\<Union>x \<in> A. live_addrs (span_at s x))"
    using S unfolding serial_def by blast
  obtain x k where x: "x \<in> A" and get: "p \<noteq> NULL" "cmalloc_get_span (sp s) p = Inr x" "valid_ptr x"
    and k: "in_block (span_at s x) k p" "k \<notin> free_set (span_at s x)" "free_set (span_at s x) \<noteq> {}"
    and others: "\<And>y. y \<in> A \<Longrightarrow> y \<noteq> x \<Longrightarrow> p \<notin> live_addrs (span_at s y)"
    and own: "\<And>e. same_descr (span_at s x) e \<Longrightarrow> free_set e = insert k (free_set (span_at s x)) \<Longrightarrow>
      live_addrs e = live_addrs (span_at s x) - {p}"
    by (rule serial_block [OF P p B]) blast
  note L = lone_spanD [OF serial_partsD(4) [OF P(1) x]]
  show thesis
  proof (cases "Suc (card (free_set (span_at s x))) = unat (block_count (span_at s x))")
    case False
    obtain e where e: "cfree os t p s = Inr (set_span s x (\<lambda>_. e))" "same_descr (span_at s x) e" "span_ok e"
      "free_set e = insert k (free_set (span_at s x))"
      by (rule serial_free_kept [OF P(1) x get k False])
    have "(\<Union>y \<in> A. live_addrs (span_at (set_span s x (\<lambda>_. e)) y)) = B - {p}"
      unfolding P(2) using x own [OF e(2,4)] others by (auto split: if_splits)
    then have "serial os Q i t (B - {p}) (set_span s x (\<lambda>_. e))"
      using serial_set_span [OF P(1) x e(2,3)] unfolding serial_def by metis
    then show thesis using that [OF e(1)] by simp
  next
    case True
    obtain s' K' where s': "cfree os t p s = Inr s'" "serial_parts os Q i t E K' (U - {x}) (A - {x}) s'"
      "\<forall>y. y \<noteq> x \<longrightarrow> span_at s' y = span_at s y" "rt (sp s') = rt (sp s)"
      by (rule serial_free_last [OF P(1) x get k True])
    have "card (live_addrs (span_at s x)) = 1" using live_card(1) [OF L(5,10)] True by linarith
    moreover have "p \<in> live_addrs (span_at s x)" using p others unfolding P(2) by blast
    ultimately have "live_addrs (span_at s x) = {p}" by (auto simp: card_1_singleton_iff)
    then have "(\<Union>y \<in> A - {x}. live_addrs (span_at s' y)) = B - {p}"
      unfolding P(2) using x s'(3) others by auto
    then have "serial os Q i t (B - {p}) s'" using s'(2) unfolding serial_def by metis
    then show thesis using that [OF s'(1)] s'(4) by simp
  qed
qed

text \<open>A program that starts.\<close>

lemma serial_start:
  assumes "os_ok os" "supplied_with os Q []"
  shows "serial os Q i 0 {} (cmalloc_constructor os (cm_zero bytes0))"
proof -
  let ?s = "cmalloc_constructor os (cm_zero bytes0)"
  have f: "thread_local_bin ?s = (\<lambda>_ _. NULL)" "lock ?s = None" "mappings (meta (sp ?s)) = []"
    by (simp_all add: cmalloc_constructor_def cm_zero_def span_state_zero_def meta_zero_def Let_def)
  from heap_invD(2) [OF heap_start_inv [OF assms(1), of bytes0]]
  have "serial_parts os Q i 0 {} (\<lambda>_. []) {} {} ?s"
    using assms(2) by (simp add: serial_parts_def f)
  then show ?thesis unfolding serial_def by blast
qed

end
