(* ===== verification/XThreadTheorems.thy ===== *)
theory XThreadTheorems
  imports XThread HeapShim
begin

text \<open>
  The control of \<open>bench/xthread_repro.c\<close> is a client the allocator supports: under every schedule
  of its threads the heap is as specified and no step faults while memory is granted. Its end is in
  \<open>XThreadTurn\<close>; the experiment is not such a client, see \<open>XThreadRace\<close>.
\<close>

section \<open>The blocks a worker holds\<close>

definition held_slots :: "same_worker \<Rightarrow> nat set" where
  "held_slots v = (case same_at v of
     Same_Evict \<Rightarrow> {..<SLOTS}
   | Same_Allocate \<Rightarrow> {..<SLOTS} - {same_i v mod SLOTS}
   | Same_Drain \<Rightarrow> {same_i v..<SLOTS}
   | Same_Returned \<Rightarrow> {})"

definition full_slots :: "ptr list \<Rightarrow> nat set \<Rightarrow> nat set" where
  "full_slots xs H = {k \<in> H. xs ! k \<noteq> NULL}"

definition slot_blocks :: "nat \<Rightarrow> ptr list \<Rightarrow> nat set \<Rightarrow> heap" where
  "slot_blocks t xs H = (\<lambda>k. (xs ! k, granted BLOCK_SZ, t)) ` full_slots xs H"

definition worker_ok :: "same_worker \<Rightarrow> bool" where
  "worker_ok v \<longleftrightarrow> length (live_slots v) = SLOTS \<and>
     inj_on ((!) (live_slots v)) (full_slots (live_slots v) (held_slots v))"

definition worker_blocks :: "nat \<Rightarrow> same_worker \<Rightarrow> heap" where
  "worker_blocks t v = slot_blocks t (live_slots v) (held_slots v)"

definition control_inv :: "platform \<Rightarrow> nat set \<Rightarrow> heap \<Rightarrow> same_phase \<Rightarrow> bool" where
  "control_inv os T L w \<longleftrightarrow> same_oom w = 0 \<and> (\<forall>t \<in> T. worker_ok (same_workers w t)) \<and>
     heap_run os (same_heap w) (L \<union> (\<Union>t \<in> T. worker_blocks t (same_workers w t)))"

lemma slot_bound: "i mod SLOTS < SLOTS"
  by (simp add: SLOTS_def)

lemma full_slots_remove: "full_slots xs (H - {k}) = full_slots xs H - {k}"
  by (auto simp: full_slots_def)

lemma slot_blocks_remove:
  assumes "inj_on ((!) xs) (full_slots xs H)" "k \<in> H"
  shows "slot_blocks t xs (H - {k}) = slot_blocks t xs H - {(xs ! k, granted BLOCK_SZ, t)}"
proof (cases "xs ! k = NULL")
  case True
  then show ?thesis by (auto simp: slot_blocks_def full_slots_def)
next
  case False
  then have "k \<in> full_slots xs H" using assms(2) by (simp add: full_slots_def)
  with assms(1) show ?thesis unfolding slot_blocks_def full_slots_remove by (auto dest: inj_onD)
qed

lemma slot_blocks_add:
  assumes "k \<in> H" "k < length xs" "p \<noteq> NULL" "\<forall>m u. (p, m, u) \<notin> slot_blocks t xs (H - {k})"
    and "inj_on ((!) xs) (full_slots xs (H - {k}))"
  shows "slot_blocks t (xs[k := p]) H = insert (p, granted BLOCK_SZ, t) (slot_blocks t xs (H - {k}))"
    and "inj_on ((!) (xs[k := p])) (full_slots (xs[k := p]) H)"
proof -
  have f: "full_slots (xs[k := p]) H = insert k (full_slots xs (H - {k}))"
    using assms(1-3) by (auto simp: full_slots_def nth_list_update)
  have "(xs[k := p]) ! j = xs ! j" if "j \<in> full_slots xs (H - {k})" for j
    using that by (auto simp: full_slots_def)
  moreover have "xs ! j \<noteq> p" if "j \<in> full_slots xs (H - {k})" for j
    using that assms(4) by (force simp: slot_blocks_def)
  ultimately show "slot_blocks t (xs[k := p]) H = insert (p, granted BLOCK_SZ, t) (slot_blocks t xs (H - {k}))"
    and "inj_on ((!) (xs[k := p])) (full_slots (xs[k := p]) H)"
    using assms(2,5) by (auto simp: slot_blocks_def f inj_on_def)
qed

section \<open>One call on the blocks of one thread\<close>

lemma block_sz: "BLOCK_SZ \<le> MAX_SIZE_CLASS"
  by (simp add: BLOCK_SZ_def MAX_SIZE_CLASS_def)

lemma free_held:
  assumes os: "os_ok os" and H: "heap_run os s (B \<union> R)" and R: "\<forall>(q, m, u) \<in> R. u \<noteq> t"
    and p: "p \<noteq> NULL \<longrightarrow> (p, g, t) \<in> B"
    and run: "(if p \<noteq> NULL then cfree os t p s else Inr s) = Inr s'"
  shows "heap_run os s' (B - {(p, g, t)} \<union> R)"
proof (cases "p = NULL")
  case True
  have "(NULL, g, t) \<notin> B \<union> R" using heap_span [OF heap_run_ok [OF H os]] by blast
  then show ?thesis using True run H by simp
next
  case False
  then have b: "(p, g, t) \<in> B \<union> R" and f: "cfree os t p s = Inr s'" using p run by auto
  have "heap_run os s' (heap_after (B \<union> R) (Free t p))" by (rule heap_run.call [OF H]) (use b f in auto)
  moreover have "without p (B \<union> R) = B \<union> R - {(p, g, t)}"
    by (rule without_block [OF heap_run_ok [OF H os] b])
  moreover have "B \<union> R - {(p, g, t)} = B - {(p, g, t)} \<union> R" using R by auto
  ultimately show ?thesis by simp
qed

lemma alloc_held:
  assumes os: "os_ok os" and H: "heap_run os s L" and run: "cmalloc os t BLOCK_SZ s = Inr (p, s')"
  shows "p \<noteq> NULL" "(p, m, u) \<notin> L" "heap_run os s' (insert (p, granted BLOCK_SZ, t) L)"
proof -
  note K = heap_run_ok [OF H os]
  have sv: "served os BLOCK_SZ p" by (rule class_malloc_served [OF K block_sz run])
  note b = malloc_call(2) [OF K sv run]
  show "p \<noteq> NULL" using b by (simp add: new_block_def)
  show "(p, m, u) \<notin> L" using without_new [OF K b] unfolding without_def
    by (metis (mono_tags, lifting) fst_conv mem_Collect_eq)
  show "heap_run os s' (insert (p, granted BLOCK_SZ, t) L)"
    using heap_run.call [OF H, of "Malloc t BLOCK_SZ p" s'] sv run by simp
qed

lemma block_sz_small: "granted BLOCK_SZ \<le> 32768"
  by (rule granted_class [OF block_sz])

section \<open>The control phase\<close>

lemma worker_blocks_owner: "(q, m, u) \<in> worker_blocks t v \<Longrightarrow> u = t"
  by (auto simp: worker_blocks_def slot_blocks_def)

text \<open>The others' blocks, and one worker's step among them.\<close>

definition other_blocks :: "nat set \<Rightarrow> heap \<Rightarrow> nat \<Rightarrow> same_phase \<Rightarrow> heap" where
  "other_blocks T L t w = L \<union> (\<Union>u \<in> T - {t}. worker_blocks u (same_workers w u))"

lemma control_invD:
  assumes "control_inv os T L w" "t \<in> T"
  shows "same_oom w = 0" "length (live_slots (same_workers w t)) = SLOTS"
    "inj_on ((!) (live_slots (same_workers w t)))
      (full_slots (live_slots (same_workers w t)) (held_slots (same_workers w t)))"
    "heap_run os (same_heap w) (worker_blocks t (same_workers w t) \<union> other_blocks T L t w)"
proof -
  have "L \<union> (\<Union>u \<in> T. worker_blocks u (same_workers w u)) =
      worker_blocks t (same_workers w t) \<union> other_blocks T L t w"
    using assms(2) by (auto simp: other_blocks_def)
  then show "heap_run os (same_heap w) (worker_blocks t (same_workers w t) \<union> other_blocks T L t w)"
    using assms(1) by (simp add: control_inv_def)
qed (use assms in \<open>auto simp: control_inv_def worker_ok_def\<close>)

lemma control_inv_put:
  assumes "control_inv os T L w" "t \<in> T" "worker_ok v" "heap_run os s (worker_blocks t v \<union> other_blocks T L t w)"
  shows "control_inv os T L (w\<lparr>same_heap := s, same_workers := (same_workers w)(t := v)\<rparr>)"
proof -
  have "L \<union> (\<Union>u \<in> T. worker_blocks u (((same_workers w)(t := v)) u)) = worker_blocks t v \<union> other_blocks T L t w"
    using assms(2) by (auto simp: other_blocks_def split: if_splits)
  then show ?thesis using assms by (simp add: control_inv_def)
qed

lemma other_blocks_owner:
  assumes "\<forall>(q, m, u) \<in> L. u \<notin> T" "t \<in> T"
  shows "\<forall>(q, m, u) \<in> other_blocks T L t w. u \<noteq> t"
  using assms worker_blocks_owner by (fastforce simp: other_blocks_def)

lemma give_slot:
  assumes os: "os_ok os" and L: "\<forall>(q, m, u) \<in> L. u \<notin> T" "t \<in> T" and I: "control_inv os T L w"
    and v: "v = same_workers w t" and k: "k \<in> held_slots v"
    and run: "(if live_slots v ! k \<noteq> NULL then cfree os t (live_slots v ! k) (same_heap w)
      else Inr (same_heap w)) = Inr s"
    and v': "live_slots v' = live_slots v" "held_slots v' = held_slots v - {k}"
  shows "control_inv os T L (w\<lparr>same_heap := s, same_workers := (same_workers w)(t := v')\<rparr>)"
proof -
  note C = control_invD [OF I L(2), folded v]
  have b: "worker_blocks t v' = worker_blocks t v - {(live_slots v ! k, granted BLOCK_SZ, t)}"
    unfolding worker_blocks_def v' by (rule slot_blocks_remove [OF C(3) k])
  have "live_slots v ! k \<noteq> NULL \<longrightarrow> (live_slots v ! k, granted BLOCK_SZ, t) \<in> worker_blocks t v"
    using k by (simp add: worker_blocks_def slot_blocks_def full_slots_def)
  from free_held [OF os C(4) other_blocks_owner [OF L] this run]
  have "heap_run os s (worker_blocks t v' \<union> other_blocks T L t w)" by (simp only: b)
  moreover have "worker_ok v'"
    using C(2,3) by (simp add: worker_ok_def v' full_slots_remove inj_on_diff)
  ultimately show ?thesis by (intro control_inv_put [OF I L(2)])
qed

lemma control_step:
  assumes os: "os_ok os" and L: "\<forall>(q, m, u) \<in> L. u \<notin> T" "t \<in> T" and I: "control_inv os T L w"
    and run: "same_thread_worker os t w = Inr w'"
  shows "control_inv os T L w'"
proof -
  define v where "v = same_workers w t"
  note C = control_invD [OF I L(2), folded v_def]
  let ?put = "\<lambda>v s. w\<lparr>same_heap := s, same_workers := (same_workers w)(t := v)\<rparr>"
  note R = run [unfolded same_thread_worker_def v_def [symmetric] Let_def]
  have same: "control_inv os T L (?put v' (same_heap w))"
    if "live_slots v' = live_slots v" "held_slots v' = held_slots v" for v'
    by (rule control_inv_put [OF I L(2)]) (use that C in \<open>simp_all add: worker_ok_def worker_blocks_def\<close>)
  show ?thesis
  proof (cases "same_at v")
    case Same_Evict
    show ?thesis
    proof (cases "same_i v < ROUNDS")
      case True
      then obtain s where s: "(if live_slots v ! (same_i v mod SLOTS) \<noteq> NULL
          then cfree os t (live_slots v ! (same_i v mod SLOTS)) (same_heap w) else Inr (same_heap w)) = Inr s"
        "w' = ?put (v\<lparr>same_at := Same_Allocate\<rparr>) s"
        using R Same_Evict by (auto elim!: bindr_InrE)
      show ?thesis unfolding s(2)
        by (rule give_slot [OF os L I v_def _ s(1)])
           (simp_all add: held_slots_def Same_Evict slot_bound)
    next
      case False
      then have "w' = ?put (v\<lparr>same_at := Same_Drain, same_i := 0\<rparr>) (same_heap w)" using R Same_Evict by simp
      then show ?thesis using same [of "v\<lparr>same_at := Same_Drain, same_i := 0\<rparr>"]
        by (simp add: held_slots_def Same_Evict atLeast0LessThan)
    qed
  next
    case Same_Allocate
    let ?k = "same_i v mod SLOTS" and ?A = "{..<SLOTS}"
    obtain p s where c: "cmalloc os t BLOCK_SZ (same_heap w) = Inr (p, s)"
      using R Same_Allocate by (auto elim!: bindr_InrE)
    note a = alloc_held [OF os C(4) c]
    let ?v = "v\<lparr>live_slots := (live_slots v)[?k := p], same_at := Same_Evict, same_i := Suc (same_i v)\<rparr>"
    have w': "w' = ?put ?v s" using R Same_Allocate c a(1) by simp
    have h: "held_slots v = ?A - {?k}" "held_slots ?v = ?A" by (simp_all add: held_slots_def Same_Allocate)
    have new: "\<forall>m u. (p, m, u) \<notin> slot_blocks t (live_slots v) (?A - {?k})"
      using a(2) by (auto simp: worker_blocks_def h)
    note add = slot_blocks_add [OF _ _ a(1) new C(3) [unfolded h]]
    have add: "slot_blocks t ((live_slots v)[?k := p]) ?A =
        insert (p, granted BLOCK_SZ, t) (slot_blocks t (live_slots v) (?A - {?k}))"
      "inj_on ((!) ((live_slots v)[?k := p])) (full_slots ((live_slots v)[?k := p]) ?A)"
      using add C(2) slot_bound by simp_all
    have "worker_ok ?v" using C(2) add(2) by (simp add: worker_ok_def h)
    moreover have "heap_run os s (worker_blocks t ?v \<union> other_blocks T L t w)"
      using a(3) add(1) by (simp add: worker_blocks_def h)
    ultimately show ?thesis unfolding w' by (rule control_inv_put [OF I L(2)])
  next
    case Same_Drain
    show ?thesis
    proof (cases "same_i v < SLOTS")
      case True
      then obtain s where s: "(if live_slots v ! same_i v \<noteq> NULL
          then cfree os t (live_slots v ! same_i v) (same_heap w) else Inr (same_heap w)) = Inr s"
        "w' = ?put (v\<lparr>same_i := same_i v + 1\<rparr>) s"
        using R Same_Drain by (auto elim!: bindr_InrE)
      show ?thesis unfolding s(2)
        by (rule give_slot [OF os L I v_def _ s(1)])
           (use True in \<open>auto simp: held_slots_def Same_Drain\<close>)
    next
      case False
      then have "w' = ?put (v\<lparr>same_at := Same_Returned\<rparr>) (same_heap w)" using R Same_Drain by simp
      then show ?thesis using same [of "v\<lparr>same_at := Same_Returned\<rparr>"] False
        by (simp add: held_slots_def Same_Drain)
    qed
  next
    case Same_Returned
    then show ?thesis using R I by simp
  qed
qed

text \<open>Whatever the worker does next, it can do it while memory is granted.\<close>

lemma control_step_returns:
  assumes os: "os_ok os" and L: "t \<in> T" and I: "control_inv os T L w"
    and g: "supplied os (mappings (meta (sp (same_heap w))))"
  shows "\<exists>w'. same_thread_worker os t w = Inr w'"
proof -
  define v where "v = same_workers w t"
  note C = control_invD [OF I L, folded v_def]
  note K = heap_run_ok [OF C(4) os]
  have free: "\<exists>s. (if live_slots v ! k \<noteq> NULL then cfree os t (live_slots v ! k) (same_heap w)
      else Inr (same_heap w)) = Inr s" if "k \<in> held_slots v" for k
  proof (cases "live_slots v ! k = NULL")
    case False
    then have "(live_slots v ! k, granted BLOCK_SZ, t) \<in> worker_blocks t v \<union> other_blocks T L t w"
      using that by (simp add: worker_blocks_def slot_blocks_def full_slots_def)
    from class_free_returns [OF K this block_sz_small] False show ?thesis by auto
  qed simp
  obtain p s where c: "cmalloc os t BLOCK_SZ (same_heap w) = Inr (p, s)"
    by (rule class_malloc_returns [OF K block_sz g])
  show ?thesis
  proof (cases "same_at v")
    case Same_Evict
    then have "same_i v mod SLOTS \<in> held_slots v" by (simp add: held_slots_def slot_bound)
    from free [OF this] Same_Evict show ?thesis
      by (cases "same_i v < ROUNDS") (auto simp: same_thread_worker_def v_def [symmetric] Let_def split del: if_split)
  next
    case Same_Allocate
    then show ?thesis using c by (simp add: same_thread_worker_def v_def [symmetric] Let_def)
  next
    case Same_Drain
    have "\<exists>s. (if live_slots v ! same_i v \<noteq> NULL then cfree os t (live_slots v ! same_i v) (same_heap w)
        else Inr (same_heap w)) = Inr s" if "same_i v < SLOTS"
      by (rule free) (use that in \<open>simp add: held_slots_def Same_Drain\<close>)
    with Same_Drain show ?thesis
      by (cases "same_i v < SLOTS")
         (auto simp: same_thread_worker_def v_def [symmetric] Let_def split del: if_split)
  next
    case Same_Returned
    then show ?thesis by (simp add: same_thread_worker_def v_def [symmetric] Let_def)
  qed
qed

text \<open>The start of a phase, and what a phase that has ended leaves.\<close>

lemma control_inv_start:
  assumes "heap_run os s L"
  shows "control_inv os T L (control_phase s)"
proof -
  have z: "full_slots (replicate SLOTS NULL) {..<SLOTS} = {}" by (auto simp: full_slots_def)
  then have "worker_blocks t same_start = {}" for t
    by (simp add: worker_blocks_def slot_blocks_def same_start_def held_slots_def)
  moreover have "worker_ok same_start" using z by (simp add: worker_ok_def same_start_def held_slots_def)
  ultimately show ?thesis using assms by (simp add: control_inv_def control_phase_def)
qed

lemma control_inv_run:
  assumes os: "os_ok os" and H: "heap_run os s L" and L: "\<forall>(q, m, u) \<in> L. u \<notin> phase_threads first"
    and run: "run_phase_control os first s sched w"
  shows "control_inv os (phase_threads first) L w"
proof -
  have r: "run_threads (same_thread_worker os) sched (control_phase s) = Inr w" "set sched \<subseteq> phase_threads first"
    using run by (simp_all add: run_phase_control_def)
  show ?thesis
    by (rule run_threads_invariant [where P = "control_inv os (phase_threads first) L",
          OF control_step [OF os L] r control_inv_start [OF H]])
qed

lemma same_left_zero: "same_left t w = 0 \<longleftrightarrow> same_at (same_workers w t) = Same_Returned"
  by (simp add: same_left_def Let_def split: same_pc.splits)

text \<open>C12: under every schedule of the control's threads \<open>cmalloc\<close> never returns \<open>NULL\<close> and the heap
  holds exactly what the threads hold in their slots beside what was there before, each block once
  and all disjoint; the next step of any thread succeeds while \<open>mmap\<close> grants memory.\<close>

theorem control_phase_safe:
  assumes "os_ok os" "heap_run os s L" "\<forall>(q, m, u) \<in> L. u \<notin> phase_threads first"
    and "run_phase_control os first s sched w" "t \<in> phase_threads first"
  shows "same_oom w = 0 \<and>
    heap_run os (same_heap w) (L \<union> (\<Union>u \<in> phase_threads first. worker_blocks u (same_workers w u))) \<and>
    (supplied os (mappings (meta (sp (same_heap w)))) \<longrightarrow> (\<exists>w'. same_thread_worker os t w = Inr w'))"
proof -
  note I = control_inv_run [OF assms(1-4)]
  then show ?thesis using control_step_returns [OF assms(1,5) I] by (simp add: control_inv_def)
qed

theorem control_phase_safe_witness:
  "\<exists>w'. same_thread_worker sample_os 3 (control_phase sample_start) = Inr w'"
proof -
  have t: "3 \<in> phase_threads 0" by (simp add: phase_threads_def THREADS_def)
  have r: "run_phase_control sample_os 0 sample_start [] (control_phase sample_start)"
    by (simp add: run_phase_control_def)
  have g: "supplied sample_os (mappings (meta (sp (same_heap (control_phase sample_start)))))"
    using sample_start_supplied by (simp add: control_phase_def)
  show ?thesis using control_phase_safe [OF sample_os_ok sample_start_run _ r t] g by simp
qed

end
