(* ===== verification/XThreadTurn.thy ===== *)
theory XThreadTurn
  imports XThreadSerial XThreadTheorems
begin

text \<open>
  The phases of \<open>bench/xthread_repro.c\<close> when their threads take turns, each running to its end
  before the next starts: a schedule under which both worker functions complete, whatever blocks
  the experiment hands from one thread to the next. It shows that the properties of the phases
  and of \<open>main\<close> speak of runs that exist.
\<close>

section \<open>Blocks held in slots\<close>

definition slots_hold :: "ptr list \<Rightarrow> nat set \<Rightarrow> ptr set \<Rightarrow> bool" where
  "slots_hold xs H B \<longleftrightarrow> length xs = SLOTS \<and> H \<subseteq> {..<SLOTS} \<and>
     inj_on ((!) xs) (full_slots xs H) \<and> B = (!) xs ` full_slots xs H"

lemma slots_hold_card:
  assumes "slots_hold xs H B"
  shows "finite B" "card B \<le> SLOTS"
proof -
  have f: "full_slots xs H \<subseteq> {..<SLOTS}" using assms by (auto simp: slots_hold_def full_slots_def)
  then show "finite B" using assms finite_subset by (auto simp: slots_hold_def)
  have "card B \<le> card (full_slots xs H)"
    using assms f finite_subset by (auto simp: slots_hold_def intro!: card_image_le)
  also have "\<dots> \<le> card {..<SLOTS}" by (rule card_mono [OF _ f]) simp
  finally show "card B \<le> SLOTS" by simp
qed

lemma slots_hold_empty:
  assumes "H \<subseteq> {..<SLOTS}"
  shows "slots_hold (replicate SLOTS NULL) H {}"
proof -
  have "full_slots (replicate SLOTS NULL) H = {}" using assms by (auto simp: full_slots_def)
  then show ?thesis using assms by (simp add: slots_hold_def)
qed

lemma slots_hold_member: "slots_hold xs H B \<Longrightarrow> k \<in> H \<Longrightarrow> xs ! k \<noteq> NULL \<Longrightarrow> xs ! k \<in> B"
  by (simp add: slots_hold_def full_slots_def)

lemma slots_hold_remove:
  assumes "slots_hold xs H B" "k \<in> H"
  shows "slots_hold xs (H - {k}) (B - {xs ! k})"
proof (cases "xs ! k = NULL")
  case True
  then have "full_slots xs (H - {k}) = full_slots xs H" "NULL \<notin> (!) xs ` full_slots xs H"
    by (auto simp: full_slots_def)
  then show ?thesis using assms True by (auto simp: slots_hold_def)
next
  case False
  then have "k \<in> full_slots xs H" using assms(2) by (simp add: full_slots_def)
  then show ?thesis
    using assms(1) unfolding slots_hold_def full_slots_remove by (auto simp: inj_on_diff dest: inj_onD)
qed

lemma slots_hold_add:
  assumes "slots_hold xs (H - {k}) B" "k \<in> H" "k < SLOTS" "p \<noteq> NULL" "p \<notin> B"
  shows "slots_hold (xs[k := p]) H (insert p B)"
proof -
  have k: "k < length xs" and S: "length xs = SLOTS" "H - {k} \<subseteq> {..<SLOTS}"
    "inj_on ((!) xs) (full_slots xs (H - {k}))" "B = (!) xs ` full_slots xs (H - {k})"
    using assms(1,3) by (simp_all add: slots_hold_def)
  have f: "full_slots (xs[k := p]) H = insert k (full_slots xs (H - {k}))"
    using assms(2,4) k by (auto simp: full_slots_def nth_list_update)
  have eq: "xs[k := p] ! j = xs ! j" if "j \<in> full_slots xs (H - {k})" for j
    using that by (auto simp: full_slots_def)
  then have im: "(!) (xs[k := p]) ` full_slots xs (H - {k}) = B" unfolding S(4) by (intro image_cong) simp_all
  have at: "xs[k := p] ! k = p" using k by simp
  have "(!) (xs[k := p]) ` (full_slots xs (H - {k}) - {k}) \<subseteq> B"
    unfolding im [symmetric] by (rule image_mono) blast
  then have "xs[k := p] ! k \<notin> (!) (xs[k := p]) ` (full_slots xs (H - {k}) - {k})"
    unfolding at using assms(5) by (rule contra_subsetD)
  moreover have "inj_on ((!) (xs[k := p])) (full_slots xs (H - {k}))"
    using S(3) eq by (simp add: inj_on_def)
  ultimately have "inj_on ((!) (xs[k := p])) (insert k (full_slots xs (H - {k})))"
    unfolding inj_on_insert by blast
  moreover have "H \<subseteq> {..<SLOTS}" using S(2) assms(3) by auto
  ultimately show ?thesis using S(1) im at unfolding slots_hold_def f by simp
qed

lemma slots_hold_clear:
  assumes "slots_hold xs H B" "k \<in> H"
  shows "slots_hold (xs[k := NULL]) H (B - {xs ! k})"
proof -
  note r = slots_hold_remove [OF assms]
  have k: "k < length xs" using assms by (auto simp: slots_hold_def)
  have f: "full_slots (xs[k := NULL]) H = full_slots xs (H - {k})"
    using k by (auto simp: full_slots_def nth_list_update)
  have eq: "xs[k := NULL] ! j = xs ! j" if "j \<in> full_slots xs (H - {k})" for j
    using that by (auto simp: full_slots_def)
  then have "(!) (xs[k := NULL]) ` full_slots xs (H - {k}) = (!) xs ` full_slots xs (H - {k})"
    by (intro image_cong) simp_all
  moreover have "inj_on ((!) (xs[k := NULL])) (full_slots xs (H - {k}))"
    using r eq by (simp add: inj_on_def slots_hold_def)
  ultimately show ?thesis using r assms by (simp add: slots_hold_def f)
qed

section \<open>Runs of one thread\<close>

text \<open>The class of the blocks has room for all slots and a block more in one span.\<close>

abbreviation block_class :: nat where
  "block_class \<equiv> first_fit BLOCK_SZ"

lemma block_class_count: "unat (SIZE_CLASS_BLOCK_COUNT ! block_class) = 1024"
proof -
  have "first_fit BLOCK_SZ = 3" by (simp add: first_fit_def SIZE_CLASSES_def BLOCK_SZ_def)
  then show ?thesis by (simp add: SIZE_CLASS_BLOCK_COUNT_def)
qed

lemma few_slots: "n \<le> SLOTS + 1 \<Longrightarrow> n + 2 \<le> unat (SIZE_CLASS_BLOCK_COUNT ! block_class)"
  by (simp add: block_class_count SLOTS_def)

lemma run_threads_append:
  "run_threads go (ts @ us) w = bindr (run_threads go ts w) (run_threads go us)"
proof (induction ts arbitrary: w)
  case (Cons t ts)
  show ?case by (cases "go t w") (simp_all add: Cons.IH)
qed simp

lemma run_thread_alone:
  assumes "\<And>w. P w \<Longrightarrow> \<exists>w'. go t w = Inr w' \<and> P w'"
  shows "P w \<Longrightarrow> \<exists>w'. run_threads go (replicate n t) w = Inr w' \<and> P w'"
proof (induction n arbitrary: w)
  case (Suc n)
  obtain v where v: "go t w = Inr v" "P v" using assms [OF Suc.prems] by blast
  with Suc.IH [OF v(2)] show ?case by simp
qed simp

text \<open>A call on a slot.\<close>

lemma serial_slot_free:
  assumes S: "serial os Q block_class t B s" and B: "finite B" "card B \<le> SLOTS + 1" and p: "p \<noteq> NULL \<longrightarrow> p \<in> B"
    and n: "NULL \<notin> B"
  obtains s' where "(if p \<noteq> NULL then cfree os t p s else Inr s) = Inr s'" "serial os Q block_class t (B - {p}) s'"
proof (cases "p = NULL")
  case True
  then show thesis using S n by (intro that [of s]) auto
next
  case False
  have "card B < unat (SIZE_CLASS_BLOCK_COUNT ! block_class)" using few_slots [OF B(2)] by simp
  from serial_free [OF S _ B(1) this, of p] p False show thesis using that by auto
qed

lemma slots_hold_null: "slots_hold xs H B \<Longrightarrow> NULL \<notin> B"
  by (auto simp: slots_hold_def full_slots_def)

section \<open>A thread of the control, alone\<close>

definition control_alone :: "platform \<Rightarrow> (mapping_list \<Rightarrow> bool) \<Rightarrow> nat \<Rightarrow> nat \<Rightarrow> (nat \<Rightarrow> same_worker) \<Rightarrow> same_phase \<Rightarrow> bool" where
  "control_alone os Q t c W w \<longleftrightarrow> same_oom w = c \<and> (\<forall>u. u \<noteq> t \<longrightarrow> same_workers w u = W u) \<and>
     (\<exists>B. slots_hold (live_slots (same_workers w t)) (held_slots (same_workers w t)) B \<and>
       serial os Q block_class t B (same_heap w))"

lemma control_alone_put:
  assumes "control_alone os Q t c W w" "slots_hold (live_slots v) (held_slots v) B" "serial os Q block_class t B s"
  shows "control_alone os Q t c W (w\<lparr>same_heap := s, same_workers := (same_workers w)(t := v)\<rparr>)"
  using assms by (auto simp: control_alone_def)

lemma control_alone_step:
  assumes C: "control_alone os Q t c W w"
  shows "\<exists>w'. same_thread_worker os t w = Inr w' \<and> control_alone os Q t c W w'"
proof -
  define v where "v = same_workers w t"
  obtain B where B: "slots_hold (live_slots v) (held_slots v) B" "serial os Q block_class t B (same_heap w)"
    using C unfolding control_alone_def v_def by blast
  note cb = slots_hold_card [OF B(1)] and nb = slots_hold_null [OF B(1)]
  have free: "\<exists>s. (if live_slots v ! k \<noteq> NULL then cfree os t (live_slots v ! k) (same_heap w)
      else Inr (same_heap w)) = Inr s \<and> control_alone os Q t c W
        (w\<lparr>same_heap := s, same_workers := (same_workers w)(t := v')\<rparr>)"
    if k: "k \<in> held_slots v" and v': "live_slots v' = live_slots v" "held_slots v' = held_slots v - {k}" for k v'
  proof -
    obtain s where s: "(if live_slots v ! k \<noteq> NULL then cfree os t (live_slots v ! k) (same_heap w)
        else Inr (same_heap w)) = Inr s" "serial os Q block_class t (B - {live_slots v ! k}) s"
      by (rule serial_slot_free [OF B(2) cb(1) _ _ nb]) (use cb(2) slots_hold_member [OF B(1) k] in auto)
    show ?thesis
      using s(1) control_alone_put [OF C _ s(2), of v'] slots_hold_remove [OF B(1) k] v' by auto
  qed
  have stay: "control_alone os Q t c W (w\<lparr>same_workers := (same_workers w)(t := v')\<rparr>)"
    if "live_slots v' = live_slots v" "held_slots v' = held_slots v" for v'
    using control_alone_put [OF C _ B(2), of v'] B(1) that by simp
  note step = same_thread_worker_def v_def [symmetric] Let_def
  show ?thesis
  proof (cases "same_at v")
    case Same_Evict
    show ?thesis
    proof (cases "same_i v < ROUNDS")
      case True
      obtain s where "(if live_slots v ! (same_i v mod SLOTS) \<noteq> NULL
          then cfree os t (live_slots v ! (same_i v mod SLOTS)) (same_heap w) else Inr (same_heap w)) = Inr s"
        "control_alone os Q t c W
          (w\<lparr>same_heap := s, same_workers := (same_workers w)(t := v\<lparr>same_at := Same_Allocate\<rparr>)\<rparr>)"
        using free [of "same_i v mod SLOTS" "v\<lparr>same_at := Same_Allocate\<rparr>"]
        by (auto simp: held_slots_def Same_Evict slot_bound)
      then show ?thesis using Same_Evict True by (simp add: step split del: if_split)
    next
      case False
      then show ?thesis using stay [of "v\<lparr>same_at := Same_Drain, same_i := 0\<rparr>"] Same_Evict
        by (simp add: step held_slots_def atLeast0LessThan)
    qed
  next
    case Same_Allocate
    let ?k = "same_i v mod SLOTS"
    obtain p s where p: "cmalloc os t BLOCK_SZ (same_heap w) = Inr (p, s)" "p \<noteq> NULL" "p \<notin> B"
      "serial os Q block_class t (insert p B) s"
      by (rule serial_malloc [OF B(2) block_sz refl cb(1) few_slots]) (use cb(2) in simp)
    have "slots_hold ((live_slots v)[?k := p]) {..<SLOTS} (insert p B)"
      by (rule slots_hold_add) (use B(1) p(2,3) slot_bound in \<open>simp_all add: held_slots_def Same_Allocate\<close>)
    then show ?thesis
      using p(1,2) control_alone_put [OF C _ p(4), of
          "v\<lparr>live_slots := (live_slots v)[?k := p], same_at := Same_Evict, same_i := Suc (same_i v)\<rparr>"] Same_Allocate
      by (simp add: step held_slots_def)
  next
    case Same_Drain
    show ?thesis
    proof (cases "same_i v < SLOTS")
      case True
      obtain s where "(if live_slots v ! same_i v \<noteq> NULL
          then cfree os t (live_slots v ! same_i v) (same_heap w) else Inr (same_heap w)) = Inr s"
        "control_alone os Q t c W
          (w\<lparr>same_heap := s, same_workers := (same_workers w)(t := v\<lparr>same_i := Suc (same_i v)\<rparr>)\<rparr>)"
      proof -
        have h: "{Suc (same_i v)..<SLOTS} = {same_i v..<SLOTS} - {same_i v}" by auto
        show thesis using free [of "same_i v" "v\<lparr>same_i := Suc (same_i v)\<rparr>"] True that
          by (auto simp: held_slots_def Same_Drain h)
      qed
      then show ?thesis using Same_Drain True by (simp add: step split del: if_split)
    next
      case False
      then show ?thesis using stay [of "v\<lparr>same_at := Same_Returned\<rparr>"] Same_Drain
        by (simp add: step held_slots_def)
    qed
  next
    case Same_Returned
    then show ?thesis using C by (simp add: step)
  qed
qed


section \<open>Turns\<close>

text \<open>The bound on the steps of any thread, and the schedule that gives each thread of a phase that
  many, one thread after the other.\<close>

definition thread_steps :: nat where
  "thread_steps = 5 * ROUNDS + 1"

definition in_turn :: "nat \<Rightarrow> nat list" where
  "in_turn first = concat (map (replicate thread_steps) [first..<first + THREADS])"

lemma count_in_turn: "distinct ts \<Longrightarrow> t \<in> set ts \<Longrightarrow> count_list (concat (map (replicate n) ts)) t = n"
proof (induction ts)
  case (Cons u ts)
  have "count_list (concat (map (replicate n) ts)) t = 0" if "t \<notin> set ts"
    using that by (intro count_notin) auto
  moreover have "count_list (replicate n u) t = (if u = t then n else 0)" by (induction n) auto
  ultimately show ?case using Cons by auto
qed simp

lemma in_turn_threads: "set (in_turn first) \<subseteq> phase_threads first"
  by (auto simp: in_turn_def phase_threads_def)

lemma in_turn_count: "t \<in> phase_threads first \<Longrightarrow> count_list (in_turn first) t = thread_steps"
  unfolding in_turn_def phase_threads_def by (rule count_in_turn) auto

lemma control_steps: "same_left t (control_phase s) = 2 * ROUNDS + SLOTS + 2" "2 * ROUNDS + SLOTS + 2 \<le> thread_steps"
  by (simp_all add: same_left_def control_phase_def same_start_def ROUNDS_def SLOTS_def thread_steps_def)

lemma cross_steps: "cross_left t (cross_phase_start s) = thread_steps"
  by (simp add: cross_left_def cross_phase_start_def cross_start_def thread_steps_def)

lemma cross_left_zero: "cross_left t w = 0 \<longleftrightarrow> cross_at (cross_workers w t) = Cross_Returned"
  by (simp add: cross_left_def Let_def split: cross_pc.splits)

lemma turns:
  assumes "\<And>n t w. I (Suc n) t w \<Longrightarrow> \<exists>w'. run_threads go (replicate k t) w = Inr w' \<and> I n (Suc t) w'"
  shows "I (n + m) t w \<Longrightarrow> \<exists>w'. run_threads go (concat (map (replicate k) [t..<t + m])) w = Inr w' \<and> I n (t + m) w'"
proof (induction m arbitrary: t w)
  case (Suc m)
  have "[t..<t + Suc m] = t # [Suc t..<Suc t + m]" by (simp add: upt_conv_Cons)
  then have u: "concat (map (replicate k) [t..<t + Suc m]) =
      replicate k t @ concat (map (replicate k) [Suc t..<Suc t + m])" by (simp del: upt_Suc)
  have "I (Suc (n + m)) t w" using Suc.prems by simp
  from assms [OF this] obtain v where v: "run_threads go (replicate k t) w = Inr v" "I (n + m) (Suc t) v" by blast
  from Suc.IH [OF v(2)] v(1) show ?case unfolding u run_threads_append by (simp del: upt_Suc)
qed simp

text \<open>The thread \<open>t\<close> is about to start and the system grants memory for it and \<open>n\<close> more.\<close>

definition idle :: "platform \<Rightarrow> nat \<Rightarrow> nat \<Rightarrow> ptr set \<Rightarrow> cm_state \<Rightarrow> bool" where
  "idle os n t B s \<longleftrightarrow> serial os (grants os n) block_class t B s \<and> thread_local_bin s t block_class = NULL"

lemma idle_forget: "idle os n t B s \<Longrightarrow> idle os n t {} s"
  unfolding idle_def using serial_forget by blast

lemma idle_next: "serial os (grants os (Suc n)) block_class t B s \<Longrightarrow> idle os n (Suc t) B s"
  unfolding idle_def grants.simps using serial_next [of os _ _ t B s "Suc t"] by simp

section \<open>The control in turns\<close>

definition control_turn :: "platform \<Rightarrow> nat \<Rightarrow> nat \<Rightarrow> nat \<Rightarrow> same_phase \<Rightarrow> bool" where
  "control_turn os first n t w \<longleftrightarrow> idle os n t {} (same_heap w) \<and> same_oom w = 0 \<and>
     (\<forall>u \<ge> t. same_workers w u = same_start) \<and>
     (\<forall>u \<in> {first..<t}. same_at (same_workers w u) = Same_Returned)"

lemma count_replicate_same: "count_list (replicate n t) t = n"
  by (induction n) simp_all

lemma control_turn_step:
  assumes C: "control_turn os first (Suc n) t w"
  shows "\<exists>w'. run_threads (same_thread_worker os) (replicate thread_steps t) w = Inr w' \<and> control_turn os first n (Suc t) w'"
proof -
  let ?P = "control_alone os (grants os (Suc n)) t 0 (same_workers w)"
  have w: "same_workers w t = same_start" "serial os (grants os (Suc n)) block_class t {} (same_heap w)" "same_oom w = 0"
    using C by (simp_all add: control_turn_def idle_def)
  have "slots_hold (live_slots same_start) (held_slots same_start) {}"
    unfolding same_start_def held_slots_def by (simp add: slots_hold_empty)
  then have "?P w" using w unfolding control_alone_def by auto
  then obtain v where v: "run_threads (same_thread_worker os) (replicate thread_steps t) w = Inr v" "?P v"
    using run_thread_alone [of ?P "same_thread_worker os" t w thread_steps, OF control_alone_step] by blast
  have "same_left t w \<le> thread_steps" using w(1) control_steps by (simp add: same_left_def control_phase_def)
  then have r: "same_at (same_workers v t) = Same_Returned"
    using control.returned [OF v(1), of t] by (simp add: count_replicate_same same_left_zero)
  then have "serial os (grants os (Suc n)) block_class t {} (same_heap v)"
    using v(2) by (auto simp: control_alone_def held_slots_def slots_hold_def full_slots_def)
  then have "idle os n (Suc t) {} (same_heap v)" by (rule idle_next)
  moreover have "same_workers v u = same_workers w u" if "u \<noteq> t" for u using v(2) that by (simp add: control_alone_def)
  ultimately have "control_turn os first n (Suc t) v"
    using C v(2) r by (auto simp: control_turn_def control_alone_def less_Suc_eq)
  with v(1) show ?thesis by blast
qed

lemma control_in_turn:
  assumes "idle os (n + THREADS) first {} s"
  obtains w where "run_phase_control os first s (in_turn first) w" "same_oom w = 0"
    "\<forall>t \<in> phase_threads first. same_at (same_workers w t) = Same_Returned" "idle os n (first + THREADS) {} (same_heap w)"
proof -
  have "control_turn os first (n + THREADS) first (control_phase s)"
    using assms by (simp add: control_turn_def control_phase_def)
  from turns [of "control_turn os first" "same_thread_worker os" thread_steps, OF control_turn_step this]
  obtain w where "run_threads (same_thread_worker os) (in_turn first) (control_phase s) = Inr w"
    "control_turn os first n (first + THREADS) w" unfolding in_turn_def by blast
  then show thesis using that [of w] in_turn_threads
    by (simp add: run_phase_control_def control_turn_def phase_threads_def)
qed

section \<open>The experiment in turns\<close>

definition cross_alone :: "platform \<Rightarrow> (mapping_list \<Rightarrow> bool) \<Rightarrow> nat \<Rightarrow> nat \<Rightarrow> (nat \<Rightarrow> cross_worker) \<Rightarrow> cross_phase \<Rightarrow> bool" where
  "cross_alone os Q t c W w \<longleftrightarrow> cross_oom w = c \<and> (\<forall>u. u \<noteq> t \<longrightarrow> cross_workers w u = W u) \<and>
     (let v = cross_workers w t; empty = (shared_slot w ! (cross_i v mod SLOTS) = NULL)
      in \<exists>B. slots_hold (shared_slot w) {..<SLOTS} B \<and>
        (case cross_at v of
           Cross_Take \<Rightarrow> serial os Q block_class t B (cross_heap w)
         | Cross_Free_Taken \<Rightarrow> empty \<and> taken v \<notin> B \<and>
             serial os Q block_class t (if taken v = NULL then B else insert (taken v) B) (cross_heap w)
         | Cross_Allocate \<Rightarrow> empty \<and> serial os Q block_class t B (cross_heap w)
         | Cross_Publish \<Rightarrow> empty \<and> block v \<noteq> NULL \<and> block v \<notin> B \<and>
             serial os Q block_class t (insert (block v) B) (cross_heap w)
         | Cross_Free_Evicted \<Rightarrow> evicted v = NULL \<and> serial os Q block_class t B (cross_heap w)
         | Cross_Returned \<Rightarrow> serial os Q block_class t B (cross_heap w)))"

lemma cross_alone_step:
  assumes C: "cross_alone os Q t c W w"
  shows "\<exists>w'. cross_thread_worker os t w = Inr w' \<and> cross_alone os Q t c W w'"
proof -
  define v where "v = cross_workers w t"
  let ?k = "cross_i v mod SLOTS" and ?xs = "shared_slot w"
  have k: "?k \<in> {..<SLOTS}" using slot_bound by simp
  obtain B where B: "slots_hold ?xs {..<SLOTS} B"
    and P: "case cross_at v of
           Cross_Take \<Rightarrow> serial os Q block_class t B (cross_heap w)
         | Cross_Free_Taken \<Rightarrow> ?xs ! ?k = NULL \<and> taken v \<notin> B \<and>
             serial os Q block_class t (if taken v = NULL then B else insert (taken v) B) (cross_heap w)
         | Cross_Allocate \<Rightarrow> ?xs ! ?k = NULL \<and> serial os Q block_class t B (cross_heap w)
         | Cross_Publish \<Rightarrow> ?xs ! ?k = NULL \<and> block v \<noteq> NULL \<and> block v \<notin> B \<and>
             serial os Q block_class t (insert (block v) B) (cross_heap w)
         | Cross_Free_Evicted \<Rightarrow> evicted v = NULL \<and> serial os Q block_class t B (cross_heap w)
         | Cross_Returned \<Rightarrow> serial os Q block_class t B (cross_heap w)"
    using C unfolding cross_alone_def v_def [symmetric] Let_def by blast
  note cb = slots_hold_card [OF B] and nb = slots_hold_null [OF B]
  have len: "?k < length ?xs" using B k by (simp add: slots_hold_def)
  have keep: "cross_oom w = c" "\<forall>u. u \<noteq> t \<longrightarrow> cross_workers w u = W u" using C by (simp_all add: cross_alone_def)
  note goes = cross_thread_worker_def v_def [symmetric] Let_def and inv = cross_alone_def Let_def keep
  show ?thesis
  proof (cases "cross_at v")
    case Cross_Take
    have S: "serial os Q block_class t B (cross_heap w)" using P Cross_Take by simp
    show ?thesis
    proof (cases "cross_i v < ROUNDS")
      case True
      let ?q = "?xs ! ?k"
      have "(if ?q = NULL then B - {?q} else insert ?q (B - {?q})) = B"
        using slots_hold_member [OF B k] nb by auto
      then show ?thesis using Cross_Take True slots_hold_clear [OF B k] S len by (auto simp: goes inv)
    next
      case False
      then show ?thesis using Cross_Take B S by (auto simp: goes inv)
    qed
  next
    case Cross_Free_Taken
    let ?B = "if taken v = NULL then B else insert (taken v) B"
    have S: "?xs ! ?k = NULL" "taken v \<notin> B" "serial os Q block_class t ?B (cross_heap w)"
      using P Cross_Free_Taken by simp_all
    have few: "card ?B \<le> SLOTS + 1" "finite ?B" "NULL \<notin> ?B" using cb nb by (simp_all add: card_insert_if)
    obtain s where s: "(if taken v \<noteq> NULL then cfree os t (taken v) (cross_heap w) else Inr (cross_heap w)) = Inr s"
      "serial os Q block_class t (?B - {taken v}) s"
      by (rule serial_slot_free [OF S(3) few(2,1) _ few(3), of "taken v"]) simp_all
    have "?B - {taken v} = B" using S(2) by auto
    then show ?thesis using Cross_Free_Taken s S(1) B by (auto simp: goes inv split del: if_split)
  next
    case Cross_Allocate
    have S: "?xs ! ?k = NULL" "serial os Q block_class t B (cross_heap w)" using P Cross_Allocate by simp_all
    obtain p s where "cmalloc os t BLOCK_SZ (cross_heap w) = Inr (p, s)" "p \<noteq> NULL" "p \<notin> B"
      "serial os Q block_class t (insert p B) s"
      by (rule serial_malloc [OF S(2) block_sz refl cb(1) few_slots]) (use cb(2) in simp)
    then show ?thesis using Cross_Allocate S(1) B by (auto simp: goes inv)
  next
    case Cross_Publish
    have S: "?xs ! ?k = NULL" "block v \<noteq> NULL" "block v \<notin> B" "serial os Q block_class t (insert (block v) B) (cross_heap w)"
      using P Cross_Publish by simp_all
    have "slots_hold ?xs ({..<SLOTS} - {?k}) B" using slots_hold_remove [OF B k] S(1) nb by simp
    from slots_hold_add [OF this k _ S(2,3)] k have "slots_hold (?xs[?k := block v]) {..<SLOTS} (insert (block v) B)" by simp
    then show ?thesis using Cross_Publish S(1,4) by (auto simp: goes inv)
  next
    case Cross_Free_Evicted
    then show ?thesis using P B by (auto simp: goes inv)
  next
    case Cross_Returned
    then show ?thesis using C by (simp add: goes)
  qed
qed


definition cross_turn :: "platform \<Rightarrow> nat \<Rightarrow> nat \<Rightarrow> nat \<Rightarrow> cross_phase \<Rightarrow> bool" where
  "cross_turn os first n t w \<longleftrightarrow>
     (\<exists>B. slots_hold (shared_slot w) {..<SLOTS} B \<and> idle os n t B (cross_heap w)) \<and> cross_oom w = 0 \<and>
     (\<forall>u \<ge> t. cross_workers w u = cross_start) \<and>
     (\<forall>u \<in> {first..<t}. cross_at (cross_workers w u) = Cross_Returned)"

lemma cross_turn_step:
  assumes C: "cross_turn os first (Suc n) t w"
  shows "\<exists>w'. run_threads (cross_thread_worker os) (replicate thread_steps t) w = Inr w' \<and> cross_turn os first n (Suc t) w'"
proof -
  let ?P = "cross_alone os (grants os (Suc n)) t 0 (cross_workers w)"
  obtain B where B: "slots_hold (shared_slot w) {..<SLOTS} B" "serial os (grants os (Suc n)) block_class t B (cross_heap w)"
    using C by (auto simp: cross_turn_def idle_def)
  have w: "cross_workers w t = cross_start" "cross_oom w = 0" using C by (simp_all add: cross_turn_def)
  have "?P w" using w B unfolding cross_alone_def by (auto simp: cross_start_def)
  then obtain v where v: "run_threads (cross_thread_worker os) (replicate thread_steps t) w = Inr v" "?P v"
    using run_thread_alone [of ?P "cross_thread_worker os" t w thread_steps, OF cross_alone_step] by blast
  have "cross_left t w \<le> thread_steps" using w(1) by (simp add: cross_left_def cross_start_def thread_steps_def)
  then have r: "cross_at (cross_workers v t) = Cross_Returned"
    using crossing.returned [OF v(1), of t] by (simp add: count_replicate_same cross_left_zero)
  then obtain B' where B': "slots_hold (shared_slot v) {..<SLOTS} B'"
    "serial os (grants os (Suc n)) block_class t B' (cross_heap v)"
    using v(2) by (auto simp: cross_alone_def Let_def)
  from idle_next [OF B'(2)] B'(1) have "\<exists>B. slots_hold (shared_slot v) {..<SLOTS} B \<and> idle os n (Suc t) B (cross_heap v)"
    by blast
  moreover have "cross_workers v u = cross_workers w u" if "u \<noteq> t" for u using v(2) that by (simp add: cross_alone_def)
  ultimately have "cross_turn os first n (Suc t) v"
    using C v(2) r by (auto simp: cross_turn_def cross_alone_def less_Suc_eq)
  with v(1) show ?thesis by blast
qed

lemma cross_in_turn:
  assumes "idle os (n + THREADS) first {} s"
  obtains w where "run_phase_cross os first s (in_turn first) w" "cross_oom w = 0"
    "\<forall>t \<in> phase_threads first. cross_at (cross_workers w t) = Cross_Returned" "idle os n (first + THREADS) {} (cross_heap w)"
proof -
  have "cross_turn os first (n + THREADS) first (cross_phase_start s)"
    using assms slots_hold_empty by (auto simp: cross_turn_def cross_phase_start_def)
  from turns [of "cross_turn os first" "cross_thread_worker os" thread_steps, OF cross_turn_step this]
  obtain w where "run_threads (cross_thread_worker os) (in_turn first) (cross_phase_start s) = Inr w"
    "cross_turn os first n (first + THREADS) w" unfolding in_turn_def by blast
  then show thesis using that [of w] in_turn_threads idle_forget
    by (auto simp: run_phase_cross_def cross_turn_def phase_threads_def)
qed

section \<open>The sample system\<close>

lemma sample_idle: "n \<le> 120 \<Longrightarrow> idle sample_os n 0 {} sample_start"
proof -
  assume n: "n \<le> 120"
  have "sample_top [] + Suc n * 2 ^ 38 \<le> 2 ^ 45" using n by (simp add: sample_top_def)
  then have "supplied_with sample_os (grants sample_os n) []" using sample_grants [of "[]" "Suc n"] by simp
  from serial_start [OF sample_os_ok this] show ?thesis
    by (simp add: idle_def cmalloc_constructor_def cm_zero_def Let_def)
qed

section \<open>The end of the control\<close>

lemma control_clean:
  assumes "os_ok os" "heap_run os s L" "\<forall>(q, m, u) \<in> L. u \<notin> phase_threads first"
    and "run_phase_control os first s sched w"
    and d: "\<forall>t \<in> phase_threads first. same_at (same_workers w t) = Same_Returned"
  shows "same_oom w = 0" "heap_run os (same_heap w) L"
proof -
  note I = control_inv_run [OF assms(1-4)]
  have "worker_blocks t (same_workers w t) = {}" if "t \<in> phase_threads first" for t
    using that d by (simp add: worker_blocks_def slot_blocks_def full_slots_def held_slots_def)
  then have "L \<union> (\<Union>t \<in> phase_threads first. worker_blocks t (same_workers w t)) = L" by auto
  with I show "same_oom w = 0" "heap_run os (same_heap w) L" by (simp_all add: control_inv_def)
qed

text \<open>C17: the control ends, from any state that permitted calls reach and in which its threads hold
  nothing. A thread that gets \<open>2 * ROUNDS + SLOTS + 2\<close> steps has returned, however the schedule mixes
  them, and when all threads have returned no \<open>cmalloc\<close> of theirs has returned \<open>NULL\<close> and the heap
  holds what it held before the phase: every block has been given back.\<close>

theorem control_phase_completes:
  assumes "os_ok os" "heap_run os s L" "\<forall>(q, m, u) \<in> L. u \<notin> phase_threads first"
    and "run_phase_control os first s sched w"
  shows "(\<forall>t \<in> phase_threads first. 2 * ROUNDS + SLOTS + 2 \<le> count_list sched t \<longrightarrow>
      same_at (same_workers w t) = Same_Returned) \<and>
    ((\<forall>t \<in> phase_threads first. same_at (same_workers w t) = Same_Returned) \<longrightarrow>
      same_oom w = 0 \<and> heap_run os (same_heap w) L)"
proof -
  have run: "run_threads (same_thread_worker os) sched (control_phase s) = Inr w"
    using assms(4) by (simp add: run_phase_control_def)
  have "same_at (same_workers w t) = Same_Returned" if "2 * ROUNDS + SLOTS + 2 \<le> count_list sched t" for t
    using control.returned [OF run, of t] that same_left_zero control_steps(1) by simp
  with control_clean [OF assms] show ?thesis by blast
qed

text \<open>The whole control, from the start of the program: its eight threads run one after the other.\<close>

theorem control_phase_completes_witness:
  "\<exists>w. run_phase_control sample_os 0 sample_start (in_turn 0) w \<and>
     (\<forall>t \<in> phase_threads 0. same_at (same_workers w t) = Same_Returned) \<and> same_oom w = 0 \<and>
     heap_run sample_os (same_heap w) {}"
proof -
  obtain w where w: "run_phase_control sample_os 0 sample_start (in_turn 0) w"
    using control_in_turn [of sample_os 0 0 sample_start] sample_idle [of THREADS] by (auto simp: THREADS_def)
  have L: "\<forall>(q, m, u) \<in> {}. u \<notin> phase_threads 0" by simp
  have "\<forall>t \<in> phase_threads 0. 2 * ROUNDS + SLOTS + 2 \<le> count_list (in_turn 0) t"
    using in_turn_count control_steps(2) by simp
  then show ?thesis
    using control_phase_completes [OF sample_os_ok sample_start_run L w] w by blast
qed

end
