(* ===== verification/XThreadMain.thy ===== *)
theory XThreadMain
  imports XThreadTurn
begin

text \<open>
  \<open>main\<close> of \<open>bench/xthread_repro.c\<close>: \<open>ATTEMPTS\<close> times a control phase and an experiment, on one
  heap, with the counts of \<open>NULL\<close> returns added up and the exit code taken from the second sum.
  A phase is given the schedule of its threads; \<open>pthread_join\<close> returns when every thread has, so a
  schedule that leaves a thread unfinished is a phase that does not return, the value \<open>None\<close>.
  What is printed is not modelled.
\<close>

definition ATTEMPTS :: nat where
  "ATTEMPTS = 5"

section \<open>A phase that is waited for\<close>

definition joined_control ::
  "platform \<Rightarrow> nat \<Rightarrow> cm_state \<Rightarrow> nat list \<Rightarrow> (fault + nat \<times> cm_state) option" where
  "joined_control os first s sched =
     (if \<not> set sched \<subseteq> phase_threads first then None
      else case run_threads (same_thread_worker os) sched (control_phase s) of
        Inl e \<Rightarrow> Some (Inl e)
      | Inr w \<Rightarrow>
          if \<forall>t \<in> phase_threads first. same_at (same_workers w t) = Same_Returned
          then Some (Inr (same_oom w, same_heap w)) else None)"

definition joined_cross ::
  "platform \<Rightarrow> nat \<Rightarrow> cm_state \<Rightarrow> nat list \<Rightarrow> (fault + nat \<times> cm_state) option" where
  "joined_cross os first s sched =
     (if \<not> set sched \<subseteq> phase_threads first then None
      else case run_threads (cross_thread_worker os) sched (cross_phase_start s) of
        Inl e \<Rightarrow> Some (Inl e)
      | Inr w \<Rightarrow>
          if \<forall>t \<in> phase_threads first. cross_at (cross_workers w t) = Cross_Returned
          then Some (Inr (cross_oom w, cross_heap w)) else None)"

section \<open>\<open>main\<close>\<close>

text \<open>
  Every phase creates \<open>THREADS\<close> threads, with identifiers from \<open>first\<close> on. A fault of a thread is a
  fault of the program.
\<close>

fun attempts :: "platform \<Rightarrow> nat \<Rightarrow> (nat list \<times> nat list) list \<Rightarrow> cm_state \<Rightarrow> nat \<Rightarrow> nat \<Rightarrow>
    (fault + (nat \<times> nat) \<times> cm_state) option" where
  "attempts os first [] s control cross = Some (Inr ((control, cross), s))"
| "attempts os first ((a, b) # rest) s control cross =
     Option.bind (joined_control os first s a) (case_sum (\<lambda>e. Some (Inl e)) (\<lambda>(m, s).
     Option.bind (joined_cross os (first + THREADS) s b) (case_sum (\<lambda>e. Some (Inl e)) (\<lambda>(n, s).
       attempts os (first + 2 * THREADS) rest s (control + m) (cross + n)))))"

definition main :: "platform \<Rightarrow> (nat list \<times> nat list) list \<Rightarrow> cm_state \<Rightarrow> (fault + int \<times> (nat \<times> nat) \<times> cm_state) option" where
  "main os scheds s =
     (if length scheds \<noteq> ATTEMPTS then None
      else map_option (map_sum id (\<lambda>((control, cross), s).
             (if cross > 0 then 1 else 0, (control, cross), s)))
        (attempts os 0 scheds s 0 0))"

text \<open>Schedules that give each thread of a phase as many steps as it can take.\<close>

definition fair_phase :: "nat \<Rightarrow> nat list \<Rightarrow> bool" where
  "fair_phase first sched \<longleftrightarrow> set sched \<subseteq> phase_threads first \<and>
     (\<forall>t \<in> phase_threads first. thread_steps \<le> count_list sched t)"

fun fair :: "nat \<Rightarrow> (nat list \<times> nat list) list \<Rightarrow> bool" where
  "fair first [] \<longleftrightarrow> True"
| "fair first ((a, b) # rest) \<longleftrightarrow>
     fair_phase first a \<and> fair_phase (first + THREADS) b \<and> fair (first + 2 * THREADS) rest"

section \<open>The phases return\<close>

lemma joined_control_returns:
  assumes "fair_phase first sched"
  shows "joined_control os first s sched \<noteq> None"
proof (cases "run_threads (same_thread_worker os) sched (control_phase s)")
  case (Inr w)
  have "same_left t w = 0" if "t \<in> phase_threads first" for t
    using control.returned [OF Inr, of t] assms that control_steps by (force simp: fair_phase_def)
  then show ?thesis using assms Inr by (simp add: joined_control_def fair_phase_def same_left_zero)
qed (use assms in \<open>simp add: joined_control_def fair_phase_def\<close>)

lemma joined_cross_returns:
  assumes "fair_phase first sched"
  shows "joined_cross os first s sched \<noteq> None"
proof (cases "run_threads (cross_thread_worker os) sched (cross_phase_start s)")
  case (Inr w)
  have "cross_left t w = 0" if "t \<in> phase_threads first" for t
    using crossing.returned [OF Inr, of t] assms that cross_steps by (force simp: fair_phase_def)
  then show ?thesis using assms Inr by (simp add: joined_cross_def fair_phase_def cross_left_zero)
qed (use assms in \<open>simp add: joined_cross_def fair_phase_def\<close>)

lemma attempts_return: "fair first scheds \<Longrightarrow> attempts os first scheds s control cross \<noteq> None"
proof (induction scheds arbitrary: first s control cross)
  case (Cons ab rest)
  obtain a b where ab: "ab = (a, b)" by fastforce
  have f: "fair_phase first a" "fair_phase (first + THREADS) b" "fair (first + 2 * THREADS) rest"
    using Cons.prems by (simp_all add: ab)
  note ih = Cons.IH [OF f(3)]
  obtain r where r: "joined_control os first s a = Some r" using joined_control_returns [OF f(1)] by blast
  show ?case
  proof (cases r)
    case (Inr mv)
    obtain q where q: "joined_cross os (first + THREADS) (snd mv) b = Some q"
      using joined_cross_returns [OF f(2)] by blast
    with r Inr ih show ?thesis by (cases q) (auto simp: ab split_beta)
  qed (use r in \<open>simp add: ab\<close>)
qed simp

section \<open>What a joined phase has done\<close>

definition control_done :: "nat \<Rightarrow> same_phase \<Rightarrow> bool" where
  "control_done first w \<longleftrightarrow> (\<forall>t \<in> phase_threads first. same_at (same_workers w t) = Same_Returned)"

definition cross_done :: "nat \<Rightarrow> cross_phase \<Rightarrow> bool" where
  "cross_done first w \<longleftrightarrow> (\<forall>t \<in> phase_threads first. cross_at (cross_workers w t) = Cross_Returned)"

lemma joined_control_iff:
  "joined_control os first s sched = Some (Inr (n, s')) \<longleftrightarrow>
     (\<exists>w. run_phase_control os first s sched w \<and> control_done first w \<and> n = same_oom w \<and> s' = same_heap w)"
  "joined_control os first s sched = Some (Inl e) \<longleftrightarrow>
     set sched \<subseteq> phase_threads first \<and> run_threads (same_thread_worker os) sched (control_phase s) = Inl e"
  by (auto simp: joined_control_def run_phase_control_def control_done_def split: sum.splits)

lemma joined_cross_iff:
  "joined_cross os first s sched = Some (Inr (n, s')) \<longleftrightarrow>
     (\<exists>w. run_phase_cross os first s sched w \<and> cross_done first w \<and> n = cross_oom w \<and> s' = cross_heap w)"
  "joined_cross os first s sched = Some (Inl e) \<longleftrightarrow>
     set sched \<subseteq> phase_threads first \<and> run_threads (cross_thread_worker os) sched (cross_phase_start s) = Inl e"
  by (auto simp: joined_cross_def run_phase_cross_def cross_done_def split: sum.splits)

text \<open>The counter of an experiment is the number of its workers that gave up before the last round.\<close>

definition gave_up :: "nat set \<Rightarrow> cross_phase \<Rightarrow> nat set" where
  "gave_up T w = {t \<in> T. cross_at (cross_workers w t) = Cross_Returned \<and> cross_i (cross_workers w t) < ROUNDS}"

definition cross_counted :: "nat set \<Rightarrow> cross_phase \<Rightarrow> bool" where
  "cross_counted T w \<longleftrightarrow> cross_oom w = card (gave_up T w) \<and>
     (\<forall>t \<in> T. cross_i (cross_workers w t) \<le> ROUNDS \<and>
        (cross_at (cross_workers w t) \<notin> {Cross_Take, Cross_Returned} \<longrightarrow> cross_i (cross_workers w t) < ROUNDS))"

lemma cross_counted_put:
  assumes C: "cross_counted T w" and t: "t \<in> T" "finite T" "cross_at (cross_workers w t) \<noteq> Cross_Returned"
    and w': "cross_workers w' = (cross_workers w)(t := v)"
      "cross_oom w' = cross_oom w + (if cross_at v = Cross_Returned \<and> cross_i v < ROUNDS then 1 else 0)"
    and v: "cross_i v \<le> ROUNDS" "cross_at v \<notin> {Cross_Take, Cross_Returned} \<Longrightarrow> cross_i v < ROUNDS"
  shows "cross_counted T w'"
proof -
  have "t \<notin> gave_up T w" using t(3) by (simp add: gave_up_def)
  moreover have "gave_up T w' =
      (if cross_at v = Cross_Returned \<and> cross_i v < ROUNDS then insert t (gave_up T w) else gave_up T w)"
    using t(1,3) by (auto simp: gave_up_def w'(1))
  moreover have "finite (gave_up T w)" using t(2) by (simp add: gave_up_def)
  ultimately have "cross_oom w' = card (gave_up T w')" using C w'(2) by (simp add: cross_counted_def)
  then show ?thesis using C v by (simp add: cross_counted_def w'(1))
qed

lemma cross_counted_step:
  assumes C: "cross_counted T w" and t: "t \<in> T" "finite T" and run: "cross_thread_worker os t w = Inr w'"
  shows "cross_counted T w'"
proof -
  define v where "v = cross_workers w t"
  have v: "cross_i v \<le> ROUNDS" "cross_at v \<notin> {Cross_Take, Cross_Returned} \<Longrightarrow> cross_i v < ROUNDS"
    using C t(1) by (simp_all add: cross_counted_def v_def)
  note R = run [unfolded cross_thread_worker_def v_def [symmetric] Let_def]
  show ?thesis
  proof (cases "cross_at v = Cross_Returned")
    case True
    then show ?thesis using R C by simp
  next
    case False
    note put = cross_counted_put [OF C t False [unfolded v_def]]
    let ?v = "cross_workers w' t"
    show ?thesis
    proof (rule put)
      show "cross_workers w' = (cross_workers w)(t := ?v)"
        using R by (cases "cross_at v") (auto elim!: bindr_InrE split: if_splits)
      show "cross_oom w' = cross_oom w + (if cross_at ?v = Cross_Returned \<and> cross_i ?v < ROUNDS then 1 else 0)"
        using R v False by (cases "cross_at v") (auto elim!: bindr_InrE split: if_splits)
      show "cross_i ?v \<le> ROUNDS"
        using R v False by (cases "cross_at v") (auto elim!: bindr_InrE split: if_splits)
      show "cross_i ?v < ROUNDS" if "cross_at ?v \<notin> {Cross_Take, Cross_Returned}"
        using R v False that by (cases "cross_at v") (auto elim!: bindr_InrE split: if_splits)
    qed
  qed
qed

lemma cross_counts_run:
  assumes "run_phase_cross os first s sched w" "cross_done first w"
  shows "cross_oom w = card {t \<in> phase_threads first. cross_i (cross_workers w t) < ROUNDS}"
proof -
  have r: "run_threads (cross_thread_worker os) sched (cross_phase_start s) = Inr w" "set sched \<subseteq> phase_threads first"
    using assms(1) by (simp_all add: run_phase_cross_def)
  have f: "finite (phase_threads first)" by (simp add: phase_threads_def)
  have start: "cross_counted (phase_threads first) (cross_phase_start s)"
    by (simp add: cross_counted_def gave_up_def cross_phase_start_def cross_start_def)
  have "cross_counted (phase_threads first) v'" if "t \<in> phase_threads first" "cross_counted (phase_threads first) v"
    "cross_thread_worker os t v = Inr v'" for t v v'
    by (rule cross_counted_step [OF that(2,1) f that(3)])
  from run_threads_invariant [of "phase_threads first" "cross_counted (phase_threads first)", OF this r start]
  have "cross_counted (phase_threads first) w" .
  moreover have "gave_up (phase_threads first) w = {t \<in> phase_threads first. cross_i (cross_workers w t) < ROUNDS}"
    using assms(2) by (auto simp: gave_up_def cross_done_def)
  ultimately show ?thesis by (simp add: cross_counted_def)
qed

section \<open>The attempts, one after the other\<close>

text \<open>
  \<open>H i\<close> is the heap before attempt \<open>i\<close>, \<open>C i\<close> and \<open>X i\<close> are the states in which its control and its
  experiment have been joined.
\<close>

definition attempts_run :: "platform \<Rightarrow> nat \<Rightarrow> (nat list \<times> nat list) list \<Rightarrow> (nat \<Rightarrow> cm_state) \<Rightarrow>
    (nat \<Rightarrow> same_phase) \<Rightarrow> (nat \<Rightarrow> cross_phase) \<Rightarrow> bool" where
  "attempts_run os first scheds H C X \<longleftrightarrow> (\<forall>i < length scheds.
     let f = first + 2 * THREADS * i
     in run_phase_control os f (H i) (fst (scheds ! i)) (C i) \<and> control_done f (C i) \<and>
        run_phase_cross os (f + THREADS) (same_heap (C i)) (snd (scheds ! i)) (X i) \<and> cross_done (f + THREADS) (X i) \<and>
        cross_heap (X i) = H (Suc i))"

lemma attempts_run_Cons:
  assumes "run_phase_control os first s a c" "control_done first c"
    "run_phase_cross os (first + THREADS) (same_heap c) b x" "cross_done (first + THREADS) x"
    and "attempts_run os (first + 2 * THREADS) rest H C X" "H 0 = cross_heap x"
  shows "attempts_run os first ((a, b) # rest) (case_nat s H) (case_nat c C) (case_nat x X)"
  unfolding attempts_run_def
proof (intro allI impI)
  fix i assume i: "i < length ((a, b) # rest)"
  show "let f = first + 2 * THREADS * i
     in run_phase_control os f (case_nat s H i) (fst (((a, b) # rest) ! i)) (case_nat c C i) \<and>
        control_done f (case_nat c C i) \<and>
        run_phase_cross os (f + THREADS) (same_heap (case_nat c C i)) (snd (((a, b) # rest) ! i)) (case_nat x X i) \<and>
        cross_done (f + THREADS) (case_nat x X i) \<and> cross_heap (case_nat x X i) = case_nat s H (Suc i)"
  proof (cases i)
    case 0
    then show ?thesis using assms by simp
  next
    case (Suc j)
    have e: "first + 2 * THREADS + 2 * THREADS * j = first + 2 * THREADS * Suc j" by simp
    show ?thesis
      using assms(5) [unfolded attempts_run_def Let_def, rule_format, of j] i unfolding Suc e Let_def by simp
  qed
qed

lemma attempts_value:
  assumes "attempts os first scheds s control cross = Some (Inr ((m, n), s'))"
  shows "\<exists>H C X. attempts_run os first scheds H C X \<and> H 0 = s \<and> H (length scheds) = s' \<and>
    m = control + (\<Sum>i < length scheds. same_oom (C i)) \<and> n = cross + (\<Sum>i < length scheds. cross_oom (X i))"
  using assms
proof (induction scheds arbitrary: first s control cross)
  case Nil
  then show ?case by (intro exI [of _ "\<lambda>_. s"]) (simp add: attempts_run_def)
next
  case (Cons ab rest)
  obtain a b where ab: "ab = (a, b)" by fastforce
  obtain c x where c: "run_phase_control os first s a c" "control_done first c"
    and x: "run_phase_cross os (first + THREADS) (same_heap c) b x" "cross_done (first + THREADS) x"
    and r: "attempts os (first + 2 * THREADS) rest (cross_heap x) (control + same_oom c) (cross + cross_oom x) =
      Some (Inr ((m, n), s'))"
  proof -
    obtain p where p: "joined_control os first s a = Some p"
      using Cons.prems by (cases "joined_control os first s a") (simp_all add: ab)
    obtain m1 s1 where 1: "p = Inr (m1, s1)" using Cons.prems p by (cases p) (auto simp: ab)
    obtain q where q: "joined_cross os (first + THREADS) s1 b = Some q"
      using Cons.prems p 1 by (cases "joined_cross os (first + THREADS) s1 b") (simp_all add: ab)
    obtain n1 s2 where 2: "q = Inr (n1, s2)" using Cons.prems p 1 q by (cases q) (auto simp: ab)
    have r: "attempts os (first + 2 * THREADS) rest s2 (control + m1) (cross + n1) = Some (Inr ((m, n), s'))"
      using Cons.prems p 1 q 2 by (simp add: ab)
    from p [unfolded 1 joined_control_iff] obtain c where "run_phase_control os first s a c" "control_done first c" "m1 = same_oom c" "s1 = same_heap c"
      by blast
    moreover from q [unfolded 2 joined_cross_iff] obtain x where "run_phase_cross os (first + THREADS) s1 b x" "cross_done (first + THREADS) x"
      "n1 = cross_oom x" "s2 = cross_heap x"
      by blast
    ultimately show thesis using r that [of c x] by simp
  qed
  obtain H C X where "attempts_run os (first + 2 * THREADS) rest H C X" "H 0 = cross_heap x" "H (length rest) = s'"
    "m = control + same_oom c + (\<Sum>i < length rest. same_oom (C i))"
    "n = cross + cross_oom x + (\<Sum>i < length rest. cross_oom (X i))"
    using Cons.IH [OF r] by blast
  with attempts_run_Cons [OF c x this(1,2)] show ?case
    by (intro exI [of _ "case_nat s H"] exI [of _ "case_nat c C"] exI [of _ "case_nat x X"])
       (simp add: ab sum.lessThan_Suc_shift del: sum.lessThan_Suc)
qed


text \<open>A fault in the control of an attempt, or in its experiment after the control was joined.\<close>

definition attempt_faults :: "platform \<Rightarrow> nat \<Rightarrow> cm_state \<Rightarrow> nat list \<times> nat list \<Rightarrow> fault \<Rightarrow> bool" where
  "attempt_faults os f s sched e \<longleftrightarrow>
     run_threads (same_thread_worker os) (fst sched) (control_phase s) = Inl e \<or>
     (\<exists>w. run_phase_control os f s (fst sched) w \<and> control_done f w \<and>
        run_threads (cross_thread_worker os) (snd sched) (cross_phase_start (same_heap w)) = Inl e)"

lemma attempts_fault:
  assumes "attempts os first scheds s control cross = Some (Inl e)"
  shows "\<exists>i < length scheds. \<exists>H C X. attempts_run os first (take i scheds) H C X \<and> H 0 = s \<and>
    attempt_faults os (first + 2 * THREADS * i) (H i) (scheds ! i) e"
  using assms
proof (induction scheds arbitrary: first s control cross)
  case (Cons ab rest)
  obtain a b where ab: "ab = (a, b)" by fastforce
  obtain p where p: "joined_control os first s a = Some p"
    using Cons.prems by (cases "joined_control os first s a") (simp_all add: ab)
  have here: ?case if "attempt_faults os first s ab e"
    using that by (intro exI [of _ 0] conjI exI [of _ "\<lambda>_. s"]) (simp_all add: attempts_run_def)
  show ?case
  proof (cases p)
    case (Inl d)
    then have "d = e" using Cons.prems p by (simp add: ab)
    with p [unfolded Inl joined_control_iff] here show ?thesis by (simp add: attempt_faults_def ab)
  next
    case (Inr ms)
    obtain m1 s1 where ms: "ms = (m1, s1)" by fastforce
    from p [unfolded Inr ms joined_control_iff] obtain c where
      c: "run_phase_control os first s a c" "control_done first c" "s1 = same_heap c" by blast
    obtain q where q: "joined_cross os (first + THREADS) s1 b = Some q"
      using Cons.prems p Inr ms by (cases "joined_cross os (first + THREADS) s1 b") (simp_all add: ab)
    show ?thesis
    proof (cases q)
      case (Inl d)
      then have "d = e" using Cons.prems p Inr ms q by (simp add: ab)
      with q [unfolded Inl joined_cross_iff] c here show ?thesis by (auto simp: attempt_faults_def ab)
    next
      case 2: (Inr ns)
      obtain n1 s2 where ns: "ns = (n1, s2)" by fastforce
      from q [unfolded 2 ns joined_cross_iff] obtain x where
        x: "run_phase_cross os (first + THREADS) s1 b x" "cross_done (first + THREADS) x" "s2 = cross_heap x" by blast
      have "attempts os (first + 2 * THREADS) rest s2 (control + m1) (cross + n1) = Some (Inl e)"
        using Cons.prems p Inr ms q 2 ns by (simp add: ab)
      from Cons.IH [OF this] obtain i H C X where i: "i < length rest"
        "attempts_run os (first + 2 * THREADS) (take i rest) H C X" "H 0 = s2"
        "attempt_faults os (first + 2 * THREADS + 2 * THREADS * i) (H i) (rest ! i) e" by blast
      have e: "first + 2 * THREADS + 2 * THREADS * i = first + 2 * THREADS * Suc i" by simp
      from attempts_run_Cons [OF c(1,2) x(1) [unfolded c(3)] x(2) i(2)] i(1,3,4) [unfolded e] x(3)
      show ?thesis
        by (intro exI [of _ "Suc i"] conjI exI [of _ "case_nat s H"] exI [of _ "case_nat c C"]
            exI [of _ "case_nat x X"]) (simp_all add: ab)
    qed
  qed
qed simp

section \<open>The outcome\<close>

text \<open>The workers of the experiment of attempt \<open>i\<close> that gave up.\<close>

lemma attempts_counts:
  assumes r: "attempts_run os 0 scheds H C X" and i: "i < length scheds"
  shows "cross_oom (X i) =
    card {t \<in> phase_threads (2 * THREADS * i + THREADS). cross_i (cross_workers (X i) t) < ROUNDS}"
proof -
  note run = r [unfolded attempts_run_def Let_def, rule_format, OF i]
  have "run_phase_cross os (2 * THREADS * i + THREADS) (same_heap (C i)) (snd (scheds ! i)) (X i)"
    "cross_done (2 * THREADS * i + THREADS) (X i)" using run by simp_all
  then show ?thesis by (rule cross_counts_run)
qed

lemma sum_card_pos:
  fixes S :: "nat \<Rightarrow> nat set"
  assumes "\<And>i. finite (S i)"
  shows "0 < (\<Sum>i < n. card {t \<in> S i. P i t}) \<longleftrightarrow> (\<exists>i < n. \<exists>t \<in> S i. P i t)"
  using assms by (simp add: zero_less_iff_neq_zero card_eq_0_iff) blast

text \<open>C18: from the start of the program, \<open>main\<close> ends under every schedule that gives each thread
  \<open>5 * ROUNDS + 1\<close> steps of its phase.
  Either some phase faults, after the attempts before it have been joined, and \<open>main\<close> ends with
  that fault; or there are heaps, final states of the five controls and final states of the five
  experiments, each phase run on the heap the one before it left, with all its threads returned,
  such that the first sum is what the controls counted, the second is the number of workers of the
  experiments that gave up before their last round, and the exit code is 1 exactly when there is
  such a worker. The first control counts nothing and gives all its blocks back.\<close>

theorem main_ends:
  assumes "os_ok os" "length scheds = ATTEMPTS" "fair 0 scheds"
    and "s = cmalloc_constructor os (cm_zero bytes0)"
  shows "(\<exists>e. main os scheds s = Some (Inl e) \<and>
      (\<exists>i < ATTEMPTS. \<exists>H C X. attempts_run os 0 (take i scheds) H C X \<and> H 0 = s \<and>
        attempt_faults os (2 * THREADS * i) (H i) (scheds ! i) e)) \<or>
    (\<exists>code control cross H C X. main os scheds s = Some (Inr (code, (control, cross), H ATTEMPTS)) \<and>
      attempts_run os 0 scheds H C X \<and> H 0 = s \<and>
      control = (\<Sum>i < ATTEMPTS. same_oom (C i)) \<and>
      cross = (\<Sum>i < ATTEMPTS. card {t \<in> phase_threads (2 * THREADS * i + THREADS). cross_i (cross_workers (X i) t) < ROUNDS}) \<and>
      code = (if \<exists>i < ATTEMPTS. \<exists>t \<in> phase_threads (2 * THREADS * i + THREADS). cross_i (cross_workers (X i) t) < ROUNDS
              then 1 else 0) \<and>
      same_oom (C 0) = 0 \<and> heap_run os (same_heap (C 0)) {})"
proof -
  obtain q where q: "attempts os 0 scheds s 0 0 = Some q"
    using attempts_return [OF assms(3), of os s 0 0] by blast
  have m: "main os scheds s = Some (map_sum id (\<lambda>((control, cross), s).
             (if cross > 0 then 1 else 0, (control, cross), s)) q)"
    using q assms(2) by (simp add: main_def)
  show ?thesis
  proof (cases q)
    case (Inl e)
    then show ?thesis using m attempts_fault [OF q [unfolded Inl]] assms(2) by auto
  next
    case (Inr z)
    obtain control cross s' where z: "z = ((control, cross), s')" by (metis prod.exhaust)
    obtain H C X where r: "attempts_run os 0 scheds H C X" "H 0 = s" "H ATTEMPTS = s'"
      "control = (\<Sum>i < ATTEMPTS. same_oom (C i))" "cross = (\<Sum>i < ATTEMPTS. cross_oom (X i))"
      using attempts_value [OF q [unfolded Inr z]] unfolding assms(2) by auto
    have cross: "cross = (\<Sum>i < ATTEMPTS. card {t \<in> phase_threads (2 * THREADS * i + THREADS). cross_i (cross_workers (X i) t) < ROUNDS})"
      unfolding r(5) using attempts_counts [OF r(1)] assms(2) by (intro sum.cong) simp_all
    have fin: "finite (phase_threads f)" for f by (simp add: phase_threads_def)
    note pos = sum_card_pos [where S = "\<lambda>i. phase_threads (2 * THREADS * i + THREADS)" and n = ATTEMPTS
        and P = "\<lambda>i t. cross_i (cross_workers (X i) t) < ROUNDS", OF fin]
    have c0: "run_phase_control os 0 s (fst (scheds ! 0)) (C 0)" "control_done 0 (C 0)"
      using r(1) [unfolded attempts_run_def Let_def, rule_format, of 0] r(2) assms(2) by (simp_all add: ATTEMPTS_def)
    have H0: "heap_run os s {}" unfolding assms(4) by (rule heap_run.start)
    have L: "\<forall>(q, m, u) \<in> {}. u \<notin> phase_threads 0" by simp
    note clean = control_clean [OF assms(1) H0 L c0(1) c0(2) [unfolded control_done_def]]
    have "main os scheds s = Some (Inr (if 0 < cross then 1 else 0, (control, cross), H ATTEMPTS))"
      unfolding m Inr z r(3) by simp
    then show ?thesis using r(1,2,4) cross clean unfolding pos [folded cross] by blast
  qed
qed

text \<open>A run of the whole program on the sample system: its threads take turns.\<close>

lemma in_turn_fair: "fair_phase first (in_turn first)"
  unfolding fair_phase_def using in_turn_threads in_turn_count by auto

abbreviation turn_schedules :: "nat \<Rightarrow> nat \<Rightarrow> (nat list \<times> nat list) list" where
  "turn_schedules first m \<equiv> map (\<lambda>k. (in_turn (first + 2 * THREADS * k), in_turn (first + 2 * THREADS * k + THREADS))) [0..<m]"

lemma turn_schedules_Suc:
  "turn_schedules first (Suc m) = (in_turn first, in_turn (first + THREADS)) # turn_schedules (first + 2 * THREADS) m"
proof -
  have e: "first + 2 * THREADS * Suc k = first + 2 * THREADS + 2 * THREADS * k" for k by simp
  have "[0..<Suc m] = 0 # map Suc [0..<m]" by (simp add: upt_conv_Cons map_Suc_upt)
  then have "turn_schedules first (Suc m) = (in_turn first, in_turn (first + THREADS)) #
      map (\<lambda>k. (in_turn (first + 2 * THREADS * Suc k), in_turn (first + 2 * THREADS * Suc k + THREADS))) [0..<m]"
    by (simp add: o_def del: upt_Suc mult_Suc_right)
  then show ?thesis unfolding e .
qed

lemma fair_in_turn: "fair first (turn_schedules first m)"
proof (induction m arbitrary: first)
  case (Suc m)
  show ?case unfolding turn_schedules_Suc fair.simps using Suc.IH in_turn_fair by blast
qed simp

lemma attempts_in_turn:
  "idle os (n + m * (2 * THREADS)) first {} s \<Longrightarrow>
    \<exists>s'. attempts os first (turn_schedules first m) s control cross = Some (Inr ((control, cross), s'))"
proof (induction m arbitrary: first s)
  case (Suc m)
  let ?n = "n + m * (2 * THREADS)"
  have "idle os (?n + THREADS + THREADS) first {} s" using Suc.prems by (simp add: algebra_simps)
  then obtain c where c: "run_phase_control os first s (in_turn first) c" "same_oom c = 0"
    "\<forall>t \<in> phase_threads first. same_at (same_workers c t) = Same_Returned"
    "idle os (?n + THREADS) (first + THREADS) {} (same_heap c)" by (rule control_in_turn)
  obtain x where x: "run_phase_cross os (first + THREADS) (same_heap c) (in_turn (first + THREADS)) x" "cross_oom x = 0"
    "\<forall>t \<in> phase_threads (first + THREADS). cross_at (cross_workers x t) = Cross_Returned"
    "idle os ?n (first + THREADS + THREADS) {} (cross_heap x)" by (rule cross_in_turn [OF c(4)])
  have "joined_control os first s (in_turn first) = Some (Inr (0, same_heap c))"
    unfolding joined_control_iff control_done_def using c by metis
  moreover have "joined_cross os (first + THREADS) (same_heap c) (in_turn (first + THREADS)) = Some (Inr (0, cross_heap x))"
    unfolding joined_cross_iff cross_done_def using x by metis
  moreover have "idle os ?n (first + 2 * THREADS) {} (cross_heap x)" using x(4) by (simp add: mult_2 add.assoc)
  from Suc.IH [OF this] obtain s' where
    "attempts os (first + 2 * THREADS) (turn_schedules (first + 2 * THREADS) m) (cross_heap x) control cross =
      Some (Inr ((control, cross), s'))" by blast
  ultimately show ?case unfolding turn_schedules_Suc by simp
qed simp

lemma sample_main: "\<exists>s'. main sample_os (turn_schedules 0 ATTEMPTS) sample_start = Some (Inr (0, (0, 0), s'))"
proof -
  have "idle sample_os (0 + ATTEMPTS * (2 * THREADS)) 0 {} sample_start"
    by (rule sample_idle) (simp add: ATTEMPTS_def THREADS_def)
  from attempts_in_turn [OF this, of 0 0] show ?thesis by (auto simp: main_def)
qed

theorem main_ends_witness:
  "\<exists>H C X. main sample_os (turn_schedules 0 ATTEMPTS) sample_start = Some (Inr (0, (0, 0), H ATTEMPTS)) \<and>
     attempts_run sample_os 0 (turn_schedules 0 ATTEMPTS) H C X \<and> H 0 = sample_start \<and>
     (\<forall>i < ATTEMPTS. \<forall>t \<in> phase_threads (2 * THREADS * i + THREADS). ROUNDS \<le> cross_i (cross_workers (X i) t)) \<and>
     heap_run sample_os (same_heap (C 0)) {}"
proof -
  have len: "length (turn_schedules 0 ATTEMPTS) = ATTEMPTS" by simp
  obtain s' where m: "main sample_os (turn_schedules 0 ATTEMPTS) sample_start = Some (Inr (0, (0, 0), s'))"
    using sample_main by blast
  from main_ends [OF sample_os_ok len fair_in_turn refl, of "\<lambda>_. 0", unfolded m]
  obtain H C X where r: "s' = H ATTEMPTS" "attempts_run sample_os 0 (turn_schedules 0 ATTEMPTS) H C X" "H 0 = sample_start"
    "\<not> (\<exists>i < ATTEMPTS. \<exists>t \<in> phase_threads (2 * THREADS * i + THREADS). cross_i (cross_workers (X i) t) < ROUNDS)"
    "heap_run sample_os (same_heap (C 0)) {}"
    by (auto split: if_splits)
  with m show ?thesis by (meson not_le)
qed

end
