(* ===== verification/XThreadNull.thy ===== *)
theory XThreadNull
  imports XThreadRace
begin

text \<open>
  The spurious \<open>NULL\<close> that \<open>bench/xthread_repro.c\<close> looks for, as a sequence of calls: after one free
  by another thread, that thread takes the blocks of the span one by one, and the next request of
  the first thread, which still has the exhausted span in its bin, is answered with \<open>NULL\<close>.
\<close>

section \<open>A thread that takes all blocks of its span\<close>

fun malloc_times :: "platform \<Rightarrow> nat \<Rightarrow> u64 \<Rightarrow> nat \<Rightarrow> cm_state \<Rightarrow> fault + ptr list \<times> cm_state" where
  "malloc_times os t sz 0 s = Inr ([], s)"
| "malloc_times os t sz (Suc n) s =
     bindr (cmalloc os t sz s) (\<lambda>(p, s).
     bindr (malloc_times os t sz n s) (\<lambda>(ps, s). Inr (p # ps, s)))"

text \<open>A call does not touch the bins of other threads.\<close>

lemma bin_step_others: "bin_push t c x s = Inr s' \<Longrightarrow> u \<noteq> t \<Longrightarrow> thread_local_bin s' u = thread_local_bin s u"
  "bin_remove t c x s = Inr s' \<Longrightarrow> u \<noteq> t \<Longrightarrow> thread_local_bin s' u = thread_local_bin s u"
  by (auto simp: bin_push_def bin_remove_def set_local_bin_def set_span_def Let_def split: if_splits)

lemma take_block_bins: "take_block x s = Inr (p, s') \<Longrightarrow> thread_local_bin s' = thread_local_bin s"
  by (auto simp: take_block_def set_span_def elim!: bindr_InrE split: if_splits)

lemma locked_initialize_bins:
  "locked_initialize_span os t c sz s = Inr (x, s') \<Longrightarrow> thread_local_bin s' = thread_local_bin s"
  by (auto simp: locked_initialize_span_def pthread_mutex_lock_def pthread_mutex_unlock_def
      elim!: bindr_InrE split: if_splits)

lemma cmalloc_other_bins:
  assumes "cmalloc os t sz s = Inr (p, s')" "u \<noteq> t"
  shows "thread_local_bin s' u = thread_local_bin s u"
  using assms
  by (auto simp: cmalloc_def Let_def dest!: take_block_bins locked_initialize_bins bin_step_others
      elim!: bindr_InrE split: if_splits)

lemma malloc_times_other_bins:
  "malloc_times os t sz n s = Inr (ps, s') \<Longrightarrow> u \<noteq> t \<Longrightarrow> thread_local_bin s' u = thread_local_bin s u"
  by (induction n arbitrary: s ps) (fastforce elim!: bindr_InrE dest: cmalloc_other_bins)+

lemma malloc_times_length: "malloc_times os t sz n s = Inr (ps, s') \<Longrightarrow> length ps = n"
  by (induction n arbitrary: s ps) (fastforce elim!: bindr_InrE)+

lemma drain_span:
  assumes "get_size_class_index (rt (sp s)) sz = int i" "i < SIZE_CLASS_COUNT" "local_bin s t i [x]"
    and "span_ok (span_at s x)" "card (free_set (span_at s x)) = Suc n"
  shows "\<exists>ps s'. malloc_times os t sz (Suc n) s = Inr (ps, s') \<and>
    set ps = block_addr (span_at s x) ` free_set (span_at s x) \<and>
    span_ok (span_at s' x) \<and> free_set (span_at s' x) = {} \<and> rt (sp s') = rt (sp s)"
  using assms
proof (induction n arbitrary: s)
  case (0 s)
  then have ne: "free_set (span_at s x) \<noteq> {}" by auto
  obtain k where k: "free_set (span_at s x) = {k}" using 0 by (auto simp: card_1_singleton_iff)
  show ?case
    by (rule cmalloc_bin_path [OF 0(1-4) ne, of os]) (simp add: k)
next
  case (Suc n s)
  let ?F = "free_set (span_at s x)"
  have fin: "finite ?F" and ne: "?F \<noteq> {}" using Suc.prems(5) by (auto intro: card_ge_0_finite)
  have mem: "Min ?F \<in> ?F" by (rule Min_in [OF fin ne])
  show ?case
  proof (rule cmalloc_bin_path [OF Suc.prems(1-4) ne, of os])
    fix v assume v: "cmalloc os t sz s = Inr (block_addr (span_at s x) (Min ?F), v)"
      "local_bin v t i (if card ?F = 1 then [] else [x])" "span_ok (span_at v x)"
      "free_set (span_at v x) = ?F - {Min ?F}" "rt (sp v) = rt (sp s)"
      "\<exists>d. same_descr (span_at s x) d \<and> unlinked (span_at v x) = unlinked d"
    obtain d where d: "same_descr (span_at s x) d" "unlinked (span_at v x) = unlinked d" using v(6) by blast
    have ba: "block_addr (span_at v x) = block_addr (span_at s x)"
      using unlinked_blocks [OF d(2)] same_descr_addr [OF d(1)] by simp
    have "card (free_set (span_at v x)) = Suc n" using Suc.prems(5) mem fin by (simp add: v(4))
    moreover have "local_bin v t i [x]" using v(2) Suc.prems(5) by simp
    moreover have "get_size_class_index (rt (sp v)) sz = int i" using Suc.prems(1) v(5) by simp
    ultimately obtain ps w where w: "malloc_times os t sz (Suc n) v = Inr (ps, w)"
      "set ps = block_addr (span_at v x) ` free_set (span_at v x)"
      "span_ok (span_at w x)" "free_set (span_at w x) = {}" "rt (sp w) = rt (sp v)"
      using Suc.IH [of v] Suc.prems(2) v(3) by blast
    have "malloc_times os t sz (Suc (Suc n)) s = Inr (block_addr (span_at s x) (Min ?F) # ps, w)"
      using v(1) w(1) by simp
    moreover have "set (block_addr (span_at s x) (Min ?F) # ps) = block_addr (span_at s x) ` ?F"
      using w(2) mem by (auto simp: ba v(4))
    ultimately show ?case using w(3-5) v(5) by metis
  qed
qed

section \<open>\<open>NULL\<close> from a heap of one span\<close>

text \<open>A bin whose first span has no free block left answers with \<open>NULL\<close>.\<close>

lemma exhausted_bin:
  assumes "get_size_class_index (rt (sp s)) sz = int i" "i < SIZE_CLASS_COUNT"
    and "thread_local_bin s t i = x" "valid_ptr x" "span_ok (span_at s x)" "free_set (span_at s x) = {}"
  shows "\<exists>s'. cmalloc os t sz s = Inr (NULL, s')"
proof -
  have b: "blocks_ok (span_at s x)" using assms(5) by (simp add: span_ok_def)
  then have "unat (free_count (span_at s x)) = 0" using assms(6) by (simp add: blocks_ok_def)
  then have f: "free_count (span_at s x) \<noteq> 1" by auto
  have "take_block x s = Inr (NULL, set_span s x (\<lambda>_. span_at s x))"
    using allocate_block_empty [OF b assms(6)] assms(4) by (simp add: take_block_def)
  moreover have "x \<noteq> NULL" using assms(4) by auto
  ultimately show ?thesis
    using f assms(1-3) class_index_nat [OF assms(2)] by (simp add: cmalloc_def Let_def)
qed

text \<open>C8: one free by another thread is enough for a spurious \<open>NULL\<close>. Thread \<open>t\<close> allocates the first
  block of the program and thread \<open>u\<close> frees it; \<open>u\<close> then gets as many blocks as one span of the
  class has, all different and none \<open>NULL\<close>; and the next request of \<open>t\<close> returns \<open>NULL\<close>.\<close>

theorem cross_free_spurious_null:
  assumes "os_ok os" "sz \<le> MAX_SIZE_CLASS" "u \<noteq> t"
    and "cmalloc os t sz (cmalloc_constructor os (cm_zero bytes0)) = Inr (p, s1)"
  shows "\<exists>s2 ps s3 s4. cfree os u p s1 = Inr s2 \<and>
    malloc_times os u sz (unat (SIZE_CLASS_BLOCK_COUNT ! first_fit sz)) s2 = Inr (ps, s3) \<and>
    distinct ps \<and> NULL \<notin> set ps \<and> p \<in> set ps \<and> cmalloc os t sz s3 = Inr (NULL, s4)"
proof -
  obtain x i s2 where F: "i = first_fit sz" "i < SIZE_CLASS_COUNT" "cfree os u p s1 = Inr s2" "p \<noteq> NULL"
    "valid_ptr x" "runtime_ok (rt (sp s2))" "get_size_class_index (rt (sp s2)) sz = int i" "lock s2 = None"
    "thread_local_bin s2 t i = x" "thread_local_bin s2 u i = NULL" "pooled s2 x"
    "span_ok (span_at s2 x)" "free_set (span_at s2 x) = {..<unat (block_count (span_at s2 x))}"
    "class_area (rt (sp s2)) (span_at s2 x) i" "span_base (span_at s2 x) = p"
    "unat p + unat (SIZE_CLASS_SPAN_SIZE ! i) < 2 ^ 64"
    by (rule cross_freed [OF assms])
  let ?n = "unat (SIZE_CLASS_BLOCK_COUNT ! i)"
  have end_ok: "unat (span_base (span_at s2 x)) + unat (SIZE_CLASS_SPAN_SIZE ! i) < 2 ^ 64" using F(15,16) by simp
  obtain v where v: "cmalloc os u sz s2 = cmalloc os u sz v" "local_bin v u i [x]" "span_ok (span_at v x)"
    "free_set (span_at v x) = {..<?n}" "rt (sp v) = rt (sp s2)" "span_base (span_at v x) = span_base (span_at s2 x)"
    "block_count (span_at v x) = SIZE_CLASS_BLOCK_COUNT ! i"
    "\<forall>w. w \<noteq> u \<longrightarrow> thread_local_bin v w = thread_local_bin s2 w"
    by (rule pool_enters [OF F(6,7,2,10,8,11,5,14) end_ok])
  have "32 \<le> ?n" using class_row [OF F(2)] by (simp add: class_row_ok_def)
  then obtain m where m: "?n = Suc m" by (cases ?n) simp_all
  have cv: "get_size_class_index (rt (sp v)) sz = int i" using F(7) v(5) by simp
  have "card (free_set (span_at v x)) = Suc m" by (simp add: v(4) m)
  from drain_span [OF cv F(2) v(2,3) this, of os]
  obtain ps s3 where s3: "malloc_times os u sz ?n v = Inr (ps, s3)"
    "set ps = block_addr (span_at v x) ` {..<?n}" "span_ok (span_at s3 x)" "free_set (span_at s3 x) = {}"
    "rt (sp s3) = rt (sp v)"
    unfolding m [symmetric] v(4) by blast
  have run: "malloc_times os u sz ?n s2 = Inr (ps, s3)" using s3(1) v(1) unfolding m by simp
  have inj: "inj_on (block_addr (span_at v x)) {..<?n}"
    by (rule inj_onI) (use block_addr_inj [OF v(3)] v(7) in simp)
  have dist: "distinct ps"
    by (rule card_distinct) (simp add: s3(2) card_image [OF inj] malloc_times_length [OF run])
  have base: "block_addr (span_at v x) 0 = p" using v(6) F(15) by (simp add: block_addr_def)
  have "block_addr (span_at v x) k \<noteq> NULL" if "k < ?n" for k
  proof -
    have "unat p \<le> unat (block_addr (span_at v x) k)"
      using unat_block_addr [of "span_at v x" k] v(3,6,7) F(15) that by (simp add: span_ok_def)
    then show ?thesis using F(4) by (auto simp: unat_eq_zero)
  qed
  then have "NULL \<notin> set ps" unfolding s3(2) by force
  moreover have "p \<in> set ps" unfolding s3(2) using base m by force
  moreover have "thread_local_bin s3 t i = x"
    using malloc_times_other_bins [OF s3(1), of t] v(8) F(9) assms(3) by simp
  then obtain s4 where "cmalloc os t sz s3 = Inr (NULL, s4)"
    using exhausted_bin [of s3 sz i t x os] cv F(2,5) s3(3-5) by auto
  ultimately show ?thesis using F(3) run dist unfolding F(1) [symmetric] by blast
qed

theorem cross_free_spurious_null_witness:
  "\<exists>p s1 s2 ps s3 s4. cmalloc sample_os 0 64 sample_start = Inr (p, s1) \<and> cfree sample_os 1 p s1 = Inr s2 \<and>
     malloc_times sample_os 1 64 1024 s2 = Inr (ps, s3) \<and> cmalloc sample_os 0 64 s3 = Inr (NULL, s4)"
proof -
  have sz: "(64 :: u64) \<le> MAX_SIZE_CLASS" by (simp add: MAX_SIZE_CLASS_def)
  obtain p s1 where m: "cmalloc sample_os 0 64 sample_start = Inr (p, s1)"
    by (rule class_malloc_returns [OF heap_start [OF sample_os_ok] sz sample_start_supplied])
  have "first_fit 64 = 3" by (simp add: first_fit_def SIZE_CLASSES_def)
  then have "unat (SIZE_CLASS_BLOCK_COUNT ! first_fit 64) = 1024" by (simp add: SIZE_CLASS_BLOCK_COUNT_def)
  then show ?thesis
    using cross_free_spurious_null [OF sample_os_ok sz _ m, of 1] m by auto
qed

end
