(* ===== verification/Spec2Isabelle.thy ===== *)
theory Spec2Isabelle
  imports SpanTheorems MetaTheorems CmallocTheorems EntryTheorems Reachable LargeSpans HeapTheorems
    LargeTheorems FastPaths ShimTheorems ShimNewTheorems XThreadMain XThreadNull
begin

text \<open>
  A verification development for FastMemoryAllocator (\<open>cmalloc\<close>), a C allocator with size
  classes, spans with block bitmaps, a page-indexed trie and per-thread caches.

  \<^bold>\<open>The program.\<close> \<open>src/cmalloc.c\<close> serves a request of a size class from the first span of the
  calling thread's bin, and takes a new span from \<open>src/span.c\<close>, under a global lock, when the
  bin is empty or the request is larger than 32 KiB. A span is a range of pages cut from a
  32 MiB chunk (or mapped on its own when it has 8193 pages or more); spans not in use wait in
  bins by page count. \<open>src/span.h\<close> hands out the blocks of a span through a two-level
  bitmap. \<open>src/range_map.c\<close> maps page numbers to span descriptors, so that \<open>cfree\<close> finds the
  span of a pointer. Descriptors and trie nodes come from \<open>src/metadata.c\<close>, a bump allocator
  over 4 MiB chunks with free lists per object size; the free lists are themselves kept in
  a trie of \<open>range_map.c\<close>, so the two files call each other.

  \<^bold>\<open>State.\<close> The C globals are records that every operation takes and returns:
  \<^item> \<open>runtime\<close> (\<open>Common\<close>): page size, page shift and class table;
  \<^item> \<open>meta_state\<close> (\<open>MetaHeap\<close>): \<open>meta_arena\<close>, \<open>free_list_map\<close>, one heap per struct type that
    lives in metadata memory, and the operating system's list of live mappings;
  \<^item> \<open>span_state\<close> (\<open>Spans\<close>): \<open>page_map\<close>, \<open>data_arena\<close>, the heaps of \<open>span_t\<close> and \<open>data_chunk_t\<close>,
    the free-span bins and their bitmap;
  \<^item> \<open>cm_state\<close> (\<open>Cmalloc\<close>): the bins of every thread, the lock and the bytes of user memory.

  Pointers, sizes and counters are 64-bit words and wrap as they do in C. A failed assertion,
  a dereference of \<open>NULL\<close> or \<open>MAP_FAILED\<close>, an index out of range, a division by zero,
  \<open>__builtin_ctzll(0)\<close> and a lock taken twice are values of \<open>fault\<close>; an operation returns
  \<open>fault + result\<close>. The system is the parameter \<open>platform\<close>: the answer of \<open>sysconf\<close>, and of
  \<open>mmap\<close> for every list of live mappings. What is assumed of it is named where it is used:
  \<open>page_size_ok\<close> (a power of two from 4 KiB to 64 KiB) and \<open>os_ok\<close> (a mapping granted by
  \<open>mmap\<close> is page-aligned, below \<open>2 ^ 47\<close>, not at 0 and disjoint from the live ones).
  \<open>reserve os maps n\<close> says that \<open>mmap\<close> grants the next \<open>n\<close> metadata chunks.

  \<^bold>\<open>The specification.\<close> \<open>HeapRuns\<close> states what the allocator owes its clients without spans,
  bitmaps or tries: a heap is a set of blocks \<open>(address, size, owner)\<close>, a \<open>call\<close> is an operation with
  its result, \<open>permitted\<close> is what a client must respect (free what you hold, from the thread that
  allocated it), \<open>promised\<close> what it gets, and \<open>heap_run\<close> is every state that permitted calls of
  any threads reach. \<open>HeapTheorems\<close> shows that \<open>cmalloc\<close>, \<open>cfree\<close>, \<open>ccalloc\<close> and \<open>crealloc\<close> implement it.

  \<^bold>\<open>The theories.\<close>
  \<^item> \<open>Prelude\<close>: words, faults and results, \<open>ctz\<close>, single-bit updates, address ranges, lists
    threaded through a heap.
  \<^item> \<open>Common\<close> (\<open>common.h\<close>, start-up code of \<open>cmalloc.c\<close>), \<open>SpanBlocks\<close> (\<open>span.h\<close>), \<open>MetaHeap\<close>
    and \<open>Metadata\<close> (\<open>metadata.c\<close>, \<open>range_map.c\<close>), \<open>SpanBins\<close> and \<open>Spans\<close> (\<open>span.c\<close>), \<open>Cmalloc\<close>
    (\<open>cmalloc.c\<close>), \<open>Shim\<close> and \<open>Backends\<close> (\<open>bench/shim/alloc_shim.c\<close>), \<open>ShimNew\<close>
    (\<open>bench/shim/alloc_shim_new.cpp\<close>), \<open>XThread\<close> and \<open>XThreadMain\<close> (\<open>bench/xthread_repro.c\<close>): the
    definitions, in the order of the code, with their basic lemmas.
  \<^item> \<open>MetaArena\<close>, \<open>MetaInv\<close>, \<open>MetaAlloc\<close>, \<open>MetaPath\<close>, \<open>MetaMap\<close>, \<open>MetaFree\<close>, \<open>MetaUnmap\<close>,
    \<open>MetaClient\<close>, \<open>MetaLive\<close>: the invariant of the metadata layer (blocks disjoint and inside
    live mappings, tries well-formed, node counts exact, free lists threaded through free
    blocks) and its preservation by every operation, including the recursion through
    \<open>free_list_map\<close>; \<open>MetaLive\<close> shows that the operations return when memory is granted.
  \<^item> \<open>MetaApi\<close>: the interface of a page index (locales \<open>partial_index\<close>, \<open>live_index\<close>, with the
    laws of lookup after insert and delete and the range operations proved from them), and its
    interpretation by \<open>cmalloc_map\<close>, \<open>cmalloc_unmap\<close> and \<open>cmalloc_get\<close>.
  \<^item> \<open>SpanPool\<close>: the interface of a pool of blocks (locale \<open>block_pool\<close>) and its interpretation
    by the span bitmap. \<open>LocalBins\<close>, \<open>ThreadCache\<close>: the doubly linked thread bins as lists (locale
    \<open>span_list\<close>, interpreted by \<open>bin_push\<close> and \<open>bin_remove\<close>); \<open>CmallocPaths\<close>: the paths of \<open>cmalloc\<close>
    and \<open>cfree\<close>; \<open>LargeSpans\<close>: allocations with a mapping of their own; \<open>Reachable\<close>: the states
    that calls by any threads reach, whether permitted or not.
  \<^item> \<open>SpanInv\<close>, \<open>SpanIndex\<close>, \<open>SpanLayer\<close>, \<open>SpanFresh\<close>, \<open>SpanSplit\<close>, \<open>SpanChunk\<close>, \<open>SpanAlloc\<close>,
    \<open>SpanRelease\<close>: the invariant \<open>span_inv\<close> of the span layer (spans disjoint, inside mapped chunks,
    each page mapped to its span, bins and bitmap in step) and its preservation by each path of
    \<open>alloc_span\<close> and by \<open>cmalloc_cache_span\<close>. \<open>SpanLive\<close>: span creation returns when the system grants
    what \<open>supplied\<close> asks; \<open>supplied_with os Q\<close> asks besides that \<open>Q\<close> hold of the mappings afterwards.
  \<^item> \<open>HeapInv\<close>, \<open>HeapSteps\<close>, \<open>HeapAlloc\<close>, \<open>HeapMalloc\<close>, \<open>HeapFree\<close>: the invariant \<open>heap_inv\<close> of the
    whole allocator, with the blocks in use as a function of the state (\<open>owned\<close>), and the laws of
    \<open>cmalloc\<close> and \<open>cfree\<close> on it; \<open>HeapRuns\<close>: the specification and the simulation; \<open>HeapLive\<close>,
    \<open>HeapCalls\<close>: calls that return; \<open>HeapLarge\<close>: requests of \<open>MAX_BINNED_PAGES\<close> pages or more, for
    any answer of \<open>mmap\<close>; \<open>LargeFree\<close>: \<open>cfree\<close> of their blocks; \<open>HeapShim\<close>: over-aligned allocation.
  \<^item> \<open>FastPaths\<close>: the calls that take no lock touch only the caller's bins and spans
    (\<open>beside\<close> replaces everything else), so that such calls of two threads commute.
  \<^item> \<open>Backends\<close> also holds the interface of a backend that aligns (locale \<open>aligning_backend\<close>):
    \<open>posix_memalign\<close> is proved correct on it once, and \<open>ShimTheorems\<close> interprets it by the cmalloc
    backend. The libraries behind the other backends are records of functions; that they align as
    their manuals say is the hypothesis \<open>mi_aligned\<close>, \<open>tc_aligned\<close> or \<open>libc_aligned\<close>.
  \<^item> \<open>XThread\<close>: the two workers of the reproduction program as step functions of a thread, run under
    an explicit schedule, one allocator call or critical section a step; the locale \<open>phase\<close> (each
    thread has a bound on its remaining steps that no other thread raises) is interpreted by both.
    \<open>XThreadTheorems\<close>: the control is a permitted client under every schedule. \<open>XThreadRace\<close>,
    \<open>XThreadNull\<close>: what one free by another thread leads to, a block handed out twice and a spurious
    \<open>NULL\<close>. \<open>XThreadSerial\<close>: an invariant of one size class (\<open>serial\<close>) that frees across threads keep
    when threads run one after the other, and the laws of \<open>cmalloc\<close> and \<open>cfree\<close> on it. \<open>XThreadTurn\<close>:
    both phases complete when their threads take turns (\<open>in_turn\<close>), and the control gives everything
    back whenever its threads have returned. \<open>XThreadMain\<close>: \<open>main\<close> as a chain of joined phases, its
    termination, its two sums and its exit code; with the threads in turn it returns 0 on the sample
    system, after all \<open>5 * 2 * 8\<close> threads have done all their rounds.
  \<^item> \<open>MetaSample\<close>, and the sample runs of \<open>HeapCalls\<close>: a concrete system (and in \<open>LargeTheorems\<close> one
    that refuses mappings above 32 MiB), for the witnesses.
  \<^item> \<open>SpanTheorems\<close>, \<open>MetaTheorems\<close>, \<open>CmallocTheorems\<close>, \<open>EntryTheorems\<close>, \<open>HeapTheorems\<close>,
    \<open>LargeTheorems\<close>, \<open>ShimTheorems\<close>, \<open>ShimNewTheorems\<close>: the properties, each with a witness that
    applies it at a concrete input.

  \<^bold>\<open>Termination and bounds.\<close> No definition uses fuel: the loops end by a measure (the bitmap
  scans, the class table, the page ranges), and the mutual recursion of metadata allocation and
  trie insertion ends because the allocator inserts only where the path of its key exists. Two
  loops of the code need not end and are partial functions, \<open>None\<close> where they do not: \<open>strlen\<close> and
  the retry loop \<open>new_loop\<close> of \<open>operator new\<close>, whose handlers are a parameter. A schedule of threads
  that leaves one unfinished is a \<open>pthread_join\<close> that does not return, again \<open>None\<close>.
  \<open>meta_need = 16400\<close> metadata chunks cover the entries of one 32 MiB data chunk: two per page of at
  most 8192 pages, and the descriptors; \<open>release_supplied\<close> asks for six for each page of a large span that
  is unmapped, and three for its descriptor. \<open>grants os n\<close> asks \<open>supplied\<close> of \<open>n\<close> new spans one after the
  other; a run of \<open>main\<close> with the threads in turn needs 80, one for each thread.

  \<^bold>\<open>Not modelled.\<close> An operation is one step of its thread: instruction-level interleaving inside
  an operation is outside the model (the global lock is kept as state, and every path that
  takes it releases it; for the calls that take no lock, \<open>FastPaths\<close> shows what makes the order of
  two threads immaterial). The branches of \<open>common.h\<close> for Windows (the rest of the code uses
  \<open>mmap\<close> and \<open>pthread\<close>), the destructors, which only destroy the mutex, what the reproduction program
  prints, the tests and the benchmark drivers are left out. Metadata structs are kept in one heap
  per type, so that a block recycled for another type starts from what that type's heap holds there
  and not from the bytes of the former struct; the code writes the fields it reads after recycling.
\<close>

end
